(* ===== verification/Prelude.thy ===== *)
theory Prelude
  imports Main "HOL-Library.Word"
begin

unbundle bit_operations_syntax

text \<open>
  Shared material of the development: the C++ values every component handles (bytes,
  strings, fixed width integers, exceptions), the few functions of the C++ standard library
  the sources call on them (\<open>std::search\<close>, \<open>std::getline\<close>, \<open>std::to_string\<close>,
  \<open>std::stoi\<close> and its kin, big-endian loads and stores through \<open>htonl\<close>/\<open>ntohl\<close>),
  and the generic list lemmas the component theories share.  A C++ \<open>char\<close> is a HOL
  \<open>char\<close>, a \<open>uint8_t\<close> is an \<open>8 word\<close>, and the two casts between them are
  \<open>u8\<close> and \<open>chr8\<close>.
\<close>

section \<open>Types\<close>

type_synonym bytes = "char list"
type_synonym uint8 = "8 word"
type_synonym uint16 = "16 word"
type_synonym uint32 = "32 word"
type_synonym uint64 = "64 word"

text \<open>The C++ exceptions the sources let escape or catch.\<close>

datatype exn =
    Out_Of_Range
  | Invalid_Argument
  | Runtime_Error string
  | Length_Error
  | Yaml_Exception string

named_theorems wire_simps \<open>loads and stores of fixed width integers\<close>
named_theorems buf_simps \<open>effect of the buffer operations on the readable bytes\<close>

section \<open>Bytes and fixed width integers\<close>

definition u8 :: "char \<Rightarrow> uint8" where
  "u8 c = of_nat (of_char c)"

definition chr8 :: "uint8 \<Rightarrow> char" where
  "chr8 w = char_of (unat w)"

lemma unat_lt_256: "unat (w :: 8 word) < 256"
  using unsigned_less[of w, where 'a = nat] by simp

lemma u8_chr8 [simp]: "u8 (chr8 w) = w"
proof -
  have "of_nat (of_char (char_of (unat w))) = (of_nat (unat w mod 256) :: 8 word)"
    by simp
  also have "\<dots> = w" using unat_lt_256[of w] by simp
  finally show ?thesis by (simp add: u8_def chr8_def)
qed

lemma unat_u8: "unat (u8 c) = of_char c"
  by (simp add: u8_def unat_of_nat take_bit_eq_mod)

lemma chr8_u8 [simp]: "chr8 (u8 c) = c"
  by (simp add: chr8_def unat_u8)

lemma u8_inject [simp]: "u8 a = u8 b \<longleftrightarrow> a = b"
  by (metis chr8_u8)

lemma chr8_inject [simp]: "chr8 a = chr8 b \<longleftrightarrow> a = b"
  by (metis u8_chr8)

text \<open>A signed \<open>char\<close> compared with an \<open>int\<close>: the value of the byte as two's complement.\<close>

definition schar :: "char \<Rightarrow> int" where
  "schar c = sint (u8 c)"

text \<open>
  \<open>uint32_t x = htonl(v); append(&x, 4)\<close> stores \<open>v\<close> big-endian on every host, and
  \<open>memcpy(&x, p, 4); x = ntohl(x)\<close> loads it.
\<close>

definition htonl_bytes :: "uint32 \<Rightarrow> bytes" where
  "htonl_bytes w =
     [chr8 (ucast (drop_bit 24 w)), chr8 (ucast (drop_bit 16 w)),
      chr8 (ucast (drop_bit 8 w)), chr8 (ucast w)]"

definition ntohl_at :: "bytes \<Rightarrow> uint32" where
  "ntohl_at p =
     push_bit 24 (ucast (u8 (p ! 0))) OR push_bit 16 (ucast (u8 (p ! 1))) OR
     push_bit 8 (ucast (u8 (p ! 2))) OR ucast (u8 (p ! 3))"

definition ntohs_at :: "bytes \<Rightarrow> uint16" where
  "ntohs_at p = push_bit 8 (ucast (u8 (p ! 0))) OR ucast (u8 (p ! 1))"

lemma length_htonl_bytes [simp, wire_simps]: "length (htonl_bytes w) = 4"
  by (simp add: htonl_bytes_def)

lemma ntohl_at_htonl_bytes [simp, wire_simps]: "ntohl_at (htonl_bytes w @ rest) = w"
proof (rule bit_word_eqI)
  fix n assume "n < LENGTH(32)"
  then consider "n < 8" | "8 \<le> n" "n < 16" | "16 \<le> n" "n < 24" | "24 \<le> n" "n < 32"
    by fastforce
  then show "bit (ntohl_at (htonl_bytes w @ rest)) n \<longleftrightarrow> bit w n"
    by cases (auto simp: ntohl_at_def htonl_bytes_def bit_simps)
qed

lemma ntohl_at_htonl_bytes_Nil [simp, wire_simps]: "ntohl_at (htonl_bytes w) = w"
  using ntohl_at_htonl_bytes[of w "[]"] by simp

lemma ntohl_at_append [simp, wire_simps]: "4 \<le> length p \<Longrightarrow> ntohl_at (p @ q) = ntohl_at p"
  by (cases p) (auto simp: ntohl_at_def nth_append)

lemma unat_of_nat32 [wire_simps]: "n < 2 ^ 32 \<Longrightarrow> unat (of_nat n :: uint32) = n"
  by (simp add: unat_of_nat take_bit_eq_mod)

lemma unat_of_nat16 [wire_simps]: "n < 2 ^ 16 \<Longrightarrow> unat (of_nat n :: uint16) = n"
  by (simp add: unat_of_nat take_bit_eq_mod)

lemma unat_of_nat64 [wire_simps]: "n < 2 ^ 64 \<Longrightarrow> unat (of_nat n :: uint64) = n"
  by (simp add: unat_of_nat take_bit_eq_mod)

lemma take_bit_small: "unat (w :: 'a::len word) < 2 ^ n \<Longrightarrow> take_bit n w = w"
  by (metis unsigned_take_bit_eq take_bit_nat_eq_self_iff word_unat_eq_iff)

lemma bit_below: "unat (w :: 'a::len word) < 2 ^ k \<Longrightarrow> bit w n \<Longrightarrow> n < k"
  using take_bit_small[of w k] by (metis bit_take_bit_iff)

section \<open>Searching and splitting strings\<close>

abbreviation CR :: char where "CR \<equiv> CHR 0x0D"
abbreviation LF :: char where "LF \<equiv> CHR 0x0A"

definition crlf :: string where
  "crlf = [CR, LF]"

lemma length_crlf [simp]: "length crlf = 2"
  by (simp add: crlf_def)

text \<open>\<open>std::search\<close>, \<open>strstr\<close> and \<open>std::string::find\<close>: the first occurrence of a pattern.\<close>

fun search :: "'a list \<Rightarrow> 'a list \<Rightarrow> nat option" where
  "search pat [] = (if pat = [] then Some 0 else None)"
| "search pat (x # xs) =
     (if take (length pat) (x # xs) = pat then Some 0
      else map_option Suc (search pat xs))"

definition find_char :: "char \<Rightarrow> string \<Rightarrow> nat option" where
  "find_char c s = search [c] s"

lemma search_SomeD:
  "search pat xs = Some i \<Longrightarrow>
     i + length pat \<le> length xs \<and> take (length pat) (drop i xs) = pat \<and>
     (\<forall>j < i. take (length pat) (drop j xs) \<noteq> pat)"
proof (induction xs arbitrary: i)
  case Nil
  then show ?case by (auto split: if_splits)
next
  case (Cons x xs)
  show ?case
  proof (cases "take (length pat) (x # xs) = pat")
    case True
    then have "length pat \<le> length (x # xs)" by (metis length_take min.cobounded1)
    with True Cons.prems show ?thesis by simp
  next
    case False
    with Cons.prems obtain k where k: "search pat xs = Some k" "i = Suc k" by auto
    have "take (length pat) (drop j (x # xs)) \<noteq> pat" if "j < i" for j
      using Cons.IH[OF k(1)] False k(2) that by (cases j) auto
    with Cons.IH[OF k(1)] k(2) show ?thesis by simp
  qed
qed

lemma search_NoneD:
  "search pat xs = None \<Longrightarrow> take (length pat) (drop j xs) \<noteq> pat"
proof (induction xs arbitrary: j)
  case Nil
  then show ?case by (auto split: if_splits)
next
  case (Cons x xs)
  then have ne: "take (length pat) (x # xs) \<noteq> pat" and rec: "search pat xs = None"
    by (auto split: if_splits)
  show ?case using ne Cons.IH[OF rec] by (cases j) auto
qed

lemma search_append: "search pat xs = Some i \<Longrightarrow> search pat (xs @ ys) = Some i"
proof (induction xs arbitrary: i)
  case Nil
  then show ?case by (cases ys) (auto split: if_splits)
next
  case (Cons x xs)
  show ?case
  proof (cases "take (length pat) (x # xs) = pat")
    case True
    then have "length pat \<le> length (x # xs)" by (metis length_take min.cobounded1)
    with True have "take (length pat) (x # xs @ ys) = pat" by (metis append_Cons take_append diff_is_0_eq take_0 append_Nil2)
    with True Cons.prems show ?thesis by simp
  next
    case False
    with Cons.prems obtain k where k: "search pat xs = Some k" "i = Suc k" by auto
    from search_SomeD[OF k(1)] have "length pat \<le> length (x # xs)" by simp
    with False have "take (length pat) (x # xs @ ys) \<noteq> pat" by (metis append_Cons take_append diff_is_0_eq take_0 append_Nil2)
    with Cons.IH[OF k(1)] k(2) show ?thesis by simp
  qed
qed

lemma search_hit:
  assumes "hd pat \<notin> set line" and "pat \<noteq> []"
  shows "search pat (line @ pat @ rest) = Some (length line)"
  using assms
proof (induction line)
  case Nil
  then show ?case by (cases pat) auto
next
  case (Cons c line)
  then have "take (length pat) (c # line @ pat @ rest) \<noteq> pat"
    by (cases pat) auto
  with Cons show ?case by simp
qed

lemma search_skip:
  assumes "hd pat \<notin> set line" and "pat \<noteq> []"
  shows "search pat (line @ xs) = map_option ((+) (length line)) (search pat xs)"
  using assms
proof (induction line)
  case Nil
  then show ?case by (cases "search pat xs") simp_all
next
  case (Cons c line)
  then have "take (length pat) (c # line @ xs) \<noteq> pat" by (cases pat) auto
  with Cons show ?case by (cases "search pat xs") simp_all
qed

lemma search_miss: "hd pat \<notin> set xs \<Longrightarrow> pat \<noteq> [] \<Longrightarrow> search pat xs = None"
proof (induction xs)
  case Nil
  then show ?case by simp
next
  case (Cons c xs)
  then have "take (length pat) (c # xs) \<noteq> pat" by (cases pat) auto
  with Cons show ?case by simp
qed

text \<open>\<open>strstr\<close> stops at the first NUL.\<close>

definition strstr :: "bytes \<Rightarrow> string \<Rightarrow> nat option" where
  "strstr p pat = search pat (takeWhile (\<lambda>c. c \<noteq> CHR 0x00) p)"

lemma strstr_hit:
  assumes "CHR 0x00 \<notin> set a" and "CHR 0x00 \<notin> set pat" and "search pat (a @ pat @ takeWhile (\<lambda>c. c \<noteq> CHR 0x00) r) = Some i"
  shows "strstr (a @ pat @ r) pat = Some i"
proof -
  have "\<forall>c \<in> set a. c \<noteq> CHR 0x00" and "\<forall>c \<in> set pat. c \<noteq> CHR 0x00" using assms(1,2) by auto
  then have "takeWhile (\<lambda>c. c \<noteq> CHR 0x00) (a @ pat @ r) = a @ pat @ takeWhile (\<lambda>c. c \<noteq> CHR 0x00) r"
    by (simp add: takeWhile_append2)
  with assms(3) show ?thesis by (simp add: strstr_def)
qed

lemma search_found: "search pat (a @ pat @ r) \<noteq> None"
  using search_NoneD[of pat "a @ pat @ r" "length a"] by auto

text \<open>An occurrence at the end of a text is found whatever follows it.\<close>

lemma take_search:
  assumes "search pat (h @ pat) = Some (length h)"
  shows "search pat (h @ pat @ r) = Some (length h)"
proof -
  obtain i where i: "search pat (h @ pat @ r) = Some i" using search_found by (metis not_None_eq)
  from search_SomeD[OF i] have hit: "take (length pat) (drop i (h @ pat @ r)) = pat"
    and first: "\<forall>j < i. take (length pat) (drop j (h @ pat @ r)) \<noteq> pat" by auto
  have "\<not> length h < i" using first by (auto dest: spec[of _ "length h"])
  moreover have "\<not> i < length h"
  proof
    assume lt: "i < length h"
    then have "take (length pat) (drop i (h @ pat)) = pat" using hit by simp
    with search_SomeD[OF assms] lt show False by blast
  qed
  ultimately show ?thesis using i by simp
qed

lemma search_crlf_hit [simp]:
  "CR \<notin> set line \<Longrightarrow> search crlf (line @ CR # LF # rest) = Some (length line)"
  using search_hit[of crlf line rest] by (simp add: crlf_def)

lemma search_crlf_miss: "CR \<notin> set xs \<Longrightarrow> search crlf xs = None"
  by (rule search_miss) (simp_all add: crlf_def)

lemma find_char_hit [simp]:
  "c \<notin> set a \<Longrightarrow> find_char c (a @ c # b) = Some (length a)"
  using search_hit[of "[c]" a b] by (simp add: find_char_def)

lemma find_char_miss [simp]: "c \<notin> set a \<Longrightarrow> find_char c a = None"
  by (simp add: find_char_def search_miss)

text \<open>
  Reading a string line by line with \<open>std::getline\<close> and a delimiter: no token follows
  a final delimiter, and the empty string has no token.
\<close>

fun getlines :: "char \<Rightarrow> string \<Rightarrow> string list" where
  "getlines d [] = []"
| "getlines d (c # s) =
     (let tok = takeWhile (\<lambda>x. x \<noteq> d) (c # s)
      in tok # getlines d (drop (Suc (length tok)) (c # s)))"

lemma getlines_no_delim: "d \<notin> set s \<Longrightarrow> s \<noteq> [] \<Longrightarrow> getlines d s = [s]"
proof (cases s)
  case (Cons c t)
  assume "d \<notin> set s"
  then have "takeWhile (\<lambda>x. x \<noteq> d) s = s"
    by (auto simp: takeWhile_eq_all_conv)
  with Cons show ?thesis by simp
qed simp

lemma getlines_step:
  assumes "d \<notin> set tok"
  shows "getlines d (tok @ d # rest) = tok # getlines d rest"
proof (cases "tok @ d # rest")
  case (Cons c t)
  have "takeWhile (\<lambda>x. x \<noteq> d) (tok @ d # rest) = tok"
    using assms by (subst takeWhile_append2) auto
  moreover have "drop (Suc (length tok)) (tok @ d # rest) = rest" by simp
  ultimately show ?thesis using Cons by (metis getlines.simps(2))
qed simp

section \<open>Numbers as text\<close>

text \<open>Decimal output of \<open>operator<<\<close> and \<open>std::to_string\<close>, hexadecimal output of \<open>std::hex\<close>.\<close>

definition digit_char :: "nat \<Rightarrow> char" where
  "digit_char d = (if d < 10 then char_of (48 + d) else char_of (87 + d))"

fun base_str :: "nat \<Rightarrow> nat \<Rightarrow> string" where
  "base_str b n = (if b \<le> 1 \<or> n < b then [digit_char n] else base_str b (n div b) @ [digit_char (n mod b)])"

declare base_str.simps [simp del]

definition dec_str :: "nat \<Rightarrow> string" where
  "dec_str n = base_str 10 n"

definition hex_str :: "nat \<Rightarrow> string" where
  "hex_str n = base_str 16 n"

definition dec_int :: "int \<Rightarrow> string" where
  "dec_int i = (if i < 0 then CHR ''-'' # dec_str (nat (- i)) else dec_str (nat i))"

text \<open>\<open>strtol\<close> in base 10: white space, a sign, then the longest run of digits.\<close>

definition is_space :: "char \<Rightarrow> bool" where
  "is_space c \<longleftrightarrow> c \<in> {CHR '' '', CHR 0x09, CHR 0x0A, CHR 0x0B, CHR 0x0C, CHR 0x0D}"

definition is_digit :: "char \<Rightarrow> bool" where
  "is_digit c \<longleftrightarrow> 48 \<le> (of_char c :: nat) \<and> (of_char c :: nat) \<le> 57"

definition digit_val :: "char \<Rightarrow> nat" where
  "digit_val c = of_char c - 48"

definition digits_val :: "string \<Rightarrow> nat" where
  "digits_val s = foldl (\<lambda>n c. 10 * n + digit_val c) 0 s"

definition strtol :: "string \<Rightarrow> (bool \<times> nat) option" where
  "strtol s =
     (let t = dropWhile is_space s;
          neg = (t \<noteq> [] \<and> hd t = CHR ''-'');
          u = (if t \<noteq> [] \<and> hd t \<in> {CHR ''-'', CHR ''+''} then tl t else t);
          ds = takeWhile is_digit u
      in if ds = [] then None else Some (neg, digits_val ds))"

definition stoi_range :: "int \<Rightarrow> int \<Rightarrow> string \<Rightarrow> exn + int" where
  "stoi_range lo hi s =
     (case strtol s of
        None \<Rightarrow> Inl Invalid_Argument
      | Some (neg, m) \<Rightarrow>
          (let v = (if neg then - int m else int m)
           in if lo \<le> v \<and> v \<le> hi then Inr v else Inl Out_Of_Range))"

definition stoi :: "string \<Rightarrow> exn + int" where
  "stoi s = stoi_range (- (2 ^ 31)) (2 ^ 31 - 1) s"

definition stoll :: "string \<Rightarrow> exn + int" where
  "stoll s = stoi_range (- (2 ^ 63)) (2 ^ 63 - 1) s"

text \<open>\<open>std::stoull\<close> accepts a minus sign and negates modulo \<open>2^64\<close>.\<close>

definition stoull :: "string \<Rightarrow> exn + uint64" where
  "stoull s =
     (case strtol s of
        None \<Rightarrow> Inl Invalid_Argument
      | Some (neg, m) \<Rightarrow>
          if m < 2 ^ 64 then Inr (if neg then - of_nat m else of_nat m)
          else Inl Out_Of_Range)"

lemma is_digit_digit_char: "d < 10 \<Longrightarrow> is_digit (digit_char d)"
  by (simp add: is_digit_def digit_char_def)

lemma digit_val_digit_char: "d < 10 \<Longrightarrow> digit_val (digit_char d) = d"
  by (simp add: digit_val_def digit_char_def)

lemma digits_val_snoc: "digits_val (s @ [c]) = 10 * digits_val s + digit_val c"
  by (simp add: digits_val_def)

lemma dec_str_digits: "set (dec_str n) \<subseteq> Collect is_digit \<and> dec_str n \<noteq> []"
  unfolding dec_str_def
proof (induction n rule: less_induct)
  case (less n)
  show ?case
  proof (cases "n < 10")
    case True
    then show ?thesis by (simp add: base_str.simps[of 10 n] is_digit_digit_char)
  next
    case False
    then have "set (base_str 10 (n div 10)) \<subseteq> Collect is_digit" using less by simp
    with False show ?thesis by (simp add: base_str.simps[of 10 n] is_digit_digit_char)
  qed
qed

lemma digits_val_dec_str: "digits_val (dec_str n) = n"
  unfolding dec_str_def
proof (induction n rule: less_induct)
  case (less n)
  show ?case
  proof (cases "n < 10")
    case True
    then show ?thesis by (simp add: base_str.simps[of 10 n] digits_val_def digit_val_digit_char)
  next
    case False
    then have "digits_val (base_str 10 (n div 10)) = n div 10" using less by simp
    with False show ?thesis
      by (simp add: base_str.simps[of 10 n] digits_val_snoc digit_val_digit_char)
  qed
qed

lemma digit_not_space: "is_digit c \<Longrightarrow> \<not> is_space c \<and> c \<noteq> CHR ''-'' \<and> c \<noteq> CHR ''+''"
  by (auto simp: is_digit_def is_space_def)

lemma strtol_dec_str: "strtol (dec_str n) = Some (False, n)"
proof -
  obtain c t where ct: "dec_str n = c # t" using dec_str_digits[of n] by (cases "dec_str n") auto
  have "is_digit c" using dec_str_digits[of n] ct by auto
  moreover have "takeWhile is_digit t = t"
    using dec_str_digits[of n] ct by (auto simp: takeWhile_eq_all_conv)
  ultimately show ?thesis
    using digit_not_space[of c] digits_val_dec_str[of n] ct
    by (simp add: strtol_def Let_def del: takeWhile_eq_all_conv)
qed

lemma stoi_dec_str: "n < 2 ^ 31 \<Longrightarrow> stoi (dec_str n) = Inr (int n)"
  by (simp add: stoi_def stoi_range_def strtol_dec_str)

section \<open>Lists\<close>

lemma take_drop_take: "take n (drop r (take w xs)) = take (min n (w - r)) (drop r xs)"
  by (simp add: drop_take min.commute)

lemma drop_eq_append_take: "drop r xs = take n (drop r xs) @ drop (r + n) xs"
  by (metis append_take_drop_id drop_drop add.commute)

end
