(* ===== verification/Buffer.thy ===== *)
theory Buffer
  imports Prelude
begin

text \<open>
  \<open>networklib::utils::Result\<close>, the byte buffer every connection reads into and writes from,
  the pool its storage comes from, and the generic object pool.  A \<open>std::vector<char>\<close> is a
  record of its elements and its capacity; the capacity matters to the pool only, which tests
  it, and grows as libstdc++ grows it.  A pointer into the buffer is an offset into the
  elements: \<open>Peek\<close> is the suffix of the storage that starts at the reader index, and may
  run past the writer index as the C++ pointer may.  The \<open>assert\<close> calls are compiled out of
  the release build; each has a predicate here, and \<open>Buffer_Append_asserts\<close> shows that the
  library's own calls satisfy them.
\<close>

section \<open>Result\<close>

record err =
  err_code :: int
  err_message :: string

type_synonym 'a result = "err + 'a"

definition Result_Success :: "'a \<Rightarrow> 'a result" where
  "Result_Success v = Inr v"

definition Result_Failure :: "int \<Rightarrow> string \<Rightarrow> 'a result" where
  "Result_Failure code msg = Inl \<lparr>err_code = code, err_message = msg\<rparr>"

definition Result_HasValue :: "'a result \<Rightarrow> bool" where
  "Result_HasValue r = (case r of Inl _ \<Rightarrow> False | Inr _ \<Rightarrow> True)"

definition Result_Value :: "'a result \<Rightarrow> exn + 'a" where
  "Result_Value r =
     (case r of
        Inl _ \<Rightarrow> Inl (Runtime_Error ''Attempted to access value of error result'')
      | Inr v \<Rightarrow> Inr v)"

definition Result_GetError :: "'a result \<Rightarrow> exn + err" where
  "Result_GetError r =
     (case r of
        Inl e \<Rightarrow> Inr e
      | Inr _ \<Rightarrow> Inl (Runtime_Error ''Attempted to access error of success result''))"

lemmas result_defs = Result_Success_def Result_Failure_def Result_HasValue_def
  Result_Value_def Result_GetError_def

text \<open>The error codes of \<open>constants/errors.h\<close>.\<close>

definition kNotFound :: int where "kNotFound = 4"
definition kInternal :: int where "kInternal = 100"
definition kUnavailable :: int where "kUnavailable = 101"
definition kConnectionFailed :: int where "kConnectionFailed = 200"
definition kInvalidRequest :: int where "kInvalidRequest = 304"
definition kConfigError :: int where "kConfigError = 400"
definition kNotInitialized :: int where "kNotInitialized = 500"

text \<open>The limits of \<open>constants/limits.h\<close> the code refers to.\<close>

definition kMaxConnectionPoolSize :: nat where "kMaxConnectionPoolSize = 100000"
definition kMaxHeaderSize :: nat where "kMaxHeaderSize = 64 * 1024"

section \<open>Vectors and the buffer pool\<close>

record vec =
  vdata :: bytes
  vcap :: nat

definition vec_new :: "nat \<Rightarrow> vec" where
  "vec_new n = \<lparr>vdata = replicate n (CHR 0x00), vcap = n\<rparr>"

definition vec_clear :: "vec \<Rightarrow> vec" where
  "vec_clear v = v\<lparr>vdata := []\<rparr>"

definition vec_resize :: "nat \<Rightarrow> vec \<Rightarrow> vec" where
  "vec_resize n v =
     (let s = length (vdata v)
      in if n \<le> s then v\<lparr>vdata := take n (vdata v)\<rparr>
         else \<lparr>vdata = vdata v @ replicate (n - s) (CHR 0x00),
               vcap = (if n \<le> vcap v then vcap v else s + max s (n - s))\<rparr>)"

definition vec_inv :: "vec \<Rightarrow> bool" where
  "vec_inv v \<longleftrightarrow> length (vdata v) \<le> vcap v"

definition BufferPool_Acquire :: "vec list \<Rightarrow> nat \<Rightarrow> vec list \<times> vec" where
  "BufferPool_Acquire pool n =
     (if pool \<noteq> [] then
        (let buf = last pool; pool' = butlast pool
         in if n \<le> vcap buf then (pool', vec_clear buf) else (pool', vec_new n))
      else (pool, vec_new n))"

definition BufferPool_Release :: "vec list \<Rightarrow> vec \<Rightarrow> vec list" where
  "BufferPool_Release pool v =
     (if length pool < kMaxConnectionPoolSize then pool @ [v] else pool)"

section \<open>Buffer\<close>

record buffer =
  store :: vec
  reader_index :: nat
  writer_index :: nat

definition Buffer_new :: "vec list \<Rightarrow> nat \<Rightarrow> vec list \<times> buffer" where
  "Buffer_new pool n =
     (let (pool', v) = BufferPool_Acquire pool n
      in (pool', \<lparr>store = v, reader_index = 0, writer_index = 0\<rparr>))"

definition Buffer_delete :: "vec list \<Rightarrow> buffer \<Rightarrow> vec list" where
  "Buffer_delete pool b =
     (if vdata (store b) \<noteq> [] then BufferPool_Release pool (store b) else pool)"

text \<open>Move construction: the new object and what is left in the old one.\<close>

definition moved_from :: "buffer \<Rightarrow> buffer" where
  "moved_from b = \<lparr>store = \<lparr>vdata = [], vcap = 0\<rparr>, reader_index = 0, writer_index = 0\<rparr>"

definition Buffer_move :: "buffer \<Rightarrow> buffer \<times> buffer" where
  "Buffer_move other =
     (\<lparr>store = store other, reader_index = reader_index other,
       writer_index = writer_index other\<rparr>, moved_from other)"

text \<open>Move assignment to a different object: the pool, the target, the source.\<close>

definition Buffer_move_assign :: "vec list \<Rightarrow> buffer \<Rightarrow> buffer \<Rightarrow> vec list \<times> buffer \<times> buffer" where
  "Buffer_move_assign pool this other =
     (let pool' = (if vdata (store this) \<noteq> [] then BufferPool_Release pool (store this) else pool)
      in (pool', this\<lparr>store := store other, reader_index := reader_index other,
                      writer_index := writer_index other\<rparr>, moved_from other))"

definition Buffer_Peek :: "buffer \<Rightarrow> bytes" where
  "Buffer_Peek b = drop (reader_index b) (vdata (store b))"

definition Buffer_ReadableBytes :: "buffer \<Rightarrow> nat" where
  "Buffer_ReadableBytes b = writer_index b - reader_index b"

definition Buffer_WritableBytes :: "buffer \<Rightarrow> nat" where
  "Buffer_WritableBytes b = length (vdata (store b)) - writer_index b"

definition Buffer_HasWritten :: "buffer \<Rightarrow> nat \<Rightarrow> buffer" where
  "Buffer_HasWritten b len = b\<lparr>writer_index := writer_index b + len\<rparr>"

definition HasWritten_assert :: "buffer \<Rightarrow> nat \<Rightarrow> bool" where
  "HasWritten_assert b len \<longleftrightarrow> len \<le> Buffer_WritableBytes b"

definition Buffer_RetrieveAll :: "buffer \<Rightarrow> buffer" where
  "Buffer_RetrieveAll b = b\<lparr>reader_index := 0, writer_index := 0\<rparr>"

definition Buffer_Retrieve :: "buffer \<Rightarrow> nat \<Rightarrow> buffer" where
  "Buffer_Retrieve b len =
     (if len < Buffer_ReadableBytes b then b\<lparr>reader_index := reader_index b + len\<rparr>
      else Buffer_RetrieveAll b)"

definition Retrieve_assert :: "buffer \<Rightarrow> nat \<Rightarrow> bool" where
  "Retrieve_assert b len \<longleftrightarrow> len \<le> Buffer_ReadableBytes b"

text \<open>\<open>std::copy\<close> and \<open>memcpy\<close> of \<open>xs\<close> to offset \<open>i\<close> of the storage.\<close>

definition copy_to :: "nat \<Rightarrow> bytes \<Rightarrow> bytes \<Rightarrow> bytes" where
  "copy_to i xs ys = take i ys @ xs @ drop (i + length xs) ys"

definition Buffer_MakeSpace :: "buffer \<Rightarrow> nat \<Rightarrow> buffer" where
  "Buffer_MakeSpace b len =
     (if Buffer_WritableBytes b + reader_index b < len then
        b\<lparr>store := vec_resize (writer_index b + len) (store b)\<rparr>
      else
        (let readable = Buffer_ReadableBytes b;
             moved = take readable (Buffer_Peek b)
         in b\<lparr>store := (store b)\<lparr>vdata := copy_to 0 moved (vdata (store b))\<rparr>,
              reader_index := 0, writer_index := readable\<rparr>))"

definition Buffer_EnsureWritableBytes :: "buffer \<Rightarrow> nat \<Rightarrow> buffer" where
  "Buffer_EnsureWritableBytes b len =
     (if Buffer_WritableBytes b < len then Buffer_MakeSpace b len else b)"

definition EnsureWritable_assert :: "buffer \<Rightarrow> nat \<Rightarrow> bool" where
  "EnsureWritable_assert b len \<longleftrightarrow> len \<le> Buffer_WritableBytes (Buffer_EnsureWritableBytes b len)"

definition Buffer_Append :: "buffer \<Rightarrow> bytes \<Rightarrow> buffer" where
  "Buffer_Append b data =
     (let b1 = Buffer_EnsureWritableBytes b (length data);
          b2 = b1\<lparr>store := (store b1)\<lparr>vdata := copy_to (writer_index b1) data (vdata (store b1))\<rparr>\<rparr>
      in Buffer_HasWritten b2 (length data))"

definition Buffer_FindCRLF :: "buffer \<Rightarrow> nat option" where
  "Buffer_FindCRLF b = search crlf (take (Buffer_ReadableBytes b) (Buffer_Peek b))"

lemmas buffer_defs = Buffer_Peek_def Buffer_ReadableBytes_def Buffer_WritableBytes_def
  Buffer_HasWritten_def Buffer_RetrieveAll_def Buffer_Retrieve_def Buffer_MakeSpace_def
  Buffer_EnsureWritableBytes_def Buffer_Append_def copy_to_def vec_resize_def Let_def

subsection \<open>Invariant and abstraction\<close>

definition buffer_inv :: "buffer \<Rightarrow> bool" where
  "buffer_inv b \<longleftrightarrow>
     reader_index b \<le> writer_index b \<and> writer_index b \<le> length (vdata (store b)) \<and>
     vec_inv (store b)"

text \<open>The bytes between the two indices: what a reader of the buffer may consume.\<close>

definition content :: "buffer \<Rightarrow> bytes" where
  "content b = take (Buffer_ReadableBytes b) (Buffer_Peek b)"

lemma ReadableBytes_content [buf_simps]:
  "buffer_inv b \<Longrightarrow> Buffer_ReadableBytes b = length (content b)"
  by (auto simp: content_def buffer_defs buffer_inv_def)

lemma EnsureWritableBytes_inv:
  "buffer_inv b \<Longrightarrow> buffer_inv (Buffer_EnsureWritableBytes b len) \<and>
     len \<le> Buffer_WritableBytes (Buffer_EnsureWritableBytes b len)"
  by (auto simp: buffer_inv_def buffer_defs vec_inv_def)

lemma EnsureWritableBytes_content:
  "buffer_inv b \<Longrightarrow> content (Buffer_EnsureWritableBytes b len) = content b"
  by (auto simp: buffer_inv_def buffer_defs vec_inv_def content_def)

lemma Append_inv: 
  assumes "buffer_inv b" shows "buffer_inv (Buffer_Append b xs)"
  using EnsureWritableBytes_inv[OF assms, of "length xs"]
  by (auto simp: buffer_inv_def vec_inv_def Buffer_Append_def Let_def copy_to_def
      Buffer_HasWritten_def Buffer_WritableBytes_def)

lemma write_content:
  assumes "buffer_inv e" and "length xs \<le> Buffer_WritableBytes e"
  shows "content (Buffer_HasWritten
           (e\<lparr>store := (store e)\<lparr>vdata := copy_to (writer_index e) xs (vdata (store e))\<rparr>\<rparr>)
           (length xs)) = content e @ xs"
proof -
  obtain r w d where rw: "r = reader_index e" "w = writer_index e" "d = vdata (store e)" by simp
  with assms have le: "r \<le> w" "w + length xs \<le> length d"
    by (auto simp: buffer_inv_def Buffer_WritableBytes_def)
  have "take (w + length xs - r) (drop r (take w d @ xs @ drop (w + length xs) d))
        = take (w - r) (drop r d) @ xs"
    using le by (simp add: drop_take)
  with rw show ?thesis
    by (simp add: content_def Buffer_HasWritten_def Buffer_Peek_def Buffer_ReadableBytes_def
        copy_to_def)
qed

lemma Append_content [buf_simps]:
  assumes "buffer_inv b" shows "content (Buffer_Append b xs) = content b @ xs"
  using EnsureWritableBytes_inv[OF assms, of "length xs"] EnsureWritableBytes_content[OF assms]
  by (simp add: Buffer_Append_def Let_def write_content)

lemma Retrieve_inv: "buffer_inv b \<Longrightarrow> buffer_inv (Buffer_Retrieve b n)"
  by (auto simp: buffer_inv_def buffer_defs)

lemma Retrieve_content [buf_simps]:
  "buffer_inv b \<Longrightarrow> content (Buffer_Retrieve b n) = drop n (content b)"
  by (auto simp: buffer_inv_def buffer_defs content_def drop_take add.commute)

lemma RetrieveAll_inv: "buffer_inv b \<Longrightarrow> buffer_inv (Buffer_RetrieveAll b)"
  by (auto simp: buffer_inv_def buffer_defs)

lemma RetrieveAll_content [simp, buf_simps]: "content (Buffer_RetrieveAll b) = []"
  by (simp add: content_def buffer_defs)

lemma take_Peek [buf_simps]:
  "n \<le> Buffer_ReadableBytes b \<Longrightarrow> take n (Buffer_Peek b) = take n (content b)"
  by (simp add: content_def min_absorb1)

lemma nth_Peek [buf_simps]:
  "n < Buffer_ReadableBytes b \<Longrightarrow> Buffer_Peek b ! n = content b ! n"
  by (simp add: content_def)

lemma FindCRLF_content [buf_simps]: "Buffer_FindCRLF b = search crlf (content b)"
  by (simp add: Buffer_FindCRLF_def content_def)

lemmas buffer_invs = Append_inv Retrieve_inv RetrieveAll_inv

subsection \<open>The byte queue interface\<close>

text \<open>
  What the protocol code relies on: an object whose content is a byte string, extended at the
  end by \<open>append\<close> and shortened at the front by \<open>retrieve\<close>.
\<close>

locale byte_queue =
  fixes bytes_of :: "'b \<Rightarrow> bytes"
    and append :: "'b \<Rightarrow> bytes \<Rightarrow> 'b"
    and retrieve :: "'b \<Rightarrow> nat \<Rightarrow> 'b"
    and readable :: "'b \<Rightarrow> nat"
    and inv :: "'b \<Rightarrow> bool"
  assumes bytes_append: "inv b \<Longrightarrow> bytes_of (append b xs) = bytes_of b @ xs"
    and bytes_retrieve: "inv b \<Longrightarrow> bytes_of (retrieve b n) = drop n (bytes_of b)"
    and readable_bytes: "inv b \<Longrightarrow> readable b = length (bytes_of b)"
    and inv_append: "inv b \<Longrightarrow> inv (append b xs)"
    and inv_retrieve: "inv b \<Longrightarrow> inv (retrieve b n)"
begin

lemma foldl_append:
  "inv b \<Longrightarrow> inv (foldl append b xss) \<and> bytes_of (foldl append b xss) = bytes_of b @ concat xss"
  by (induction xss arbitrary: b) (auto simp: bytes_append inv_append)

lemma append_retrieve_fifo:
  "inv b \<Longrightarrow> n \<le> readable b \<Longrightarrow>
     bytes_of (append (retrieve b n) xs) = bytes_of (retrieve (append b xs) n)"
  by (simp add: bytes_append bytes_retrieve inv_append inv_retrieve readable_bytes)

lemma retrieve_after_appends:
  assumes "inv b" and "n \<le> readable b + length (concat xss)"
  shows "bytes_of (retrieve (foldl append b xss) n) = drop n (bytes_of b @ concat xss)"
  using foldl_append[OF assms(1), of xss] by (simp add: bytes_retrieve)

lemma retrieve_retrieve:
  "inv b \<Longrightarrow> bytes_of (retrieve (retrieve b m) n) = bytes_of (retrieve b (m + n))"
  by (simp add: bytes_retrieve inv_retrieve add.commute)

end

interpretation bq: byte_queue content Buffer_Append Buffer_Retrieve Buffer_ReadableBytes buffer_inv
  by unfold_locales (simp_all add: buf_simps buffer_invs)

section \<open>Object pool\<close>

text \<open>
  \<open>ObjectPool<T>\<close> over shared pointers, which are object identities here; a null pointer is
  \<open>None\<close>.  \<open>fresh\<close> is the object \<open>std::make_shared<T>()\<close> returns.
\<close>

definition ObjectPool_new :: "'o list \<Rightarrow> 'o list" where
  "ObjectPool_new made = foldl (\<lambda>pool obj. pool @ [obj]) [] made"

definition ObjectPool_Acquire :: "'o \<Rightarrow> 'o list \<Rightarrow> 'o list \<times> 'o" where
  "ObjectPool_Acquire fresh pool =
     (if pool = [] then (pool, fresh) else (butlast pool, last pool))"

definition ObjectPool_Release :: "'o list \<Rightarrow> 'o option \<Rightarrow> 'o list" where
  "ObjectPool_Release pool obj = (case obj of None \<Rightarrow> pool | Some p \<Rightarrow> pool @ [p])"

definition ObjectPool_Size :: "'o list \<Rightarrow> nat" where
  "ObjectPool_Size pool = length pool"

lemmas object_pool_defs = ObjectPool_new_def ObjectPool_Acquire_def ObjectPool_Release_def
  ObjectPool_Size_def

section \<open>Properties\<close>

datatype buf_op = Op_Append bytes | Op_Retrieve nat | Op_RetrieveAll | Op_Ensure nat

fun buf_step :: "buffer \<Rightarrow> buf_op \<Rightarrow> buffer" where
  "buf_step b (Op_Append xs) = Buffer_Append b xs"
| "buf_step b (Op_Retrieve n) = Buffer_Retrieve b n"
| "buf_step b Op_RetrieveAll = Buffer_RetrieveAll b"
| "buf_step b (Op_Ensure n) = Buffer_EnsureWritableBytes b n"

fun spec_step :: "bytes \<Rightarrow> buf_op \<Rightarrow> bytes" where
  "spec_step q (Op_Append xs) = q @ xs"
| "spec_step q (Op_Retrieve n) = drop n q"
| "spec_step q Op_RetrieveAll = []"
| "spec_step q (Op_Ensure n) = q"

lemma buf_step_refines:
  "buffer_inv b \<Longrightarrow> buffer_inv (buf_step b op) \<and> content (buf_step b op) = spec_step (content b) op"
  by (cases op) (simp_all add: buf_simps buffer_invs EnsureWritableBytes_inv EnsureWritableBytes_content)

lemma buf_run_refines:
  "buffer_inv b \<Longrightarrow> buffer_inv (foldl buf_step b ops) \<and>
     content (foldl buf_step b ops) = foldl spec_step (content b) ops"
  by (induction ops arbitrary: b) (use buf_step_refines in auto)

lemma Acquire_inv:
  "list_all vec_inv pool \<Longrightarrow> BufferPool_Acquire pool n = (pool', v) \<Longrightarrow>
     list_all vec_inv pool' \<and> vec_inv v \<and> n \<le> vcap v \<and>
     (vdata v = [] \<or> vdata v = replicate n (CHR 0x00))"
  unfolding BufferPool_Acquire_def Let_def vec_new_def vec_clear_def
  by (cases pool rule: rev_cases) (auto simp: vec_inv_def split: if_splits)

lemma Buffer_new_inv:
  "list_all vec_inv pool \<Longrightarrow> buffer_inv (snd (Buffer_new pool n)) \<and> content (snd (Buffer_new pool n)) = []"
  using Acquire_inv[of pool n]
  by (auto simp: Buffer_new_def buffer_inv_def content_def Buffer_ReadableBytes_def
      split: prod.splits)

text \<open>
  C24. A buffer is a byte queue.  Whatever storage the pool hands out, any sequence of
  \<open>Append\<close>, \<open>Retrieve\<close>, \<open>RetrieveAll\<close> and \<open>EnsureWritableBytes\<close> on a new buffer leaves
  exactly the bytes the same sequence leaves on a plain list, in order, through every
  compaction and growth, and the two indices stay within the storage.
\<close>

theorem buffer_refines_queue:
  assumes "list_all vec_inv pool"
  shows "content (foldl buf_step (snd (Buffer_new pool n)) ops) = foldl spec_step [] ops \<and>
         buffer_inv (foldl buf_step (snd (Buffer_new pool n)) ops)"
  using Buffer_new_inv[OF assms, of n] buf_run_refines[of "snd (Buffer_new pool n)" ops] by simp

theorem buffer_refines_queue_witness:
  "content (foldl buf_step (snd (Buffer_new [\<lparr>vdata = ''old'', vcap = 8\<rparr>] 4))
     [Op_Append ''abcdef'', Op_Retrieve 4, Op_Append ''ghijk'', Op_Ensure 9, Op_Retrieve 1]) = ''fghijk''"
  using buffer_refines_queue[of "[\<lparr>vdata = ''old'', vcap = 8\<rparr>]" 4
      "[Op_Append ''abcdef'', Op_Retrieve 4, Op_Append ''ghijk'', Op_Ensure 9, Op_Retrieve 1]"]
  by (simp add: vec_inv_def)

text \<open>
  The assertions of \<open>buffer.cc\<close> hold wherever the library calls them on a
  well-formed buffer: \<open>Append\<close> always finds the room it asserts, so its \<open>memcpy\<close> stays
  inside the vector, and \<open>Retrieve\<close> of no more than what is readable keeps its own assertion.
\<close>

theorem Buffer_Append_asserts:
  assumes "buffer_inv b"
  shows "EnsureWritable_assert b (length xs) \<and>
         HasWritten_assert (Buffer_EnsureWritableBytes b (length xs)) (length xs) \<and>
         (n \<le> length (content b) \<longrightarrow> Retrieve_assert b n) \<and>
         length (vdata (store b)) \<le> length (vdata (store (Buffer_Append b xs)))"
proof -
  have "length (vdata (store b)) \<le> length (vdata (store (Buffer_Append b xs)))"
    using assms by (auto simp: buffer_defs buffer_inv_def)
  then show ?thesis
    using EnsureWritableBytes_inv[OF assms, of "length xs"] ReadableBytes_content[OF assms]
    by (simp add: EnsureWritable_assert_def HasWritten_assert_def Retrieve_assert_def)
qed

theorem Buffer_Append_asserts_witness:
  "EnsureWritable_assert \<lparr>store = \<lparr>vdata = ''abcd'', vcap = 4\<rparr>, reader_index = 1, writer_index = 3\<rparr> 2"
  using Buffer_Append_asserts
    [of "\<lparr>store = \<lparr>vdata = ''abcd'', vcap = 4\<rparr>, reader_index = 1, writer_index = 3\<rparr>" "''xy''" 0]
  by (simp add: buffer_inv_def vec_inv_def numeral_2_eq_2)

text \<open>
  \<open>FindCRLF\<close> returns the position of the first line end among the readable bytes and
  nothing else: never a line end in stale storage beyond the writer index.
\<close>

theorem FindCRLF_first:
  assumes "buffer_inv b" and "Buffer_FindCRLF b = Some i"
  shows "i + 2 \<le> Buffer_ReadableBytes b \<and> take 2 (drop i (content b)) = crlf \<and>
         (\<forall>j < i. take 2 (drop j (content b)) \<noteq> crlf)"
  using search_SomeD[of crlf "content b" i] assms by (simp add: buf_simps)

theorem FindCRLF_first_witness:
  "take 2 (drop 3 (content (Buffer_Append (snd (Buffer_new [] 2)) (''GET'' @ crlf @ ''x'')))) = crlf"
proof -
  let ?b = "Buffer_Append (snd (Buffer_new [] 2)) (''GET'' @ crlf @ ''x'')"
  have i: "buffer_inv (snd (Buffer_new [] 2))" "content (snd (Buffer_new [] 2)) = []"
    using Buffer_new_inv[of "[]" 2] by simp_all
  have "Buffer_FindCRLF ?b = Some 3"
    using i by (simp add: buf_simps crlf_def)
  with FindCRLF_first[of ?b 3] i show ?thesis by (simp add: buf_simps buffer_invs)
qed

datatype pool_op = Pool_Acquire nat | Pool_Release vec

fun pool_step :: "vec list \<Rightarrow> pool_op \<Rightarrow> vec list" where
  "pool_step pool (Pool_Acquire n) = fst (BufferPool_Acquire pool n)"
| "pool_step pool (Pool_Release v) = BufferPool_Release pool v"

lemma pool_step_bound:
  "length pool \<le> kMaxConnectionPoolSize \<Longrightarrow> length (pool_step pool op) \<le> kMaxConnectionPoolSize"
  by (cases op) (auto simp: BufferPool_Acquire_def BufferPool_Release_def Let_def)

text \<open>
  The buffer pool never holds more than \<open>kMaxConnectionPoolSize\<close> vectors, and a vector it
  hands out has at least the requested capacity.  Its size is the requested one only when it is
  new: a recycled vector comes back empty, which is why \<open>Buffer\<close> must grow it before writing.
\<close>

theorem BufferPool_bounded:
  "length (foldl pool_step [] ops) \<le> kMaxConnectionPoolSize \<and>
   (let (pool', v) = BufferPool_Acquire pool n
    in n \<le> vcap v \<and> length (vdata v) = (if pool \<noteq> [] \<and> n \<le> vcap (last pool) then 0 else n))"
proof -
  have "length pool \<le> kMaxConnectionPoolSize \<Longrightarrow>
      length (foldl pool_step pool ops) \<le> kMaxConnectionPoolSize" for pool
    by (induction ops arbitrary: pool) (simp_all add: pool_step_bound)
  from this[of "[]"] show ?thesis
    by (simp add: BufferPool_Acquire_def Let_def vec_new_def vec_clear_def)
qed

end
