(* ===== verification/Resilience.thy ===== *)
theory Resilience
  imports Complex_Main Prelude
begin

text \<open>
  The admission control of the library: the token bucket behind every rate limiter, the
  circuit breaker, and the per-address limits of \<open>DdosProtection\<close>.  A time point of the
  steady clock is its number of nanoseconds as an \<open>int\<close>; every operation that reads the clock
  takes the reading as an argument.  A \<open>double\<close> is a real, and every floating point operation
  is the exact operation followed by \<open>rnd\<close>, the rounding of the machine.
\<close>

text \<open>Integer division of C++ truncates towards zero, as \<open>duration_cast\<close> does.\<close>

definition tdiv :: "int \<Rightarrow> int \<Rightarrow> int" where
  "tdiv a b = sgn a * sgn b * (\<bar>a\<bar> div \<bar>b\<bar>)"

lemma tdiv_nonneg: "0 \<le> a \<Longrightarrow> 0 < b \<Longrightarrow> tdiv a b = a div b"
  by (cases "a = 0") (simp_all add: tdiv_def)

section \<open>Token bucket\<close>

record token_bucket =
  rate :: real
  capacity :: real
  tokens :: real
  last_refill :: int

definition TokenBucket_new :: "real \<Rightarrow> real \<Rightarrow> int \<Rightarrow> token_bucket" where
  "TokenBucket_new rate_per_sec cap now =
     \<lparr>rate = rate_per_sec, capacity = cap, tokens = cap, last_refill = now\<rparr>"

definition TokenBucket_Refill :: "(real \<Rightarrow> real) \<Rightarrow> int \<Rightarrow> token_bucket \<Rightarrow> token_bucket" where
  "TokenBucket_Refill rnd now tb =
     (let duration = tdiv (now - last_refill tb) 1000;
          new_tokens = rnd (rnd (rnd (of_int duration) * rate tb) / 1000000)
      in if 0 < new_tokens
         then tb\<lparr>tokens := min (capacity tb) (rnd (tokens tb + new_tokens)), last_refill := now\<rparr>
         else tb)"

definition TokenBucket_Consume ::
    "(real \<Rightarrow> real) \<Rightarrow> int \<Rightarrow> token_bucket \<Rightarrow> real \<Rightarrow> bool \<times> token_bucket" where
  "TokenBucket_Consume rnd now tb n =
     (let tb' = TokenBucket_Refill rnd now tb
      in if n \<le> tokens tb' then (True, tb'\<lparr>tokens := rnd (tokens tb' - n)\<rparr>)
         else (False, tb'))"

text \<open>
  The calls \<open>Consume(1.0)\<close> that a shared bucket sees, one per clock reading, and their
  verdicts in order.
\<close>

fun Consume_verdicts :: "(real \<Rightarrow> real) \<Rightarrow> token_bucket \<Rightarrow> int list \<Rightarrow> bool list" where
  "Consume_verdicts rnd tb [] = []"
| "Consume_verdicts rnd tb (t # ts) =
     (let (ok, tb') = TokenBucket_Consume rnd t tb 1 in ok # Consume_verdicts rnd tb' ts)"

text \<open>
  A handler's \<open>rate_limiter_\<close>: a null pointer, or a bucket, seen through the verdicts its
  \<open>Consume\<close> calls return one after the other.
\<close>

type_synonym limiter = "bool list option"

definition CheckRateLimit :: "limiter \<Rightarrow> bool \<times> limiter" where
  "CheckRateLimit lm =
     (case lm of
        None \<Rightarrow> (True, None)
      | Some [] \<Rightarrow> (False, Some [])
      | Some (v # vs) \<Rightarrow> (v, Some vs))"

definition tb_inv :: "token_bucket \<Rightarrow> bool" where
  "tb_inv tb \<longleftrightarrow> 0 \<le> tokens tb \<and> tokens tb \<le> capacity tb"

lemma Refill_fields [simp]:
  "rate (TokenBucket_Refill rnd now tb) = rate tb"
  "capacity (TokenBucket_Refill rnd now tb) = capacity tb"
  by (simp_all add: TokenBucket_Refill_def Let_def)

lemma Refill_inv:
  assumes "mono rnd" and "rnd 0 = 0" and "tb_inv tb"
  shows "tb_inv (TokenBucket_Refill rnd now tb)"
proof -
  have "0 \<le> rnd x" if "0 \<le> x" for x using monoD[OF assms(1) that] assms(2) by simp
  with assms(3) show ?thesis by (auto simp: tb_inv_def TokenBucket_Refill_def Let_def)
qed

text \<open>
  The token count of a bucket stays between zero and its capacity under every sequence of
  non-negative requests, for every monotone rounding that keeps zero and the capacity: no burst
  larger than the capacity can build up, and a granted request never overdraws the bucket.
\<close>

theorem TokenBucket_bounds:
  assumes "mono rnd" and "rnd 0 = 0" and "rnd (capacity tb) = capacity tb"
    and "tb_inv tb" and "0 \<le> n"
    and "TokenBucket_Consume rnd now tb n = (ok, tb')"
  shows "tb_inv tb' \<and> capacity tb' = capacity tb \<and>
         (ok \<longleftrightarrow> n \<le> tokens (TokenBucket_Refill rnd now tb))"
proof -
  let ?r = "TokenBucket_Refill rnd now tb"
  have r: "0 \<le> tokens ?r" "tokens ?r \<le> capacity tb"
    using Refill_inv[OF assms(1,2,4), of now] by (simp_all add: tb_inv_def)
  have "0 \<le> rnd (tokens ?r - n)" if "n \<le> tokens ?r"
    using monoD[OF assms(1), of 0 "tokens ?r - n"] assms(2) that by simp
  moreover have "rnd (tokens ?r - n) \<le> capacity tb"
    using monoD[OF assms(1), of "tokens ?r - n" "capacity tb"] assms(3,5) r by simp
  ultimately show ?thesis
    using assms(6) r by (auto simp: TokenBucket_Consume_def Let_def tb_inv_def split: if_splits)
qed

theorem TokenBucket_bounds_witness:
  "tb_inv (snd (TokenBucket_Consume (\<lambda>x. x) 500000000 \<lparr>rate = 4, capacity = 3, tokens = 0, last_refill = 0\<rparr> 1))"
proof -
  let ?tb = "\<lparr>rate = 4, capacity = 3, tokens = 0, last_refill = 0\<rparr>"
  obtain ok tb' where c: "TokenBucket_Consume (\<lambda>x. x) 500000000 ?tb 1 = (ok, tb')" by fastforce
  show ?thesis
    using TokenBucket_bounds[OF _ _ _ _ _ c] c by (simp add: mono_def tb_inv_def)
qed

text \<open>
  The rounding of the machine, as far as the bound below needs it: monotone, exact at zero, with
  a relative error \<open>u\<close> and, for results below the smallest normal number, an absolute error
  \<open>e\<close>.  A \<open>double\<close> rounded to the nearest has \<open>u = 2^-53\<close> and \<open>e = 2^-1075\<close>; a product
  that overflows fills the bucket to its capacity, as the same product unrounded does.
\<close>

definition rounding :: "real \<Rightarrow> real \<Rightarrow> (real \<Rightarrow> real) \<Rightarrow> bool" where
  "rounding u e rnd \<longleftrightarrow> 0 \<le> u \<and> 0 \<le> e \<and> mono rnd \<and> rnd 0 = 0 \<and> (\<forall>x. \<bar>rnd x - x\<bar> \<le> u * \<bar>x\<bar> + e)"

lemma rounding_up: "rounding u e rnd \<Longrightarrow> 0 \<le> x \<Longrightarrow> rnd x \<le> (1 + u) * x + e"
  using abs_le_D1[of "rnd x - x"] by (fastforce simp: rounding_def algebra_simps)

lemma rounding_nonneg: "rounding u e rnd \<Longrightarrow> 0 \<le> x \<Longrightarrow> 0 \<le> rnd x"
  using monoD[of rnd 0 x] by (simp add: rounding_def)

lemma new_tokens_bound:
  assumes "rounding u e rnd" and "0 \<le> r" and "0 \<le> d"
  shows "rnd (rnd (rnd d * r) / 1000000) \<le> (1 + u) ^ 3 * (d * r / 1000000) + (r + 2) * (1 + u)\<^sup>2 * e"
proof -
  have u: "0 \<le> u" "0 \<le> e" using assms(1) by (simp_all add: rounding_def)
  have a: "rnd d \<le> (1 + u) * d + e" and a0: "0 \<le> rnd d"
    using rounding_up[OF assms(1,3)] rounding_nonneg[OF assms(1,3)] by simp_all
  have "rnd (rnd d * r) \<le> (1 + u) * (rnd d * r) + e"
    using rounding_up[OF assms(1)] a0 assms(2) by simp
  also have "\<dots> \<le> (1 + u) * (((1 + u) * d + e) * r) + e"
    using mult_left_mono[OF mult_right_mono[OF a assms(2)], of "1 + u"] u by simp
  finally have b: "rnd (rnd d * r) \<le> (1 + u) * (((1 + u) * d + e) * r) + e" .
  have "rnd (rnd (rnd d * r) / 1000000) \<le> (1 + u) * (rnd (rnd d * r) / 1000000) + e"
    using rounding_up[OF assms(1), of "rnd (rnd d * r) / 1000000"] rounding_nonneg[OF assms(1), of "rnd d * r"] a0 assms(2)
    by simp
  also have "\<dots> \<le> (1 + u) * (((1 + u) * (((1 + u) * d + e) * r) + e) / 1000000) + e"
    using mult_left_mono[OF divide_right_mono[OF b, of 1000000], of "1 + u"] u by simp
  also have "\<dots> = (1 + u) ^ 3 * (d * r / 1000000) + ((1 + u)\<^sup>2 * e * r / 1000000 + (1 + u) * e / 1000000 + e)"
    by (simp add: field_simps power2_eq_square power3_eq_cube)
  also have "(1 + u)\<^sup>2 * e * r / 1000000 + (1 + u) * e / 1000000 + e \<le> (r + 2) * (1 + u)\<^sup>2 * e"
  proof -
    have k: "e \<le> (1 + u)\<^sup>2 * e" "(1 + u) * e \<le> (1 + u)\<^sup>2 * e"
      using u mult_right_mono[of 1 "(1 + u)\<^sup>2" e] mult_right_mono[of "1 + u" "(1 + u)\<^sup>2" e]
      by (simp_all add: power2_eq_square algebra_simps)
    have small: "x / 1000000 \<le> x" if "0 \<le> x" for x :: real using that by simp
    have "(1 + u)\<^sup>2 * e * r / 1000000 \<le> (1 + u)\<^sup>2 * e * r" "(1 + u) * e / 1000000 \<le> (1 + u) * e"
      using u assms(2) by (intro small; simp)+
    with k have "(1 + u)\<^sup>2 * e * r / 1000000 + (1 + u) * e / 1000000 + e
        \<le> (1 + u)\<^sup>2 * e * r + (1 + u)\<^sup>2 * e + (1 + u)\<^sup>2 * e" by linarith
    then show ?thesis by (simp add: algebra_simps)
  qed
  finally show ?thesis by simp
qed

text \<open>What one call may grant beyond its share, through the roundings of \<open>Refill\<close> and of the subtraction.\<close>

definition call_slack :: "real \<Rightarrow> real \<Rightarrow> token_bucket \<Rightarrow> real" where
  "call_slack u e tb = 2 * u * capacity tb + (rate tb + 4) * (1 + u)\<^sup>2 * e"

lemma Refill_gain:
  assumes "rounding u e rnd" and "0 \<le> rate tb" and "tb_inv tb" and "last_refill tb \<le> now"
  shows "tokens (TokenBucket_Refill rnd now tb)
           - (1 + u) ^ 3 * (rate tb * of_int (last_refill (TokenBucket_Refill rnd now tb)) / 10 ^ 9)
         \<le> tokens tb - (1 + u) ^ 3 * (rate tb * of_int (last_refill tb) / 10 ^ 9)
           + (u * capacity tb + e + (rate tb + 2) * (1 + u)\<^sup>2 * e)" (is "?T \<le> _")
    and "last_refill (TokenBucket_Refill rnd now tb) \<le> now"
proof -
  let ?d = "now - last_refill tb"
  let ?n = "rnd (rnd (rnd (of_int (?d div 1000)) * rate tb) / 1000000)"
  let ?k = "(rate tb + 2) * (1 + u)\<^sup>2 * e"
  have u: "0 \<le> u" "0 \<le> e" using assms(1) by (simp_all add: rounding_def)
  have cap: "0 \<le> tokens tb" "0 \<le> capacity tb" using assms(3) by (simp_all add: tb_inv_def)
  have "real_of_int (?d div 1000) \<le> real_of_int ?d / 1000"
    by (metis of_int_numeral real_of_int_div4)
  with assms(2) have "real_of_int (?d div 1000) * rate tb \<le> real_of_int ?d / 1000 * rate tb"
    by (rule mult_right_mono[rotated])
  then have "(1 + u) ^ 3 * (real_of_int (?d div 1000) * rate tb / 1000000) \<le> (1 + u) ^ 3 * (rate tb * of_int ?d / 10 ^ 9)"
    using u by (intro mult_left_mono) (simp_all add: field_simps)
  moreover have "?n \<le> (1 + u) ^ 3 * (real_of_int (?d div 1000) * rate tb / 1000000) + ?k"
    by (rule new_tokens_bound[OF assms(1,2)]) (use assms(4) in simp)
  ultimately have n: "?n \<le> (1 + u) ^ 3 * (rate tb * of_int ?d / 10 ^ 9) + ?k" by linarith
  have k0: "0 \<le> ?k" "0 \<le> u * capacity tb" using u assms(2) cap by simp_all
  show "?T \<le> tokens tb - (1 + u) ^ 3 * (rate tb * of_int (last_refill tb) / 10 ^ 9) + (u * capacity tb + e + ?k)"
  proof (cases "0 < ?n")
    case True
    let ?x = "tokens tb + ?n"
    have "rnd ?x \<le> ?x + u * ?x + e" using rounding_up[OF assms(1), of ?x] True cap by (simp add: algebra_simps)
    moreover have "u * ?x \<le> u * capacity tb" if "?x \<le> capacity tb" using that u by (intro mult_left_mono) simp_all
    ultimately have "min (capacity tb) (rnd ?x) \<le> ?x + u * capacity tb + e"
      using k0 u by (cases "?x \<le> capacity tb") auto
    with n True assms(4) show ?thesis
      by (simp add: TokenBucket_Refill_def Let_def tdiv_nonneg algebra_simps diff_divide_distrib)
  next
    case False
    with k0 u assms(4) show ?thesis by (simp add: TokenBucket_Refill_def Let_def tdiv_nonneg)
  qed
  show "last_refill (TokenBucket_Refill rnd now tb) \<le> now"
    using assms(4) by (simp add: TokenBucket_Refill_def Let_def)
qed

lemma verdicts_gain:
  assumes "rounding u e rnd" and "0 \<le> rate tb" and "tb_inv tb" and "rnd (capacity tb) = capacity tb"
    and "sorted (last_refill tb # ts)" and "\<forall>t \<in> set ts. t \<le> T" and "last_refill tb \<le> T"
  shows "real (count_list (Consume_verdicts rnd tb ts) True)
         \<le> tokens tb + (1 + u) ^ 3 * (rate tb * (of_int T - of_int (last_refill tb)) / 10 ^ 9)
           + real (length ts) * call_slack u e tb"
  using assms(2-)
proof (induction ts arbitrary: tb)
  case Nil
  have "0 \<le> u" using assms(1) by (simp add: rounding_def)
  with Nil show ?case by (simp add: tb_inv_def)
next
  case (Cons t ts)
  have u: "0 \<le> u" "0 \<le> e" and m: "mono rnd" "rnd 0 = 0" using assms(1) by (simp_all add: rounding_def)
  let ?r = "TokenBucket_Refill rnd t tb"
  obtain ok tb' where c: "TokenBucket_Consume rnd t tb 1 = (ok, tb')" by fastforce
  have inv: "tb_inv tb'" and cap: "capacity tb' = capacity tb"
    using TokenBucket_bounds[OF m Cons.prems(3,2) _ c] by simp_all
  have f: "rate tb' = rate tb" "last_refill tb' = last_refill ?r"
    using c by (auto simp: TokenBucket_Consume_def Let_def split: if_splits)
  have g: "last_refill ?r \<le> t" using Refill_gain(2)[OF assms(1) Cons.prems(1,2), of t] Cons.prems(4) by simp
  have rinv: "tb_inv ?r" using Refill_inv[OF m Cons.prems(2)] .
  have e: "e \<le> (1 + u)\<^sup>2 * e" using u mult_right_mono[of 1 "(1 + u)\<^sup>2" e] by simp
  have "tokens tb' \<le> tokens ?r - (if ok then 1 else 0) + (u * capacity tb + e)"
  proof (cases ok)
    case True
    then have ge: "1 \<le> tokens ?r" and t': "tokens tb' = rnd (tokens ?r - 1)"
      using c by (auto simp: TokenBucket_Consume_def Let_def split: if_splits)
    have "u * (tokens ?r - 1) \<le> u * capacity tb"
      using rinv u by (intro mult_left_mono) (simp_all add: tb_inv_def)
    with rounding_up[OF assms(1), of "tokens ?r - 1"] ge True t' show ?thesis by (simp add: algebra_simps)
  next
    case False
    with c u inv cap show ?thesis
      by (auto simp: TokenBucket_Consume_def Let_def tb_inv_def intro!: add_nonneg_nonneg mult_nonneg_nonneg split: if_splits)
  qed
  moreover have "tokens ?r - (1 + u) ^ 3 * (rate tb * of_int (last_refill ?r) / 10 ^ 9)
      \<le> tokens tb - (1 + u) ^ 3 * (rate tb * of_int (last_refill tb) / 10 ^ 9)
        + (u * capacity tb + e + (rate tb + 2) * (1 + u)\<^sup>2 * e)"
    using Refill_gain(1)[OF assms(1) Cons.prems(1,2)] Cons.prems(4) by simp
  moreover have "(u * capacity tb + e) + (u * capacity tb + e + (rate tb + 2) * (1 + u)\<^sup>2 * e) \<le> call_slack u e tb"
    using e by (simp add: call_slack_def algebra_simps)
  moreover have "\<forall>x \<in> set ts. last_refill ?r \<le> x" using g Cons.prems(4) by force
  then have "real (count_list (Consume_verdicts rnd tb' ts) True)
      \<le> tokens tb' + (1 + u) ^ 3 * (rate tb * (of_int T - of_int (last_refill ?r)) / 10 ^ 9)
        + real (length ts) * call_slack u e tb"
    using Cons.IH[of tb'] Cons.prems g inv cap f by (auto simp: call_slack_def)
  ultimately show ?case
    using c by (auto simp: algebra_simps diff_divide_distrib split: if_splits)
qed



section \<open>Circuit breaker\<close>

datatype cb_state = kClosed | kOpen | kHalfOpen

record circuit_breaker =
  failure_threshold :: "32 word"
  reset_timeout :: int
  cb_state :: cb_state
  failure_count :: "32 word"
  success_count :: "32 word"
  last_failure_time :: int

definition CircuitBreaker_new :: "32 word \<Rightarrow> int \<Rightarrow> circuit_breaker" where
  "CircuitBreaker_new threshold timeout_sec =
     \<lparr>failure_threshold = threshold, reset_timeout = timeout_sec, cb_state = kClosed,
      failure_count = 0, success_count = 0, last_failure_time = 0\<rparr>"

text \<open>
  \<open>AllowRequest\<close> and \<open>OnSuccess\<close> read the atomic state first and take the lock afterwards;
  the part under the lock is a definition of its own, so that other threads may step between.
\<close>

definition AllowRequest_locked :: "int \<Rightarrow> circuit_breaker \<Rightarrow> bool \<times> circuit_breaker" where
  "AllowRequest_locked now cb =
     (if reset_timeout cb * 10 ^ 9 < now - last_failure_time cb
      then (True, cb\<lparr>cb_state := kHalfOpen\<rparr>) else (False, cb))"

definition CircuitBreaker_AllowRequest :: "int \<Rightarrow> circuit_breaker \<Rightarrow> bool \<times> circuit_breaker" where
  "CircuitBreaker_AllowRequest now cb =
     (case cb_state cb of
        kClosed \<Rightarrow> (True, cb)
      | kOpen \<Rightarrow> AllowRequest_locked now cb
      | kHalfOpen \<Rightarrow> (True, cb))"

definition OnSuccess_locked :: "circuit_breaker \<Rightarrow> circuit_breaker" where
  "OnSuccess_locked cb = cb\<lparr>cb_state := kClosed, failure_count := 0\<rparr>"

definition CircuitBreaker_OnSuccess :: "circuit_breaker \<Rightarrow> circuit_breaker" where
  "CircuitBreaker_OnSuccess cb =
     (if cb_state cb = kHalfOpen then OnSuccess_locked cb else cb)"

definition CircuitBreaker_OnFailure :: "int \<Rightarrow> circuit_breaker \<Rightarrow> circuit_breaker" where
  "CircuitBreaker_OnFailure now cb =
     (let cb' = cb\<lparr>failure_count := failure_count cb + 1, last_failure_time := now\<rparr>
      in if cb_state cb' = kHalfOpen then cb'\<lparr>cb_state := kOpen\<rparr>
         else if sint (failure_threshold cb') \<le> sint (failure_count cb') then cb'\<lparr>cb_state := kOpen\<rparr>
         else cb')"

text \<open>
  A breaker shared by threads: \<open>waiting_allow\<close> of them have read \<open>kOpen\<close> and
  \<open>waiting_success\<close> of them have read \<open>kHalfOpen\<close>, and have yet to take the lock.
\<close>

record cb_sys =
  breaker :: circuit_breaker
  waiting_allow :: nat
  waiting_success :: nat

inductive cb_step :: "cb_sys \<Rightarrow> cb_sys \<Rightarrow> bool" where
  allow_read: "cb_state (breaker s) = kOpen \<Longrightarrow>
     cb_step s (s\<lparr>waiting_allow := Suc (waiting_allow s)\<rparr>)"
| allow_lock: "waiting_allow s = Suc n \<Longrightarrow>
     cb_step s (s\<lparr>waiting_allow := n, breaker := snd (AllowRequest_locked now (breaker s))\<rparr>)"
| success_read: "cb_state (breaker s) = kHalfOpen \<Longrightarrow>
     cb_step s (s\<lparr>waiting_success := Suc (waiting_success s)\<rparr>)"
| success_lock: "waiting_success s = Suc n \<Longrightarrow>
     cb_step s (s\<lparr>waiting_success := n, breaker := OnSuccess_locked (breaker s)\<rparr>)"
| failure: "cb_step s (s\<lparr>breaker := CircuitBreaker_OnFailure now (breaker s)\<rparr>)"

inductive_cases cb_step_cases: "cb_step s t"

inductive cb_reach :: "32 word \<Rightarrow> int \<Rightarrow> cb_sys \<Rightarrow> bool" for thr tmo where
  cb_start: "cb_reach thr tmo
     \<lparr>breaker = CircuitBreaker_new thr tmo, waiting_allow = 0, waiting_success = 0\<rparr>"
| cb_next: "cb_reach thr tmo s \<Longrightarrow> cb_step s t \<Longrightarrow> cb_reach thr tmo t"

lemmas cb_defs = CircuitBreaker_new_def CircuitBreaker_AllowRequest_def AllowRequest_locked_def
  CircuitBreaker_OnSuccess_def OnSuccess_locked_def CircuitBreaker_OnFailure_def Let_def

definition cb_inv :: "32 word \<Rightarrow> circuit_breaker \<Rightarrow> bool" where
  "cb_inv thr cb \<longleftrightarrow> failure_threshold cb = thr \<and>
     (cb_state cb = kClosed \<longrightarrow> 0 \<le> sint (failure_count cb) \<and> sint (failure_count cb) < sint thr)"

lemma cb_step_inv: "cb_step s t \<Longrightarrow> 0 < sint thr \<Longrightarrow> cb_inv thr (breaker s) \<Longrightarrow> cb_inv thr (breaker t)"
proof (erule cb_step_cases)
  fix now
  assume t: "t = s\<lparr>breaker := CircuitBreaker_OnFailure now (breaker s)\<rparr>"
    and inv: "cb_inv thr (breaker s)" and pos: "0 < sint thr"
  have "0 \<le> sint (failure_count (breaker s) + 1)"
    if "0 \<le> sint (failure_count (breaker s))" "sint (failure_count (breaker s)) < sint thr"
    using that sint_lt[of thr] by (simp add: sint_word_ariths signed_take_bit_int_eq_self)
  with t inv pos show "cb_inv thr (breaker t)"
    by (auto simp: cb_inv_def cb_defs not_le)
qed (auto simp: cb_inv_def cb_defs)

text \<open>
  C34. With a positive threshold, in every state the breaker reaches under any interleaving of
  \<open>AllowRequest\<close>, \<open>OnSuccess\<close> and \<open>OnFailure\<close> calls by any number of threads, a closed
  breaker has recorded fewer failures than the threshold: the failure that reaches the threshold
  always opens it, and the counter never wraps while it is closed.
\<close>

theorem circuit_breaker_invariant:
  assumes "cb_reach thr tmo s" and "0 < sint thr"
  shows "cb_state (breaker s) = kClosed \<longrightarrow>
         0 \<le> sint (failure_count (breaker s)) \<and> sint (failure_count (breaker s)) < sint thr"
proof -
  from assms(1) have "cb_inv thr (breaker s)"
    by induction (use assms(2) cb_step_inv in \<open>auto simp: cb_inv_def CircuitBreaker_new_def\<close>)
  then show ?thesis by (simp add: cb_inv_def)
qed

theorem circuit_breaker_invariant_witness:
  "sint (failure_count (breaker
     \<lparr>breaker = CircuitBreaker_OnFailure 7 (CircuitBreaker_new 2 1), waiting_allow = 0, waiting_success = 0\<rparr>)) < 2"
proof -
  let ?init = "\<lparr>breaker = CircuitBreaker_new 2 1, waiting_allow = 0, waiting_success = 0\<rparr>"
  let ?s = "\<lparr>breaker = CircuitBreaker_OnFailure 7 (CircuitBreaker_new 2 1), waiting_allow = 0, waiting_success = 0\<rparr>"
  have "cb_step ?init ?s" using cb_step.failure[of ?init 7] by simp
  then have "cb_reach 2 1 ?s" by (rule cb_next[OF cb_start])
  then show ?thesis using circuit_breaker_invariant[of 2 1 ?s] by (simp add: cb_defs)
qed

text \<open>
  A breaker that opened at time \<open>t\<close> refuses every request until more than the reset timeout
  has passed and then admits one and becomes half open; a success in the half open state closes
  it and clears the count, and a failure there opens it again at once and restarts the timeout.
\<close>

theorem circuit_breaker_cycle:
  assumes "cb_state cb = kOpen"
  shows "(now - last_failure_time cb \<le> reset_timeout cb * 10 ^ 9 \<longrightarrow>
            CircuitBreaker_AllowRequest now cb = (False, cb)) \<and>
         (reset_timeout cb * 10 ^ 9 < now - last_failure_time cb \<longrightarrow>
            CircuitBreaker_AllowRequest now cb = (True, cb\<lparr>cb_state := kHalfOpen\<rparr>)) \<and>
         CircuitBreaker_OnSuccess (cb\<lparr>cb_state := kHalfOpen\<rparr>) = cb\<lparr>cb_state := kClosed, failure_count := 0\<rparr> \<and>
         (let again = CircuitBreaker_OnFailure later (cb\<lparr>cb_state := kHalfOpen\<rparr>)
          in cb_state again = kOpen \<and>
             (soon - later \<le> reset_timeout cb * 10 ^ 9 \<longrightarrow>
                CircuitBreaker_AllowRequest soon again = (False, again)))"
  using assms by (simp add: cb_defs)

theorem circuit_breaker_cycle_witness:
  "CircuitBreaker_AllowRequest 3000000000
     \<lparr>failure_threshold = 1, reset_timeout = 2, cb_state = kOpen, failure_count = 1,
      success_count = 0, last_failure_time = 1500000000\<rparr>
   = (False, \<lparr>failure_threshold = 1, reset_timeout = 2, cb_state = kOpen, failure_count = 1,
      success_count = 0, last_failure_time = 1500000000\<rparr>)"
  using circuit_breaker_cycle[of "\<lparr>failure_threshold = 1, reset_timeout = 2, cb_state = kOpen, failure_count = 1,
      success_count = 0, last_failure_time = 1500000000\<rparr>" 3000000000 0 0] by simp

text \<open>
  The lock does not make \<open>OnSuccess\<close> atomic.  A thread that read \<open>kHalfOpen\<close> can take the
  lock after another thread's failure has opened the breaker again, and then closes it although
  the probe failed and no time has passed since.
\<close>

theorem circuit_breaker_stale_success:
  "\<exists>s t. cb_reach 1 1 s \<and> cb_step s t \<and> cb_state (breaker s) = kOpen \<and>
         cb_state (breaker t) = kClosed \<and>
         fst (CircuitBreaker_AllowRequest (last_failure_time (breaker s)) (breaker t)) \<and>
         \<not> fst (CircuitBreaker_AllowRequest (last_failure_time (breaker s)) (breaker s))"
proof -
  let ?fresh = "CircuitBreaker_new 1 1"
  let ?tripped = "CircuitBreaker_OnFailure 0 ?fresh"
  let ?probing = "snd (AllowRequest_locked 2000000000 ?tripped)"
  let ?reopened = "CircuitBreaker_OnFailure 2000000000 ?probing"
  let ?sys = "\<lambda>c a w. \<lparr>breaker = c, waiting_allow = a, waiting_success = w\<rparr>"
  have "cb_reach 1 1 (?sys ?fresh 0 0)" by (rule cb_start)
  moreover have "cb_step (?sys ?fresh 0 0) (?sys ?tripped 0 0)"
    using cb_step.failure[of "?sys ?fresh 0 0" 0] by simp
  moreover have "cb_step (?sys ?tripped 0 0) (?sys ?tripped 1 0)"
    using cb_step.allow_read[of "?sys ?tripped 0 0"] by (simp add: cb_defs)
  moreover have "cb_step (?sys ?tripped 1 0) (?sys ?probing 0 0)"
    using cb_step.allow_lock[of "?sys ?tripped 1 0" 0 2000000000] by simp
  moreover have "cb_step (?sys ?probing 0 0) (?sys ?probing 0 1)"
    using cb_step.success_read[of "?sys ?probing 0 0"] by (simp add: cb_defs)
  moreover have "cb_step (?sys ?probing 0 1) (?sys ?reopened 0 1)"
    using cb_step.failure[of "?sys ?probing 0 1" 2000000000] by simp
  ultimately have "cb_reach 1 1 (?sys ?reopened 0 1)" by (meson cb_next)
  moreover have "cb_step (?sys ?reopened 0 1) (?sys (OnSuccess_locked ?reopened) 0 0)"
    using cb_step.success_lock[of "?sys ?reopened 0 1" 0] by simp
  ultimately show ?thesis
    by (intro exI[of _ "?sys ?reopened 0 1"] exI[of _ "?sys (OnSuccess_locked ?reopened) 0 0"])
       (simp add: cb_defs)
qed

section \<open>DDoS protection\<close>

record ddos_config =
  max_conn_per_ip :: int
  rate_limit_per_ip :: int
  enable_syn_cookies :: bool

definition ddos_config_default :: ddos_config where
  "ddos_config_default =
     \<lparr>max_conn_per_ip = 100, rate_limit_per_ip = 50, enable_syn_cookies = True\<rparr>"

record ddos =
  ddos_config :: ddos_config
  conn_counts :: "string \<rightharpoonup> int"
  req_counts :: "string \<rightharpoonup> int \<times> int"

definition DdosProtection_new :: "ddos_config \<Rightarrow> ddos" where
  "DdosProtection_new config =
     \<lparr>ddos_config = config, conn_counts = Map.empty, req_counts = Map.empty\<rparr>"

definition conn_count :: "ddos \<Rightarrow> string \<Rightarrow> int" where
  "conn_count d ip = (case conn_counts d ip of None \<Rightarrow> 0 | Some c \<Rightarrow> c)"

definition DdosProtection_AllowConnection :: "string \<Rightarrow> ddos \<Rightarrow> bool \<times> ddos" where
  "DdosProtection_AllowConnection ip d =
     (let count = conn_count d ip
      in if max_conn_per_ip (ddos_config d) \<le> count
         then (False, d\<lparr>conn_counts := (conn_counts d)(ip \<mapsto> count)\<rparr>)
         else (True, d\<lparr>conn_counts := (conn_counts d)(ip \<mapsto> count + 1)\<rparr>))"

definition DdosProtection_AllowRequest :: "int \<Rightarrow> string \<Rightarrow> ddos \<Rightarrow> bool \<times> ddos" where
  "DdosProtection_AllowRequest now ip d =
     (let (c, start) = (case req_counts d ip of None \<Rightarrow> (0, 0) | Some e \<Rightarrow> e);
          (c, start) = (if 1 \<le> tdiv (now - start) (10 ^ 9) then (0, now) else (c, start))
      in if rate_limit_per_ip (ddos_config d) \<le> c
         then (False, d\<lparr>req_counts := (req_counts d)(ip \<mapsto> (c, start))\<rparr>)
         else (True, d\<lparr>req_counts := (req_counts d)(ip \<mapsto> (c + 1, start))\<rparr>))"

fun admit_run :: "ddos \<Rightarrow> string list \<Rightarrow> (string \<times> bool) list" where
  "admit_run d [] = []"
| "admit_run d (ip # ips) =
     (let (ok, d') = DdosProtection_AllowConnection ip d in (ip, ok) # admit_run d' ips)"

fun req_run :: "ddos \<Rightarrow> string \<Rightarrow> int list \<Rightarrow> bool list" where
  "req_run d ip [] = []"
| "req_run d ip (t # ts) =
     (let (ok, d') = DdosProtection_AllowRequest t ip d in ok # req_run d' ip ts)"

lemma AllowConnection_fields:
  "DdosProtection_AllowConnection ip d = (ok, d') \<Longrightarrow>
     ddos_config d' = ddos_config d \<and>
     conn_count d' x = (if x = ip \<and> ok then conn_count d x + 1 else conn_count d x) \<and>
     (ok \<longleftrightarrow> conn_count d ip < max_conn_per_ip (ddos_config d))"
  by (auto simp: DdosProtection_AllowConnection_def Let_def conn_count_def split: if_splits)

lemma conn_run_count:
  "int (count_list (admit_run d ips) (ip, True)) =
     min (int (count_list ips ip)) (max 0 (max_conn_per_ip (ddos_config d) - conn_count d ip))"
proof (induction ips arbitrary: d)
  case Nil
  then show ?case by simp
next
  case (Cons x ips)
  obtain ok d' where a: "DdosProtection_AllowConnection x d = (ok, d')" by fastforce
  show ?case
    using AllowConnection_fields[OF a, of ip] Cons.IH[of d'] a by auto
qed

text \<open>
  \<open>AllowConnection\<close> admits, over the whole life of the object and for each address, exactly
  the first \<open>max_conn_per_ip\<close> connections and none after them, however the addresses are mixed:
  nothing lowers a count when a connection closes, so an address that has used up its allowance
  is refused for ever.
\<close>

theorem AllowConnection_lifetime_quota:
  "int (count_list (admit_run (DdosProtection_new cfg) ips) (ip, True)) =
     min (int (count_list ips ip)) (max 0 (max_conn_per_ip cfg))"
  using conn_run_count[of "DdosProtection_new cfg" ips ip]
  by (simp add: DdosProtection_new_def conn_count_def)

definition req_entry :: "ddos \<Rightarrow> string \<Rightarrow> int \<times> int" where
  "req_entry d ip = (case req_counts d ip of None \<Rightarrow> (0, 0) | Some e \<Rightarrow> e)"

lemma AllowRequest_entry:
  "DdosProtection_AllowRequest t ip d = (ok, d') \<Longrightarrow>
     ddos_config d' = ddos_config d \<and>
     (let (c, start) = req_entry d ip;
          (c, start) = (if 1 \<le> tdiv (t - start) (10 ^ 9) then (0, t) else (c, start))
      in (ok \<longleftrightarrow> c < rate_limit_per_ip (ddos_config d)) \<and>
         req_entry d' ip = (if ok then c + 1 else c, start))"
  by (auto simp: DdosProtection_AllowRequest_def Let_def req_entry_def split: if_splits option.splits prod.splits)

lemma tdiv_second: "0 \<le> a \<Longrightarrow> 1 \<le> tdiv a (10 ^ 9) \<longleftrightarrow> 10 ^ 9 \<le> a"
  by (simp add: tdiv_nonneg) linarith

lemma req_run_same_window:
  assumes "req_entry d ip = (c, start)" and "\<forall>t \<in> set ts. start \<le> t \<and> t < start + 10 ^ 9"
  shows "int (count_list (req_run d ip ts) True) \<le> max 0 (rate_limit_per_ip (ddos_config d) - c)"
  using assms
proof (induction ts arbitrary: d c)
  case Nil
  then show ?case by simp
next
  case (Cons t ts)
  obtain ok d' where a: "DdosProtection_AllowRequest t ip d = (ok, d')" by fastforce
  have "\<not> 1 \<le> tdiv (t - start) (10 ^ 9)"
    using Cons.prems(2) by (subst tdiv_second) auto
  with AllowRequest_entry[OF a] Cons.prems(1)
  have e: "req_entry d' ip = (if ok then c + 1 else c, start)"
    "ddos_config d' = ddos_config d" "ok \<longleftrightarrow> c < rate_limit_per_ip (ddos_config d)"
    by (auto simp: Let_def split: if_splits)
  then show ?case
    using Cons.IH[of d' "if ok then c + 1 else c"] Cons.prems(2) a by auto
qed

text \<open>
  Requests of one address are limited to bursts: in any interval shorter than a second, from
  any state whose window started before it, at most twice \<open>rate_limit_per_ip\<close> requests are
  allowed (one full window may end and one begin inside the interval).
\<close>

theorem AllowRequest_burst_bound:
  assumes "req_entry d ip = (c, start)" and "0 \<le> c" and "0 \<le> rate_limit_per_ip (ddos_config d)"
    and "sorted ts" and "\<forall>t \<in> set ts. start \<le> t \<and> a \<le> t \<and> t < a + 10 ^ 9"
  shows "int (count_list (req_run d ip ts) True) \<le> 2 * rate_limit_per_ip (ddos_config d)"
proof -
  have "int (count_list (req_run d ip ts) True)
        \<le> max 0 (rate_limit_per_ip (ddos_config d) - c) + rate_limit_per_ip (ddos_config d)"
    using assms
  proof (induction ts arbitrary: d c)
    case Nil
    then show ?case by simp
  next
    case (Cons t ts)
    let ?L = "rate_limit_per_ip (ddos_config d)"
    obtain ok d' where r: "DdosProtection_AllowRequest t ip d = (ok, d')" by fastforce
    show ?case
    proof (cases "1 \<le> tdiv (t - start) (10 ^ 9)")
      case True
      with AllowRequest_entry[OF r] Cons.prems(1)
      have e: "req_entry d' ip = (if ok then 1 else 0, t)" "ddos_config d' = ddos_config d" "ok \<longleftrightarrow> 0 < ?L"
        by (auto simp: Let_def split: if_splits)
      have "\<forall>u \<in> set ts. t \<le> u \<and> u < t + 10 ^ 9" using Cons.prems(4,5) by force
      then show ?thesis
        using req_run_same_window[OF e(1), of ts] e Cons.prems(3) r by auto
    next
      case False
      with AllowRequest_entry[OF r] Cons.prems(1)
      have e: "req_entry d' ip = (if ok then c + 1 else c, start)" "ddos_config d' = ddos_config d" "ok \<longleftrightarrow> c < ?L"
        by (auto simp: Let_def split: if_splits)
      show ?thesis
        using Cons.IH[of d' "if ok then c + 1 else c"] e Cons.prems r by auto
    qed
  qed
  with assms(2,3) show ?thesis by simp
qed

theorem AllowRequest_burst_bound_witness:
  "count_list (req_run (DdosProtection_new ddos_config_default) ''10.0.0.1'' [5, 6, 7]) True \<le> 100"
proof -
  have "req_entry (DdosProtection_new ddos_config_default) ''10.0.0.1'' = (0, 0)"
    by (simp add: req_entry_def DdosProtection_new_def)
  from AllowRequest_burst_bound[OF this, of "[5, 6, 7]" 5] show ?thesis
    by (simp add: DdosProtection_new_def ddos_config_default_def)
qed

end
