(* ===== verification/Connection.thy ===== *)
theory Connection
  imports Buffer Resilience
begin

text \<open>
  \<open>core::Connection\<close>: one socket with its input and output buffers and its connection state.
  The record holds the fields of the class and, after them, the environment of one connection:
  what the next \<open>write\<close> and \<open>SSL_do_handshake\<close> calls will return, whether the caller runs on
  the loop thread, the bytes handed to the kernel so far (\<open>wire\<close>) and the calls made to the
  event loop, to the operating system and to the callbacks, in order (\<open>trace\<close>).  What
  \<open>read\<close> returns is an argument of \<open>HandleRead\<close>, and what \<open>getsockopt\<close> and \<open>connect\<close>
  return are arguments of the operations that call them.  Log output and trace spans are not
  modelled.
\<close>

section \<open>State and environment\<close>

datatype conn_state = kConnecting | kHandshaking | kConnected | kDisconnecting | kDisconnected

datatype io_cause = EAGAIN | EWOULDBLOCK | SSL_WANT_READ | SSL_WANT_WRITE | IO_Other

text \<open>A result of \<open>read\<close>/\<open>SSL_read\<close>: \<open>n\<close> bytes (none at end of file), or an error.\<close>

datatype read_result = Rd bytes | Rd_Fail io_cause

datatype handshake_result = Hs_Done | Hs_Want | Hs_Fail

datatype connect_result = Conn_Ok | Conn_InProgress | Conn_Err

datatype act =
    Loop_Modify int uint32
  | Loop_Remove int
  | Loop_Queue bytes
  | Sys_Close int
  | Sys_Shutdown int
  | Cb_Connect bool
  | Cb_Disconnect int

record connection =
  has_loop :: bool
  fd :: int
  conn_state :: conn_state
  ssl :: bool
  input_buffer :: buffer
  output_buffer :: buffer
  conn_limiter :: limiter
  has_connect_cb :: bool
  has_disconnect_cb :: bool
  in_loop_thread :: bool
  wr_script :: "(nat \<times> io_cause) list"
  hs_script :: "handshake_result list"
  wire :: bytes
  trace :: "act list"

definition EPOLLIN :: uint32 where "EPOLLIN = 0x001"
definition EPOLLOUT :: uint32 where "EPOLLOUT = 0x004"
definition EPOLLERR :: uint32 where "EPOLLERR = 0x008"
definition EPOLLHUP :: uint32 where "EPOLLHUP = 0x010"
definition EPOLLET :: uint32 where "EPOLLET = 0x80000000"

definition emit :: "act \<Rightarrow> connection \<Rightarrow> connection" where
  "emit a c = c\<lparr>trace := trace c @ [a]\<rparr>"

text \<open>The object a constructor call makes, given its two fresh buffers.\<close>

definition Connection_new :: "int \<Rightarrow> buffer \<Rightarrow> buffer \<Rightarrow> connection" where
  "Connection_new f ib ob =
     \<lparr>has_loop = True, fd = f, conn_state = kDisconnected, ssl = False,
      input_buffer = ib, output_buffer = ob, conn_limiter = None,
      has_connect_cb = False, has_disconnect_cb = False, in_loop_thread = True,
      wr_script = [], hs_script = [], wire = [], trace = []\<rparr>"

text \<open>The destructor: \<open>SSL_free\<close> drops the TLS object, and a socket still open is closed.\<close>

definition Connection_delete :: "connection \<Rightarrow> connection" where
  "Connection_delete c =
     (let c1 = (if ssl c then c\<lparr>ssl := False\<rparr> else c)
      in if 0 \<le> fd c1 then (emit (Sys_Close (fd c1)) c1)\<lparr>fd := -1\<rparr> else c1)"

definition Connection_SetConnected :: "connection \<Rightarrow> connection" where
  "Connection_SetConnected c = c\<lparr>conn_state := kConnected\<rparr>"

section \<open>Operations\<close>

definition Connection_HandleClose :: "connection \<Rightarrow> connection" where
  "Connection_HandleClose c =
     (if conn_state c = kDisconnected then c
      else
        (let c1 = c\<lparr>conn_state := kDisconnected\<rparr>;
             c2 = (if has_loop c1 then emit (Loop_Remove (fd c1)) c1 else c1);
             c3 = (if 0 \<le> fd c2 then (emit (Sys_Close (fd c2)) c2)\<lparr>fd := -1\<rparr> else c2)
         in if has_disconnect_cb c3 then emit (Cb_Disconnect (fd c3)) c3 else c3))"

definition Connection_HandleError :: "connection \<Rightarrow> connection" where
  "Connection_HandleError c =
     (if conn_state c = kDisconnected then c
      else
        (let c1 = (if conn_state c = kConnecting \<and> has_connect_cb c
                   then emit (Cb_Connect False) c else c)
         in Connection_HandleClose c1))"

text \<open>
  \<open>Write\<close>: the number of bytes accepted, the reason when it is not positive, and the new state.
  A call the script says nothing about finds the socket full.
\<close>

definition Connection_Write :: "bytes \<Rightarrow> connection \<Rightarrow> nat \<times> io_cause \<times> connection" where
  "Connection_Write data c =
     (case wr_script c of
        [] \<Rightarrow> (0, if ssl c then SSL_WANT_WRITE else EAGAIN, c)
      | (k, e) # rest \<Rightarrow>
          (let n = min k (length data)
           in (n, e, c\<lparr>wr_script := rest, wire := wire c @ take n data\<rparr>)))"

definition would_block :: "bool \<Rightarrow> io_cause \<Rightarrow> bool" where
  "would_block over_ssl e =
     (if over_ssl then e = SSL_WANT_READ \<or> e = SSL_WANT_WRITE
      else e = EAGAIN \<or> e = EWOULDBLOCK)"

text \<open>The read loop of \<open>HandleRead\<close>; \<open>cb\<close> is \<open>message_callback_\<close> when it is set.\<close>

fun read_loop :: "(connection \<Rightarrow> connection) option \<Rightarrow> read_result list \<Rightarrow> connection \<Rightarrow> connection" where
  "read_loop cb [] c = c"
| "read_loop cb (r # rs) c =
     (if conn_state c = kDisconnected then c
      else
        (case r of
           Rd data \<Rightarrow>
             if data \<noteq> [] then
               (let c1 = c\<lparr>input_buffer := Buffer_Append (input_buffer c) data\<rparr>
                in read_loop cb rs (case cb of None \<Rightarrow> c1 | Some f \<Rightarrow> f c1))
             else Connection_HandleClose c
         | Rd_Fail e \<Rightarrow>
             if would_block (ssl c) e then c else Connection_HandleError c))"

text \<open>\<open>HandleRead\<close> past its first two tests: the rate limit, then the loop.\<close>

definition HandleRead_ready ::
    "(connection \<Rightarrow> connection) option \<Rightarrow> read_result list \<Rightarrow> connection \<Rightarrow> connection" where
  "HandleRead_ready cb rds c =
     (let (ok, lm) = CheckRateLimit (conn_limiter c);
          c1 = c\<lparr>conn_limiter := lm\<rparr>
      in if \<not> ok then c1 else read_loop cb rds c1)"

definition Connection_HandleHandshake ::
    "(connection \<Rightarrow> connection) option \<Rightarrow> read_result list \<Rightarrow> connection \<Rightarrow> connection" where
  "Connection_HandleHandshake cb rds c =
     (case hs_script c of
        [] \<Rightarrow> c
      | h # rest \<Rightarrow>
          (let c1 = c\<lparr>hs_script := rest\<rparr>
           in case h of
                Hs_Done \<Rightarrow> HandleRead_ready cb rds (c1\<lparr>conn_state := kConnected\<rparr>)
              | Hs_Want \<Rightarrow> c1
              | Hs_Fail \<Rightarrow> Connection_HandleError c1))"

definition Connection_HandleRead ::
    "(connection \<Rightarrow> connection) option \<Rightarrow> read_result list \<Rightarrow> connection \<Rightarrow> connection" where
  "Connection_HandleRead cb rds c =
     (if conn_state c = kDisconnected then c
      else if conn_state c = kHandshaking then Connection_HandleHandshake cb rds c
      else HandleRead_ready cb rds c)"

text \<open>
  The write loop of \<open>HandleWrite\<close>: \<open>True\<close> when control reaches the end of the loop,
  \<open>False\<close> when the function returned from inside it.
\<close>

function write_loop :: "connection \<Rightarrow> bool \<times> connection" where
  "write_loop c =
     (if 0 < Buffer_ReadableBytes (output_buffer c) \<and> conn_state c \<noteq> kDisconnected then
        (case Connection_Write
                (take (Buffer_ReadableBytes (output_buffer c)) (Buffer_Peek (output_buffer c))) c of
           (n, e, c1) \<Rightarrow>
             if 0 < n then write_loop (c1\<lparr>output_buffer := Buffer_Retrieve (output_buffer c1) n\<rparr>)
             else if would_block (ssl c1) e then (True, c1)
             else (False, Connection_HandleError c1))
      else (True, c))"
  by pat_completeness auto
termination
  by (relation "measure (\<lambda>c. length (wr_script c))")
     (auto simp: Connection_Write_def Let_def split: list.splits)

declare write_loop.simps [simp del]

text \<open>\<open>so_error\<close> says whether \<open>getsockopt(SO_ERROR)\<close> failed or returned an error.\<close>

definition Connection_HandleWrite ::
    "bool \<Rightarrow> (connection \<Rightarrow> connection) option \<Rightarrow> read_result list \<Rightarrow> connection \<Rightarrow> connection" where
  "Connection_HandleWrite so_error cb rds c =
     (if conn_state c = kDisconnected then c
      else if conn_state c = kConnecting \<and> so_error then Connection_HandleError c
      else
        (let c1 = (if conn_state c = kConnecting
                   then (let c0 = c\<lparr>conn_state := kConnected\<rparr>
                         in if has_connect_cb c0 then emit (Cb_Connect True) c0 else c0)
                   else c)
         in if conn_state c1 = kHandshaking then Connection_HandleHandshake cb rds c1
            else
              (case write_loop c1 of
                 (False, c2) \<Rightarrow> c2
               | (True, c2) \<Rightarrow>
                   if Buffer_ReadableBytes (output_buffer c2) = 0 \<and> conn_state c2 \<noteq> kDisconnected
                   then emit (Loop_Modify (fd c2) (EPOLLIN OR EPOLLET)) c2 else c2)))"

definition Connection_Send :: "bytes \<Rightarrow> connection \<Rightarrow> connection" where
  "Connection_Send data c =
     (if \<not> in_loop_thread c then emit (Loop_Queue data) c
      else
        (let c1 = c\<lparr>output_buffer := Buffer_Append (output_buffer c) data\<rparr>;
             c2 = (if conn_state c1 = kConnected \<and>
                      Buffer_ReadableBytes (output_buffer c1) = length data
                   then (case Connection_Write data c1 of
                           (n, e, c') \<Rightarrow>
                             if 0 < n
                             then c'\<lparr>output_buffer := Buffer_Retrieve (output_buffer c') n\<rparr>
                             else c')
                   else c1)
         in if 0 < Buffer_ReadableBytes (output_buffer c2)
            then emit (Loop_Modify (fd c2) (EPOLLIN OR EPOLLOUT OR EPOLLET)) c2 else c2))"

definition Connection_Shutdown :: "connection \<Rightarrow> connection" where
  "Connection_Shutdown c =
     (if conn_state c = kConnected then
        (let c1 = c\<lparr>conn_state := kDisconnecting\<rparr>
         in if Buffer_ReadableBytes (output_buffer c1) = 0 then emit (Sys_Shutdown (fd c1)) c1 else c1)
      else c)"

definition Connection_ForceClose :: "connection \<Rightarrow> connection" where
  "Connection_ForceClose c = Connection_HandleClose c"

definition Connection_SetSsl ::
    "(connection \<Rightarrow> connection) option \<Rightarrow> read_result list \<Rightarrow> connection \<Rightarrow> connection" where
  "Connection_SetSsl cb rds c =
     Connection_HandleHandshake cb rds (c\<lparr>ssl := True, conn_state := kHandshaking\<rparr>)"

text \<open>\<open>valid\<close> says whether \<open>inet_pton\<close> accepts the host; \<open>res\<close> is what \<open>connect\<close> returns.\<close>

definition Connection_Connect :: "bool \<Rightarrow> connect_result \<Rightarrow> connection \<Rightarrow> unit result \<times> connection" where
  "Connection_Connect valid res c =
     (if \<not> valid then (Result_Failure kConfigError ''Invalid address'', c)
      else
        (case res of
           Conn_Err \<Rightarrow> (Result_Failure kConnectionFailed ''Connect failed'', c)
         | Conn_InProgress \<Rightarrow> (Result_Success (), c\<lparr>conn_state := kConnecting\<rparr>)
         | Conn_Ok \<Rightarrow>
             (let c1 = c\<lparr>conn_state := kConnected\<rparr>
              in (Result_Success (), if has_connect_cb c1 then emit (Cb_Connect True) c1 else c1))))"

section \<open>Runs of a connection\<close>

text \<open>
  What happens to a connection once its state is set up: events of the loop and calls of the
  protocol code, in any order.  No message callback is installed, as on the server.
\<close>

datatype conn_op =
    Do_Read "read_result list"
  | Do_Write bool
  | Do_Send bytes
  | Do_Shutdown
  | Do_Close
  | Do_Error

fun conn_step :: "connection \<Rightarrow> conn_op \<Rightarrow> connection" where
  "conn_step c (Do_Read rds) = Connection_HandleRead None rds c"
| "conn_step c (Do_Write so_error) = Connection_HandleWrite so_error None [] c"
| "conn_step c (Do_Send data) = Connection_Send data c"
| "conn_step c Do_Shutdown = Connection_Shutdown c"
| "conn_step c Do_Close = Connection_ForceClose c"
| "conn_step c Do_Error = Connection_HandleError c"

definition conn_run :: "connection \<Rightarrow> conn_op list \<Rightarrow> connection" where
  "conn_run = foldl conn_step"

lemmas conn_ops = Connection_HandleClose_def Connection_HandleError_def Connection_Write_def
  HandleRead_ready_def Connection_HandleHandshake_def Connection_HandleRead_def
  Connection_HandleWrite_def Connection_Send_def Connection_Shutdown_def Connection_ForceClose_def
  emit_def Let_def

fun submitted :: "conn_op list \<Rightarrow> bytes" where
  "submitted [] = []"
| "submitted (Do_Send data # ops) = data @ submitted ops"
| "submitted (_ # ops) = submitted ops"

subsection \<open>Frame and stream lemmas\<close>

text \<open>The bytes written to the socket followed by the bytes still waiting.\<close>

definition stream :: "connection \<Rightarrow> bytes" where
  "stream c = wire c @ content (output_buffer c)"

definition conn_inv :: "connection \<Rightarrow> bool" where
  "conn_inv c \<longleftrightarrow> buffer_inv (input_buffer c) \<and> buffer_inv (output_buffer c)"

text \<open>An operation that adds \<open>xs\<close> to the output stream and keeps what no operation changes.\<close>

definition extends :: "bytes \<Rightarrow> connection \<Rightarrow> connection \<Rightarrow> bool" where
  "extends xs c c' \<longleftrightarrow> stream c' = stream c @ xs \<and>
     (conn_inv c \<longrightarrow> conn_inv c') \<and> in_loop_thread c' = in_loop_thread c"

lemma extends_refl [simp]: "extends [] c c"
  by (simp add: extends_def)

lemma extends_trans: "extends xs a b \<Longrightarrow> extends ys b c \<Longrightarrow> extends (xs @ ys) a c"
  by (simp add: extends_def)

lemma extends_trans0: "extends [] a b \<Longrightarrow> extends [] b c \<Longrightarrow> extends [] a c"
  by (simp add: extends_def)

lemma extends_emit [simp]: "extends xs c (emit a c') = extends xs c c'"
  by (simp add: extends_def emit_def stream_def conn_inv_def)

lemma extends_state [simp]:
  "extends xs c (c'\<lparr>conn_state := s\<rparr>) = extends xs c c'"
  "extends xs c (c'\<lparr>fd := f\<rparr>) = extends xs c c'"
  "extends xs c (c'\<lparr>hs_script := h\<rparr>) = extends xs c c'"
  "extends xs c (c'\<lparr>conn_limiter := l\<rparr>) = extends xs c c'"
  by (simp_all add: extends_def stream_def conn_inv_def)

lemma HandleClose_extends [simp]: "extends [] c (Connection_HandleClose c)"
  by (simp add: Connection_HandleClose_def Let_def)

lemma HandleError_extends [simp]: "extends [] c (Connection_HandleError c)"
proof -
  have "extends [] c (Connection_HandleClose c')" if "extends [] c c'" for c'
    using that extends_trans0 HandleClose_extends by blast
  then show ?thesis by (simp add: Connection_HandleError_def Let_def)
qed

lemma Write_retrieve_extends:
  assumes "conn_inv c" and "Connection_Write (content (output_buffer c)) c = (n, e, c1)"
  shows "extends [] c (if 0 < n then c1\<lparr>output_buffer := Buffer_Retrieve (output_buffer c1) n\<rparr> else c1)"
  using assms
  by (auto simp: Connection_Write_def extends_def stream_def conn_inv_def buf_simps buffer_invs Let_def
      split: list.splits)

lemma write_loop_extends: "conn_inv c \<Longrightarrow> extends [] c (snd (write_loop c))"
proof (induction c rule: write_loop.induct)
  case (1 c)
  obtain n e c1 where w: "Connection_Write (content (output_buffer c)) c = (n, e, c1)"
    by (metis prod_cases3)
  then have w': "Connection_Write
      (take (Buffer_ReadableBytes (output_buffer c)) (Buffer_Peek (output_buffer c))) c = (n, e, c1)"
    by (simp add: content_def)
  let ?c2 = "c1\<lparr>output_buffer := Buffer_Retrieve (output_buffer c1) n\<rparr>"
  have ext: "extends [] c (if 0 < n then ?c2 else c1)"
    by (rule Write_retrieve_extends[OF 1(2) w])
  show ?case
  proof (cases "0 < Buffer_ReadableBytes (output_buffer c) \<and> conn_state c \<noteq> kDisconnected")
    case go: True
    show ?thesis
    proof (cases "0 < n")
      case True
      then have "extends [] c ?c2" and "conn_inv ?c2" using ext 1(2) by (auto simp: extends_def)
      with 1(1)[OF go w'[symmetric] refl True] True go w' show ?thesis
        by (subst write_loop.simps) (auto intro: extends_trans0)
    next
      case False
      with ext have "extends [] c c1" by simp
      with False go w' show ?thesis
        by (subst write_loop.simps) (auto intro: extends_trans0)
    qed
  next
    case False
    then show ?thesis by (subst write_loop.simps) auto
  qed
qed

lemma Send_extends:
  assumes "conn_inv c" and "in_loop_thread c"
  shows "extends data c (Connection_Send data c)"
proof -
  let ?c1 = "c\<lparr>output_buffer := Buffer_Append (output_buffer c) data\<rparr>"
  have inv1: "conn_inv ?c1" and ext1: "extends data c ?c1"
    using assms by (auto simp: conn_inv_def extends_def stream_def buf_simps buffer_invs)
  define c2 where "c2 = (if conn_state ?c1 = kConnected \<and> Buffer_ReadableBytes (output_buffer ?c1) = length data
      then (case Connection_Write data ?c1 of (n, e, c') \<Rightarrow>
              if 0 < n then c'\<lparr>output_buffer := Buffer_Retrieve (output_buffer c') n\<rparr> else c')
      else ?c1)"
  have "extends [] ?c1 c2"
  proof (cases "Buffer_ReadableBytes (output_buffer ?c1) = length data")
    case True
    then have "content (output_buffer ?c1) = data"
      using assms(1) inv1 by (simp add: conn_inv_def buf_simps buffer_invs)
    then show ?thesis
      using Write_retrieve_extends[OF inv1] by (auto simp: c2_def split: prod.splits)
  qed (simp add: c2_def)
  then have "extends data c c2" using extends_trans[OF ext1] by fastforce
  moreover have "Connection_Send data c =
      (if 0 < Buffer_ReadableBytes (output_buffer c2)
       then emit (Loop_Modify (fd c2) (EPOLLIN OR EPOLLOUT OR EPOLLET)) c2 else c2)"
    unfolding Connection_Send_def Let_def c2_def using assms(2) by (simp only: if_False not_not if_True simp_thms)
  ultimately show ?thesis by simp
qed

text \<open>
  A message callback that works through the connection: it replaces the input buffer, sends, and
  closes.  \<open>ops\<close> says what it does to a connection; \<open>callback_sends\<close> are the byte strings it may send.
\<close>

datatype callback_op = Use_Input buffer | Use_Send bytes | Use_Close

fun callback_step :: "connection \<Rightarrow> callback_op \<Rightarrow> connection" where
  "callback_step c (Use_Input b) = c\<lparr>input_buffer := b\<rparr>"
| "callback_step c (Use_Send d) = Connection_Send d c"
| "callback_step c Use_Close = Connection_ForceClose c"

definition uses_connection :: "(connection \<Rightarrow> connection) option \<Rightarrow> (connection \<Rightarrow> callback_op list) \<Rightarrow> bool" where
  "uses_connection cb ops \<longleftrightarrow> (\<forall>f c. cb = Some f \<longrightarrow>
     f c = foldl callback_step c (ops c) \<and> (\<forall>b. conn_inv c \<longrightarrow> Use_Input b \<in> set (ops c) \<longrightarrow> buffer_inv b))"

definition callback_sends :: "(connection \<Rightarrow> callback_op list) \<Rightarrow> bytes set" where
  "callback_sends ops = {d. \<exists>c. Use_Send d \<in> set (ops c)}"

lemma uses_None [simp]: "uses_connection None (\<lambda>_. [])" "callback_sends (\<lambda>_. []) = {}"
  by (simp_all add: uses_connection_def callback_sends_def)

text \<open>An operation that adds some of the strings \<open>S\<close>, each whole, to the output stream.\<close>

definition extends_by :: "bytes set \<Rightarrow> connection \<Rightarrow> connection \<Rightarrow> bool" where
  "extends_by S c c' \<longleftrightarrow> (\<exists>xs. extends (concat xs) c c' \<and> set xs \<subseteq> S)"

lemma extends_by_none: "extends [] c c' \<Longrightarrow> extends_by S c c'"
  unfolding extends_by_def by (intro exI[of _ "[]"]) simp

lemma extends_by_empty: "extends_by {} c c' = extends [] c c'"
  by (auto simp: extends_by_def)

lemma extends_by_send: "extends d c c' \<Longrightarrow> d \<in> S \<Longrightarrow> extends_by S c c'"
  unfolding extends_by_def by (intro exI[of _ "[d]"]) simp

lemma extends_by_trans: "extends_by S a b \<Longrightarrow> extends_by S b c \<Longrightarrow> extends_by S a c"
  unfolding extends_by_def by (metis concat_append extends_trans set_append Un_least)

lemma extends_by_keeps: "extends_by S c c' \<Longrightarrow> (conn_inv c \<longrightarrow> conn_inv c') \<and> in_loop_thread c' = in_loop_thread c"
  by (auto simp: extends_by_def extends_def)

definition may_send :: "bytes set \<Rightarrow> connection \<Rightarrow> bool" where
  "may_send S c \<longleftrightarrow> conn_inv c \<and> (in_loop_thread c \<or> S = {})"

lemma may_send_keeps: "extends_by S c c' \<Longrightarrow> may_send S c \<Longrightarrow> may_send S c'"
  using extends_by_keeps by (auto simp: may_send_def)

lemma callback_steps_extend:
  assumes "may_send S c" and "\<forall>d. Use_Send d \<in> set l \<longrightarrow> d \<in> S" and "\<forall>b. Use_Input b \<in> set l \<longrightarrow> buffer_inv b"
  shows "extends_by S c (foldl callback_step c l)"
  using assms
proof (induction l arbitrary: c)
  case Nil
  then show ?case by (simp add: extends_by_none)
next
  case (Cons op l)
  have step: "extends_by S c (callback_step c op)"
  proof (cases op)
    case (Use_Input b)
    with Cons.prems(3) show ?thesis by (intro extends_by_none) (simp add: extends_def stream_def conn_inv_def)
  next
    case (Use_Send d)
    then have "d \<in> S" using Cons.prems(2) by simp
    moreover have "extends d c (Connection_Send d c)"
      using Cons.prems(1) \<open>d \<in> S\<close> by (intro Send_extends) (auto simp: may_send_def)
    ultimately show ?thesis using Use_Send by (auto intro: extends_by_send)
  next
    case Use_Close
    then show ?thesis by (intro extends_by_none) (simp add: Connection_ForceClose_def)
  qed
  from Cons.IH[OF may_send_keeps[OF step Cons.prems(1)]] Cons.prems(2,3) step show ?case by (auto intro: extends_by_trans)
qed

lemma callback_extends:
  assumes "uses_connection cb ops" and "may_send (callback_sends ops) c"
  shows "extends_by (callback_sends ops) c (case cb of None \<Rightarrow> c | Some f \<Rightarrow> f c)"
proof (cases cb)
  case (Some f)
  have "extends_by (callback_sends ops) c (foldl callback_step c (ops c))"
    using assms Some by (intro callback_steps_extend) (auto simp: uses_connection_def callback_sends_def may_send_def)
  then show ?thesis using assms(1) Some by (simp add: uses_connection_def)
qed (simp add: extends_by_none)

lemma read_loop_extends_cb:
  "uses_connection cb ops \<Longrightarrow> may_send (callback_sends ops) c \<Longrightarrow> extends_by (callback_sends ops) c (read_loop cb rs c)"
proof (induction rs arbitrary: c)
  case Nil
  then show ?case by (simp add: extends_by_none)
next
  case (Cons r rs)
  show ?case
  proof (cases r)
    case (Rd data)
    let ?c1 = "c\<lparr>input_buffer := Buffer_Append (input_buffer c) data\<rparr>"
    have 1: "extends_by (callback_sends ops) c ?c1"
      by (intro extends_by_none) (auto simp: extends_def stream_def conn_inv_def buffer_invs)
    note may1 = may_send_keeps[OF 1 Cons.prems(2)]
    note 2 = callback_extends[OF Cons.prems(1) may1]
    note 3 = Cons.IH[OF Cons.prems(1) may_send_keeps[OF 2 may1]]
    from extends_by_trans[OF extends_by_trans[OF 1 2] 3] Rd show ?thesis
      by (simp add: Let_def extends_by_none)
  qed (simp add: extends_by_none)
qed

lemma HandleRead_ready_extends_cb:
  assumes "uses_connection cb ops" and "may_send (callback_sends ops) c"
  shows "extends_by (callback_sends ops) c (HandleRead_ready cb rds c)"
proof -
  have 1: "extends_by (callback_sends ops) c (c\<lparr>conn_limiter := lm\<rparr>)" for lm by (simp add: extends_by_none)
  have "extends_by (callback_sends ops) c (read_loop cb rds (c\<lparr>conn_limiter := lm\<rparr>))" for lm
    using extends_by_trans[OF 1 read_loop_extends_cb[OF assms(1) may_send_keeps[OF 1 assms(2)]]] .
  with 1 show ?thesis by (simp add: HandleRead_ready_def Let_def split: prod.splits)
qed

lemma HandleHandshake_extends_cb:
  assumes "uses_connection cb ops" and "may_send (callback_sends ops) c"
  shows "extends_by (callback_sends ops) c (Connection_HandleHandshake cb rds c)"
proof -
  have 1: "extends_by (callback_sends ops) c (c\<lparr>hs_script := h, conn_state := s\<rparr>)" for h s by (simp add: extends_by_none)
  have "extends_by (callback_sends ops) c (HandleRead_ready cb rds (c\<lparr>hs_script := h, conn_state := s\<rparr>))" for h s
    using extends_by_trans[OF 1 HandleRead_ready_extends_cb[OF assms(1) may_send_keeps[OF 1 assms(2)]]] .
  moreover have "extends_by (callback_sends ops) c (Connection_HandleError (c\<lparr>hs_script := h\<rparr>))" for h
    using extends_trans0[of c "c\<lparr>hs_script := h\<rparr>"] by (intro extends_by_none) simp
  ultimately show ?thesis
    by (simp add: Connection_HandleHandshake_def Let_def extends_by_none split: list.splits handshake_result.splits)
qed

lemma HandleRead_extends_cb:
  "uses_connection cb ops \<Longrightarrow> may_send (callback_sends ops) c \<Longrightarrow>
     extends_by (callback_sends ops) c (Connection_HandleRead cb rds c)"
  by (simp add: Connection_HandleRead_def HandleHandshake_extends_cb HandleRead_ready_extends_cb extends_by_none)

lemma may_send_nothing: "may_send {} c = conn_inv c"
  by (simp add: may_send_def)

lemmas HandleRead_extends = HandleRead_extends_cb[OF uses_None(1), unfolded uses_None(2) extends_by_empty may_send_nothing]

lemma HandleWrite_extends_cb:
  assumes "uses_connection cb ops" and may: "may_send (callback_sends ops) c"
  shows "extends_by (callback_sends ops) c (Connection_HandleWrite so_error cb rds c)"
proof -
  define c1 where "c1 = (if conn_state c = kConnecting
      then (let c0 = c\<lparr>conn_state := kConnected\<rparr> in if has_connect_cb c0 then emit (Cb_Connect True) c0 else c0)
      else c)"
  have c1: "extends_by (callback_sends ops) c c1" by (intro extends_by_none) (simp add: c1_def Let_def)
  note may1 = may_send_keeps[OF c1 may]
  obtain b c2 where w: "write_loop c1 = (b, c2)" by fastforce
  have "extends [] c1 c2" using write_loop_extends[of c1] may1 w by (simp add: may_send_def)
  then have "extends_by (callback_sends ops) c c2" using extends_by_trans[OF c1 extends_by_none] by blast
  moreover have "extends_by (callback_sends ops) c (emit a c2)" for a
    using calculation by (simp add: extends_by_def)
  moreover have "extends_by (callback_sends ops) c (Connection_HandleHandshake cb rds c1)"
    using extends_by_trans[OF c1 HandleHandshake_extends_cb[OF assms(1) may1]] .
  moreover have "extends_by (callback_sends ops) c (Connection_HandleError c)" by (simp add: extends_by_none)
  ultimately show ?thesis
    using w by (auto simp: Connection_HandleWrite_def c1_def[symmetric] Let_def extends_by_none split: bool.splits)
qed

lemmas HandleWrite_extends = HandleWrite_extends_cb[OF uses_None(1), unfolded uses_None(2) extends_by_empty may_send_nothing]

lemma Shutdown_extends: "extends [] c (Connection_Shutdown c)"
  by (simp add: Connection_Shutdown_def Let_def)

lemma conn_step_extends:
  "conn_inv c \<Longrightarrow> in_loop_thread c \<Longrightarrow> extends (submitted [op]) c (conn_step c op)"
  by (cases op) (simp_all add: HandleRead_extends HandleWrite_extends Send_extends
      Shutdown_extends Connection_ForceClose_def)

lemma submitted_Cons: "submitted (op # ops) = submitted [op] @ submitted ops"
  by (cases op) simp_all

lemma conn_run_extends:
  "conn_inv c \<Longrightarrow> in_loop_thread c \<Longrightarrow> extends (submitted ops) c (conn_run c ops)"
  unfolding conn_run_def
proof (induction ops arbitrary: c)
  case Nil
  then show ?case by simp
next
  case (Cons op ops)
  from conn_step_extends[OF Cons.prems, of op]
  have s: "extends (submitted [op]) c (conn_step c op)"
    and "conn_inv (conn_step c op)" "in_loop_thread (conn_step c op)"
    using Cons.prems by (simp_all add: extends_def)
  then show ?case
    using extends_trans[OF s Cons.IH] by (simp add: submitted_Cons[of op ops])
qed

subsection \<open>Invariants of a connection\<close>

text \<open>
  The pieces every operation is made of.  A predicate that survives each of them survives every
  run; the interpretations below are the invariants of the class.
\<close>

locale conn_invariant =
  fixes P :: "connection \<Rightarrow> bool"
  assumes p_input: "P c \<Longrightarrow> P (c\<lparr>input_buffer := b\<rparr>)"
    and p_limiter: "P c \<Longrightarrow> P (c\<lparr>conn_limiter := l\<rparr>)"
    and p_script: "P c \<Longrightarrow> P (c\<lparr>hs_script := h\<rparr>)"
    and p_secured: "P c \<Longrightarrow> conn_state c = kHandshaking \<Longrightarrow> P (c\<lparr>conn_state := kConnected\<rparr>)"
    and p_completed: "P c \<Longrightarrow> conn_state c = kConnecting \<Longrightarrow>
           P (if has_connect_cb c then emit (Cb_Connect True) (c\<lparr>conn_state := kConnected\<rparr>)
              else c\<lparr>conn_state := kConnected\<rparr>)"
    and p_close: "P c \<Longrightarrow> P (Connection_HandleClose c)"
    and p_error: "P c \<Longrightarrow> P (Connection_HandleError c)"
    and p_written: "P c \<Longrightarrow> conn_state c \<noteq> kDisconnected \<Longrightarrow>
           Connection_Write (content (output_buffer c)) c = (n, e, c1) \<Longrightarrow>
           P (if 0 < n then c1\<lparr>output_buffer := Buffer_Retrieve (output_buffer c1) n\<rparr> else c1)"
    and p_drained: "P c \<Longrightarrow> conn_state c \<noteq> kDisconnected \<Longrightarrow>
           Buffer_ReadableBytes (output_buffer c) = 0 \<Longrightarrow>
           P (emit (Loop_Modify (fd c) (EPOLLIN OR EPOLLET)) c)"
    and p_send: "P c \<Longrightarrow> P (Connection_Send data c)"
    and p_shutdown: "P c \<Longrightarrow> P (Connection_Shutdown c)"
begin

lemma p_callback: "uses_connection cb ops \<Longrightarrow> P c \<Longrightarrow> P (case cb of None \<Rightarrow> c | Some f \<Rightarrow> f c)"
proof (cases cb)
  case (Some f)
  assume "uses_connection cb ops" and P: "P c"
  then have f: "f c = foldl callback_step c (ops c)" using Some by (simp add: uses_connection_def)
  have "P (callback_step c op)" if "P c" for c op
    using that by (cases op) (simp_all add: p_input p_send p_close Connection_ForceClose_def)
  then have "P (foldl callback_step c l)" if "P c" for c l using that by (induction l arbitrary: c) simp_all
  with P Some f show ?thesis by simp
qed simp

lemma p_read_loop_cb: "uses_connection cb ops \<Longrightarrow> P c \<Longrightarrow> P (read_loop cb rs c)"
proof (induction rs arbitrary: c)
  case (Cons r rs)
  show ?case
  proof (cases r)
    case (Rd data)
    let ?c1 = "c\<lparr>input_buffer := Buffer_Append (input_buffer c) data\<rparr>"
    have "P (case cb of None \<Rightarrow> ?c1 | Some f \<Rightarrow> f ?c1)" by (rule p_callback[OF Cons.prems(1) p_input[OF Cons.prems(2)]])
    with Cons.IH[OF Cons.prems(1)] Rd Cons.prems(2) p_close show ?thesis by (simp add: Let_def)
  next
    case (Rd_Fail e)
    with Cons.prems(2) p_error show ?thesis by simp
  qed
qed simp

lemma p_ready_cb: "uses_connection cb ops \<Longrightarrow> P c \<Longrightarrow> P (HandleRead_ready cb rds c)"
  by (auto simp: HandleRead_ready_def Let_def p_limiter p_read_loop_cb split: prod.splits)

lemma p_handshake_cb:
  "uses_connection cb ops \<Longrightarrow> P c \<Longrightarrow> conn_state c = kHandshaking \<Longrightarrow> P (Connection_HandleHandshake cb rds c)"
  by (auto simp: Connection_HandleHandshake_def Let_def p_script p_error
      intro!: p_ready_cb[where ops = ops] p_secured split: list.splits handshake_result.splits)

lemma p_read_cb: "uses_connection cb ops \<Longrightarrow> P c \<Longrightarrow> P (Connection_HandleRead cb rds c)"
  by (auto simp: Connection_HandleRead_def intro: p_handshake_cb p_ready_cb)

lemmas p_read_loop = p_read_loop_cb[OF uses_None(1)]
lemmas p_read = p_read_cb[OF uses_None(1)]

lemma p_write_loop: "P c \<Longrightarrow> P (snd (write_loop c))"
proof (induction c rule: write_loop.induct)
  case (1 c)
  let ?d = "content (output_buffer c)"
  obtain n e c1 where w: "Connection_Write ?d c = (n, e, c1)" by (metis prod_cases3)
  show ?case
  proof (cases "0 < Buffer_ReadableBytes (output_buffer c) \<and> conn_state c \<noteq> kDisconnected")
    case go: True
    note p = p_written[OF 1(2) conjunct2[OF go] w]
    have eq: "write_loop c = (if 0 < n then write_loop (c1\<lparr>output_buffer := Buffer_Retrieve (output_buffer c1) n\<rparr>)
        else if would_block (ssl c1) e then (True, c1) else (False, Connection_HandleError c1))"
      using go w by (subst write_loop.simps) (simp add: content_def)
    show ?thesis
    proof (cases "0 < n")
      case True
      with 1(1)[OF go w[unfolded content_def, symmetric] refl True] p eq show ?thesis by simp
    next
      case False
      with p eq p_error show ?thesis by auto
    qed
  next
    case False
    with 1(2) show ?thesis by (subst write_loop.simps) auto
  qed
qed

lemma p_write_cb:
  assumes "uses_connection cb ops" and P: "P c"
  shows "P (Connection_HandleWrite so_error cb rds c)"
proof -
  define c1 where "c1 = (if conn_state c = kConnecting
      then (let c0 = c\<lparr>conn_state := kConnected\<rparr> in if has_connect_cb c0 then emit (Cb_Connect True) c0 else c0)
      else c)"
  have "P c1" using P p_completed[OF P] by (auto simp: c1_def Let_def split: if_splits)
  moreover obtain b c2 where w: "write_loop c1 = (b, c2)" by fastforce
  ultimately have "P c2" using p_write_loop[of c1] by simp
  with \<open>P c1\<close> P w show ?thesis
    by (auto simp: Connection_HandleWrite_def c1_def[symmetric] Let_def p_error p_handshake_cb[OF assms(1)] p_drained
        split: bool.splits)
qed

lemmas p_write = p_write_cb[OF uses_None(1)]

lemma p_step: "P c \<Longrightarrow> P (conn_step c op)"
  by (cases op) (simp_all add: p_read p_write p_send p_shutdown p_close p_error Connection_ForceClose_def)

lemma p_run: "P c \<Longrightarrow> P (conn_run c ops)"
  unfolding conn_run_def by (induction ops arbitrary: c) (simp_all add: p_step)

end

text \<open>The events of the end of a connection, and the life cycle they follow.\<close>

fun is_end :: "act \<Rightarrow> bool" where
  "is_end (Loop_Remove _) = True"
| "is_end (Sys_Close _) = True"
| "is_end (Cb_Disconnect _) = True"
| "is_end _ = False"

definition lifecycle :: "int \<Rightarrow> bool \<Rightarrow> connection \<Rightarrow> bool" where
  "lifecycle f cb c \<longleftrightarrow> has_loop c \<and> has_disconnect_cb c = cb \<and>
     (if conn_state c = kDisconnected
      then fd c = -1 \<and> filter is_end (trace c) =
             [Loop_Remove f, Sys_Close f] @ (if cb then [Cb_Disconnect (-1)] else [])
      else fd c = f \<and> 0 \<le> f \<and> filter is_end (trace c) = [])"

interpretation life: conn_invariant "lifecycle f cb" for f cb
proof (unfold_locales, goal_cases)
  case (6 c)
  then show ?case by (auto simp: lifecycle_def Connection_HandleClose_def emit_def Let_def)
next
  case (7 c)
  then show ?case
    by (auto simp: lifecycle_def Connection_HandleError_def Connection_HandleClose_def emit_def Let_def)
qed (auto simp: lifecycle_def emit_def conn_ops split: if_splits list.splits prod.splits)

text \<open>Bytes that wait are bytes the event loop has been asked to wait for.\<close>

fun interest :: "act list \<Rightarrow> uint32 option" where
  "interest [] = None"
| "interest (a # as) =
     (case interest as of Some m \<Rightarrow> Some m
      | None \<Rightarrow> (case a of Loop_Modify _ m \<Rightarrow> Some m | _ \<Rightarrow> None))"

lemma interest_snoc [simp]:
  "interest (as @ [a]) = (case a of Loop_Modify _ m \<Rightarrow> Some m | _ \<Rightarrow> interest as)"
  by (induction as) (auto split: act.splits option.splits)

definition armed :: "connection \<Rightarrow> bool" where
  "armed c \<longleftrightarrow> buffer_inv (output_buffer c) \<and>
     (conn_state c \<noteq> kDisconnected \<and> content (output_buffer c) \<noteq> [] \<longrightarrow>
        interest (trace c) = Some (EPOLLIN OR EPOLLOUT OR EPOLLET))"

lemma armed_send:
  assumes "armed c" shows "armed (Connection_Send data c)"
proof (cases "in_loop_thread c")
  case False
  with assms show ?thesis by (simp add: Connection_Send_def armed_def emit_def)
next
  case True
  have inv: "buffer_inv (Buffer_Append (output_buffer c) data)"
    using assms by (simp add: armed_def buffer_invs)
  obtain n e c1 where w: "Connection_Write data (c\<lparr>output_buffer := Buffer_Append (output_buffer c) data\<rparr>) = (n, e, c1)"
    by (metis prod_cases3)
  then have "output_buffer c1 = Buffer_Append (output_buffer c) data" "conn_state c1 = conn_state c" "trace c1 = trace c"
    by (auto simp: Connection_Write_def Let_def split: list.splits)
  with w inv True show ?thesis
    by (auto simp: Connection_Send_def Let_def armed_def emit_def buf_simps buffer_invs)
qed

interpretation arm: conn_invariant armed
proof (unfold_locales, goal_cases)
  case (8 c n e c1)
  then show ?case
    by (auto simp: armed_def Connection_Write_def Let_def buf_simps buffer_invs split: list.splits)
next
  case (9 c)
  then show ?case by (simp add: armed_def emit_def buf_simps)
next
  case (10 c data)
  then show ?case by (rule armed_send)
qed (auto simp: armed_def conn_ops)

text \<open>The connect callback has run, or a connection attempt is still pending, but never both.\<close>

fun is_connect :: "act \<Rightarrow> bool" where
  "is_connect (Cb_Connect _) = True"
| "is_connect _ = False"

definition connect_once :: "connection \<Rightarrow> bool" where
  "connect_once c \<longleftrightarrow>
     length (filter is_connect (trace c)) + (if conn_state c = kConnecting then 1 else 0) \<le> 1"

interpretation once: conn_invariant connect_once
  by unfold_locales
     (auto simp: connect_once_def conn_ops split: if_splits list.splits prod.splits)

definition reported :: "act list \<Rightarrow> connection \<Rightarrow> bool" where
  "reported marks c \<longleftrightarrow> conn_state c \<noteq> kConnecting \<and> filter is_connect (trace c) = marks"

interpretation rep: conn_invariant "reported marks" for marks
  by unfold_locales
     (auto simp: reported_def conn_ops split: if_splits list.splits prod.splits)

text \<open>A connection being shut down with bytes still to send.\<close>

fun is_shutdown :: "act \<Rightarrow> bool" where
  "is_shutdown (Sys_Shutdown _) = True"
| "is_shutdown _ = False"

definition leaving :: "act list \<Rightarrow> connection \<Rightarrow> bool" where
  "leaving marks c \<longleftrightarrow> conn_state c \<in> {kDisconnecting, kDisconnected} \<and>
     filter is_shutdown (trace c) = marks"

interpretation leave: conn_invariant "leaving marks" for marks
  by unfold_locales
     (auto simp: leaving_def conn_ops split: if_splits list.splits prod.splits)

section \<open>Properties\<close>

text \<open>
  C2. Output is a FIFO stream.  Whatever partial writes, full sockets, handshakes and
  read events come in between, the bytes given to the kernel followed by the bytes still in the
  output buffer are exactly the bytes passed to \<open>Send\<close>, in order: nothing is lost, repeated or
  reordered, not even by \<open>Send\<close>'s own immediate write of what it has just appended.
\<close>

theorem Connection_output_stream:
  assumes "conn_inv c" and "in_loop_thread c"
  shows "wire (conn_run c ops) @ content (output_buffer (conn_run c ops)) =
         wire c @ content (output_buffer c) @ submitted ops"
  using conn_run_extends[OF assms, of ops] by (simp add: extends_def stream_def)

definition fresh_buffer :: buffer where
  "fresh_buffer = snd (Buffer_new [] 1024)"

lemma fresh_buffer [simp]: "buffer_inv fresh_buffer" "content fresh_buffer = []"
  using Buffer_new_inv[of "[]" 1024] by (simp_all add: fresh_buffer_def)

definition server_conn :: "int \<Rightarrow> (nat \<times> io_cause) list \<Rightarrow> connection" where
  "server_conn f script =
     (Connection_SetConnected (Connection_new f fresh_buffer fresh_buffer))
       \<lparr>has_disconnect_cb := True, wr_script := script\<rparr>"

lemma server_conn_simps [simp]:
  "conn_inv (server_conn f w)" "in_loop_thread (server_conn f w)" "wire (server_conn f w) = []"
  "content (output_buffer (server_conn f w)) = []" "trace (server_conn f w) = []"
  "content (input_buffer (server_conn f w)) = []" "conn_state (server_conn f w) = kConnected"
  "fd (server_conn f w) = f" "has_loop (server_conn f w)" "has_disconnect_cb (server_conn f w)"
  "conn_limiter (server_conn f w) = None" "ssl (server_conn f w) = False"
  "input_buffer (server_conn f w) = fresh_buffer" "output_buffer (server_conn f w) = fresh_buffer"
  "wr_script (server_conn f w) = w"
  by (simp_all add: server_conn_def Connection_SetConnected_def Connection_new_def conn_inv_def)

theorem Connection_output_stream_witness:
  "wire (conn_run (server_conn 7 [(2, IO_Other), (0, EAGAIN), (9, IO_Other)])
           [Do_Send ''abc'', Do_Write False, Do_Send ''d'', Do_Write False]) @
   content (output_buffer (conn_run (server_conn 7 [(2, IO_Other), (0, EAGAIN), (9, IO_Other)])
           [Do_Send ''abc'', Do_Write False, Do_Send ''d'', Do_Write False])) = ''abcd''"
  using Connection_output_stream[of "server_conn 7 [(2, IO_Other), (0, EAGAIN), (9, IO_Other)]"
      "[Do_Send ''abc'', Do_Write False, Do_Send ''d'', Do_Write False]"] by simp

text \<open>
  C6. No wake-up is lost.  Whenever a live connection has bytes to send after any sequence of
  events, the last interest registered with the event loop includes \<open>EPOLLOUT\<close>; write
  interest is dropped only when the buffer is empty.
\<close>

theorem Connection_pending_output_armed:
  assumes "buffer_inv (output_buffer c)" and "content (output_buffer c) = []"
    and "conn_state (conn_run c ops) \<noteq> kDisconnected"
    and "content (output_buffer (conn_run c ops)) \<noteq> []"
  shows "interest (trace (conn_run c ops)) = Some (EPOLLIN OR EPOLLOUT OR EPOLLET)"
proof -
  from assms(1,2) have "armed c" by (simp add: armed_def)
  then have "armed (conn_run c ops)" by (rule arm.p_run)
  with assms(3,4) show ?thesis by (simp add: armed_def)
qed

theorem Connection_pending_output_armed_witness:
  "interest (trace (conn_run (server_conn 5 [(1, IO_Other)]) [Do_Send ''ab''])) =
     Some (EPOLLIN OR EPOLLOUT OR EPOLLET)"
proof -
  let ?c = "conn_run (server_conn 5 [(1, IO_Other)]) [Do_Send ''ab'']"
  have "conn_state ?c = kConnected \<and> wire ?c = ''a''"
    by (simp add: conn_run_def Connection_Send_def Let_def Connection_Write_def emit_def buf_simps buffer_invs)
  with conn_run_extends[of "server_conn 5 [(1, IO_Other)]" "[Do_Send ''ab'']"]
  have "conn_state ?c \<noteq> kDisconnected" and "content (output_buffer ?c) \<noteq> []"
    by (auto simp: extends_def stream_def)
  with Connection_pending_output_armed[of "server_conn 5 [(1, IO_Other)]" "[Do_Send ''ab'']"]
  show ?thesis by simp
qed

text \<open>
  C5. A connection ends once.  After any events, either it is open, its descriptor is the
  original one and nothing of its end has happened, or it is closed and exactly this happened, in
  this order and once: the descriptor was removed from the event loop, closed, and the disconnect
  callback ran.  By then \<open>Fd()\<close> is already \<open>-1\<close>.
\<close>

theorem Connection_lifecycle:
  assumes "0 \<le> f"
  shows "let c = conn_run (server_conn f script) ops in
         (if conn_state c = kDisconnected
          then fd c = -1 \<and> filter is_end (trace c) = [Loop_Remove f, Sys_Close f, Cb_Disconnect (-1)]
          else fd c = f \<and> filter is_end (trace c) = [])"
proof -
  have "lifecycle f True (server_conn f script)" using assms by (simp add: lifecycle_def)
  then have "lifecycle f True (conn_run (server_conn f script) ops)" by (rule life.p_run)
  then show ?thesis by (simp add: lifecycle_def Let_def)
qed

theorem Connection_lifecycle_witness:
  "let c = conn_run (server_conn 5 []) [Do_Read [Rd ''x'', Rd []], Do_Close, Do_Error] in
     (if conn_state c = kDisconnected
      then fd c = -1 \<and> filter is_end (trace c) = [Loop_Remove 5, Sys_Close 5, Cb_Disconnect (-1)]
      else fd c = 5 \<and> filter is_end (trace c) = [])"
  by (rule Connection_lifecycle) simp

lemma closed_step:
  "conn_state c = kDisconnected \<Longrightarrow>
     conn_state (conn_step c op) = kDisconnected \<and> wire (conn_step c op) = wire c \<and>
     content (input_buffer (conn_step c op)) = content (input_buffer c)"
  by (cases op) (auto simp: conn_ops)

text \<open>
  A closed connection stays closed: later events and calls write nothing to the socket,
  deliver nothing to the input buffer and never reopen it.
\<close>

theorem Connection_closed_forever:
  assumes "conn_state c = kDisconnected"
  shows "conn_state (conn_run c ops) = kDisconnected \<and> wire (conn_run c ops) = wire c \<and>
         content (input_buffer (conn_run c ops)) = content (input_buffer c)"
  using assms unfolding conn_run_def
  by (induction ops arbitrary: c) (simp_all add: closed_step)

theorem Connection_closed_forever_witness:
  "wire (conn_run (Connection_ForceClose (server_conn 5 [(9, IO_Other)])) [Do_Send ''late'', Do_Write False]) = []"
proof -
  let ?c = "Connection_ForceClose (server_conn 5 [(9, IO_Other)])"
  have "conn_state ?c = kDisconnected" and "wire ?c = []"
    by (simp_all add: Connection_ForceClose_def Connection_HandleClose_def emit_def Let_def)
  with Connection_closed_forever[of ?c] show ?thesis by simp
qed

text \<open>The data that arrives before the first result that is not data.\<close>

fun received :: "read_result list \<Rightarrow> bytes" where
  "received (Rd data # rs) = (if data = [] then [] else data @ received rs)"
| "received _ = []"

fun closes_on :: "bool \<Rightarrow> read_result list \<Rightarrow> bool" where
  "closes_on over_ssl (Rd data # rs) = (if data = [] then True else closes_on over_ssl rs)"
| "closes_on over_ssl (Rd_Fail e # rs) = (\<not> would_block over_ssl e)"
| "closes_on over_ssl [] = False"

lemma read_loop_spec:
  assumes "conn_inv c" and "conn_state c \<noteq> kDisconnected"
  shows "content (input_buffer (read_loop None rs c)) = content (input_buffer c) @ received rs \<and>
         (conn_state (read_loop None rs c) = kDisconnected \<longleftrightarrow> closes_on (ssl c) rs)"
  using assms
proof (induction rs arbitrary: c)
  case Nil
  then show ?case by simp
next
  case (Cons r rs)
  show ?case
  proof (cases r)
    case (Rd data)
    let ?c1 = "c\<lparr>input_buffer := Buffer_Append (input_buffer c) data\<rparr>"
    have "conn_inv ?c1" and "conn_state ?c1 \<noteq> kDisconnected"
      using Cons.prems by (auto simp: conn_inv_def buffer_invs)
    from Cons.IH[OF this] Rd Cons.prems show ?thesis
      by (auto simp: conn_inv_def buf_simps conn_ops)
  next
    case (Rd_Fail e)
    with Cons.prems show ?thesis by (auto simp: conn_ops)
  qed
qed

text \<open>
  One read event moves into the input buffer, in order and behind what was there, every
  byte the socket yields up to its first empty or failed read, and closes the connection exactly
  when that read is end of file or an error other than ``would block''.
\<close>

theorem HandleRead_collects:
  assumes "conn_inv c" and "conn_state c = kConnected" and "conn_limiter c = None"
  shows "content (input_buffer (Connection_HandleRead None rs c)) = content (input_buffer c) @ received rs \<and>
         (conn_state (Connection_HandleRead None rs c) = kDisconnected \<longleftrightarrow> closes_on (ssl c) rs)"
proof -
  have "Connection_HandleRead None rs c = read_loop None rs (c\<lparr>conn_limiter := None\<rparr>)"
    using assms by (simp add: Connection_HandleRead_def HandleRead_ready_def CheckRateLimit_def)
  with read_loop_spec[of "c\<lparr>conn_limiter := None\<rparr>" rs] assms show ?thesis
    by (simp add: conn_inv_def)
qed

theorem HandleRead_collects_witness:
  "content (input_buffer (Connection_HandleRead None [Rd ''ab'', Rd ''c'', Rd_Fail EAGAIN] (server_conn 5 []))) = ''abc''"
  using HandleRead_collects[of "server_conn 5 []" "[Rd ''ab'', Rd ''c'', Rd_Fail EAGAIN]"] by simp

text \<open>The first write event of a pending attempt reports whether the socket carries an error.\<close>

lemma first_write_reports:
  assumes "conn_state c = kConnecting" and "has_connect_cb c" and "filter is_connect (trace c) = []"
  shows "reported [Cb_Connect (\<not> so_error)] (Connection_HandleWrite so_error cb rds c)"
proof -
  let ?d = "emit (Cb_Connect True) (c\<lparr>conn_state := kConnected\<rparr>)"
  have "reported [Cb_Connect True] ?d" using assms by (simp add: emit_def reported_def)
  moreover obtain b c2 where w: "write_loop ?d = (b, c2)" by fastforce
  ultimately have r: "reported [Cb_Connect True] c2" using rep.p_write_loop[of _ ?d] by fastforce
  have d: "conn_state ?d = kConnected" "has_connect_cb (c\<lparr>conn_state := kConnected\<rparr>)"
    using assms by (simp_all add: emit_def)
  show ?thesis
  proof (cases so_error)
    case True
    with assms show ?thesis
      by (simp add: Connection_HandleWrite_def emit_def Connection_HandleError_def Connection_HandleClose_def reported_def Let_def)
  next
    case False
    with assms(1) d r w show ?thesis
      by (auto simp: Connection_HandleWrite_def Let_def reported_def emit_def[of "Loop_Modify _ _"] split: bool.splits)
  qed
qed

text \<open>
  A connection attempt reports at most once.  After \<open>Connect\<close>, whatever happens, the
  connect callback has run at most once, and the first write event of a pending attempt reports
  exactly whether the socket carries an error.
\<close>

theorem connect_callback_once:
  assumes "filter is_connect (trace c) = []"
    and "Connection_Connect valid res c = (r, c1)" and "conn_state c \<noteq> kConnecting"
  shows "length (filter is_connect (trace (conn_run c1 ops))) \<le> 1 \<and>
         (valid \<and> res = Conn_InProgress \<and> has_connect_cb c \<longrightarrow>
            filter is_connect (trace (Connection_HandleWrite so_error None [] c1)) = [Cb_Connect (\<not> so_error)])"
proof (intro conjI impI)
  have "connect_once c1" using assms
    by (auto simp: connect_once_def Connection_Connect_def emit_def Let_def split: if_splits connect_result.splits)
  then have "connect_once (conn_run c1 ops)" by (rule once.p_run)
  then show "length (filter is_connect (trace (conn_run c1 ops))) \<le> 1"
    by (simp add: connect_once_def split: if_splits)
next
  assume "valid \<and> res = Conn_InProgress \<and> has_connect_cb c"
  then have "conn_state c1 = kConnecting" "has_connect_cb c1" "filter is_connect (trace c1) = []"
    using assms by (auto simp: Connection_Connect_def)
  from first_write_reports[OF this]
  show "filter is_connect (trace (Connection_HandleWrite so_error None [] c1)) = [Cb_Connect (\<not> so_error)]"
    by (simp add: reported_def)
qed

theorem connect_callback_once_witness:
  "filter is_connect (trace (Connection_HandleWrite True None []
     (snd (Connection_Connect True Conn_InProgress
       ((Connection_new 3 fresh_buffer fresh_buffer)\<lparr>has_connect_cb := True\<rparr>))))) = [Cb_Connect False]"
proof -
  let ?c = "(Connection_new 3 fresh_buffer fresh_buffer)\<lparr>has_connect_cb := True\<rparr>"
  obtain r c1 where r: "Connection_Connect True Conn_InProgress ?c = (r, c1)" by fastforce
  have h: "filter is_connect (trace ?c) = []" "conn_state ?c \<noteq> kConnecting"
    by (simp_all add: Connection_new_def)
  from connect_callback_once[OF h(1) r h(2), of "[]" True] r show ?thesis
    by simp
qed

text \<open>
  A shutdown with bytes still to send is never completed: \<open>Shutdown\<close> leaves the
  half-close to a later flush, but no later event ever makes it, even when the buffer drains.
\<close>

theorem Shutdown_pending_never_completes:
  assumes "conn_state c = kConnected" and "0 < Buffer_ReadableBytes (output_buffer c)"
    and "filter is_shutdown (trace c) = []"
  shows "filter is_shutdown (trace (conn_run (Connection_Shutdown c) ops)) = []"
proof -
  have "leaving [] (Connection_Shutdown c)"
    using assms by (simp add: leaving_def Connection_Shutdown_def)
  then have "leaving [] (conn_run (Connection_Shutdown c) ops)" by (rule leave.p_run)
  then show ?thesis by (simp add: leaving_def)
qed

theorem Shutdown_pending_never_completes_witness:
  "filter is_shutdown (trace (conn_run (Connection_Shutdown (conn_run (server_conn 5 []) [Do_Send ''bye'']))
     [Do_Write False])) = []"
proof -
  let ?c = "conn_run (server_conn 5 []) [Do_Send ''bye'']"
  have "conn_state ?c = kConnected" "0 < Buffer_ReadableBytes (output_buffer ?c)"
    "filter is_shutdown (trace ?c) = []"
    by (simp_all add: conn_run_def Connection_Send_def Let_def Connection_Write_def emit_def buf_simps buffer_invs)
  then show ?thesis by (rule Shutdown_pending_never_completes)
qed

end
