(* ===== verification/Envelope.thy ===== *)
theory Envelope
  imports Connection
begin

text \<open>
  What the protocol code shares: the \<open>StreamEnvelope\<close> message, the Protocol Buffers runtime,
  the handlers an application registers, and the \<open>IStreamContext\<close> they write through; and
  the framing contract of a byte stream.  The generated message class is a record of the fields
  the library reads or writes; \<open>hdr_rest\<close>, \<open>pay_rest\<close> and \<open>env_rest\<close> stand for the
  fields it only passes on.  Serialisation and parsing belong to the Protocol Buffers library and
  are parameters, collected in \<open>proto\<close>.
\<close>

section \<open>StreamEnvelope\<close>

record header =
  message_id :: string
  correlation_id :: string
  message_type :: string
  protocol_version :: string
  hdr_rest :: bytes

record payload =
  pay_data :: bytes
  pay_rest :: bytes

record envelope =
  env_header :: "header option"
  env_payload :: "payload option"
  env_metadata :: "(string \<rightharpoonup> string) option"
  env_rest :: bytes

definition header_default :: header where
  "header_default = \<lparr>message_id = [], correlation_id = [], message_type = [],
     protocol_version = [], hdr_rest = []\<rparr>"

definition payload_default :: payload where
  "payload_default = \<lparr>pay_data = [], pay_rest = []\<rparr>"

definition envelope_empty :: envelope where
  "envelope_empty = \<lparr>env_header = None, env_payload = None, env_metadata = None, env_rest = []\<rparr>"

text \<open>The accessors of an absent sub-message read its default instance; the mutable ones create it.\<close>

definition get_header :: "envelope \<Rightarrow> header" where
  "get_header e = (case env_header e of None \<Rightarrow> header_default | Some h \<Rightarrow> h)"

definition get_data :: "envelope \<Rightarrow> bytes" where
  "get_data e = (case env_payload e of None \<Rightarrow> [] | Some p \<Rightarrow> pay_data p)"

definition upd_header :: "(header \<Rightarrow> header) \<Rightarrow> envelope \<Rightarrow> envelope" where
  "upd_header f e = e\<lparr>env_header := Some (f (get_header e))\<rparr>"

definition set_data :: "bytes \<Rightarrow> envelope \<Rightarrow> envelope" where
  "set_data d e = e\<lparr>env_payload :=
     Some (case env_payload e of None \<Rightarrow> payload_default\<lparr>pay_data := d\<rparr> | Some p \<Rightarrow> p\<lparr>pay_data := d\<rparr>)\<rparr>"

lemmas envelope_defs = header_default_def payload_default_def envelope_empty_def get_header_def
  get_data_def upd_header_def set_data_def

text \<open>
  The Protocol Buffers runtime: \<open>SerializeAsString\<close>; \<open>ParseFromString\<close>, which returns
  whether it succeeded and the message it filled in either case; and what \<open>ParseFromArray\<close>
  does with a negative size.
\<close>

record proto =
  pb_serialize :: "envelope \<Rightarrow> bytes"
  pb_parse :: "bytes \<Rightarrow> bool \<times> envelope"
  pb_parse_negative :: "int \<Rightarrow> bool \<times> envelope"

definition ParseFromArray :: "proto \<Rightarrow> bytes \<Rightarrow> int \<Rightarrow> bool \<times> envelope" where
  "ParseFromArray pb p n =
     (if 0 \<le> n then pb_parse pb (take (nat n) p) else pb_parse_negative pb n)"

text \<open>Documented behaviour: a message that was serialised parses back.\<close>

definition pb_roundtrip :: "proto \<Rightarrow> envelope list \<Rightarrow> bool" where
  "pb_roundtrip pb es \<longleftrightarrow> (\<forall>e \<in> set es. pb_parse pb (pb_serialize pb e) = (True, e))"

text \<open>A serialiser for the witnesses, which keeps the payload data only.\<close>

definition pb_data_only :: proto where
  "pb_data_only = \<lparr>pb_serialize = get_data, pb_parse = (\<lambda>bs. (True, set_data bs envelope_empty)),
     pb_parse_negative = (\<lambda>_. (False, envelope_empty))\<rparr>"

section \<open>Application handlers\<close>

text \<open>
  A handler acts on its connection only through the stream context: it writes envelopes or raw
  strings and closes.  It also has a state of its own (\<open>'s\<close>), may fill the response it is
  given, and may throw.
\<close>

datatype ctx_op = Ctx_Write_Envelope envelope | Ctx_Write bytes | Ctx_Close

type_synonym 's stream_handler = "'s \<Rightarrow> envelope \<Rightarrow> envelope \<Rightarrow> 's \<times> ctx_op list \<times> (exn + envelope)"
type_synonym 's raw_handler = "'s \<Rightarrow> bytes \<Rightarrow> 's \<times> ctx_op list \<times> (exn + unit)"
type_synonym 's message_handler = "'s \<Rightarrow> envelope \<Rightarrow> 's"

definition no_throw :: "'s stream_handler \<Rightarrow> bool" where
  "no_throw sh \<longleftrightarrow> (\<forall>s req resp. \<exists>s' ops resp'. sh s req resp = (s', ops, Inr resp'))"

definition run_ctx :: "(ctx_op \<Rightarrow> connection \<Rightarrow> connection) \<Rightarrow> ctx_op list \<Rightarrow> connection \<Rightarrow> connection" where
  "run_ctx ctx ops c = foldl (\<lambda>c op. ctx op c) c ops"

text \<open>A 4-byte big-endian length and the bytes it counts, as every length-prefixed sender builds it.\<close>

definition length_frame :: "bytes \<Rightarrow> bytes" where
  "length_frame payload = htonl_bytes (of_nat (length payload)) @ payload"

section \<open>Framing of a byte stream\<close>

text \<open>
  \<open>dec\<close> looks at the front of the received bytes and returns the first message and the number of
  bytes it takes; \<open>drain\<close> takes messages off the front while there are any.
\<close>

function drain :: "(bytes \<Rightarrow> ('m \<times> nat) option) \<Rightarrow> bytes \<Rightarrow> 'm list \<times> bytes" where
  "drain dec bs =
     (case dec bs of
        None \<Rightarrow> ([], bs)
      | Some (m, n) \<Rightarrow>
          if 0 < n \<and> n \<le> length bs
          then (let (ms, r) = drain dec (drop n bs) in (m # ms, r))
          else ([], bs))"
  by pat_completeness auto
termination
  by (relation "measure (\<lambda>(dec, bs). length bs)") auto

declare drain.simps [simp del]

text \<open>Bytes that arrive in pieces, drained after each piece.\<close>

fun feed :: "(bytes \<Rightarrow> ('m \<times> nat) option) \<Rightarrow> bytes \<Rightarrow> bytes list \<Rightarrow> 'm list \<times> bytes" where
  "feed dec r [] = ([], r)"
| "feed dec r (ch # chs) =
     (let (ms, r') = drain dec (r @ ch); (ms', r'') = feed dec r' chs in (ms @ ms', r''))"

text \<open>A decoder takes at least one byte, and bytes that arrive later do not change what it found.\<close>

locale frame_dec =
  fixes dec :: "bytes \<Rightarrow> ('m \<times> nat) option"
  assumes dec_bounds: "dec bs = Some (m, n) \<Longrightarrow> 0 < n \<and> n \<le> length bs"
    and dec_mono: "dec bs = Some (m, n) \<Longrightarrow> dec (bs @ rest) = Some (m, n)"
begin

lemma drain_None: "dec bs = None \<Longrightarrow> drain dec bs = ([], bs)"
  by (subst drain.simps) simp

lemma drain_Some: "dec bs = Some (m, n) \<Longrightarrow> drain dec bs = (let (ms, r) = drain dec (drop n bs) in (m # ms, r))"
  using dec_bounds[of bs m n] by (subst drain.simps) simp

lemma drain_rest: "drain dec bs = (ms, r) \<Longrightarrow> dec r = None"
proof (induction bs arbitrary: ms rule: length_induct)
  case (1 bs)
  show ?case
  proof (cases "dec bs")
    case None
    with 1(2) show ?thesis by (simp add: drain_None)
  next
    case (Some q)
    obtain m n where q: "q = (m, n)" by (cases q)
    obtain ms' where "drain dec (drop n bs) = (ms', r)"
      using 1(2) drain_Some[of bs m n] Some q by (auto split: prod.splits)
    moreover have "length (drop n bs) < length bs" using dec_bounds[of bs m n] Some q by auto
    ultimately show ?thesis using 1(1) by blast
  qed
qed

text \<open>Draining what arrived, then what is left with what arrives next, is draining it all at once.\<close>

lemma drain_append:
  "drain dec (a @ b) =
     (let (ms, r) = drain dec a; (ms', r') = drain dec (r @ b) in (ms @ ms', r'))"
proof (induction a rule: length_induct)
  case (1 a)
  show ?case
  proof (cases "dec a")
    case None
    then show ?thesis by (simp add: drain_None split: prod.splits)
  next
    case (Some q)
    obtain m n where q: "q = (m, n)" by (cases q)
    have b: "0 < n" "n \<le> length a" using dec_bounds[of a m n] Some q by auto
    then have IH: "drain dec (drop n a @ b) =
        (let (ms, r) = drain dec (drop n a); (ms', r') = drain dec (r @ b) in (ms @ ms', r'))"
      using 1 by simp
    show ?thesis
      using drain_Some[of a m n] drain_Some[OF dec_mono, of a m n b] Some q IH b
      by (simp add: Let_def split: prod.splits)
  qed
qed

lemma feed_concat: "dec r = None \<Longrightarrow> feed dec r chs = drain dec (r @ concat chs)"
proof (induction chs arbitrary: r)
  case Nil
  then show ?case by (simp add: drain_None)
next
  case (Cons ch chs)
  obtain ms r' where d: "drain dec (r @ ch) = (ms, r')" by fastforce
  then have "dec r' = None" by (rule drain_rest)
  with Cons.IH have "feed dec r' chs = drain dec (r' @ concat chs)" by blast
  with d drain_append[of "r @ ch" "concat chs"] show ?case by simp
qed

end

text \<open>A decoder that inverts an encoder.\<close>

locale frame_codec = frame_dec dec
  for dec :: "bytes \<Rightarrow> ('m \<times> nat) option" +
  fixes enc :: "'m \<Rightarrow> bytes"
    and ok :: "'m \<Rightarrow> bool"
  assumes dec_enc: "ok m \<Longrightarrow> dec (enc m @ rest) = Some (m, length (enc m))"
begin

lemma dec_partial:
  assumes "ok m" and "enc m = p @ q" and "q \<noteq> []"
  shows "dec p = None"
proof (rule ccontr)
  assume "dec p \<noteq> None"
  then obtain m' n where d: "dec p = Some (m', n)" by auto
  from dec_mono[OF d, of q] dec_enc[OF assms(1), of "[]"] assms(2)
  have "n = length (p @ q)" by simp
  with dec_bounds[OF d] assms(3) show False by simp
qed

lemma drain_concat:
  "list_all ok ms \<Longrightarrow> dec p = None \<Longrightarrow> drain dec (concat (map enc ms) @ p) = (ms, p)"
proof (induction ms)
  case Nil
  then show ?case by (simp add: drain_None)
next
  case (Cons m ms)
  have "drain dec (enc m @ (concat (map enc ms) @ p)) =
      (let (ms', r) = drain dec (concat (map enc ms) @ p) in (m # ms', r))"
    using drain_Some[OF dec_enc[of m "concat (map enc ms) @ p"]] Cons.prems by simp
  with Cons show ?case by simp
qed

lemma feed_frames:
  assumes "list_all ok ms" and "dec p = None" and "dec [] = None" and "concat chs = concat (map enc ms) @ p"
  shows "feed dec [] chs = (ms, p)"
  using feed_concat[OF assms(3), of chs] drain_concat[OF assms(1,2)] assms(4) by simp

end

text \<open>
  A receiver: a state whose \<open>pending\<close> bytes grow when a piece arrives, and a loop that takes
  messages off their front.  \<open>abs\<close> is what a message may change (\<open>h\<close>); \<open>bad\<close> says that the
  front of the bytes can never become a message.  \<open>serve\<close> runs the loop after each arrival;
  \<open>None\<close> is a loop that did not return normally.
\<close>

fun serve :: "('b \<Rightarrow> 'st \<Rightarrow> 'st) \<Rightarrow> ('st \<Rightarrow> 'st option) \<Rightarrow> 'b list \<Rightarrow> 'st \<Rightarrow> 'st option" where
  "serve arrive loop [] st = Some st"
| "serve arrive loop (ch # chs) st = Option.bind (loop (arrive ch st)) (serve arrive loop chs)"

locale frame_server = frame_dec dec
  for dec :: "bytes \<Rightarrow> ('m \<times> nat) option" +
  fixes bad :: "bytes \<Rightarrow> bool"
    and pending :: "'st \<Rightarrow> bytes"
    and arrive :: "bytes \<Rightarrow> 'st \<Rightarrow> 'st"
    and loop :: "'st \<Rightarrow> 'st option"
    and abs :: "'st \<Rightarrow> 'a"
    and h :: "'m \<Rightarrow> 'a \<Rightarrow> 'a"
    and inv :: "'st \<Rightarrow> bool"
  assumes bad_stays: "bad bs \<Longrightarrow> dec (bs @ x) = None \<and> bad (bs @ x)"
    and arrival: "inv st \<Longrightarrow> inv (arrive ch st) \<and> pending (arrive ch st) = pending st @ ch \<and>
                    abs (arrive ch st) = abs st"
    and loop_stop: "inv st \<Longrightarrow> dec (pending st) = None \<Longrightarrow> \<not> bad (pending st) \<Longrightarrow> loop st = Some st"
    and loop_step: "inv st \<Longrightarrow> dec (pending st) = Some (m, n) \<Longrightarrow>
                    \<exists>st'. loop st = loop st' \<and> inv st' \<and> pending st' = drop n (pending st) \<and>
                      abs st' = h m (abs st)"
begin

lemma loop_reaches:
  "inv st \<Longrightarrow> drain dec (pending st) = (ms, r) \<Longrightarrow>
     \<exists>st'. loop st = loop st' \<and> inv st' \<and> pending st' = r \<and> abs st' = fold h ms (abs st)"
proof (induction "length (pending st)" arbitrary: st ms rule: less_induct)
  case less
  show ?case
  proof (cases "dec (pending st)")
    case None
    with less show ?thesis by (auto simp: drain_None)
  next
    case (Some q)
    obtain m n where q: "q = (m, n)" by (cases q)
    with Some less.prems obtain st1 where st1: "loop st = loop st1" "inv st1"
        "pending st1 = drop n (pending st)" "abs st1 = h m (abs st)"
      using loop_step by blast
    obtain ms1 where ms1: "drain dec (pending st1) = (ms1, r)" "ms = m # ms1"
      using drain_Some[of "pending st" m n] Some q st1(3) less.prems(2) by (auto split: prod.splits)
    have "length (pending st1) < length (pending st)"
      using dec_bounds[of "pending st" m n] Some q st1(3) by auto
    from less.hyps[OF this st1(2) ms1(1)] st1 ms1(2) show ?thesis by auto
  qed
qed

lemma loop_drain:
  assumes "inv st" and "drain dec (pending st) = (ms, r)" and "\<not> bad r"
  shows "\<exists>st'. loop st = Some st' \<and> inv st' \<and> pending st' = r \<and> abs st' = fold h ms (abs st)"
proof -
  from loop_reaches[OF assms(1,2)] obtain st' where st': "loop st = loop st'" "inv st'"
      "pending st' = r" "abs st' = fold h ms (abs st)" by blast
  moreover have "loop st' = Some st'"
    using loop_stop[OF st'(2)] drain_rest[OF assms(2)] st'(3) assms(3) by simp
  ultimately show ?thesis by simp
qed

lemma serve_concat:
  "inv st \<Longrightarrow> dec (pending st) = None \<Longrightarrow> \<not> bad r \<Longrightarrow>
     drain dec (pending st @ concat chs) = (ms, r) \<Longrightarrow>
     \<exists>st'. serve arrive loop chs st = Some st' \<and> inv st' \<and> pending st' = r \<and>
       abs st' = fold h ms (abs st)"
proof (induction chs arbitrary: st ms)
  case Nil
  then show ?case by (simp add: drain_None)
next
  case (Cons ch chs)
  let ?st = "arrive ch st"
  have a: "inv ?st" "pending ?st = pending st @ ch" "abs ?st = abs st"
    using arrival Cons.prems(1) by auto
  obtain ms1 r1 where d1: "drain dec (pending ?st) = (ms1, r1)" by fastforce
  obtain ms2 r2 where d2: "drain dec (r1 @ concat chs) = (ms2, r2)" by fastforce
  have split: "ms = ms1 @ ms2" "r = r2"
    using Cons.prems(4) drain_append[of "pending ?st" "concat chs"] d1 d2 a(2) by auto
  have "\<not> bad r1"
    using bad_stays[of r1 "concat chs"] d2 split(2) Cons.prems(3) by (auto simp: drain_None)
  then obtain st1 where st1: "loop ?st = Some st1" "inv st1" "pending st1 = r1"
      "abs st1 = fold h ms1 (abs st)"
    using loop_drain[OF a(1) d1] a(3) by auto
  have "dec (pending st1) = None" using drain_rest[OF d1] st1(3) by simp
  from Cons.IH[OF st1(2) this Cons.prems(3), of ms2] d2 st1 split show ?case by auto
qed

end

section \<open>Parsers with a state\<close>

text \<open>
  A parser that keeps a state between calls: \<open>parse\<close> returns a message if there is one, the new
  state and the bytes it left.  \<open>parse_all\<close> calls it until it finds no message; \<open>sz\<close> is what a
  state still allows without consuming a byte.
\<close>

function parse_all ::
    "('p \<Rightarrow> nat) \<Rightarrow> ('p \<Rightarrow> bytes \<Rightarrow> 'm option \<times> 'p \<times> bytes) \<Rightarrow> 'p \<Rightarrow> bytes \<Rightarrow> 'm list \<times> 'p \<times> bytes" where
  "parse_all sz parse p bs =
     (case parse p bs of
        (None, p', r) \<Rightarrow> ([], p', r)
      | (Some m, p', r) \<Rightarrow>
          if length r + sz p' < length bs + sz p
          then (let (ms, q) = parse_all sz parse p' r in (m # ms, q))
          else ([], p', r))"
  by pat_completeness auto
termination
  by (relation "measure (\<lambda>(sz, parse, p, bs). length bs + sz p)") auto

declare parse_all.simps [simp del]

locale resumable_parser =
  fixes sz :: "'p \<Rightarrow> nat"
    and parse :: "'p \<Rightarrow> bytes \<Rightarrow> 'm option \<times> 'p \<times> bytes"
  assumes shrinks: "parse p bs = (Some m, p', r) \<Longrightarrow> length r + sz p' < length bs + sz p"
    and more: "parse p bs = (Some m, p', r) \<Longrightarrow> parse p (bs @ x) = (Some m, p', r @ x)"
    and resume: "parse p bs = (None, p', r) \<Longrightarrow> parse p (bs @ x) = parse p' (r @ x)"
begin

lemma parse_all_None: "parse p bs = (None, p', r) \<Longrightarrow> parse_all sz parse p bs = ([], p', r)"
  by (subst parse_all.simps) simp

lemma parse_all_Some:
  "parse p bs = (Some m, p', r) \<Longrightarrow>
     parse_all sz parse p bs = (let (ms, q) = parse_all sz parse p' r in (m # ms, q))"
  using shrinks[of p bs m p' r] by (subst parse_all.simps) simp

lemma parse_all_cong:
  assumes "parse p bs = parse p' bs'" shows "parse_all sz parse p bs = parse_all sz parse p' bs'"
proof (cases "parse p bs")
  case (fields o' q r)
  with assms have "parse p' bs' = (o', q, r)" by simp
  with fields show ?thesis by (cases o') (simp_all add: parse_all_None parse_all_Some)
qed

lemma parse_idle: "parse p bs = (None, p', r) \<Longrightarrow> parse p' r = (None, p', r)"
  using resume[of p bs p' r "[]"] by simp

lemma parse_all_cases:
  obtains (stop) p' r where "parse p bs = (None, p', r)" "parse_all sz parse p bs = ([], p', r)"
  | (message) m p1 r1 ms q where "parse p bs = (Some m, p1, r1)" "length r1 + sz p1 < length bs + sz p"
      "parse_all sz parse p1 r1 = (ms, q)" "parse_all sz parse p bs = (m # ms, q)"
proof (cases "parse p bs")
  case (fields o' p1 r1)
  show thesis
  proof (cases o')
    case None
    with fields that(1) parse_all_None show thesis by blast
  next
    case (Some m)
    obtain ms q where "parse_all sz parse p1 r1 = (ms, q)" by (meson surj_pair)
    with fields Some that(2) parse_all_Some shrinks show thesis by simp
  qed
qed

lemma parse_all_idle: "parse_all sz parse p bs = (ms, p', r) \<Longrightarrow> parse p' r = (None, p', r)"
proof (induction "length bs + sz p" arbitrary: p bs ms rule: less_induct)
  case less
  show ?case
  proof (rule parse_all_cases[of p bs])
    fix q r' assume "parse p bs = (None, q, r')" "parse_all sz parse p bs = ([], q, r')"
    with less.prems parse_idle show ?thesis by simp
  next
    fix m p1 r1 ms1 q
    assume "length r1 + sz p1 < length bs + sz p" "parse_all sz parse p1 r1 = (ms1, q)"
      "parse_all sz parse p bs = (m # ms1, q)"
    with less show ?thesis by simp
  qed
qed

lemma parse_all_append:
  "parse_all sz parse p (a @ b) =
     (let (ms, p', r) = parse_all sz parse p a; (ms', q) = parse_all sz parse p' (r @ b) in (ms @ ms', q))"
proof (induction "length a + sz p" arbitrary: p a rule: less_induct)
  case less
  show ?case
  proof (rule parse_all_cases[of p a])
    fix p' r assume n: "parse p a = (None, p', r)" "parse_all sz parse p a = ([], p', r)"
    have "parse_all sz parse p (a @ b) = parse_all sz parse p' (r @ b)"
      by (rule parse_all_cong[OF resume[OF n(1), of b]])
    with n show ?thesis by simp
  next
    fix m p1 r1 ms q
    assume s: "parse p a = (Some m, p1, r1)" "length r1 + sz p1 < length a + sz p"
      "parse_all sz parse p1 r1 = (ms, q)" "parse_all sz parse p a = (m # ms, q)"
    from parse_all_Some[OF more[OF s(1), of b]] less[OF s(2)] s(3,4)
    show ?thesis by (simp add: Let_def split: prod.splits)
  qed
qed

end

text \<open>
  A receiver built on such a parser, as \<open>frame_server\<close> is on a decoder: \<open>pst\<close> is the state of its
  parser, and one call of \<open>loop\<close> handles every message the pending bytes hold.
\<close>

locale parser_server = resumable_parser sz parse
  for sz :: "'p \<Rightarrow> nat" and parse :: "'p \<Rightarrow> bytes \<Rightarrow> 'm option \<times> 'p \<times> bytes" +
  fixes bad :: "'p \<Rightarrow> bytes \<Rightarrow> bool"
    and pst :: "'st \<Rightarrow> 'p"
    and pending :: "'st \<Rightarrow> bytes"
    and arrive :: "bytes \<Rightarrow> 'st \<Rightarrow> 'st"
    and loop :: "'st \<Rightarrow> 'st option"
    and abs :: "'st \<Rightarrow> 'a"
    and h :: "'m \<Rightarrow> 'a \<Rightarrow> 'a"
    and inv :: "'st \<Rightarrow> bool"
  assumes bad_stays: "bad p bs \<Longrightarrow> parse p (bs @ x) = (None, p, bs @ x) \<and> bad p (bs @ x)"
    and arrival: "inv st \<Longrightarrow> inv (arrive ch st) \<and> pending (arrive ch st) = pending st @ ch \<and>
                    pst (arrive ch st) = pst st \<and> abs (arrive ch st) = abs st"
    and loop_run: "inv st \<Longrightarrow> parse_all sz parse (pst st) (pending st) = (ms, p', r) \<Longrightarrow> \<not> bad p' r \<Longrightarrow>
                    \<exists>st'. loop st = Some st' \<and> inv st' \<and> pst st' = p' \<and> pending st' = r \<and>
                      abs st' = fold h ms (abs st)"
begin

lemma serve_concat:
  "inv st \<Longrightarrow> parse (pst st) (pending st) = (None, pst st, pending st) \<Longrightarrow> \<not> bad p' r \<Longrightarrow>
     parse_all sz parse (pst st) (pending st @ concat chs) = (ms, p', r) \<Longrightarrow>
     \<exists>st'. serve arrive loop chs st = Some st' \<and> inv st' \<and> pst st' = p' \<and> pending st' = r \<and>
       abs st' = fold h ms (abs st)"
proof (induction chs arbitrary: st ms)
  case Nil
  then show ?case by (auto simp: parse_all_None)
next
  case (Cons ch chs)
  let ?st = "arrive ch st"
  have a: "inv ?st" "pending ?st = pending st @ ch" "pst ?st = pst st" "abs ?st = abs st"
    using arrival Cons.prems(1) by auto
  obtain ms1 p1 r1 where d1: "parse_all sz parse (pst ?st) (pending ?st) = (ms1, p1, r1)"
    by (metis prod_cases3)
  obtain ms2 q2 where d2: "parse_all sz parse p1 (r1 @ concat chs) = (ms2, q2)" by (meson surj_pair)
  have split: "ms = ms1 @ ms2" "q2 = (p', r)"
    using Cons.prems(4) parse_all_append[of "pst st" "pending st @ ch" "concat chs"] d1 d2 a(2,3) by auto
  have "\<not> bad p1 r1"
  proof
    assume b: "bad p1 r1"
    from bad_stays[OF b, of "concat chs"] have "q2 = (p1, r1 @ concat chs)" "bad p1 (r1 @ concat chs)"
      using d2 by (simp_all add: parse_all_None)
    with split(2) Cons.prems(3) show False by simp
  qed
  then obtain st1 where st1: "loop ?st = Some st1" "inv st1" "pst st1 = p1" "pending st1 = r1"
      "abs st1 = fold h ms1 (abs st)"
    using loop_run[OF a(1) d1] a(4) by auto
  have "parse (pst st1) (pending st1) = (None, pst st1, pending st1)"
    using parse_all_idle[OF d1] st1(3,4) by simp
  from Cons.IH[OF st1(2) this Cons.prems(3), of ms2] d2 st1 split show ?case by auto
qed

end

end
