(* ===== verification/Session.thy ===== *)
theory Session
  imports Envelope
begin

text \<open>
  A protocol object at work on one connection: the application state its handlers keep, the rate
  limiter of \<open>ProtocolHandler\<close> (a script of verdicts) and the connection.  Also the facts the
  protocol theories share about what their code does to a connection: it consumes input, adds to
  the output stream and closes.
\<close>

record 's session =
  app :: 's
  rate_limiter :: limiter
  conn :: connection

definition map_conn :: "(connection \<Rightarrow> connection) \<Rightarrow> 's session \<Rightarrow> 's session" where
  "map_conn f st = st\<lparr>conn := f (conn st)\<rparr>"

definition map_input :: "(buffer \<Rightarrow> buffer) \<Rightarrow> 's session \<Rightarrow> 's session" where
  "map_input f st = map_conn (\<lambda>c. c\<lparr>input_buffer := f (input_buffer c)\<rparr>) st"

abbreviation in_buf :: "'s session \<Rightarrow> buffer" where
  "in_buf st \<equiv> input_buffer (conn st)"

text \<open>What one read of \<open>HandleRead\<close> adds to the input buffer.\<close>

definition receive :: "bytes \<Rightarrow> 's session \<Rightarrow> 's session" where
  "receive data st = map_input (\<lambda>b. Buffer_Append b data) st"

definition Handler_CheckRateLimit :: "'s session \<Rightarrow> bool \<times> 's session" where
  "Handler_CheckRateLimit st =
     (let (ok, lm) = CheckRateLimit (rate_limiter st) in (ok, st\<lparr>rate_limiter := lm\<rparr>))"

text \<open>Calling a stream handler: its exception, or the response it left.\<close>

definition call_stream ::
    "(ctx_op \<Rightarrow> connection \<Rightarrow> connection) \<Rightarrow> 's stream_handler \<Rightarrow> envelope \<Rightarrow> envelope \<Rightarrow> 's session \<Rightarrow>
       (exn + envelope) \<times> 's session" where
  "call_stream ctx sh req resp st =
     (case sh (app st) req resp of
        (s', ops, r) \<Rightarrow> (r, st\<lparr>app := s', conn := run_ctx ctx ops (conn st)\<rparr>))"

definition call_raw ::
    "(ctx_op \<Rightarrow> connection \<Rightarrow> connection) \<Rightarrow> 's raw_handler \<Rightarrow> bytes \<Rightarrow> 's session \<Rightarrow>
       exn option \<times> 's session" where
  "call_raw ctx rh data st =
     (case rh (app st) data of
        (s', ops, r) \<Rightarrow>
          (case r of Inl e \<Rightarrow> Some e | Inr _ \<Rightarrow> None,
           st\<lparr>app := s', conn := run_ctx ctx ops (conn st)\<rparr>))"

section \<open>What protocol code does to a connection\<close>

text \<open>\<open>c'\<close> is \<open>c\<close> with \<open>xs\<close> added to its output stream and its input untouched.\<close>

definition outputs :: "bytes \<Rightarrow> connection \<Rightarrow> connection \<Rightarrow> bool" where
  "outputs xs c c' \<longleftrightarrow> input_buffer c' = input_buffer c \<and>
     (conn_inv c \<and> in_loop_thread c \<longrightarrow> extends xs c c')"

lemma outputs_refl [simp]: "outputs [] c c"
  by (simp add: outputs_def)

lemma outputs_trans: "outputs xs a b \<Longrightarrow> outputs ys b c \<Longrightarrow> outputs (xs @ ys) a c"
  unfolding outputs_def by (metis extends_def extends_trans)

lemma Send_input [simp]: "input_buffer (Connection_Send data c) = input_buffer c"
  by (simp add: Connection_Send_def Connection_Write_def emit_def Let_def split: list.splits)

lemma HandleClose_input [simp]: "input_buffer (Connection_HandleClose c) = input_buffer c"
  by (simp add: Connection_HandleClose_def emit_def Let_def)

lemma Send_outputs: "outputs data c (Connection_Send data c)"
  by (simp add: outputs_def Send_extends)

lemma ForceClose_outputs: "outputs [] c (Connection_ForceClose c)"
  by (simp add: outputs_def Connection_ForceClose_def)

text \<open>A context whose operation \<open>op\<close> puts \<open>bytes_of op\<close> on the wire.\<close>

locale stream_context =
  fixes ctx :: "ctx_op \<Rightarrow> connection \<Rightarrow> connection"
    and written :: "ctx_op \<Rightarrow> bytes"
  assumes ctx_outputs: "outputs (written op) c (ctx op c)"
begin

lemma run_ctx_outputs: "outputs (concat (map written ops)) c (run_ctx ctx ops c)"
  unfolding run_ctx_def
proof (induction ops arbitrary: c)
  case Nil
  then show ?case by simp
next
  case (Cons op ops)
  from outputs_trans[OF ctx_outputs Cons.IH] show ?case by simp
qed

lemma call_stream_outputs:
  assumes "sh (app st) req resp = (s', ops, r)"
  shows "call_stream ctx sh req resp st = (r, st\<lparr>app := s', conn := run_ctx ctx ops (conn st)\<rparr>)"
    and "outputs (concat (map written ops)) (conn st) (run_ctx ctx ops (conn st))"
  using assms by (simp_all add: call_stream_def run_ctx_outputs)

end

text \<open>What the receivers of the protocol theories keep of a session.\<close>

definition session_inv :: "'s session \<Rightarrow> bool" where
  "session_inv st \<longleftrightarrow> conn_inv (conn st) \<and> in_loop_thread (conn st)"

definition pending :: "'s session \<Rightarrow> bytes" where
  "pending st = content (in_buf st)"

text \<open>The part of a session that messages change: application, limiter, output stream.\<close>

definition visible :: "'s session \<Rightarrow> 's \<times> limiter \<times> bytes" where
  "visible st = (app st, rate_limiter st, stream (conn st))"

lemma session_outputs:
  assumes "session_inv st" and "outputs xs (conn st) c'"
  shows "session_inv (st\<lparr>app := s', conn := c'\<rparr>)" and "pending (st\<lparr>app := s', conn := c'\<rparr>) = pending st"
    and "visible (st\<lparr>app := s', conn := c'\<rparr>) = (s', rate_limiter st, stream (conn st) @ xs)"
  using assms by (auto simp: session_inv_def pending_def visible_def outputs_def extends_def)

lemma session_retrieve:
  assumes "session_inv st"
  shows "session_inv (map_input (\<lambda>b. Buffer_Retrieve b n) st)"
    and "pending (map_input (\<lambda>b. Buffer_Retrieve b n) st) = drop n (pending st)"
    and "visible (map_input (\<lambda>b. Buffer_Retrieve b n) st) = visible st"
  using assms
  by (auto simp: session_inv_def pending_def visible_def map_input_def map_conn_def conn_inv_def
      buf_simps buffer_invs stream_def)

lemma session_receive:
  assumes "session_inv st"
  shows "session_inv (receive data st) \<and> pending (receive data st) = pending st @ data \<and>
     visible (receive data st) = visible st"
  using assms
  by (auto simp: session_inv_def pending_def visible_def receive_def map_input_def map_conn_def
      conn_inv_def buf_simps buffer_invs stream_def)

lemma session_limiter:
  "session_inv (st\<lparr>rate_limiter := l\<rparr>) = session_inv st" "pending (st\<lparr>rate_limiter := l\<rparr>) = pending st"
  by (simp_all add: session_inv_def pending_def)

lemma pending_readable: "session_inv st \<Longrightarrow> Buffer_ReadableBytes (in_buf st) = length (pending st)"
  by (simp add: session_inv_def pending_def conn_inv_def buf_simps)

lemma pending_Peek: "n \<le> length (pending st) \<Longrightarrow> session_inv st \<Longrightarrow>
    take n (Buffer_Peek (in_buf st)) = take n (pending st)"
  by (metis pending_readable take_Peek pending_def)

text \<open>The size of the input, which bounds the loops, without any assumption on the session.\<close>

lemma Retrieve_readable:
  "0 < n \<Longrightarrow> 0 < Buffer_ReadableBytes b \<Longrightarrow>
     Buffer_ReadableBytes (Buffer_Retrieve b n) < Buffer_ReadableBytes b"
  by (auto simp: buffer_defs)

lemma Retrieve_header:
  "4 \<le> Buffer_ReadableBytes b \<Longrightarrow>
     Buffer_ReadableBytes (Buffer_Retrieve (Buffer_Retrieve b 4) n) < Buffer_ReadableBytes b"
  by (auto simp: buffer_defs)

lemma in_buf_map_input: "in_buf (map_input f st) = f (in_buf st)"
  by (simp add: map_input_def map_conn_def)

lemma Handler_CheckRateLimit_eq:
  "(ok, st') = Handler_CheckRateLimit st \<Longrightarrow> in_buf st' = in_buf st"
  by (auto simp: Handler_CheckRateLimit_def split: prod.splits)

text \<open>\<open>4 + length\<close> is computed in 32 bits; it does not wrap for a length that passed the limit.\<close>

lemma frame_length_word: "unat (len :: uint32) \<le> 2 ^ 32 - 5 \<Longrightarrow> unat (4 + len) = 4 + unat len"
  by (subst unat_add_lem[THEN iffD1]) auto

lemma ntohl_at_take: "4 \<le> n \<Longrightarrow> ntohl_at (take n p) = ntohl_at p"
  by (simp add: ntohl_at_def)

lemma pending_length_field:
  "session_inv st \<Longrightarrow> 4 \<le> length (pending st) \<Longrightarrow> ntohl_at (Buffer_Peek (in_buf st)) = ntohl_at (pending st)"
  using pending_Peek[of 4 st] ntohl_at_take[of 4] by (metis order_refl)

section \<open>Length-prefixed messages\<close>

text \<open>
  The framing of the TCP and RPC protocols: a message whose length is at most \<open>maxlen\<close>; a longer
  length can never become a message.
\<close>

definition frame_decode :: "nat \<Rightarrow> bytes \<Rightarrow> (bytes \<times> nat) option" where
  "frame_decode maxlen bs =
     (if length bs < 4 then None
      else
        (let n = unat (ntohl_at bs)
         in if n \<le> maxlen \<and> 4 + n \<le> length bs then Some (take n (drop 4 bs), 4 + n) else None))"

definition frame_oversize :: "nat \<Rightarrow> bytes \<Rightarrow> bool" where
  "frame_oversize maxlen bs \<longleftrightarrow> 4 \<le> length bs \<and> maxlen < unat (ntohl_at bs)"

definition frame_ok :: "nat \<Rightarrow> bytes \<Rightarrow> bool" where
  "frame_ok maxlen payload \<longleftrightarrow> length payload \<le> maxlen \<and> length payload < 2 ^ 32"

interpretation framing: frame_codec "frame_decode maxlen" length_frame "frame_ok maxlen" for maxlen
proof
  fix bs rest m n
  assume "frame_decode maxlen bs = Some (m, n)"
  then show "0 < n \<and> n \<le> length bs" and "frame_decode maxlen (bs @ rest) = Some (m, n)"
    by (auto simp: frame_decode_def Let_def split: if_splits)
next
  fix m rest
  assume "frame_ok maxlen m"
  then show "frame_decode maxlen (length_frame m @ rest) = Some (m, length (length_frame m))"
    by (simp add: frame_decode_def length_frame_def frame_ok_def wire_simps)
qed

lemma oversize_stays: "frame_oversize maxlen bs \<Longrightarrow> frame_decode maxlen (bs @ x) = None \<and> frame_oversize maxlen (bs @ x)"
  by (auto simp: frame_oversize_def frame_decode_def)

text \<open>An incomplete frame is not oversize, and not yet a message.\<close>

lemma frame_prefix:
  assumes "length_frame m = p @ q" and "q \<noteq> []" and "frame_ok maxlen m"
  shows "frame_decode maxlen p = None" and "\<not> frame_oversize maxlen p"
proof -
  show "frame_decode maxlen p = None" using framing.dec_partial[OF assms(3,1,2)] .
  show "\<not> frame_oversize maxlen p"
  proof
    assume "frame_oversize maxlen p"
    then have "frame_decode maxlen (length_frame m) = None" using oversize_stays assms(1) by simp
    with framing.dec_enc[OF assms(3), of "[]"] show False by simp
  qed
qed

section \<open>Concrete sessions for the witnesses\<close>

definition handler_safe :: "'s stream_handler option \<Rightarrow> bool" where
  "handler_safe sh \<longleftrightarrow> (case sh of None \<Rightarrow> True | Some f \<Rightarrow> no_throw f)"

text \<open>A session, a handler and a message for the witnesses.\<close>

definition fresh_conn :: connection where
  "fresh_conn = Connection_new 5 (snd (Buffer_new [] 8)) (snd (Buffer_new [] 8))"

definition fresh_session :: "'s \<Rightarrow> 's session" where
  "fresh_session a = \<lparr>app = a, rate_limiter = None, conn = fresh_conn\<rparr>"

lemma fresh_session_facts [simp]:
  "session_inv (fresh_session a)" "pending (fresh_session a) = []" "rate_limiter (fresh_session a) = None"
  "app (fresh_session a) = a" "conn_inv fresh_conn" "in_loop_thread fresh_conn" "stream fresh_conn = []"
  by (simp_all add: fresh_session_def fresh_conn_def session_inv_def conn_inv_def pending_def
      Connection_new_def Buffer_new_def BufferPool_Acquire_def vec_new_def buffer_inv_def vec_inv_def
      content_def Buffer_ReadableBytes_def stream_def)

definition data_message :: "bytes \<Rightarrow> envelope" where
  "data_message d = set_data d envelope_empty"

definition log_handler :: "bytes list stream_handler" where
  "log_handler s req resp = (s @ [get_data req], [Ctx_Write (get_data req)], Inr resp)"

lemma log_handler_safe [simp]: "no_throw log_handler" "handler_safe (Some log_handler)"
  by (simp_all add: no_throw_def handler_safe_def log_handler_def)

lemma pb_data_only_simps [simp]:
  "pb_serialize pb_data_only (data_message d) = d" "pb_parse pb_data_only d = (True, data_message d)"
  "get_data (data_message d) = d" "env_header (data_message d) = None"
  by (simp_all add: pb_data_only_def data_message_def envelope_defs)

end
