(* ===== verification/Tcp.thy ===== *)
theory Tcp
  imports Session
begin

text \<open>
  The TCP protocol: \<open>protocols::tcp::TcpHandler\<close> with its \<open>TcpStreamContext\<close> on the server and
  \<open>TcpClientProtocol\<close> on the client.  A message is a 4-byte big-endian length and a serialised
  envelope.  The loops of the source are the functions below over the input buffer of the
  connection; the serialiser and the application handlers are parameters.
\<close>

section \<open>The server\<close>

definition kTcpMaxFrame :: nat where
  "kTcpMaxFrame = 100 * 1024 * 1024"

fun TcpStreamContext :: "proto \<Rightarrow> ctx_op \<Rightarrow> connection \<Rightarrow> connection" where
  "TcpStreamContext pb (Ctx_Write_Envelope msg) c =
     (let payload = pb_serialize pb msg
      in if payload = [] then c else Connection_Send (length_frame payload) c)"
| "TcpStreamContext pb (Ctx_Write data) c = Connection_Send data c"
| "TcpStreamContext pb Ctx_Close c = Connection_ForceClose c"

definition Tcp_raw_message :: "proto \<Rightarrow> 's raw_handler \<Rightarrow> 's session \<Rightarrow> exn option \<times> 's session" where
  "Tcp_raw_message pb rh st =
     (let len = Buffer_ReadableBytes (in_buf st)
      in if len = 0 then (None, st)
         else
           (case Handler_CheckRateLimit st of
              (ok, st1) \<Rightarrow>
                if ok then
                  (let data = take len (Buffer_Peek (in_buf st1));
                       st2 = map_input (\<lambda>b. Buffer_Retrieve b len) st1
                   in call_raw (TcpStreamContext pb) rh data st2)
                else (None, map_input (\<lambda>b. Buffer_Retrieve b len) st1)))"

text \<open>The response skeleton made from the request's header.\<close>

definition Tcp_response :: "envelope \<Rightarrow> envelope" where
  "Tcp_response req =
     (case env_header req of
        None \<Rightarrow> envelope_empty
      | Some h \<Rightarrow>
          upd_header (\<lambda>r. r\<lparr>message_id := message_id h @ ''_resp''\<rparr>)
            (upd_header (\<lambda>r. r\<lparr>correlation_id := message_id h\<rparr>) envelope_empty))"

text \<open>One complete message: parse, call the handler or echo, send what the response holds.\<close>

definition Tcp_message ::
    "proto \<Rightarrow> 's stream_handler option \<Rightarrow> bytes \<Rightarrow> 's session \<Rightarrow> exn option \<times> 's session" where
  "Tcp_message pb sh data st =
     (case pb_parse pb data of
        (False, _) \<Rightarrow> (None, st)
      | (True, req) \<Rightarrow>
          (let resp = Tcp_response req;
               (r, st1) =
                 (case sh of
                    Some f \<Rightarrow> call_stream (TcpStreamContext pb) f req resp st
                  | None \<Rightarrow>
                      (Inr (case env_payload req of
                              None \<Rightarrow> resp | Some p \<Rightarrow> resp\<lparr>env_payload := Some p\<rparr>), st))
           in case r of
                Inl e \<Rightarrow> (Some e, st1)
              | Inr resp' \<Rightarrow>
                  (None,
                   if env_header resp' \<noteq> None \<or> env_payload resp' \<noteq> None \<or>
                      0 < length (pb_serialize pb resp')
                   then (let payload = pb_serialize pb resp'
                         in if payload \<noteq> [] then map_conn (Connection_Send (length_frame payload)) st1
                            else st1)
                   else st1)))"

lemma TcpStreamContext_input [simp]: "input_buffer (TcpStreamContext pb op c) = input_buffer c"
  by (cases op) (simp_all add: Let_def Connection_ForceClose_def)

text \<open>The bytes one context operation puts on the wire.\<close>

fun tcp_written :: "proto \<Rightarrow> ctx_op \<Rightarrow> bytes" where
  "tcp_written pb (Ctx_Write_Envelope msg) =
     (if pb_serialize pb msg = [] then [] else length_frame (pb_serialize pb msg))"
| "tcp_written pb (Ctx_Write data) = data"
| "tcp_written pb Ctx_Close = []"

interpretation tcp_ctx: stream_context "TcpStreamContext pb" "tcp_written pb" for pb
proof
  fix op c
  show "outputs (tcp_written pb op) c (TcpStreamContext pb op c)"
    by (cases op) (simp_all add: Let_def Send_outputs ForceClose_outputs)
qed

lemma Tcp_message_input [simp]: "in_buf (snd (Tcp_message pb sh data st)) = in_buf st"
proof -
  have "input_buffer (run_ctx (TcpStreamContext pb) ops c) = input_buffer c" for ops c
    using tcp_ctx.run_ctx_outputs[of pb ops c] by (simp add: outputs_def)
  then show ?thesis
    by (auto simp: Tcp_message_def call_stream_def map_conn_def Let_def
        split: prod.splits bool.splits option.splits sum.splits)
qed

lemma Tcp_message_eq: "(r, st') = Tcp_message pb sh data st \<Longrightarrow> in_buf st' = in_buf st"
  by (metis Tcp_message_input snd_conv)

function Tcp_loop :: "proto \<Rightarrow> 's stream_handler option \<Rightarrow> 's session \<Rightarrow> exn option \<times> 's session" where
  "Tcp_loop pb sh st =
     (if 4 \<le> Buffer_ReadableBytes (in_buf st) then
        (let len = ntohl_at (Buffer_Peek (in_buf st))
         in if kTcpMaxFrame < unat len then (None, map_conn Connection_ForceClose st)
            else if unat (4 + len) \<le> Buffer_ReadableBytes (in_buf st) then
              (case Handler_CheckRateLimit st of
                 (ok, st1) \<Rightarrow>
                   if ok then
                     (let st2 = map_input (\<lambda>b. Buffer_Retrieve b 4) st1;
                          data = take (unat len) (Buffer_Peek (in_buf st2));
                          st3 = map_input (\<lambda>b. Buffer_Retrieve b (unat len)) st2
                      in case Tcp_message pb sh data st3 of
                           (Some e, st4) \<Rightarrow> (Some e, st4)
                         | (None, st4) \<Rightarrow> Tcp_loop pb sh st4)
                   else Tcp_loop pb sh (map_input (\<lambda>b. Buffer_Retrieve b (unat (4 + len))) st1))
            else (None, st))
      else (None, st))"
  by pat_completeness auto
termination
  by (relation "measure (\<lambda>(pb, sh, st). Buffer_ReadableBytes (in_buf st))")
     (auto simp: frame_length_word kTcpMaxFrame_def in_buf_map_input not_less
       dest!: Tcp_message_eq Handler_CheckRateLimit_eq intro!: Retrieve_header Retrieve_readable)

declare Tcp_loop.simps [simp del]

definition Tcp_OnMessage ::
    "proto \<Rightarrow> 's raw_handler option \<Rightarrow> 's stream_handler option \<Rightarrow> 's session \<Rightarrow> exn option \<times> 's session" where
  "Tcp_OnMessage pb rh sh st =
     (case rh of Some f \<Rightarrow> Tcp_raw_message pb f st | None \<Rightarrow> Tcp_loop pb sh st)"

section \<open>The client\<close>

definition TcpClient_Send :: "proto \<Rightarrow> envelope \<Rightarrow> connection \<Rightarrow> connection" where
  "TcpClient_Send pb e c = Connection_Send (length_frame (pb_serialize pb e)) c"

function TcpClient_OnDataReceived :: "proto \<Rightarrow> 's message_handler option \<Rightarrow> 's session \<Rightarrow> 's session" where
  "TcpClient_OnDataReceived pb mh st =
     (if 4 \<le> Buffer_ReadableBytes (in_buf st) then
        (let len = ntohl_at (Buffer_Peek (in_buf st))
         in if kTcpMaxFrame < unat len then map_input Buffer_RetrieveAll st
            else if unat (4 + len) \<le> Buffer_ReadableBytes (in_buf st) then
              (let st1 = map_input (\<lambda>b. Buffer_Retrieve b 4) st;
                   data = take (unat len) (Buffer_Peek (in_buf st1));
                   st2 = map_input (\<lambda>b. Buffer_Retrieve b (unat len)) st1;
                   st3 = (case pb_parse pb data of
                            (True, msg) \<Rightarrow>
                              (case mh of Some f \<Rightarrow> st2\<lparr>app := f (app st2) msg\<rparr> | None \<Rightarrow> st2)
                          | (False, _) \<Rightarrow> st2)
               in TcpClient_OnDataReceived pb mh st3)
            else st)
      else st)"
  by pat_completeness auto
termination
  by (relation "measure (\<lambda>(pb, mh, st). Buffer_ReadableBytes (in_buf st))")
     (auto simp: in_buf_map_input intro: Retrieve_header
       split: prod.splits bool.splits option.splits)

declare TcpClient_OnDataReceived.simps [simp del]

section \<open>The server as a function of the messages\<close>

text \<open>
  What one message does to the application, the rate limiter and the output stream, without
  buffers: the specification the loop is compared with.
\<close>

definition tcp_echo :: "envelope \<Rightarrow> envelope" where
  "tcp_echo req = (Tcp_response req)\<lparr>env_payload := env_payload req\<rparr>"

definition tcp_handle ::
    "proto \<Rightarrow> 's stream_handler option \<Rightarrow> bytes \<Rightarrow> 's \<times> limiter \<times> bytes \<Rightarrow> 's \<times> limiter \<times> bytes" where
  "tcp_handle pb sh data v =
     (case (pb_parse pb data, v) of
        ((False, _), _) \<Rightarrow> v
      | ((True, req), (a, lm, out)) \<Rightarrow>
          (case sh of
             None \<Rightarrow> (a, lm, out @ tcp_written pb (Ctx_Write_Envelope (tcp_echo req)))
           | Some f \<Rightarrow>
               (case f a req (Tcp_response req) of
                  (a', ops, r) \<Rightarrow>
                    (a', lm, out @ concat (map (tcp_written pb) ops) @
                       (case r of Inl _ \<Rightarrow> []
                        | Inr resp \<Rightarrow> tcp_written pb (Ctx_Write_Envelope resp))))))"

definition tcp_serve ::
    "proto \<Rightarrow> 's stream_handler option \<Rightarrow> bytes \<Rightarrow> 's \<times> limiter \<times> bytes \<Rightarrow> 's \<times> limiter \<times> bytes" where
  "tcp_serve pb sh data v =
     (case v of (a, lm, out) \<Rightarrow>
        (case CheckRateLimit lm of
           (ok, lm') \<Rightarrow> if ok then tcp_handle pb sh data (a, lm', out) else (a, lm', out)))"

lemma Tcp_reply_outputs:
  "outputs (tcp_written pb (Ctx_Write_Envelope resp)) c
     (if env_header resp \<noteq> None \<or> env_payload resp \<noteq> None \<or> 0 < length (pb_serialize pb resp)
      then (let payload = pb_serialize pb resp
            in if payload \<noteq> [] then Connection_Send (length_frame payload) c else c)
      else c)"
  using Send_outputs[of "length_frame (pb_serialize pb resp)" c] by (auto simp: Let_def)

lemma Tcp_message_visible:
  assumes "session_inv st" and "handler_safe sh"
  shows "\<exists>st'. Tcp_message pb sh data st = (None, st') \<and> session_inv st' \<and> pending st' = pending st \<and>
    visible st' = tcp_handle pb sh data (visible st)"
proof (cases "pb_parse pb data")
  case (Pair good req)
  show ?thesis
  proof (cases good)
    case False
    with Pair assms show ?thesis by (simp add: Tcp_message_def tcp_handle_def)
  next
    case good: True
    obtain a' ops resp c1 where c1: "(case sh of
            Some f \<Rightarrow> call_stream (TcpStreamContext pb) f req (Tcp_response req) st
          | None \<Rightarrow> (Inr (case env_payload req of None \<Rightarrow> Tcp_response req
                     | Some p \<Rightarrow> (Tcp_response req)\<lparr>env_payload := Some p\<rparr>), st))
          = (Inr resp, st\<lparr>app := a', conn := c1\<rparr>)"
        and out: "outputs (concat (map (tcp_written pb) ops)) (conn st) c1"
        and spec: "tcp_handle pb sh data (visible st) =
          (a', rate_limiter st, stream (conn st) @ concat (map (tcp_written pb) ops) @
             tcp_written pb (Ctx_Write_Envelope resp))"
    proof (cases sh)
      case None
      have e: "(case env_payload req of None \<Rightarrow> Tcp_response req
          | Some p \<Rightarrow> (Tcp_response req)\<lparr>env_payload := Some p\<rparr>) = tcp_echo req"
        by (simp add: tcp_echo_def Tcp_response_def envelope_defs split: option.splits)
      show ?thesis
        by (rule that[of "tcp_echo req" "conn st" "app st" "[]"])
           (simp_all only: None e option.case, simp_all add: tcp_handle_def visible_def Pair good)
    next
      case (Some f)
      obtain a' ops resp where f: "f (app st) req (Tcp_response req) = (a', ops, Inr resp)"
        using assms(2) Some unfolding handler_safe_def no_throw_def by fastforce
      show ?thesis
        by (rule that[of resp "run_ctx (TcpStreamContext pb) ops (conn st)" a' ops])
           (simp_all add: Some f call_stream_def tcp_ctx.run_ctx_outputs tcp_handle_def visible_def Pair good)
    qed
    define c2 where "c2 = (if env_header resp \<noteq> None \<or> env_payload resp \<noteq> None \<or> 0 < length (pb_serialize pb resp)
        then (let payload = pb_serialize pb resp
              in if payload \<noteq> [] then Connection_Send (length_frame payload) c1 else c1)
        else c1)"
    have o2: "outputs (concat (map (tcp_written pb) ops) @ tcp_written pb (Ctx_Write_Envelope resp)) (conn st) c2"
      unfolding c2_def by (rule outputs_trans[OF out Tcp_reply_outputs])
    have "Tcp_message pb sh data st = (None, st\<lparr>app := a', conn := c2\<rparr>)"
      using c1 good Pair by (simp add: Tcp_message_def c2_def map_conn_def Let_def)
    with session_outputs[OF assms(1) o2, of a'] spec show ?thesis by simp
  qed
qed

definition tcp_step :: "proto \<Rightarrow> 's stream_handler option \<Rightarrow> 's session \<Rightarrow> 's session option" where
  "tcp_step pb sh st = (case Tcp_OnMessage pb None sh st of (None, st') \<Rightarrow> Some st' | (Some _, _) \<Rightarrow> None)"

lemma CheckRateLimit_visible:
  assumes "Handler_CheckRateLimit st = (ok, st1)" and "session_inv st"
  shows "session_inv st1" "pending st1 = pending st" "in_buf st1 = in_buf st"
    "visible st = (a, lm, out) \<Longrightarrow> CheckRateLimit lm = (ok, rate_limiter st1)"
    "visible st1 = (app st, rate_limiter st1, stream (conn st))"
  using assms
  by (auto simp: Handler_CheckRateLimit_def visible_def session_inv_def pending_def split: prod.splits)

interpretation tcp_srv: frame_server "frame_decode kTcpMaxFrame" "frame_oversize kTcpMaxFrame"
    pending receive "tcp_step pb sh" visible "tcp_serve pb sh" "\<lambda>st. session_inv st \<and> handler_safe sh"
  for pb sh
proof (unfold_locales, goal_cases)
  case (1 bs x)
  then show ?case by (rule oversize_stays)
next
  case (2 st ch)
  then show ?case using session_receive by blast
next
  case (3 st)
  then have "\<not> kTcpMaxFrame < unat (ntohl_at (pending st)) \<and>
      length (pending st) < 4 + unat (ntohl_at (pending st)) \<or> length (pending st) < 4"
    by (auto simp: frame_decode_def frame_oversize_def Let_def split: if_splits)
  with 3 show ?case
    by (auto simp: tcp_step_def Tcp_OnMessage_def Tcp_loop.simps[of pb sh st] pending_readable
        pending_length_field Let_def frame_length_word kTcpMaxFrame_def)
next
  case (4 st m n)
  let ?l = "ntohl_at (pending st)"
  from 4 have l: "4 \<le> length (pending st)" "unat ?l \<le> kTcpMaxFrame" "4 + unat ?l \<le> length (pending st)"
      and m: "m = take (unat ?l) (drop 4 (pending st))" "n = 4 + unat ?l"
    by (auto simp: frame_decode_def Let_def split: if_splits)
  obtain ok st1 where rl: "Handler_CheckRateLimit st = (ok, st1)" by fastforce
  note rlv = CheckRateLimit_visible[OF rl]
  let ?st2 = "map_input (\<lambda>b. Buffer_Retrieve b 4) st1"
  let ?st3 = "map_input (\<lambda>b. Buffer_Retrieve b (unat ?l)) ?st2"
  have i1: "session_inv st1" using rlv 4 by blast
  note s2 = session_retrieve[OF i1, of 4]
  note s3 = session_retrieve[OF s2(1), of "unat ?l"]
  have data: "take (unat ?l) (Buffer_Peek (in_buf ?st2)) = m"
    using pending_Peek[OF _ s2(1), of "unat ?l"] l s2(2) rlv(2) 4 m(1) by simp
  have step: "Tcp_loop pb sh st =
      (if ok then (case Tcp_message pb sh m ?st3 of (Some e, st4) \<Rightarrow> (Some e, st4)
                   | (None, st4) \<Rightarrow> Tcp_loop pb sh st4)
       else Tcp_loop pb sh (map_input (\<lambda>b. Buffer_Retrieve b n) st1))"
    using 4 l rl data m(2)
    by (subst Tcp_loop.simps)
       (simp add: pending_readable pending_length_field Let_def frame_length_word kTcpMaxFrame_def not_less)
  show ?case
  proof (cases ok)
    case True
    obtain st4 where st4: "Tcp_message pb sh m ?st3 = (None, st4)" "session_inv st4"
        "pending st4 = pending ?st3" "visible st4 = tcp_handle pb sh m (visible ?st3)"
      using Tcp_message_visible[OF s3(1)] 4 by blast
    have "pending ?st3 = drop n (pending st)"
      using s3(2) s2(2) rlv(2) 4 m(2) by (simp add: add.commute)
    moreover have "visible st4 = tcp_serve pb sh m (visible st)"
      using st4(4) s3(3) s2(3) rlv(4,5) 4 True by (simp add: tcp_serve_def visible_def)
    ultimately show ?thesis
      using st4 step True 4 by (auto simp: tcp_step_def Tcp_OnMessage_def)
  next
    case False
    note s = session_retrieve[OF i1, of n]
    have "visible (map_input (\<lambda>b. Buffer_Retrieve b n) st1) = tcp_serve pb sh m (visible st)"
      using s(3) rlv(4,5) 4 False by (simp add: tcp_serve_def visible_def)
    with s step False 4 rlv(2) show ?thesis
      by (intro exI[of _ "map_input (\<lambda>b. Buffer_Retrieve b n) st1"])
         (simp add: tcp_step_def Tcp_OnMessage_def)
  qed
qed

section \<open>The client as a function of the messages\<close>

definition client_deliver :: "proto \<Rightarrow> 's message_handler option \<Rightarrow> bytes \<Rightarrow> 's \<Rightarrow> 's" where
  "client_deliver pb mh data a =
     (case (pb_parse pb data, mh) of ((True, msg), Some f) \<Rightarrow> f a msg | _ \<Rightarrow> a)"

interpretation tcp_cli: frame_server "frame_decode kTcpMaxFrame" "frame_oversize kTcpMaxFrame"
    pending receive "\<lambda>st. Some (TcpClient_OnDataReceived pb mh st)" app "client_deliver pb mh" session_inv
  for pb mh
proof (unfold_locales, goal_cases)
  case (1 bs x)
  then show ?case by (rule oversize_stays)
next
  case (2 st ch)
  then show ?case using session_receive[OF 2, of ch] by (simp add: visible_def)
next
  case (3 st)
  then have "\<not> kTcpMaxFrame < unat (ntohl_at (pending st)) \<and>
      length (pending st) < 4 + unat (ntohl_at (pending st)) \<or> length (pending st) < 4"
    by (auto simp: frame_decode_def frame_oversize_def Let_def split: if_splits)
  with 3 show ?case
    by (auto simp: TcpClient_OnDataReceived.simps[of pb mh st] pending_readable
        pending_length_field Let_def frame_length_word kTcpMaxFrame_def)
next
  case (4 st m n)
  let ?l = "ntohl_at (pending st)"
  from 4 have l: "4 \<le> length (pending st)" "unat ?l \<le> kTcpMaxFrame" "4 + unat ?l \<le> length (pending st)"
      and m: "m = take (unat ?l) (drop 4 (pending st))" "n = 4 + unat ?l"
    by (auto simp: frame_decode_def Let_def split: if_splits)
  let ?st1 = "map_input (\<lambda>b. Buffer_Retrieve b 4) st"
  let ?st2 = "map_input (\<lambda>b. Buffer_Retrieve b (unat ?l)) ?st1"
  let ?st3 = "?st2\<lparr>app := client_deliver pb mh m (app ?st2)\<rparr>"
  note s1 = session_retrieve[OF 4(1), of 4]
  note s2 = session_retrieve[OF s1(1), of "unat ?l"]
  have data: "take (unat ?l) (Buffer_Peek (in_buf ?st1)) = m"
    using pending_Peek[OF _ s1(1), of "unat ?l"] l s1(2) m(1) by simp
  have "TcpClient_OnDataReceived pb mh st = TcpClient_OnDataReceived pb mh
      (case pb_parse pb m of
         (True, msg) \<Rightarrow> (case mh of Some f \<Rightarrow> ?st2\<lparr>app := f (app ?st2) msg\<rparr> | None \<Rightarrow> ?st2)
       | (False, _) \<Rightarrow> ?st2)"
    using 4 l data
    by (subst TcpClient_OnDataReceived.simps)
       (simp add: pending_readable pending_length_field Let_def frame_length_word kTcpMaxFrame_def not_less)
  also have "(case pb_parse pb m of
         (True, msg) \<Rightarrow> (case mh of Some f \<Rightarrow> ?st2\<lparr>app := f (app ?st2) msg\<rparr> | None \<Rightarrow> ?st2)
       | (False, _) \<Rightarrow> ?st2) = ?st3"
    by (simp add: client_deliver_def split: prod.splits bool.splits option.splits)
  finally show ?case
    using s1 s2 m(2) by (intro exI[of _ ?st3]) (auto simp: session_inv_def pending_def visible_def add.commute)
qed

section \<open>Properties\<close>

lemma TcpClient_fold_outputs:
  "outputs (concat (map (\<lambda>e. length_frame (pb_serialize pb e)) es)) c (fold (TcpClient_Send pb) es c)"
proof (induction es arbitrary: c)
  case Nil
  then show ?case by simp
next
  case (Cons e es)
  from outputs_trans[OF Send_outputs Cons.IH] show ?case by (simp add: TcpClient_Send_def)
qed

lemma serialized_ok:
  "\<forall>e \<in> set es. length (pb_serialize pb e) \<le> kTcpMaxFrame \<Longrightarrow>
     list_all (frame_ok kTcpMaxFrame) (map (pb_serialize pb) es)"
  by (auto simp: list_all_iff frame_ok_def kTcpMaxFrame_def)

lemma frame_decode_Nil [simp]: "frame_decode n [] = None" "\<not> frame_oversize n []"
  by (simp_all add: frame_decode_def frame_oversize_def)

lemma frame_ok_small [simp]: "frame_ok kTcpMaxFrame ''hi''"
  by (simp add: frame_ok_def kTcpMaxFrame_def)

lemma length_frame_small:
  "length_frame ''hi'' = [CHR 0x00, CHR 0x00, CHR 0x00, CHR 0x02, CHR ''h'', CHR ''i'']"
  by code_simp

lemma log_handler_app:
  "app st = a \<Longrightarrow> rate_limiter st = None \<Longrightarrow>
     visible st' = fold (tcp_serve pb_data_only (Some log_handler)) [d] (visible st) \<Longrightarrow> app st' = a @ [d]"
  by (simp add: visible_def tcp_serve_def tcp_handle_def CheckRateLimit_def log_handler_def)

text \<open>
  C1. However the bytes of a client are cut into reads, the server behaves as the fold of
  \<open>tcp_serve\<close> over the messages they encode: the handler runs once for each complete message in
  order (unless the rate limiter drops it), the responses leave in that order, and the bytes of an
  incomplete message stay in the input buffer.
\<close>
theorem tcp_server_segmentation:
  assumes "session_inv st" and "handler_safe sh" and "pending st = []"
    and "list_all (frame_ok kTcpMaxFrame) ps"
    and "length_frame m = p @ q" and "q \<noteq> []" and "frame_ok kTcpMaxFrame m"
    and "concat chs = concat (map length_frame ps) @ p"
  shows "\<exists>st'. serve receive (tcp_step pb sh) chs st = Some st' \<and> pending st' = p \<and>
    visible st' = fold (tcp_serve pb sh) ps (visible st)"
proof -
  note pre = frame_prefix[OF assms(5,6,7)]
  have "drain (frame_decode kTcpMaxFrame) (pending st @ concat chs) = (ps, p)"
    using framing.drain_concat[OF assms(4) pre(1)] assms(3,8) by simp
  with tcp_srv.serve_concat[of st sh p chs ps] assms(1,2,3) pre(2) show ?thesis by auto
qed

theorem tcp_server_segmentation_witness:
  "\<exists>st'. serve receive (tcp_step pb_data_only (Some log_handler))
        [[CHR 0x00, CHR 0x00, CHR 0x00], [CHR 0x02, CHR ''h''], [CHR ''i'', CHR 0x00]] (fresh_session []) = Some st' \<and>
     pending st' = [CHR 0x00] \<and> app st' = [''hi'']"
proof -
  have "\<exists>st'. serve receive (tcp_step pb_data_only (Some log_handler))
        [[CHR 0x00, CHR 0x00, CHR 0x00], [CHR 0x02, CHR ''h''], [CHR ''i'', CHR 0x00]] (fresh_session []) = Some st' \<and>
     pending st' = [CHR 0x00] \<and>
     visible st' = fold (tcp_serve pb_data_only (Some log_handler)) [''hi''] (visible (fresh_session []))"
    by (rule tcp_server_segmentation[where m = "''hi''" and q = "tl (length_frame ''hi'')"])
       (simp_all add: length_frame_small)
  then show ?thesis
    using log_handler_app[of "fresh_session []" "[]" _ "''hi''"] by (simp only: fresh_session_facts append_Nil) blast
qed

text \<open>
  C4. What a client sends is what the server's handler receives: for any cut of the client's
  output stream into reads, the application state of the server ends where running the handler on
  the sent envelopes in order leads, provided the serialiser round-trips and no message exceeds
  the limit.
\<close>
theorem tcp_end_to_end:
  assumes "session_inv st" and "pending st = []" and "rate_limiter st = None" and "no_throw f"
    and "pb_roundtrip pb es" and "\<forall>e \<in> set es. length (pb_serialize pb e) \<le> kTcpMaxFrame"
    and "conn_inv c" and "in_loop_thread c" and "stream c = []"
    and "concat chs = stream (fold (TcpClient_Send pb) es c)"
  shows "\<exists>st'. serve receive (tcp_step pb (Some f)) chs st = Some st' \<and> pending st' = [] \<and>
    app st' = fold (\<lambda>e a. fst (f a e (Tcp_response e))) es (app st)"
proof -
  have "concat chs = concat (map length_frame (map (pb_serialize pb) es))"
    using TcpClient_fold_outputs[of pb es c] assms(7-10) by (simp add: outputs_def extends_def comp_def)
  then have "drain (frame_decode kTcpMaxFrame) (pending st @ concat chs) = (map (pb_serialize pb) es, [])"
    using framing.drain_concat[OF serialized_ok[OF assms(6)], of "[]"] assms(2) by simp
  then obtain st' where st': "serve receive (tcp_step pb (Some f)) chs st = Some st'" "pending st' = []"
      "visible st' = fold (tcp_serve pb (Some f)) (map (pb_serialize pb) es) (visible st)"
    using tcp_srv.serve_concat[of st "Some f" "[]" chs "map (pb_serialize pb) es" pb] assms(1,2,4)
    by (auto simp: handler_safe_def)
  have app: "fst (fold (tcp_serve pb (Some f)) (map (pb_serialize pb) es) (a, None, out)) =
      fold (\<lambda>e a. fst (f a e (Tcp_response e))) es a" for a out
    using assms(5)
    by (induction es arbitrary: a out)
       (auto simp: tcp_serve_def tcp_handle_def pb_roundtrip_def CheckRateLimit_def split: prod.splits)
  have "app st' = fst (visible st')" by (simp add: visible_def)
  also have "\<dots> = fst (fold (tcp_serve pb (Some f)) (map (pb_serialize pb) es) (app st, None, stream (conn st)))"
    unfolding st'(3) by (simp only: visible_def assms(3))
  also have "\<dots> = fold (\<lambda>e a. fst (f a e (Tcp_response e))) es (app st)" by (rule app)
  finally show ?thesis using st'(1,2) by blast
qed

theorem tcp_end_to_end_witness:
  "\<exists>st'. serve receive (tcp_step pb_data_only (Some log_handler))
        [[CHR 0x00, CHR 0x00, CHR 0x00], [CHR 0x02, CHR ''h''], [CHR ''i'']] (fresh_session []) = Some st' \<and>
     pending st' = [] \<and> app st' = [''hi'']"
proof -
  have "stream (fold (TcpClient_Send pb_data_only) [data_message ''hi''] fresh_conn) = length_frame ''hi''"
    using TcpClient_fold_outputs[of pb_data_only "[data_message ''hi'']" fresh_conn]
    by (simp add: outputs_def extends_def)
  then have "\<exists>st'. serve receive (tcp_step pb_data_only (Some log_handler))
        [[CHR 0x00, CHR 0x00, CHR 0x00], [CHR 0x02, CHR ''h''], [CHR ''i'']] (fresh_session []) = Some st' \<and>
     pending st' = [] \<and>
     app st' = fold (\<lambda>e a. fst (log_handler a e (Tcp_response e))) [data_message ''hi''] (app (fresh_session []))"
    by (intro tcp_end_to_end[where c = fresh_conn])
       (simp_all add: pb_roundtrip_def kTcpMaxFrame_def length_frame_small)
  then show ?thesis by (simp add: log_handler_def)
qed

text \<open>
  What a server writes to a client through its context is what the client's message handler
  receives, in order, for any cut into reads.
\<close>
theorem tcp_client_receives:
  assumes "session_inv st" and "pending st = []" and "pb_roundtrip pb es"
    and "\<forall>e \<in> set es. length (pb_serialize pb e) \<le> kTcpMaxFrame \<and> pb_serialize pb e \<noteq> []"
    and "conn_inv c" and "in_loop_thread c" and "stream c = []"
    and "concat chs = stream (run_ctx (TcpStreamContext pb) (map Ctx_Write_Envelope es) c)"
  shows "\<exists>st'. serve receive (\<lambda>s. Some (TcpClient_OnDataReceived pb (Some g) s)) chs st = Some st' \<and>
    pending st' = [] \<and> app st' = fold (\<lambda>e a. g a e) es (app st)"
proof -
  have "concat (map (tcp_written pb) (map Ctx_Write_Envelope es)) = concat (map length_frame (map (pb_serialize pb) es))"
    using assms(4) by (auto simp: comp_def intro!: arg_cong[where f = concat])
  then have "concat chs = concat (map length_frame (map (pb_serialize pb) es))"
    using tcp_ctx.run_ctx_outputs[of pb "map Ctx_Write_Envelope es" c] assms(5-8)
    by (simp add: outputs_def extends_def)
  then have "drain (frame_decode kTcpMaxFrame) (pending st @ concat chs) = (map (pb_serialize pb) es, [])"
    using framing.drain_concat[OF serialized_ok, of es pb "[]"] assms(2,4) by simp
  then obtain st' where st': "serve receive (\<lambda>s. Some (TcpClient_OnDataReceived pb (Some g) s)) chs st = Some st'"
      "pending st' = []" "app st' = fold (client_deliver pb (Some g)) (map (pb_serialize pb) es) (app st)"
    using tcp_cli.serve_concat[of st "[]" chs "map (pb_serialize pb) es" pb "Some g"] assms(1,2) by auto
  have "fold (client_deliver pb (Some g)) (map (pb_serialize pb) es) a = fold (\<lambda>e a. g a e) es a" for a
    using assms(3) by (induction es arbitrary: a) (auto simp: client_deliver_def pb_roundtrip_def)
  with st' show ?thesis by auto
qed

theorem tcp_client_receives_witness:
  "\<exists>st'. serve receive (\<lambda>s. Some (TcpClient_OnDataReceived pb_data_only (Some (\<lambda>a e. a @ [get_data e])) s))
        [[CHR 0x00, CHR 0x00, CHR 0x00], [CHR 0x02, CHR ''h''], [CHR ''i'']] (fresh_session []) = Some st' \<and>
     pending st' = [] \<and> app st' = [''hi'']"
proof -
  have "stream (run_ctx (TcpStreamContext pb_data_only) (map Ctx_Write_Envelope [data_message ''hi'']) fresh_conn)
      = length_frame ''hi''"
    using tcp_ctx.run_ctx_outputs[of pb_data_only "[Ctx_Write_Envelope (data_message ''hi'')]" fresh_conn]
    by (simp add: outputs_def extends_def)
  then have "\<exists>st'. serve receive (\<lambda>s. Some (TcpClient_OnDataReceived pb_data_only (Some (\<lambda>a e. a @ [get_data e])) s))
        [[CHR 0x00, CHR 0x00, CHR 0x00], [CHR 0x02, CHR ''h''], [CHR ''i'']] (fresh_session []) = Some st' \<and>
     pending st' = [] \<and> app st' = fold (\<lambda>e a. a @ [get_data e]) [data_message ''hi''] (app (fresh_session []))"
    by (intro tcp_client_receives[where c = fresh_conn])
       (simp_all add: pb_roundtrip_def kTcpMaxFrame_def length_frame_small)
  then show ?thesis by simp
qed

text \<open>
  A length field above 100 MB closes the connection: the complete messages before it are
  served, and everything from that length field on is left unread.
\<close>
theorem tcp_oversize_closes:
  assumes "session_inv st" and "handler_safe sh"
    and "list_all (frame_ok kTcpMaxFrame) ps" and "frame_oversize kTcpMaxFrame b"
    and "pending st = concat (map length_frame ps) @ b"
  shows "\<exists>st'. Tcp_OnMessage pb None sh st = (None, map_conn Connection_ForceClose st') \<and>
    pending st' = b \<and> visible st' = fold (tcp_serve pb sh) ps (visible st)"
proof -
  have "frame_decode kTcpMaxFrame b = None" using oversize_stays[OF assms(4), of "[]"] by simp
  then have "drain (frame_decode kTcpMaxFrame) (pending st) = (ps, b)"
    using framing.drain_concat[OF assms(3)] assms(5) by simp
  from tcp_srv.loop_reaches[OF _ this, of sh pb] assms(1,2)
  obtain st' where st': "tcp_step pb sh st = tcp_step pb sh st'" "session_inv st'" "pending st' = b"
      "visible st' = fold (tcp_serve pb sh) ps (visible st)" by auto
  have "Tcp_loop pb sh st' = (None, map_conn Connection_ForceClose st')"
    using st'(2,3) assms(4)
    by (subst Tcp_loop.simps) (simp add: pending_readable pending_length_field frame_oversize_def Let_def)
  with st' show ?thesis
    by (auto simp: tcp_step_def Tcp_OnMessage_def split: prod.splits option.splits)
qed

theorem tcp_oversize_closes_witness:
  "\<exists>st'. Tcp_OnMessage pb_data_only None (Some log_handler)
      (receive [CHR 0x00, CHR 0x00, CHR 0x00, CHR 0x02, CHR ''h'', CHR ''i'', CHR ''G'', CHR ''E'', CHR ''T'', CHR '' '']
        (fresh_session [])) = (None, map_conn Connection_ForceClose st') \<and>
     pending st' = ''GET '' \<and> app st' = [''hi'']"
proof -
  let ?bs = "[CHR 0x00, CHR 0x00, CHR 0x00, CHR 0x02, CHR ''h'', CHR ''i'', CHR ''G'', CHR ''E'', CHR ''T'', CHR '' '']"
  have big: "frame_oversize kTcpMaxFrame ''GET ''"
    by (simp add: frame_oversize_def ntohl_at_def u8_def kTcpMaxFrame_def)
  note r = session_receive[of "fresh_session ([] :: bytes list)" ?bs, simplified]
  have "\<exists>st'. Tcp_OnMessage pb_data_only None (Some log_handler) (receive ?bs (fresh_session []))
        = (None, map_conn Connection_ForceClose st') \<and> pending st' = ''GET '' \<and>
      visible st' = fold (tcp_serve pb_data_only (Some log_handler)) [''hi''] (visible (receive ?bs (fresh_session [])))"
    by (rule tcp_oversize_closes) (use r big in \<open>simp_all add: length_frame_small\<close>)
  moreover have "app (receive ?bs (fresh_session ([] :: bytes list))) = []"
      "rate_limiter (receive ?bs (fresh_session ([] :: bytes list))) = None"
    using r by (simp_all add: visible_def)
  ultimately show ?thesis
    using log_handler_app[of "receive ?bs (fresh_session [])" "[]" _ "''hi''"] by (metis append_Nil)
qed

end
