(* ===== verification/Rpc.thy ===== *)
theory Rpc
  imports Tcp
begin

text \<open>
  The RPC protocol: \<open>protocols::rpc::RpcHandler\<close> with its \<open>RpcStreamContext\<close> on the server and
  \<open>RpcClientProtocol\<close> on the client.  The framing is the one of TCP, but the server tests no upper
  limit and computes \<open>4 + length\<close> in 32 bits, so its loop may not end: it is a partial function,
  whose value \<open>None\<close> is a call that never returns.
\<close>

section \<open>The server\<close>

fun RpcStreamContext :: "proto \<Rightarrow> ctx_op \<Rightarrow> connection \<Rightarrow> connection" where
  "RpcStreamContext pb (Ctx_Write_Envelope msg) c =
     Connection_Send (length_frame (pb_serialize pb msg)) c"
| "RpcStreamContext pb (Ctx_Write data) c = Connection_Send (length_frame data) c"
| "RpcStreamContext pb Ctx_Close c = Connection_ForceClose c"

text \<open>The answer of a server without a handler.\<close>

definition Rpc_echo :: "envelope \<Rightarrow> envelope" where
  "Rpc_echo req =
     set_data (get_data req)
       (upd_header (\<lambda>h. h\<lparr>correlation_id := message_id (get_header req)\<rparr>)
         (upd_header (\<lambda>h. h\<lparr>message_type := message_type (get_header req) @ ''.response''\<rparr>)
           envelope_empty))"

text \<open>One message of \<open>length\<close> bytes at \<open>body\<close>; the \<open>size\<close> argument of \<open>ParseFromArray\<close> is an \<open>int\<close>.\<close>

definition Rpc_message ::
    "proto \<Rightarrow> 's stream_handler option \<Rightarrow> bytes \<Rightarrow> uint32 \<Rightarrow> 's session \<Rightarrow> exn option \<times> 's session" where
  "Rpc_message pb sh body len st =
     (case ParseFromArray pb body (sint len) of
        (False, _) \<Rightarrow> (None, st)
      | (True, req) \<Rightarrow>
          (case sh of
             Some f \<Rightarrow>
               (case call_stream (RpcStreamContext pb) f req envelope_empty st of
                  (Inl e, st1) \<Rightarrow> (Some e, st1)
                | (Inr resp, st1) \<Rightarrow>
                    (None, if env_header resp \<noteq> None \<or> env_payload resp \<noteq> None
                           then map_conn (RpcStreamContext pb (Ctx_Write_Envelope resp)) st1 else st1))
           | None \<Rightarrow>
               (let serialized = pb_serialize pb (Rpc_echo req);
                    st1 = map_conn (Connection_Send (htonl_bytes (of_nat (length serialized)))) st
                in (None, map_conn (Connection_Send serialized) st1))))"

partial_function (option) Rpc_loop ::
    "proto \<Rightarrow> 's stream_handler option \<Rightarrow> 's session \<Rightarrow> (exn option \<times> 's session) option" where
  "Rpc_loop pb sh st =
     (if Buffer_ReadableBytes (in_buf st) < 4 then Some (None, st)
      else
        (let header = Buffer_Peek (in_buf st);
             len = ntohl_at header
         in if Buffer_ReadableBytes (in_buf st) < unat (4 + len) then Some (None, st)
            else
              (let (r, st1) = Rpc_message pb sh (drop 4 header) len st
               in case r of
                    Some e \<Rightarrow> Some (Some e, st1)
                  | None \<Rightarrow> Rpc_loop pb sh (map_input (\<lambda>b. Buffer_Retrieve b (unat (4 + len))) st1))))"

definition Rpc_OnMessage ::
    "proto \<Rightarrow> 's stream_handler option \<Rightarrow> 's session \<Rightarrow> (exn option \<times> 's session) option" where
  "Rpc_OnMessage pb sh st = Rpc_loop pb sh st"

section \<open>The client\<close>

text \<open>The static counter of \<open>GenerateId\<close> is threaded through.\<close>

definition Rpc_GenerateId :: "uint64 \<Rightarrow> string \<times> uint64" where
  "Rpc_GenerateId n = (''req-'' @ dec_str (unat n), n + 1)"

definition Rpc_stamp :: "uint64 \<Rightarrow> envelope \<Rightarrow> envelope \<times> uint64" where
  "Rpc_stamp n e =
     (let msg = (if env_header e = None then upd_header (\<lambda>h. h\<lparr>message_type := ''rpc.generic''\<rparr>) e else e)
      in if correlation_id (get_header msg) = []
         then (case Rpc_GenerateId n of
                 (i, n') \<Rightarrow> (upd_header (\<lambda>h. h\<lparr>correlation_id := i\<rparr>) msg, n'))
         else (msg, n))"

definition RpcClient_Send :: "proto \<Rightarrow> envelope \<Rightarrow> uint64 \<times> connection \<Rightarrow> uint64 \<times> connection" where
  "RpcClient_Send pb e nc =
     (case nc of (n, c) \<Rightarrow>
        (case Rpc_stamp n e of
           (msg, n') \<Rightarrow> (n', Connection_Send (length_frame (pb_serialize pb msg)) c)))"

function RpcClient_OnDataReceived :: "proto \<Rightarrow> 's message_handler option \<Rightarrow> 's session \<Rightarrow> 's session" where
  "RpcClient_OnDataReceived pb mh st =
     (if 4 \<le> Buffer_ReadableBytes (in_buf st) then
        (let len = ntohl_at (Buffer_Peek (in_buf st))
         in if kTcpMaxFrame < unat len then map_conn Connection_ForceClose st
            else if unat (4 + len) \<le> Buffer_ReadableBytes (in_buf st) then
              (let st1 = map_input (\<lambda>b. Buffer_Retrieve b 4) st;
                   data = take (unat len) (Buffer_Peek (in_buf st1));
                   st2 = map_input (\<lambda>b. Buffer_Retrieve b (unat len)) st1;
                   st3 = (case pb_parse pb data of
                            (True, msg) \<Rightarrow>
                              (case mh of Some f \<Rightarrow> st2\<lparr>app := f (app st2) msg\<rparr> | None \<Rightarrow> st2)
                          | (False, _) \<Rightarrow> st2)
               in RpcClient_OnDataReceived pb mh st3)
            else st)
      else st)"
  by pat_completeness auto
termination
  by (relation "measure (\<lambda>(pb, mh, st). Buffer_ReadableBytes (in_buf st))")
     (auto simp: in_buf_map_input intro: Retrieve_header
       split: prod.splits bool.splits option.splits)

declare RpcClient_OnDataReceived.simps [simp del]

section \<open>A length that wraps\<close>

lemma Retrieve_0: "Buffer_ReadableBytes b \<noteq> 0 \<Longrightarrow> Buffer_Retrieve b 0 = b"
  by (simp add: Buffer_Retrieve_def)

lemma run_ctx_Rpc_input [simp]: "input_buffer (run_ctx (RpcStreamContext pb) ops c) = input_buffer c"
proof (induction ops arbitrary: c)
  case (Cons op ops)
  have "input_buffer (RpcStreamContext pb op c) = input_buffer c"
    by (cases op) (simp_all add: Connection_ForceClose_def)
  with Cons show ?case by (simp add: run_ctx_def)
qed (simp add: run_ctx_def)

lemma Rpc_message_input: "in_buf (snd (Rpc_message pb sh body len st)) = in_buf st"
  by (auto simp: Rpc_message_def call_stream_def map_conn_def Let_def
      split: prod.splits bool.splits option.splits sum.splits)

lemma Rpc_message_safe:
  assumes "handler_safe sh" shows "fst (Rpc_message pb sh body len st) = None"
proof (cases sh)
  case None
  then show ?thesis by (simp add: Rpc_message_def Let_def split: prod.splits bool.splits)
next
  case (Some f)
  have "\<exists>resp' st'. call_stream ctx f req resp st = (Inr resp', st')" for ctx req resp
  proof -
    from assms Some have "no_throw f" by (simp add: handler_safe_def)
    then obtain s' ops resp' where "f (app st) req resp = (s', ops, Inr resp')"
      unfolding no_throw_def by blast
    then show ?thesis by (simp add: call_stream_def)
  qed
  with Some show ?thesis
    by (auto simp: Rpc_message_def split: prod.splits bool.splits sum.splits) (metis Inl_Inr_False Pair_inject)+
qed

lemma Rpc_loop_stuck:
  "Rpc_loop pb sh st = Some y \<Longrightarrow> handler_safe sh \<Longrightarrow> 4 \<le> Buffer_ReadableBytes (in_buf st) \<Longrightarrow>
     ntohl_at (Buffer_Peek (in_buf st)) \<noteq> 0xFFFFFFFC"
proof (induction rule: Rpc_loop.raw_induct[rotated, consumes 1, case_names step])
  case (step loop pb sh st y)
  show ?case
  proof
    assume len: "ntohl_at (Buffer_Peek (in_buf st)) = 0xFFFFFFFC"
    obtain r st1 where m: "Rpc_message pb sh (drop 4 (Buffer_Peek (in_buf st))) 0xFFFFFFFC st = (r, st1)"
      by fastforce
    then have r: "r = None" "in_buf st1 = in_buf st"
      using Rpc_message_safe[OF step(3)] Rpc_message_input by (metis fst_conv, metis snd_conv)
    then have st1: "map_input (\<lambda>b. Buffer_Retrieve b 0) st1 = st1"
      using step(4) by (simp add: map_input_def map_conn_def Retrieve_0)
    have "loop pb sh st1 = Some y"
      using step(2,4) len m r st1 by (simp add: Let_def)
    from step(1)[OF this step(3)] r len step(4) show False by simp
  qed
qed

text \<open>
  C32. A length field of \<open>0xFFFFFFFC\<close> wraps \<open>4 + length\<close> to zero: the handler consumes nothing and
  its loop never ends, whatever the application handler does short of throwing.
\<close>
theorem rpc_length_wrap_diverges:
  assumes "session_inv st" and "handler_safe sh"
    and "4 \<le> length (pending st)" and "ntohl_at (pending st) = 0xFFFFFFFC"
  shows "Rpc_OnMessage pb sh st = None"
proof (cases "Rpc_loop pb sh st")
  case None
  then show ?thesis by (simp add: Rpc_OnMessage_def)
next
  case (Some y)
  from Rpc_loop_stuck[OF this assms(2)] show ?thesis
    using assms pending_length_field[OF assms(1,3)] pending_readable[OF assms(1)] by simp
qed

theorem rpc_length_wrap_diverges_witness:
  "Rpc_OnMessage pb_data_only (Some log_handler)
     (receive [CHR 0xFF, CHR 0xFF, CHR 0xFF, CHR 0xFC] (fresh_session [])) = None"
proof (rule rpc_length_wrap_diverges)
  note r = session_receive[of "fresh_session ([] :: bytes list)" "[CHR 0xFF, CHR 0xFF, CHR 0xFF, CHR 0xFC]", simplified]
  show "session_inv (receive [CHR 0xFF, CHR 0xFF, CHR 0xFF, CHR 0xFC] (fresh_session ([] :: bytes list)))"
    using r by blast
  show "4 \<le> length (pending (receive [CHR 0xFF, CHR 0xFF, CHR 0xFF, CHR 0xFC] (fresh_session ([] :: bytes list))))"
    using r by simp
  show "ntohl_at (pending (receive [CHR 0xFF, CHR 0xFF, CHR 0xFF, CHR 0xFC] (fresh_session ([] :: bytes list)))) = 0xFFFFFFFC"
    using r by (simp add: ntohl_at_def u8_def)
qed simp

section \<open>The server as a function of the messages\<close>

text \<open>
  The specification of a message that is not too long for \<open>ParseFromArray\<close>: what it does to the
  application and to the output stream.
\<close>

definition kRpcMaxFrame :: nat where
  "kRpcMaxFrame = 2 ^ 31 - 1"

fun rpc_written :: "proto \<Rightarrow> ctx_op \<Rightarrow> bytes" where
  "rpc_written pb (Ctx_Write_Envelope msg) = length_frame (pb_serialize pb msg)"
| "rpc_written pb (Ctx_Write data) = length_frame data"
| "rpc_written pb Ctx_Close = []"

interpretation rpc_ctx: stream_context "RpcStreamContext pb" "rpc_written pb" for pb
proof
  fix op c
  show "outputs (rpc_written pb op) c (RpcStreamContext pb op c)"
    by (cases op) (simp_all add: Send_outputs ForceClose_outputs)
qed

definition rpc_handle ::
    "proto \<Rightarrow> 's stream_handler option \<Rightarrow> bytes \<Rightarrow> 's \<times> limiter \<times> bytes \<Rightarrow> 's \<times> limiter \<times> bytes" where
  "rpc_handle pb sh data v =
     (case (pb_parse pb data, v) of
        ((False, _), _) \<Rightarrow> v
      | ((True, req), (a, lm, out)) \<Rightarrow>
          (case sh of
             None \<Rightarrow> (a, lm, out @ length_frame (pb_serialize pb (Rpc_echo req)))
           | Some f \<Rightarrow>
               (case f a req envelope_empty of
                  (a', ops, r) \<Rightarrow>
                    (a', lm, out @ concat (map (rpc_written pb) ops) @
                       (case r of Inl _ \<Rightarrow> []
                        | Inr resp \<Rightarrow>
                            if env_header resp \<noteq> None \<or> env_payload resp \<noteq> None
                            then length_frame (pb_serialize pb resp) else [])))))"

lemma Rpc_message_visible:
  assumes "session_inv st" and "handler_safe sh" and "0 \<le> sint len"
  shows "\<exists>st'. Rpc_message pb sh body len st = (None, st') \<and> session_inv st' \<and> pending st' = pending st \<and>
    visible st' = rpc_handle pb sh (take (nat (sint len)) body) (visible st)"
proof (cases "pb_parse pb (take (nat (sint len)) body)")
  case (Pair good req)
  note unf = Rpc_message_def ParseFromArray_def rpc_handle_def visible_def Pair
  consider "\<not> good" | "good" "sh = None" | f where "good" "sh = Some f" by blast
  then show ?thesis
  proof cases
    case 1
    with assms show ?thesis by (simp add: unf)
  next
    case 2
    let ?s = "pb_serialize pb (Rpc_echo req)"
    let ?c = "Connection_Send ?s (Connection_Send (htonl_bytes (of_nat (length ?s))) (conn st))"
    have o2: "outputs (length_frame ?s) (conn st) ?c"
      unfolding length_frame_def by (rule outputs_trans[OF Send_outputs Send_outputs])
    have "Rpc_message pb sh body len st = (None, st\<lparr>app := app st, conn := ?c\<rparr>)"
      using 2 assms(3) by (simp add: unf map_conn_def Let_def)
    with session_outputs[OF assms(1) o2, of "app st"] 2 show ?thesis by (simp add: unf)
  next
    case 3
    from assms(2) 3(2) have "no_throw f" by (simp add: handler_safe_def)
    then obtain a' ops resp where f: "f (app st) req envelope_empty = (a', ops, Inr resp)"
      unfolding no_throw_def by blast
    let ?w = "if env_header resp \<noteq> None \<or> env_payload resp \<noteq> None then length_frame (pb_serialize pb resp) else []"
    define c1 where "c1 = run_ctx (RpcStreamContext pb) ops (conn st)"
    define c2 where "c2 = (if env_header resp \<noteq> None \<or> env_payload resp \<noteq> None
        then Connection_Send (length_frame (pb_serialize pb resp)) c1 else c1)"
    have o2: "outputs (concat (map (rpc_written pb) ops) @ ?w) (conn st) c2"
      unfolding c1_def c2_def
      by (rule outputs_trans[OF rpc_ctx.run_ctx_outputs]) (simp add: Send_outputs)
    have "Rpc_message pb sh body len st = (None, st\<lparr>app := a', conn := c2\<rparr>)"
      using 3 f assms(3) by (simp add: unf c1_def c2_def map_conn_def call_stream_def)
    with session_outputs[OF assms(1) o2, of a'] 3 f show ?thesis by (simp add: unf)
  qed
qed

definition rpc_step :: "proto \<Rightarrow> 's stream_handler option \<Rightarrow> 's session \<Rightarrow> 's session option" where
  "rpc_step pb sh st = (case Rpc_OnMessage pb sh st of Some (None, st') \<Rightarrow> Some st' | _ \<Rightarrow> None)"

interpretation rpc_srv: frame_server "frame_decode kRpcMaxFrame" "frame_oversize kRpcMaxFrame"
    pending receive "rpc_step pb sh" visible "rpc_handle pb sh" "\<lambda>st. session_inv st \<and> handler_safe sh"
  for pb sh
proof (unfold_locales, goal_cases)
  case (1 bs x)
  then show ?case by (rule oversize_stays)
next
  case (2 st ch)
  then show ?case using session_receive by blast
next
  case (3 st)
  then have "unat (ntohl_at (pending st)) \<le> kRpcMaxFrame \<and>
      length (pending st) < 4 + unat (ntohl_at (pending st)) \<or> length (pending st) < 4"
    by (auto simp: frame_decode_def frame_oversize_def Let_def split: if_splits)
  with 3 show ?case
    by (auto simp: rpc_step_def Rpc_OnMessage_def Rpc_loop.simps[of pb sh st] pending_readable
        pending_length_field Let_def frame_length_word kRpcMaxFrame_def)
next
  case (4 st m n)
  let ?l = "ntohl_at (pending st)"
  from 4 have l: "4 \<le> length (pending st)" "unat ?l \<le> kRpcMaxFrame" "4 + unat ?l \<le> length (pending st)"
      and m: "m = take (unat ?l) (drop 4 (pending st))" "n = 4 + unat ?l"
    by (auto simp: frame_decode_def Let_def split: if_splits)
  have sint: "sint ?l = int (unat ?l)"
  proof -
    have "unat ?l < 2 ^ 31" using l(2) by (simp add: kRpcMaxFrame_def)
    then have "int (unat ?l) < int (2 ^ 31)" by (simp only: of_nat_less_iff)
    then have "uint ?l < 2 ^ 31" by simp
    moreover have "- 2147483648 \<le> uint ?l" using uint_ge_0[of ?l] by linarith
    ultimately show ?thesis by (simp add: sint_uint signed_take_bit_int_eq_self)
  qed
  have body: "take (unat ?l) (drop 4 (Buffer_Peek (in_buf st))) = m"
    using pending_Peek[of "4 + unat ?l" st] 4 l m(1) by (metis take_drop add.commute)
  obtain st1 where st1: "Rpc_message pb sh (drop 4 (Buffer_Peek (in_buf st))) ?l st = (None, st1)"
      "session_inv st1" "pending st1 = pending st" "visible st1 = rpc_handle pb sh m (visible st)"
    using Rpc_message_visible[of st sh ?l pb "drop 4 (Buffer_Peek (in_buf st))"] 4 sint body by auto
  have "Rpc_loop pb sh st = Rpc_loop pb sh (map_input (\<lambda>b. Buffer_Retrieve b n) st1)"
    using 4 l st1(1) m(2)
    by (subst Rpc_loop.simps)
       (simp add: pending_readable pending_length_field Let_def frame_length_word kRpcMaxFrame_def not_less)
  with session_retrieve[OF st1(2), of n] st1(3,4) 4 show ?case
    by (intro exI[of _ "map_input (\<lambda>b. Buffer_Retrieve b n) st1"]) (simp add: rpc_step_def Rpc_OnMessage_def)
qed

section \<open>Properties\<close>

text \<open>
  C16. However the bytes are cut into reads, an RPC server is the fold of \<open>rpc_handle\<close> over the
  messages they encode, each call of \<open>OnMessage\<close> returns, and an incomplete message stays in the
  input buffer, for messages shorter than 2 GB.
\<close>
theorem rpc_server_segmentation:
  assumes "session_inv st" and "handler_safe sh" and "pending st = []"
    and "list_all (frame_ok kRpcMaxFrame) ps"
    and "length_frame m = p @ q" and "q \<noteq> []" and "frame_ok kRpcMaxFrame m"
    and "concat chs = concat (map length_frame ps) @ p"
  shows "\<exists>st'. serve receive (rpc_step pb sh) chs st = Some st' \<and> pending st' = p \<and>
    visible st' = fold (rpc_handle pb sh) ps (visible st)"
proof -
  note pre = frame_prefix[OF assms(5,6,7)]
  have "drain (frame_decode kRpcMaxFrame) (pending st @ concat chs) = (ps, p)"
    using framing.drain_concat[OF assms(4) pre(1)] assms(3,8) by simp
  with rpc_srv.serve_concat[of st sh p chs ps] assms(1,2,3) pre(2) show ?thesis by auto
qed

lemma frame_ok_rpc_small [simp]: "frame_ok kRpcMaxFrame ''hi''"
  by (simp add: frame_ok_def kRpcMaxFrame_def)

theorem rpc_server_segmentation_witness:
  "\<exists>st'. serve receive (rpc_step pb_data_only None)
        [[CHR 0x00, CHR 0x00, CHR 0x00], [CHR 0x02, CHR ''h''], [CHR ''i'', CHR 0x00]] (fresh_session ()) = Some st' \<and>
     pending st' = [CHR 0x00] \<and>
     visible st' = fold (rpc_handle pb_data_only None) [''hi''] (visible (fresh_session ()))"
  by (rule rpc_server_segmentation[where m = "''hi''" and q = "tl (length_frame ''hi'')"])
     (simp_all add: length_frame_small handler_safe_def)

lemma RpcClient_fold_stream:
  "conn_inv c \<Longrightarrow> in_loop_thread c \<Longrightarrow>
   list_all (\<lambda>e. env_header e \<noteq> None \<and> correlation_id (get_header e) \<noteq> []) es \<Longrightarrow>
   stream (snd (fold (RpcClient_Send pb) es (n, c))) =
     stream c @ concat (map (\<lambda>e. length_frame (pb_serialize pb e)) es)"
proof (induction es arbitrary: c)
  case Nil
  then show ?case by simp
next
  case (Cons e es)
  have "RpcClient_Send pb e (n, c) = (n, Connection_Send (length_frame (pb_serialize pb e)) c)"
    using Cons.prems(3) by (auto simp: RpcClient_Send_def Rpc_stamp_def Let_def)
  moreover from Send_extends[OF Cons.prems(1,2), of "length_frame (pb_serialize pb e)"]
  have "conn_inv (Connection_Send (length_frame (pb_serialize pb e)) c)"
    "in_loop_thread (Connection_Send (length_frame (pb_serialize pb e)) c)"
    "stream (Connection_Send (length_frame (pb_serialize pb e)) c) = stream c @ length_frame (pb_serialize pb e)"
    using Cons.prems(1,2) by (auto simp: extends_def)
  ultimately show ?case using Cons.IH Cons.prems(3) by simp
qed

text \<open>
  A call over a server without a handler is echoed: requests that carry their correlation id
  come back in order, each answered by a message of the request's type with \<open>.response\<close> added, its
  message id as correlation id, and its data.
\<close>
theorem rpc_echo_call:
  assumes "session_inv st" and "pending st = []" and "pb_roundtrip pb es"
    and "\<forall>e \<in> set es. length (pb_serialize pb e) \<le> kRpcMaxFrame"
    and "\<forall>e \<in> set es. env_header e \<noteq> None \<and> correlation_id (get_header e) \<noteq> []"
    and "conn_inv c" and "in_loop_thread c" and "stream c = []"
    and "concat chs = stream (snd (fold (RpcClient_Send pb) es (n, c)))"
  shows "\<exists>st'. serve receive (rpc_step pb None) chs st = Some st' \<and> pending st' = [] \<and>
    stream (conn st') = stream (conn st) @
      concat (map (\<lambda>e. length_frame (pb_serialize pb (Rpc_echo e))) es)"
proof -
  have "concat chs = concat (map length_frame (map (pb_serialize pb) es))"
    using RpcClient_fold_stream[of c es pb n] assms(5-9) by (simp add: list_all_iff comp_def)
  moreover have "list_all (frame_ok kRpcMaxFrame) (map (pb_serialize pb) es)"
    using assms(4) by (auto simp: list_all_iff frame_ok_def kRpcMaxFrame_def)
  ultimately have "drain (frame_decode kRpcMaxFrame) (pending st @ concat chs) = (map (pb_serialize pb) es, [])"
    using framing.drain_concat[of kRpcMaxFrame "map (pb_serialize pb) es" "[]"] assms(2) by simp
  then obtain st' where st': "serve receive (rpc_step pb None) chs st = Some st'" "pending st' = []"
      "visible st' = fold (rpc_handle pb None) (map (pb_serialize pb) es) (visible st)"
    using rpc_srv.serve_concat[of st None "[]" chs "map (pb_serialize pb) es" pb] assms(1,2)
    by (auto simp: handler_safe_def)
  have out: "fold (rpc_handle pb None) (map (pb_serialize pb) es) (a, lm, out) =
      (a, lm, out @ concat (map (\<lambda>e. length_frame (pb_serialize pb (Rpc_echo e))) es))" for a lm out
    using assms(3) by (induction es arbitrary: out) (auto simp: rpc_handle_def pb_roundtrip_def)
  have "stream (conn st') = snd (snd (visible st'))" by (simp add: visible_def)
  also have "\<dots> = stream (conn st) @ concat (map (\<lambda>e. length_frame (pb_serialize pb (Rpc_echo e))) es)"
    unfolding st'(3) by (simp add: visible_def out del: fold_map)
  finally show ?thesis using st'(1,2) by blast
qed

text \<open>A serialiser for the witness that keeps the correlation id and the data.\<close>

definition pb_tagged :: proto where
  "pb_tagged = \<lparr>pb_serialize = (\<lambda>e. correlation_id (get_header e) @ CHR ''|'' # get_data e),
     pb_parse = (\<lambda>bs. (True, upd_header (\<lambda>h. h\<lparr>correlation_id := takeWhile (\<lambda>c. c \<noteq> CHR ''|'') bs\<rparr>)
                          (data_message (tl (dropWhile (\<lambda>c. c \<noteq> CHR ''|'') bs))))),
     pb_parse_negative = (\<lambda>_. (False, envelope_empty))\<rparr>"

definition tagged_message :: envelope where
  "tagged_message = upd_header (\<lambda>h. h\<lparr>correlation_id := ''7''\<rparr>) (data_message ''a'')"

lemma tagged_message_facts:
  "pb_serialize pb_tagged tagged_message = ''7|a''" "pb_parse pb_tagged ''7|a'' = (True, tagged_message)"
  "env_header tagged_message \<noteq> None" "correlation_id (get_header tagged_message) = ''7''"
  by (simp_all add: pb_tagged_def tagged_message_def data_message_def envelope_defs)

lemma tagged_frame:
  "length_frame ''7|a'' = [CHR 0x00, CHR 0x00, CHR 0x00, CHR 0x03, CHR ''7'', CHR ''|'', CHR ''a'']"
  "length_frame (pb_serialize pb_tagged (Rpc_echo tagged_message)) =
     [CHR 0x00, CHR 0x00, CHR 0x00, CHR 0x02, CHR ''|'', CHR ''a'']"
  by code_simp+

theorem rpc_echo_call_witness:
  "\<exists>st'. serve receive (rpc_step pb_tagged None)
        [[CHR 0x00, CHR 0x00, CHR 0x00, CHR 0x03], [CHR ''7'', CHR ''|'', CHR ''a'']] (fresh_session ()) = Some st' \<and>
     pending st' = [] \<and>
     stream (conn st') = [CHR 0x00, CHR 0x00, CHR 0x00, CHR 0x02, CHR ''|'', CHR ''a'']"
proof -
  note f = tagged_message_facts
  have "stream (snd (fold (RpcClient_Send pb_tagged) [tagged_message] (1, fresh_conn))) = length_frame ''7|a''"
    using RpcClient_fold_stream[of fresh_conn "[tagged_message]" pb_tagged 1] f by simp
  then have "\<exists>st'. serve receive (rpc_step pb_tagged None)
        [[CHR 0x00, CHR 0x00, CHR 0x00, CHR 0x03], [CHR ''7'', CHR ''|'', CHR ''a'']] (fresh_session ()) = Some st' \<and>
     pending st' = [] \<and>
     stream (conn st') = stream (conn (fresh_session ())) @
       concat (map (\<lambda>e. length_frame (pb_serialize pb_tagged (Rpc_echo e))) [tagged_message])"
    by (intro rpc_echo_call[where c = fresh_conn and n = 1])
       (use f in \<open>simp_all add: pb_roundtrip_def kRpcMaxFrame_def tagged_frame(1)\<close>)
  then show ?thesis by (simp add: tagged_frame(2) fresh_session_def)
qed

text \<open>
  The ids that a client generates for messages without a correlation id are distinct: the
  first \<open>k\<close> stamps from a counter \<open>n\<close> that does not overflow are \<open>req-n\<close>, \<open>req-(n+1)\<close>, \<dots>
\<close>
theorem Rpc_stamp_unique:
  assumes "\<forall>e \<in> set es. correlation_id (get_header e) = []" and "unat n + length es < 2 ^ 64"
  shows "distinct (map (\<lambda>e. correlation_id (get_header e))
           (fst (fold (\<lambda>e (ms, k). case Rpc_stamp k e of (m, k') \<Rightarrow> (ms @ [m], k')) es ([], n))))"
proof -
  have stamp: "correlation_id (get_header (fst (Rpc_stamp k e))) = ''req-'' @ dec_str (unat k) \<and>
      snd (Rpc_stamp k e) = k + 1" if "correlation_id (get_header e) = []" for k e
    using that by (auto simp: Rpc_stamp_def Rpc_GenerateId_def Let_def envelope_defs)
  have "map (\<lambda>e. correlation_id (get_header e))
          (fst (fold (\<lambda>e (ms, k). case Rpc_stamp k e of (m, k') \<Rightarrow> (ms @ [m], k')) es (ms0, n))) =
        map (\<lambda>e. correlation_id (get_header e)) ms0 @
        map (\<lambda>i. ''req-'' @ dec_str (unat n + i)) [0..<length es]" for ms0
    using assms
  proof (induction es arbitrary: ms0 n)
    case Nil
    then show ?case by simp
  next
    case (Cons e es)
    have u: "unat (n + 1) = unat n + 1"
      using Cons.prems(2) by (simp add: unat_word_ariths)
    obtain m k' where m: "Rpc_stamp n e = (m, k')" by fastforce
    with stamp[of e n] Cons.prems(1) have mk: "correlation_id (get_header m) = ''req-'' @ dec_str (unat n)"
      "k' = n + 1" by auto
    have "map (\<lambda>i. ''req-'' @ dec_str (unat n + i)) [0..<length (e # es)] =
        (''req-'' @ dec_str (unat n)) # map (\<lambda>i. ''req-'' @ dec_str (unat (n + 1) + i)) [0..<length es]"
      by (simp add: u upt_conv_Cons map_Suc_upt[symmetric] comp_def del: upt_Suc)
    with Cons.IH[of "n + 1" "ms0 @ [m]"] Cons.prems u m mk show ?case by simp
  qed
  moreover have "inj_on (\<lambda>i. ''req-'' @ dec_str (unat n + i)) (set [0..<length es])"
    by (rule inj_onI) (metis digits_val_dec_str add_left_cancel same_append_eq)
  ultimately show ?thesis by (simp add: distinct_map)
qed

theorem Rpc_stamp_unique_witness:
  "distinct (map (\<lambda>e. correlation_id (get_header e))
     (fst (fold (\<lambda>e (ms, k). case Rpc_stamp k e of (m, k') \<Rightarrow> (ms @ [m], k'))
       [envelope_empty, envelope_empty] ([], 9))))"
  by (rule Rpc_stamp_unique) (simp_all add: envelope_defs)

end
