(* ===== verification/Http2.thy ===== *)
theory Http2
  imports Session
begin

text \<open>
  HTTP/2 as the library speaks it: \<open>http2::FrameParser\<close>, \<open>HpackEncoder\<close>, \<open>Stream\<close> and \<open>Session\<close>.
  A \<open>std::vector<uint8_t>\<close> that holds received data is a byte string; the output of the HPACK
  encoder is a list of \<open>uint8\<close>, turned into bytes where the source makes a string of it.  A
  \<open>std::map\<close> of headers is the list of its entries in key order, which is the order the encoder
  visits them in.
\<close>

section \<open>Frames\<close>

definition DATA :: uint8 where "DATA = 0x0"
definition HEADERS :: uint8 where "HEADERS = 0x1"

record frame_header =
  fh_length :: uint32
  fh_type :: uint8
  fh_flags :: uint8
  fh_stream_id :: uint32

record h2_frame =
  fr_header :: frame_header
  fr_payload :: bytes

datatype parser_state = kReadingHeader | kReadingPayload

record frame_parser =
  fp_state :: parser_state
  fp_header :: frame_header

definition FrameParser_new :: "frame_header \<Rightarrow> frame_parser" where
  "FrameParser_new uninitialised = \<lparr>fp_state = kReadingHeader, fp_header = uninitialised\<rparr>"

text \<open>The fields of a frame header at \<open>p\<close>.\<close>

definition read_frame_header :: "bytes \<Rightarrow> frame_header" where
  "read_frame_header p =
     \<lparr>fh_length = push_bit 16 (ucast (u8 (p ! 0))) OR push_bit 8 (ucast (u8 (p ! 1))) OR ucast (u8 (p ! 2)),
      fh_type = u8 (p ! 3), fh_flags = u8 (p ! 4),
      fh_stream_id = (push_bit 24 (ucast (u8 (p ! 5))) OR push_bit 16 (ucast (u8 (p ! 6))) OR
                      push_bit 8 (ucast (u8 (p ! 7))) OR ucast (u8 (p ! 8))) AND 0x7FFFFFFF\<rparr>"

definition FrameParser_Parse :: "frame_parser \<Rightarrow> buffer \<Rightarrow> h2_frame option \<times> frame_parser \<times> buffer" where
  "FrameParser_Parse fp buf =
     (if fp_state fp = kReadingHeader \<and> Buffer_ReadableBytes buf < 9 then (None, fp, buf)
      else
        (let (fp1, buf1) =
               (if fp_state fp = kReadingHeader
                then (fp\<lparr>fp_header := read_frame_header (Buffer_Peek buf), fp_state := kReadingPayload\<rparr>,
                      Buffer_Retrieve buf 9)
                else (fp, buf));
             len = unat (fh_length (fp_header fp1))
         in if Buffer_ReadableBytes buf1 < len then (None, fp1, buf1)
            else
              (Some \<lparr>fr_header = fp_header fp1,
                     fr_payload = (if 0 < len then take len (Buffer_Peek buf1) else [])\<rparr>,
               fp1\<lparr>fp_state := kReadingHeader\<rparr>,
               if 0 < len then Buffer_Retrieve buf1 len else buf1)))"

text \<open>The nine bytes every sender puts in front of a payload.\<close>

definition write_frame_header :: "uint32 \<Rightarrow> uint8 \<Rightarrow> uint8 \<Rightarrow> uint32 \<Rightarrow> bytes" where
  "write_frame_header len ty flags stream_id =
     [chr8 (ucast (drop_bit 16 len)), chr8 (ucast (drop_bit 8 len)), chr8 (ucast len),
      chr8 ty, chr8 flags,
      chr8 (ucast (drop_bit 24 stream_id AND 0x7F)), chr8 (ucast (drop_bit 16 stream_id)),
      chr8 (ucast (drop_bit 8 stream_id)), chr8 (ucast stream_id)]"

lemma length_write_frame_header [simp]: "length (write_frame_header l t f s) = 9"
  by (simp add: write_frame_header_def)

lemma bit_low_mask:
  "bit (0x7FFFFFFF :: int) n \<longleftrightarrow> n < 31" "bit (0x7F :: int) n \<longleftrightarrow> n < 7"
  using bit_mask_iff[where ?'a = int, of 31 n] bit_mask_iff[where ?'a = int, of 7 n]
  by (simp_all add: mask_eq_exp_minus_1)

lemma read_write_frame_header:
  "read_frame_header (write_frame_header len ty flags sid @ rest) =
     \<lparr>fh_length = take_bit 24 len, fh_type = ty, fh_flags = flags, fh_stream_id = take_bit 31 sid\<rparr>"
proof -
  have len: "push_bit 16 (ucast (ucast (drop_bit 16 len) :: uint8)) OR
      push_bit 8 (ucast (ucast (drop_bit 8 len) :: uint8)) OR ucast (ucast len :: uint8) = (take_bit 24 len :: uint32)"
  proof (rule bit_word_eqI)
    fix n assume "n < LENGTH(32)"
    then consider "n < 8" | "8 \<le> n" "n < 16" | "16 \<le> n" "n < 24" | "24 \<le> n" "n < 32" by fastforce
    then show "bit (push_bit 16 (ucast (ucast (drop_bit 16 len) :: uint8)) OR
      push_bit 8 (ucast (ucast (drop_bit 8 len) :: uint8)) OR ucast (ucast len :: uint8) :: uint32) n
      = bit (take_bit 24 len) n"
      by cases (auto simp: bit_simps)
  qed
  have sid: "(push_bit 24 (ucast (ucast (drop_bit 24 sid AND 0x7F) :: uint8)) OR
      push_bit 16 (ucast (ucast (drop_bit 16 sid) :: uint8)) OR
      push_bit 8 (ucast (ucast (drop_bit 8 sid) :: uint8)) OR ucast (ucast sid :: uint8)) AND 0x7FFFFFFF
      = (take_bit 31 sid :: uint32)"
  proof (rule bit_word_eqI)
    fix n assume "n < LENGTH(32)"
    then consider "n < 8" | "8 \<le> n" "n < 16" | "16 \<le> n" "n < 24" | "24 \<le> n" "n < 31" | "n = 31" by fastforce
    then show "bit ((push_bit 24 (ucast (ucast (drop_bit 24 sid AND 0x7F) :: uint8)) OR
      push_bit 16 (ucast (ucast (drop_bit 16 sid) :: uint8)) OR
      push_bit 8 (ucast (ucast (drop_bit 8 sid) :: uint8)) OR ucast (ucast sid :: uint8)) AND 0x7FFFFFFF :: uint32) n
      = bit (take_bit 31 sid) n"
      by cases (auto simp: bit_simps bit_low_mask)
  qed
  show ?thesis
    by (simp add: read_frame_header_def write_frame_header_def len sid)
qed

section \<open>HPACK\<close>

function int_tail :: "uint32 \<Rightarrow> uint8 list" where
  "int_tail value =
     (if 128 \<le> value then (ucast (value AND 0x7F) OR 0x80) # int_tail (drop_bit 7 value)
      else [ucast value])"
  by pat_completeness auto
termination
proof (relation "measure unat", goal_cases)
  case (2 v)
  then have "128 \<le> unat v" by (simp add: word_le_nat_alt)
  then show ?case by (simp add: drop_bit_eq_div unat_div_distrib)
qed simp

declare int_tail.simps [simp del]

text \<open>\<open>out.back()\<close> holds the bits in front of the prefix.\<close>

definition HpackEncoder_EncodeInteger :: "uint8 list \<Rightarrow> uint32 \<Rightarrow> nat \<Rightarrow> uint8 list" where
  "HpackEncoder_EncodeInteger out value n =
     (let m = push_bit n 1 - 1 :: uint8
      in if value < ucast m then butlast out @ [last out OR ucast value]
         else butlast out @ [last out OR m] @ int_tail (value - ucast m))"

definition HpackEncoder_EncodeString :: "uint8 list \<Rightarrow> string \<Rightarrow> uint8 list" where
  "HpackEncoder_EncodeString out str =
     HpackEncoder_EncodeInteger (out @ [0]) (of_nat (length str)) 7 @ map u8 str"

definition encode_header :: "uint8 list \<Rightarrow> string \<times> string \<Rightarrow> uint8 list" where
  "encode_header buf h =
     (case h of (name, val) \<Rightarrow>
        if name = '':method'' \<and> val = ''POST'' then buf @ [0x80 OR 3]
        else if name = '':scheme'' \<and> val = ''http'' then buf @ [0x80 OR 6]
        else if name = '':status'' \<and> val = ''200'' then buf @ [0x80 OR 8]
        else if name = '':path'' then HpackEncoder_EncodeString (buf @ [0x00 OR 4]) val
        else if name = '':authority'' then HpackEncoder_EncodeString (buf @ [0x00 OR 1]) val
        else HpackEncoder_EncodeString (HpackEncoder_EncodeString (buf @ [0x00 OR 0]) name) val)"

definition HpackEncoder_Encode :: "(string \<times> string) list \<Rightarrow> uint8 list" where
  "HpackEncoder_Encode headers = foldl encode_header [] headers"

subsection \<open>Decoding, as RFC 7541 specifies it\<close>

text \<open>
  The decoder of the standard for what an encoder without dynamic table and without Huffman codes
  sends: integers with an \<open>n\<close>-bit prefix (5.1), plain strings (5.2), indexed fields (6.1) and
  literal fields without indexing (6.2.2), with the first entries of the static table (Appendix A).
\<close>

fun tail_value :: "uint8 list \<Rightarrow> (nat \<times> uint8 list) option" where
  "tail_value [] = None"
| "tail_value (b # bs) =
     (if unat b < 128 then Some (unat b, bs)
      else map_option (\<lambda>(v, r). (unat b - 128 + 128 * v, r)) (tail_value bs))"

fun rfc_integer :: "nat \<Rightarrow> uint8 list \<Rightarrow> (nat \<times> uint8 list) option" where
  "rfc_integer n [] = None"
| "rfc_integer n (b # bs) =
     (let p = unat b mod 2 ^ n
      in if p < 2 ^ n - 1 then Some (p, bs)
         else map_option (\<lambda>(v, r). (p + v, r)) (tail_value bs))"

definition rfc_string :: "uint8 list \<Rightarrow> (string \<times> uint8 list) option" where
  "rfc_string bs =
     (if bs = [] \<or> 128 \<le> unat (hd bs) then None
      else
        (case rfc_integer 7 bs of
           None \<Rightarrow> None
         | Some (n, r) \<Rightarrow> if n \<le> length r then Some (map chr8 (take n r), drop n r) else None))"

definition static_table :: "nat \<Rightarrow> (string \<times> string) option" where
  "static_table i =
     (if 1 \<le> i \<and> i \<le> 8
      then Some ([('':authority'', []), ('':method'', ''GET''), ('':method'', ''POST''), ('':path'', ''/''),
                  ('':path'', ''/index.html''), ('':scheme'', ''http''), ('':scheme'', ''https''),
                  ('':status'', ''200'')] ! (i - 1))
      else None)"

definition rfc_field :: "uint8 list \<Rightarrow> ((string \<times> string) \<times> uint8 list) option" where
  "rfc_field bs =
     (if bs = [] then None
      else if 128 \<le> unat (hd bs)
      then (case rfc_integer 7 bs of
              None \<Rightarrow> None
            | Some (i, r) \<Rightarrow> map_option (\<lambda>h. (h, r)) (static_table i))
      else if 16 \<le> unat (hd bs) then None
      else
        (case rfc_integer 4 bs of
           None \<Rightarrow> None
         | Some (i, r) \<Rightarrow>
             (case (if i = 0 then rfc_string r
                    else map_option (\<lambda>h. (fst h, r)) (static_table i)) of
                None \<Rightarrow> None
              | Some (name, r') \<Rightarrow>
                  map_option (\<lambda>(val, r''). ((name, val), r'')) (rfc_string r'))))"

fun rfc_decode :: "nat \<Rightarrow> uint8 list \<Rightarrow> (string \<times> string) list option" where
  "rfc_decode fuel [] = Some []"
| "rfc_decode 0 (b # bs) = None"
| "rfc_decode (Suc fuel) (b # bs) =
     (case rfc_field (b # bs) of
        None \<Rightarrow> None
      | Some (h, r) \<Rightarrow> map_option (\<lambda>hs. h # hs) (rfc_decode fuel r))"

subsection \<open>The encoder against the standard\<close>

lemma or_128: "unat w < 128 \<Longrightarrow> unat (w OR 0x80 :: uint8) = unat w + 128"
proof -
  assume w: "unat w < 128"
  have "\<forall>k \<in> set [0..<128]. unat ((of_nat k :: uint8) OR 0x80) = k + 128"
    by code_simp
  from bspec[OF this, of "unat w"] w have "unat ((of_nat (unat w) :: uint8) OR 0x80) = unat w + 128" by simp
  then show ?thesis by simp
qed

lemma unat_ucast_low: "unat (ucast (v AND 0x7F :: uint32) :: uint8) = unat v mod 128"
proof -
  have "v AND 0x7F = take_bit 7 v" by (simp add: take_bit_eq_mask mask_eq_exp_minus_1)
  then show ?thesis by (simp add: take_bit_eq_mod unsigned_ucast_eq unat_mod_distrib)
qed

lemma tail_value_int_tail: "tail_value (int_tail v @ r) = Some (unat v, r)"
proof (induction v rule: int_tail.induct)
  case (1 v)
  show ?case
  proof (cases "128 \<le> v")
    case True
    let ?b = "ucast (v AND 0x7F) OR 0x80 :: uint8"
    have b: "unat ?b = unat v mod 128 + 128"
      using or_128[of "ucast (v AND 0x7F)"] by (simp add: unat_ucast_low)
    moreover have "unat (drop_bit 7 v) = unat v div 128"
      by (simp add: drop_bit_eq_div unat_div_distrib)
    ultimately show ?thesis
      using 1 True by (subst int_tail.simps) simp
  next
    case False
    then have v: "unat v < 128" by (simp add: word_le_nat_alt not_le)
    then have "unat (ucast v :: uint8) = unat v" by (simp add: unsigned_ucast_eq take_bit_eq_mod)
    with False v show ?thesis by (subst int_tail.simps) simp
  qed
qed

lemma EncodeString_append:
  "HpackEncoder_EncodeString out str = out @ HpackEncoder_EncodeString [] str"
  by (simp add: HpackEncoder_EncodeString_def HpackEncoder_EncodeInteger_def Let_def butlast_append)

lemma rfc_string_EncodeString:
  assumes "length str < 2 ^ 32"
  shows "rfc_string (HpackEncoder_EncodeString [] str @ r) = Some (str, r)"
proof -
  let ?v = "of_nat (length str) :: uint32"
  have v: "unat ?v = length str" using assms by (simp add: unat_of_nat32)
  show ?thesis
  proof (cases "length str < 127")
    case True
    then have lt: "?v < 127" using v by (simp add: word_less_nat_alt)
    have u: "unat (ucast ?v :: uint8) = length str"
      using True v by (simp add: unsigned_ucast_eq take_bit_eq_mod)
    have "HpackEncoder_EncodeString [] str = ucast ?v # map u8 str"
      using lt by (simp add: HpackEncoder_EncodeString_def HpackEncoder_EncodeInteger_def Let_def)
    then show ?thesis
      using True unfolding rfc_string_def by (simp add: u comp_def)
  next
    case False
    then have lt: "\<not> ?v < 127" using v by (simp add: word_less_nat_alt)
    then have "unat (?v - 127) = length str - 127"
      using v by (simp add: unat_sub not_less)
    moreover have "HpackEncoder_EncodeString [] str = 127 # int_tail (?v - 127) @ map u8 str"
      using lt by (simp add: HpackEncoder_EncodeString_def HpackEncoder_EncodeInteger_def Let_def)
    ultimately show ?thesis
      using False tail_value_int_tail[of "?v - 127" "map u8 str @ r"] by (simp add: rfc_string_def comp_def)
  qed
qed

definition header_fits :: "string \<times> string \<Rightarrow> bool" where
  "header_fits h \<longleftrightarrow> length (fst h) < 2 ^ 32 \<and> length (snd h) < 2 ^ 32"

lemma rfc_field_encode_header:
  assumes "header_fits h"
  shows "\<exists>b bs. encode_header buf h = buf @ b # bs \<and> (\<forall>r. rfc_field (b # bs @ r) = Some (h, r))"
proof -
  obtain name val where h: "h = (name, val)" by (cases h)
  have len: "length name < 2 ^ 32" "length val < 2 ^ 32" using assms h by (simp_all add: header_fits_def)
  note str = rfc_string_EncodeString[OF len(1)] rfc_string_EncodeString[OF len(2)]
  note app = EncodeString_append[of "buf @ _"] EncodeString_append[of "(buf @ _) @ _"]
  consider "name = '':method''" "val = ''POST''" | "name = '':scheme''" "val = ''http''"
    | "name = '':status''" "val = ''200''" | "name = '':path''" | "name = '':authority''"
    | "\<not> (name = '':method'' \<and> val = ''POST'')" "\<not> (name = '':scheme'' \<and> val = ''http'')"
      "\<not> (name = '':status'' \<and> val = ''200'')" "name \<noteq> '':path''" "name \<noteq> '':authority''"
    by argo
  then show ?thesis
  proof cases
    case 6
    then have "encode_header buf h = HpackEncoder_EncodeString (HpackEncoder_EncodeString (buf @ [0]) name) val"
      unfolding h encode_header_def prod.case by (simp only: if_False or.right_neutral)
    then have "encode_header buf h =
        buf @ 0 # HpackEncoder_EncodeString [] name @ HpackEncoder_EncodeString [] val"
      by (simp add: app)
    then show ?thesis using str h by (intro exI conjI) (auto simp: rfc_field_def)
  next
    case 4
    then have "encode_header buf h = buf @ 4 # HpackEncoder_EncodeString [] val"
      using h by (simp add: encode_header_def app)
    then show ?thesis using str(2) h 4 by (intro exI conjI) (auto simp: rfc_field_def static_table_def)
  next
    case 5
    then have "encode_header buf h = buf @ 1 # HpackEncoder_EncodeString [] val"
      using h by (simp add: encode_header_def app)
    then show ?thesis using str(2) h 5 by (intro exI conjI) (auto simp: rfc_field_def static_table_def)
  qed (use h in \<open>auto simp: encode_header_def rfc_field_def static_table_def\<close>)
qed

lemma rfc_decode_foldl:
  "list_all header_fits hs \<Longrightarrow>
     \<exists>bs. foldl encode_header buf hs = buf @ bs \<and> rfc_decode (length hs) bs = Some hs"
proof (induction hs arbitrary: buf)
  case Nil
  then show ?case by simp
next
  case (Cons h hs)
  obtain b bs where b: "encode_header buf h = buf @ b # bs" "\<forall>r. rfc_field (b # bs @ r) = Some (h, r)"
    using rfc_field_encode_header[of h buf] Cons.prems by auto
  obtain rest where "foldl encode_header (encode_header buf h) hs = encode_header buf h @ rest"
      "rfc_decode (length hs) rest = Some hs"
    using Cons by auto
  with b show ?case by simp
qed

lemma rfc_decode_Encode:
  assumes "list_all header_fits hs" shows "rfc_decode (length hs) (HpackEncoder_Encode hs) = Some hs"
  using rfc_decode_foldl[OF assms, of "[]"] by (auto simp: HpackEncoder_Encode_def)

text \<open>
  The standard's decoder reads back the header list that \<open>HpackEncoder::Encode\<close> was given, in
  the order of the map, whatever the names and values.
\<close>
theorem hpack_roundtrip:
  assumes "list_all header_fits hs"
  shows "rfc_decode (length hs) (HpackEncoder_Encode hs) = Some hs"
  by (rule rfc_decode_Encode[OF assms])

theorem hpack_roundtrip_witness:
  "rfc_decode 3 (HpackEncoder_Encode [('':method'', ''POST''), ('':path'', replicate 300 (CHR ''a'')), (''te'', ''trailers'')])
     = Some [('':method'', ''POST''), ('':path'', replicate 300 (CHR ''a'')), (''te'', ''trailers'')]"
  using hpack_roundtrip[of "[('':method'', ''POST''), ('':path'', replicate 300 (CHR ''a'')), (''te'', ''trailers'')]"]
  by (simp add: header_fits_def numeral_3_eq_3)

section \<open>Streams and the session\<close>

datatype stream_state = kIdle | kStreamOpen | kHalfClosedRemote | kHalfClosedLocal | kStreamClosed

record h2_stream =
  strm_id :: uint32
  strm_state :: stream_state
  data_buffer :: buffer

text \<open>A new stream's buffer, with the storage an empty pool gives.\<close>

definition Stream_new :: "uint32 \<Rightarrow> h2_stream" where
  "Stream_new i = \<lparr>strm_id = i, strm_state = kIdle, data_buffer = snd (Buffer_new [] 1024)\<rparr>"

definition Stream_AppendData :: "bytes \<Rightarrow> h2_stream \<Rightarrow> h2_stream" where
  "Stream_AppendData data s = s\<lparr>data_buffer := Buffer_Append (data_buffer s) data\<rparr>"

text \<open>
  The callback of the session acts on its connection through the session: it sends data and
  headers on streams.
\<close>

datatype h2_op =
    Send_Stream_Data uint32 bytes bool
  | Send_Headers uint32 "(string \<times> string) list" bool

type_synonym 's stream_data_cb = "'s \<Rightarrow> uint32 \<Rightarrow> bytes \<Rightarrow> 's \<times> h2_op list \<times> exn option"

record h2 =
  h2_parser :: frame_parser
  h2_streams :: "uint32 \<rightharpoonup> h2_stream"
  preface_received :: bool

definition Session_new :: "frame_header \<Rightarrow> h2" where
  "Session_new uninitialised =
     \<lparr>h2_parser = FrameParser_new uninitialised, h2_streams = Map.empty, preface_received = False\<rparr>"

definition kClientPreface :: bytes where
  "kClientPreface = ''PRI * HTTP/2.0'' @ crlf @ crlf @ ''SM'' @ crlf @ crlf"

definition Session_GetStream :: "uint32 \<Rightarrow> h2 \<Rightarrow> h2_stream \<times> h2" where
  "Session_GetStream i h =
     (case h2_streams h i of
        Some s \<Rightarrow> (s, h)
      | None \<Rightarrow> (let s = Stream_new i in (s, h\<lparr>h2_streams := (h2_streams h)(i \<mapsto> s)\<rparr>)))"

definition Session_SendStreamData :: "uint32 \<Rightarrow> bytes \<Rightarrow> bool \<Rightarrow> connection \<Rightarrow> connection" where
  "Session_SendStreamData sid data end_stream c =
     (let flags = (if end_stream then 0x01 else 0x00);
          c1 = Connection_Send (write_frame_header (of_nat (length data)) 0x00 flags sid) c
      in if data \<noteq> [] then Connection_Send data c1 else c1)"

definition Session_SendHeaders :: "uint32 \<Rightarrow> (string \<times> string) list \<Rightarrow> bool \<Rightarrow> connection \<Rightarrow> connection" where
  "Session_SendHeaders sid headers end_stream c =
     (let block = HpackEncoder_Encode headers;
          len = of_nat (length block) :: uint32;
          flags = (if end_stream then 0x05 else 0x04);
          c1 = Connection_Send (write_frame_header len 0x01 flags sid) c
      in if 0 < len then Connection_Send (map chr8 block) c1 else c1)"

fun h2_send :: "h2_op \<Rightarrow> connection \<Rightarrow> connection" where
  "h2_send (Send_Stream_Data sid data e) c = Session_SendStreamData sid data e c"
| "h2_send (Send_Headers sid hs e) c = Session_SendHeaders sid hs e c"

definition Session_HandleFrame ::
    "'s stream_data_cb option \<Rightarrow> h2_frame \<Rightarrow> h2 \<times> 's session \<Rightarrow> exn option \<times> h2 \<times> 's session" where
  "Session_HandleFrame cb f hs =
     (case hs of (h, st) \<Rightarrow>
        if 0 < fh_stream_id (fr_header f) then
          (case Session_GetStream (fh_stream_id (fr_header f)) h of
             (s, h1) \<Rightarrow>
               if fh_type (fr_header f) = DATA then
                 (let h2 = h1\<lparr>h2_streams := (h2_streams h1)(fh_stream_id (fr_header f) \<mapsto>
                                Stream_AppendData (fr_payload f) s)\<rparr>
                  in case cb of
                       None \<Rightarrow> (None, h2, st)
                     | Some g \<Rightarrow>
                         (case g (app st) (strm_id s) (fr_payload f) of
                            (a', ops, e) \<Rightarrow> (e, h2, st\<lparr>app := a', conn := fold h2_send ops (conn st)\<rparr>)))
               else (None, h1, st))
        else (None, h, st))"

lemma h2_send_input [simp]: "input_buffer (fold h2_send ops c) = input_buffer c"
proof (induction ops arbitrary: c)
  case (Cons op ops)
  have "input_buffer (h2_send op c) = input_buffer c"
    by (cases op) (simp_all add: Session_SendStreamData_def Session_SendHeaders_def Let_def)
  with Cons show ?case by simp
qed simp

lemma HandleFrame_eq:
  "(e, h', st') = Session_HandleFrame cb f (h, st) \<Longrightarrow> in_buf st' = in_buf st \<and> h2_parser h' = h2_parser h"
  by (auto simp: Session_HandleFrame_def Session_GetStream_def Let_def
      split: if_splits option.splits prod.splits)

definition fp_size :: "frame_parser \<Rightarrow> nat" where
  "fp_size fp = (if fp_state fp = kReadingPayload then 1 else 0)"

lemma Parse_shrinks:
  "(Some f, fp', b') = FrameParser_Parse fp b \<Longrightarrow>
     Buffer_ReadableBytes b' + fp_size fp' < Buffer_ReadableBytes b + fp_size fp"
  by (cases "fp_state fp")
     (auto simp: FrameParser_Parse_def fp_size_def Let_def buffer_defs split: if_splits)

text \<open>The loop of \<open>OnData\<close>.\<close>

function Session_frames ::
    "'s stream_data_cb option \<Rightarrow> h2 \<times> 's session \<Rightarrow> exn option \<times> h2 \<times> 's session" where
  "Session_frames cb (h, st) =
     (case FrameParser_Parse (h2_parser h) (in_buf st) of
        (None, fp, b) \<Rightarrow> (None, h\<lparr>h2_parser := fp\<rparr>, map_input (\<lambda>_. b) st)
      | (Some f, fp, b) \<Rightarrow>
          (case Session_HandleFrame cb f (h\<lparr>h2_parser := fp\<rparr>, map_input (\<lambda>_. b) st) of
             (Some e, hs) \<Rightarrow> (Some e, hs)
           | (None, h', st') \<Rightarrow> Session_frames cb (h', st')))"
  by pat_completeness auto
termination
  by (relation "measure (\<lambda>(cb, h, st). Buffer_ReadableBytes (in_buf st) + fp_size (h2_parser h))")
     (auto simp: in_buf_map_input dest!: HandleFrame_eq dest: Parse_shrinks)

declare Session_frames.simps [simp del]

definition Session_OnData ::
    "'s stream_data_cb option \<Rightarrow> h2 \<times> 's session \<Rightarrow> exn option \<times> h2 \<times> 's session" where
  "Session_OnData cb hs =
     (case hs of (h, st) \<Rightarrow>
        if \<not> preface_received h then
          (if 24 \<le> Buffer_ReadableBytes (in_buf st) then
             (if take 24 (Buffer_Peek (in_buf st)) = kClientPreface
              then Session_frames cb (h\<lparr>preface_received := True\<rparr>, map_input (\<lambda>b. Buffer_Retrieve b 24) st)
              else (None, h, map_conn Connection_ForceClose st))
           else (None, h, st))
        else Session_frames cb (h, st))"

section \<open>The session as a function of the frames\<close>

text \<open>\<open>FrameParser::Parse\<close> on the readable bytes, and the parser of a session, which waits for the preface.\<close>

definition h2_payload :: "frame_parser \<Rightarrow> bytes \<Rightarrow> h2_frame option \<times> frame_parser \<times> bytes" where
  "h2_payload fp bs =
     (let len = unat (fh_length (fp_header fp))
      in if length bs < len then (None, fp, bs)
         else (Some \<lparr>fr_header = fp_header fp, fr_payload = take len bs\<rparr>,
               fp\<lparr>fp_state := kReadingHeader\<rparr>, drop len bs))"

definition h2_parse :: "frame_parser \<Rightarrow> bytes \<Rightarrow> h2_frame option \<times> frame_parser \<times> bytes" where
  "h2_parse fp bs =
     (if fp_state fp = kReadingPayload then h2_payload fp bs
      else if length bs < 9 then (None, fp, bs)
      else h2_payload (fp\<lparr>fp_header := read_frame_header bs, fp_state := kReadingPayload\<rparr>) (drop 9 bs))"

definition session_parse ::
    "bool \<times> frame_parser \<Rightarrow> bytes \<Rightarrow> h2_frame option \<times> (bool \<times> frame_parser) \<times> bytes" where
  "session_parse q bs =
     (if \<not> fst q \<and> \<not> (24 \<le> length bs \<and> take 24 bs = kClientPreface) then (None, q, bs)
      else
        (case h2_parse (snd q) (if fst q then bs else drop 24 bs) of
           (f, fp, r) \<Rightarrow> (f, (True, fp), r)))"

definition bad_preface :: "bool \<times> frame_parser \<Rightarrow> bytes \<Rightarrow> bool" where
  "bad_preface q bs \<longleftrightarrow> \<not> fst q \<and> 24 \<le> length bs \<and> take 24 bs \<noteq> kClientPreface"

lemma read_frame_header_cong: "(\<And>i. i < 9 \<Longrightarrow> p ! i = q ! i) \<Longrightarrow> read_frame_header p = read_frame_header q"
  by (simp add: read_frame_header_def)

lemma read_frame_header_append: "9 \<le> length bs \<Longrightarrow> read_frame_header (bs @ x) = read_frame_header bs"
  by (rule read_frame_header_cong) (simp add: nth_append)

lemma parser_state_cases: "fp_state fp \<noteq> kReadingPayload \<Longrightarrow> fp_state fp = kReadingHeader"
  by (cases "fp_state fp") simp_all

lemma h2_payload_laws:
  "h2_payload fp bs = (Some f, fp', r) \<Longrightarrow> length r \<le> length bs \<and> fp_state fp' = kReadingHeader"
  "h2_payload fp bs = (Some f, fp', r) \<Longrightarrow> h2_payload fp (bs @ x) = (Some f, fp', r @ x)"
  "h2_payload fp bs = (None, fp', r) \<Longrightarrow> fp' = fp \<and> r = bs"
  by (auto simp: h2_payload_def Let_def split: if_splits)

lemma h2_parse_laws:
  "h2_parse fp bs = (Some f, fp', r) \<Longrightarrow> length r + fp_size fp' < length bs + fp_size fp"
  "h2_parse fp bs = (Some f, fp', r) \<Longrightarrow> h2_parse fp (bs @ x) = (Some f, fp', r @ x)"
  "h2_parse fp bs = (None, fp', r) \<Longrightarrow> h2_parse fp (bs @ x) = h2_parse fp' (r @ x)"
proof -
  assume a: "h2_parse fp bs = (Some f, fp', r)"
  then have "(if fp_state fp = kReadingPayload then True else 9 \<le> length bs)"
    by (auto simp: h2_parse_def split: if_splits)
  with a show "length r + fp_size fp' < length bs + fp_size fp"
    by (auto simp: h2_parse_def fp_size_def split: if_splits dest!: h2_payload_laws(1))
  from a show "h2_parse fp (bs @ x) = (Some f, fp', r @ x)"
    by (auto simp: h2_parse_def read_frame_header_append h2_payload_laws(2) split: if_splits)
next
  assume a: "h2_parse fp bs = (None, fp', r)"
  then show "h2_parse fp (bs @ x) = h2_parse fp' (r @ x)"
    by (auto simp: h2_parse_def read_frame_header_append split: if_splits dest!: h2_payload_laws(3))
qed

interpretation h2p: resumable_parser "\<lambda>q. fp_size (snd q)" session_parse
proof
  fix q bs f q' r
  assume "session_parse q bs = (Some f, q', r)"
  then show "length r + fp_size (snd q') < length bs + fp_size (snd q)"
    using h2_parse_laws(1)[of "snd q" "if fst q then bs else drop 24 bs" f "snd q'" r]
    by (auto simp: session_parse_def split: if_splits prod.splits)
next
  fix q bs f q' r x
  assume "session_parse q bs = (Some f, q', r)"
  then show "session_parse q (bs @ x) = (Some f, q', r @ x)"
    using h2_parse_laws(2)[of "snd q" "if fst q then bs else drop 24 bs" f "snd q'" r x]
    by (auto simp: session_parse_def split: if_splits prod.splits)
next
  fix q bs q' r x
  assume a: "session_parse q bs = (None, q', r)"
  show "session_parse q (bs @ x) = session_parse q' (r @ x)"
  proof (cases "\<not> fst q \<and> \<not> (24 \<le> length bs \<and> take 24 bs = kClientPreface)")
    case True
    with a show ?thesis by (simp add: session_parse_def)
  next
    case False
    then have "h2_parse (snd q) (if fst q then bs else drop 24 bs) = (None, snd q', r)" "fst q'"
      using a by (auto simp: session_parse_def split: if_splits prod.splits)
    from h2_parse_laws(3)[OF this(1), of x] this(2) False
    show ?thesis by (auto simp: session_parse_def split: if_splits)
  qed
qed

lemma Parse_content:
  assumes "buffer_inv b" and "FrameParser_Parse fp b = (f, fp', b')"
  shows "h2_parse fp (content b) = (f, fp', content b') \<and> buffer_inv b'"
proof -
  have hdr: "9 \<le> length (content b) \<Longrightarrow> read_frame_header (Buffer_Peek b) = read_frame_header (content b)"
    using assms(1) by (intro read_frame_header_cong) (simp add: buf_simps)
  have len: "Buffer_ReadableBytes b = length (content b)" "Buffer_ReadableBytes (Buffer_Retrieve b 9) = length (content b) - 9"
    using assms(1) by (simp_all add: buf_simps buffer_invs)
  have peek: "take n (Buffer_Peek b') = take n (content b')" if "n \<le> length (content b')" "buffer_inv b'" for n b'
    using that by (simp add: buf_simps)
  show ?thesis
    using assms
    by (cases "fp_state fp")
       (auto simp: FrameParser_Parse_def h2_parse_def h2_payload_def Let_def len hdr peek buf_simps buffer_invs
         split: if_splits)
qed

definition h2_written :: "h2_op \<Rightarrow> bytes" where
  "h2_written op =
     (case op of
        Send_Stream_Data sid data e \<Rightarrow>
          write_frame_header (of_nat (length data)) 0x00 (if e then 0x01 else 0x00) sid @ data
      | Send_Headers sid hs e \<Rightarrow>
          (let block = HpackEncoder_Encode hs; len = of_nat (length block) :: uint32
           in write_frame_header len 0x01 (if e then 0x05 else 0x04) sid @
              (if 0 < len then map chr8 block else [])))"

lemma h2_send_outputs: "outputs (h2_written op) c (h2_send op c)"
proof (cases op)
  case (Send_Stream_Data sid data e)
  then show ?thesis
    using outputs_trans[OF Send_outputs Send_outputs] Send_outputs
    by (auto simp: h2_written_def Session_SendStreamData_def Let_def)
next
  case (Send_Headers sid hs e)
  show ?thesis
    unfolding Send_Headers h2_send.simps h2_written_def Session_SendHeaders_def Let_def h2_op.case
    by (cases "0 < (of_nat (length (HpackEncoder_Encode hs)) :: uint32)")
       (simp_all only: if_True if_False append_Nil2 Send_outputs outputs_trans[OF Send_outputs Send_outputs])
qed

lemma h2_sends_outputs: "outputs (concat (map h2_written ops)) c (fold h2_send ops c)"
proof (induction ops arbitrary: c)
  case Nil
  then show ?case by simp
next
  case (Cons op ops)
  from outputs_trans[OF h2_send_outputs Cons.IH] show ?case by simp
qed

definition cb_safe :: "'s stream_data_cb option \<Rightarrow> bool" where
  "cb_safe cb \<longleftrightarrow> (case cb of None \<Rightarrow> True | Some g \<Rightarrow> \<forall>s i d. \<exists>s' ops. g s i d = (s', ops, None))"

definition h2_inv :: "'s stream_data_cb option \<Rightarrow> h2 \<times> 's session \<Rightarrow> bool" where
  "h2_inv cb hs \<longleftrightarrow> session_inv (snd hs) \<and> cb_safe cb \<and>
     (\<forall>i s. h2_streams (fst hs) i = Some s \<longrightarrow> strm_id s = i \<and> buffer_inv (data_buffer s))"

definition stream_data :: "h2 \<Rightarrow> uint32 \<Rightarrow> bytes" where
  "stream_data h i = (case h2_streams h i of None \<Rightarrow> [] | Some s \<Rightarrow> content (data_buffer s))"

definition h2_visible :: "h2 \<times> 's session \<Rightarrow> 's \<times> (uint32 \<Rightarrow> bytes) \<times> bytes" where
  "h2_visible hs = (app (snd hs), stream_data (fst hs), stream (conn (snd hs)))"

text \<open>The specification of one frame: application state, data held per stream, output stream.\<close>

definition h2_spec ::
    "'s stream_data_cb option \<Rightarrow> h2_frame \<Rightarrow> 's \<times> (uint32 \<Rightarrow> bytes) \<times> bytes \<Rightarrow> 's \<times> (uint32 \<Rightarrow> bytes) \<times> bytes" where
  "h2_spec cb f v =
     (case v of (a, data, out) \<Rightarrow>
        (let i = fh_stream_id (fr_header f)
         in if 0 < i \<and> fh_type (fr_header f) = DATA
            then (case cb of
                    None \<Rightarrow> (a, data(i := data i @ fr_payload f), out)
                  | Some g \<Rightarrow>
                      (case g a i (fr_payload f) of
                         (a', ops, e) \<Rightarrow>
                           (a', data(i := data i @ fr_payload f), out @ concat (map h2_written ops))))
            else v))"

lemma new_stream_buffer [simp]: "buffer_inv (data_buffer (Stream_new i))" "content (data_buffer (Stream_new i)) = []"
  "strm_id (Stream_new i) = i"
  by (simp_all add: Stream_new_def Buffer_new_def BufferPool_Acquire_def vec_new_def buffer_inv_def
      vec_inv_def content_def Buffer_ReadableBytes_def)

lemma HandleFrame_spec:
  assumes "h2_inv cb (h, st)"
  shows "\<exists>h' st'. Session_HandleFrame cb f (h, st) = (None, h', st') \<and> h2_inv cb (h', st') \<and>
    h2_parser h' = h2_parser h \<and> preface_received h' = preface_received h \<and> pending st' = pending st \<and>
    h2_visible (h', st') = h2_spec cb f (h2_visible (h, st))"
proof -
  let ?i = "fh_stream_id (fr_header f)"
  have inv: "session_inv st" "cb_safe cb"
      "\<And>i s. h2_streams h i = Some s \<Longrightarrow> strm_id s = i \<and> buffer_inv (data_buffer s)"
    using assms by (auto simp: h2_inv_def)
  obtain s h1 where g: "Session_GetStream ?i h = (s, h1)" by fastforce
  have s: "strm_id s = ?i" "buffer_inv (data_buffer s)" "content (data_buffer s) = stream_data h ?i"
      "stream_data h1 = stream_data h" "h2_parser h1 = h2_parser h" "preface_received h1 = preface_received h"
      "\<And>i s. h2_streams h1 i = Some s \<Longrightarrow> strm_id s = i \<and> buffer_inv (data_buffer s)"
    using g inv(3) by (auto simp: Session_GetStream_def Let_def stream_data_def fun_eq_iff split: option.splits if_splits)
  show ?thesis
  proof (cases "0 < ?i \<and> fh_type (fr_header f) = DATA")
    case data: True
    define h2 where "h2 = h1\<lparr>h2_streams := (h2_streams h1)(?i \<mapsto> Stream_AppendData (fr_payload f) s)\<rparr>"
    have h2: "h2_parser h2 = h2_parser h" "preface_received h2 = preface_received h"
        "stream_data h2 = (stream_data h)(?i := stream_data h ?i @ fr_payload f)"
        "\<And>i s. h2_streams h2 i = Some s \<Longrightarrow> strm_id s = i \<and> buffer_inv (data_buffer s)"
      using s by (auto simp: h2_def stream_data_def Stream_AppendData_def buf_simps buffer_invs fun_eq_iff
          split: if_splits)
    show ?thesis
    proof (cases cb)
      case None
      have "Session_HandleFrame cb f (h, st) = (None, h2, st)"
        using data g None by (simp add: Session_HandleFrame_def h2_def)
      with h2 inv data None show ?thesis by (auto simp: h2_inv_def h2_visible_def h2_spec_def Let_def)
    next
      case (Some cbf)
      obtain a' ops where f: "cbf (app st) ?i (fr_payload f) = (a', ops, None)"
        using inv(2) Some by (auto simp: cb_safe_def) metis
      let ?st = "st\<lparr>app := a', conn := fold h2_send ops (conn st)\<rparr>"
      have "Session_HandleFrame cb f (h, st) = (None, h2, ?st)"
        using data g Some f s(1) by (simp add: Session_HandleFrame_def h2_def)
      moreover note session_outputs[OF inv(1) h2_sends_outputs[of ops "conn st"], of a']
      ultimately show ?thesis
        using h2 inv(2) data Some f by (auto simp: h2_inv_def h2_visible_def h2_spec_def visible_def Let_def)
    qed
  next
    case False
    have "\<exists>h'. Session_HandleFrame cb f (h, st) = (None, h', st) \<and> (h' = h \<or> h' = h1)"
      using False g by (auto simp: Session_HandleFrame_def)
    with s inv False show ?thesis by (auto simp: h2_inv_def h2_visible_def h2_spec_def Let_def)
  qed
qed

lemma map_input_const:
  assumes "session_inv st" and "buffer_inv b"
  shows "session_inv (map_input (\<lambda>_. b) st)" "pending (map_input (\<lambda>_. b) st) = content b"
    "visible (map_input (\<lambda>_. b) st) = visible st"
  using assms by (auto simp: session_inv_def pending_def visible_def map_input_def map_conn_def conn_inv_def stream_def)

lemma Session_frames_spec:
  "h2_inv cb (h, st) \<Longrightarrow> preface_received h \<Longrightarrow>
     parse_all (\<lambda>q. fp_size (snd q)) session_parse (True, h2_parser h) (pending st) = (fs, (q, fp'), r) \<Longrightarrow>
     \<exists>h' st'. Session_frames cb (h, st) = (None, h', st') \<and> h2_inv cb (h', st') \<and> preface_received h' \<and> q \<and>
       h2_parser h' = fp' \<and> pending st' = r \<and> h2_visible (h', st') = fold (h2_spec cb) fs (h2_visible (h, st))"
proof (induction "length (pending st) + fp_size (h2_parser h)" arbitrary: h st fs rule: less_induct)
  case less
  have inv: "session_inv st" "buffer_inv (in_buf st)"
    using less.prems(1) by (auto simp: h2_inv_def session_inv_def conn_inv_def)
  obtain f fp b where P: "FrameParser_Parse (h2_parser h) (in_buf st) = (f, fp, b)" by (metis prod_cases3)
  from Parse_content[OF inv(2) P]
  have c: "session_parse (True, h2_parser h) (pending st) = (f, (True, fp), content b)" "buffer_inv b"
    by (simp_all add: session_parse_def pending_def)
  let ?h = "h\<lparr>h2_parser := fp\<rparr>" and ?st = "map_input (\<lambda>_. b) st"
  note mi = map_input_const[OF inv(1) c(2)]
  have i1: "h2_inv cb (?h, ?st)" and v1: "h2_visible (?h, ?st) = h2_visible (h, st)"
    using less.prems(1) mi by (auto simp: h2_inv_def h2_visible_def stream_data_def visible_def)
  show ?case
  proof (cases f)
    case None
    with c(1) less.prems(3) have "fs = []" "q" "fp' = fp" "r = content b"
      by (simp_all add: h2p.parse_all_None)
    with None P i1 v1 mi(2) less.prems(2) show ?thesis by (simp add: Session_frames.simps)
  next
    case (Some m)
    obtain h1 st1 where hf: "Session_HandleFrame cb m (?h, ?st) = (None, h1, st1)" "h2_inv cb (h1, st1)"
        "h2_parser h1 = fp" "preface_received h1" "pending st1 = content b"
        "h2_visible (h1, st1) = h2_spec cb m (h2_visible (h, st))"
      using HandleFrame_spec[OF i1, of m] v1 mi(2) less.prems(2) by auto
    obtain fs1 where fs1: "fs = m # fs1"
        "parse_all (\<lambda>q. fp_size (snd q)) session_parse (True, h2_parser h1) (pending st1) = (fs1, (q, fp'), r)"
      using h2p.parse_all_Some[of "(True, h2_parser h)" "pending st" m "(True, fp)" "content b"] c(1) Some
        less.prems(3) hf(3,5) by (auto simp: Let_def split: prod.splits)
    have "length (pending st1) + fp_size (h2_parser h1) < length (pending st) + fp_size (h2_parser h)"
      using h2p.shrinks[of "(True, h2_parser h)" "pending st" m "(True, fp)" "content b"] c(1) Some hf(3,5) by simp
    from less.hyps[OF this hf(2,4) fs1(2)] hf(1,6) fs1(1) P Some show ?thesis
      by (simp add: Session_frames.simps)
  qed
qed

definition h2_receive :: "bytes \<Rightarrow> h2 \<times> 's session \<Rightarrow> h2 \<times> 's session" where
  "h2_receive data hs = (fst hs, receive data (snd hs))"

definition h2_loop :: "'s stream_data_cb option \<Rightarrow> h2 \<times> 's session \<Rightarrow> (h2 \<times> 's session) option" where
  "h2_loop cb hs = (case Session_OnData cb hs of (None, hs') \<Rightarrow> Some hs' | (Some _, _) \<Rightarrow> None)"

interpretation h2s: parser_server "\<lambda>q. fp_size (snd q)" session_parse bad_preface
    "\<lambda>hs. (preface_received (fst hs), h2_parser (fst hs))" "\<lambda>hs. pending (snd hs)" h2_receive
    "h2_loop cb" h2_visible "h2_spec cb" "h2_inv cb" for cb
proof (unfold_locales, goal_cases)
  case (1 p bs x)
  then show ?case by (auto simp: bad_preface_def session_parse_def)
next
  case (2 hs ch)
  then show ?case
    using session_receive[of "snd hs" ch]
    by (auto simp: h2_inv_def h2_receive_def h2_visible_def visible_def)
next
  case (3 hs fs p' r)
  obtain h st where hs: "hs = (h, st)" by (cases hs)
  obtain q fp' where p': "p' = (q, fp')" by (cases p')
  have inv: "session_inv st" using 3 hs by (simp add: h2_inv_def)
  note rd = pending_readable[OF inv] pending_Peek[OF _ inv, of 24]
  show ?case
  proof (cases "preface_received h")
    case True
    with Session_frames_spec[of cb h st fs q fp' r] 3 hs p' show ?thesis
      by (auto simp: h2_loop_def Session_OnData_def)
  next
    case False
    show ?thesis
    proof (cases "24 \<le> length (pending st) \<and> take 24 (pending st) = kClientPreface")
      case ok: True
      let ?h = "h\<lparr>preface_received := True\<rparr>" and ?st = "map_input (\<lambda>b. Buffer_Retrieve b 24) st"
      note s = session_retrieve[OF inv, of 24]
      have "h2_inv cb (?h, ?st)" and v: "h2_visible (?h, ?st) = h2_visible (h, st)"
        using 3 hs s by (auto simp: h2_inv_def h2_visible_def stream_data_def visible_def)
      moreover have "parse_all (\<lambda>q. fp_size (snd q)) session_parse (True, h2_parser ?h) (pending ?st) = (fs, (q, fp'), r)"
      proof -
        have eq: "session_parse (False, h2_parser h) (pending st) = session_parse (True, h2_parser h) (drop 24 (pending st))"
          using ok by (simp add: session_parse_def)
        then show ?thesis
          using 3 hs p' False s(2) h2p.parse_all_cong[OF eq] by simp
      qed
      ultimately show ?thesis
        using Session_frames_spec[of cb ?h ?st fs q fp' r] ok False hs p' rd
        by (auto simp: h2_loop_def Session_OnData_def)
    next
      case no: False
      then have "session_parse (False, h2_parser h) (pending st) = (None, (False, h2_parser h), pending st)"
        by (simp add: session_parse_def)
      then have "fs = []" "p' = (False, h2_parser h)" "r = pending st"
        using 3 hs False by (simp_all add: h2p.parse_all_None)
      moreover have "\<not> 24 \<le> length (pending st)"
        using 3(3) no calculation by (auto simp: bad_preface_def)
      ultimately show ?thesis
        using 3(1) hs False rd(1) by (auto simp: h2_loop_def Session_OnData_def)
    qed
  qed
qed

section \<open>Properties\<close>

text \<open>The bytes of a frame, as the senders of the library write them.\<close>

definition wire_frame :: "h2_frame \<Rightarrow> bytes" where
  "wire_frame f =
     write_frame_header (fh_length (fr_header f)) (fh_type (fr_header f)) (fh_flags (fr_header f))
       (fh_stream_id (fr_header f)) @ fr_payload f"

definition frame_wf :: "h2_frame \<Rightarrow> bool" where
  "frame_wf f \<longleftrightarrow> fh_length (fr_header f) = of_nat (length (fr_payload f)) \<and>
     length (fr_payload f) < 2 ^ 24 \<and> unat (fh_stream_id (fr_header f)) < 2 ^ 31"

lemma h2_parse_wire:
  assumes "frame_wf f" and "fp_state fp = kReadingHeader"
  shows "h2_parse fp (wire_frame f @ x) = (Some f, fp\<lparr>fp_header := fr_header f, fp_state := kReadingHeader\<rparr>, x)"
proof -
  let ?l = "of_nat (length (fr_payload f)) :: uint32"
  have l: "unat ?l = length (fr_payload f)" using assms(1) by (simp add: frame_wf_def unat_of_nat32)
  have hdr: "read_frame_header (wire_frame f @ x) = fr_header f"
    using assms(1) l by (simp add: wire_frame_def read_write_frame_header frame_wf_def take_bit_small)
  have "drop 9 (wire_frame f @ x) = fr_payload f @ x" "9 \<le> length (wire_frame f @ x)"
    by (simp_all add: wire_frame_def)
  with assms l hdr show ?thesis
    by (simp add: h2_parse_def h2_payload_def frame_wf_def)
qed

lemma h2_parse_frames:
  assumes "list_all frame_wf fs" and "fp_state fp = kReadingHeader"
  shows "\<exists>fp'. parse_all (\<lambda>q. fp_size (snd q)) session_parse (True, fp) (concat (map wire_frame fs)) = (fs, (True, fp'), []) \<and>
    fp_state fp' = kReadingHeader"
  using assms
proof (induction fs arbitrary: fp)
  case Nil
  then have "session_parse (True, fp) [] = (None, (True, fp), [])"
    by (simp add: session_parse_def h2_parse_def)
  with Nil show ?case by (simp add: h2p.parse_all_None)
next
  case (Cons f fs)
  let ?fp = "fp\<lparr>fp_header := fr_header f, fp_state := kReadingHeader\<rparr>"
  have "session_parse (True, fp) (wire_frame f @ concat (map wire_frame fs)) = (Some f, (True, ?fp), concat (map wire_frame fs))"
    using h2_parse_wire[of f fp] Cons.prems by (simp add: session_parse_def)
  from h2p.parse_all_Some[OF this] Cons.IH[of ?fp] Cons.prems show ?case by (auto simp: Let_def)
qed

lemma length_kClientPreface [simp]: "length kClientPreface = 24"
  by (simp add: kClientPreface_def crlf_def)

lemma h2_parse_session:
  assumes "list_all frame_wf fs" and "fp_state fp = kReadingHeader"
  shows "\<exists>fp'. parse_all (\<lambda>q. fp_size (snd q)) session_parse (False, fp)
    (kClientPreface @ concat (map wire_frame fs)) = (fs, (True, fp'), [])"
proof -
  have "session_parse (False, fp) (kClientPreface @ concat (map wire_frame fs)) =
      session_parse (True, fp) (concat (map wire_frame fs))"
    by (simp add: session_parse_def)
  from h2p.parse_all_cong[OF this] h2_parse_frames[OF assms] show ?thesis by auto
qed

text \<open>
  C8. However the bytes of a client are cut into reads, a session behaves as the fold of \<open>h2_spec\<close>
  over the frames that follow the preface: its callback runs once per DATA frame on a stream, in
  order, and each stream holds the concatenation of its DATA payloads.
\<close>
theorem h2_session_segmentation:
  assumes "h2_inv cb (h, st)" and "\<not> preface_received h" and "fp_state (h2_parser h) = kReadingHeader"
    and "pending st = []" and "list_all frame_wf fs"
    and "concat chs = kClientPreface @ concat (map wire_frame fs)"
  shows "\<exists>hs'. serve h2_receive (h2_loop cb) chs (h, st) = Some hs' \<and> pending (snd hs') = [] \<and>
    h2_visible hs' = fold (h2_spec cb) fs (h2_visible (h, st))"
proof -
  obtain fp' where "parse_all (\<lambda>q. fp_size (snd q)) session_parse (False, h2_parser h)
      (kClientPreface @ concat (map wire_frame fs)) = (fs, (True, fp'), [])"
    using h2_parse_session[OF assms(5,3)] by blast
  with h2s.serve_concat[of cb "(h, st)" "(True, fp')" "[]" chs fs] assms show ?thesis
    by (auto simp: bad_preface_def session_parse_def)
qed

definition fresh_h2 :: h2 where
  "fresh_h2 = Session_new \<lparr>fh_length = 0, fh_type = 0, fh_flags = 0, fh_stream_id = 0\<rparr>"

lemma fresh_h2_facts [simp]:
  "h2_inv cb (fresh_h2, fresh_session a) = cb_safe cb" "\<not> preface_received fresh_h2"
  "fp_state (h2_parser fresh_h2) = kReadingHeader" "stream_data fresh_h2 = (\<lambda>_. [])"
  by (simp_all add: fresh_h2_def Session_new_def FrameParser_new_def h2_inv_def stream_data_def fun_eq_iff)

definition log_frames :: "bytes list stream_data_cb" where
  "log_frames s i d = (s @ [d], [Send_Stream_Data i d False], None)"

theorem h2_session_segmentation_witness:
  "\<exists>hs'. serve h2_receive (h2_loop (Some log_frames))
      [take 10 kClientPreface, drop 10 kClientPreface @ [CHR 0x00, CHR 0x00],
       [CHR 0x01, CHR 0x00, CHR 0x00, CHR 0x00, CHR 0x00, CHR 0x00, CHR 0x01], ''x'']
      (fresh_h2, fresh_session []) = Some hs' \<and> app (snd hs') = [''x'']"
proof -
  let ?f = "\<lparr>fr_header = \<lparr>fh_length = 1, fh_type = DATA, fh_flags = 0, fh_stream_id = 1\<rparr>, fr_payload = ''x''\<rparr>"
  have w: "wire_frame ?f = [CHR 0x00, CHR 0x00, CHR 0x01, CHR 0x00, CHR 0x00, CHR 0x00, CHR 0x00, CHR 0x00, CHR 0x01, CHR ''x'']"
    by code_simp
  have "\<exists>hs'. serve h2_receive (h2_loop (Some log_frames))
      [take 10 kClientPreface, drop 10 kClientPreface @ [CHR 0x00, CHR 0x00],
       [CHR 0x01, CHR 0x00, CHR 0x00, CHR 0x00, CHR 0x00, CHR 0x00, CHR 0x01], ''x'']
      (fresh_h2, fresh_session []) = Some hs' \<and> pending (snd hs') = [] \<and>
    h2_visible hs' = fold (h2_spec (Some log_frames)) [?f] (h2_visible (fresh_h2, fresh_session []))"
    by (rule h2_session_segmentation)
       (simp_all add: frame_wf_def cb_safe_def log_frames_def w flip: append_assoc)
  moreover have "fst (fold (h2_spec (Some log_frames)) [?f] (h2_visible (fresh_h2, fresh_session []))) = [''x'']"
    by (simp add: h2_visible_def h2_spec_def log_frames_def fresh_session_def DATA_def Let_def)
  ultimately show ?thesis by (auto simp: h2_visible_def) (metis fst_conv)
qed

text \<open>
  What \<open>SendStreamData\<close> and \<open>SendHeaders\<close> put on the wire parses back into DATA and HEADERS
  frames with the stream, the end-of-stream flag and the data they were given, and the header
  block of a HEADERS frame decodes to the header list.
\<close>
theorem h2_ops_roundtrip:
  assumes "\<forall>op \<in> set ops. case op of
      Send_Stream_Data sid data e \<Rightarrow> unat sid < 2 ^ 31 \<and> length data < 2 ^ 24
    | Send_Headers sid hs e \<Rightarrow> unat sid < 2 ^ 31 \<and> list_all header_fits hs \<and> length (HpackEncoder_Encode hs) < 2 ^ 24"
    and "fp_state fp = kReadingHeader"
  shows "\<exists>fs fp'. parse_all (\<lambda>q. fp_size (snd q)) session_parse (True, fp) (concat (map h2_written ops)) = (fs, (True, fp'), []) \<and>
    list_all2 (\<lambda>op f. case op of
        Send_Stream_Data sid data e \<Rightarrow>
          fh_type (fr_header f) = DATA \<and> fh_stream_id (fr_header f) = sid \<and> fr_payload f = data \<and>
          fh_flags (fr_header f) = (if e then 1 else 0)
      | Send_Headers sid hs e \<Rightarrow>
          fh_type (fr_header f) = HEADERS \<and> fh_stream_id (fr_header f) = sid \<and>
          rfc_decode (length hs) (map u8 (fr_payload f)) = Some hs \<and>
          fh_flags (fr_header f) = (if e then 5 else 4)) ops fs"
proof -
  define mk where "mk op = (case op of
      Send_Stream_Data sid data e \<Rightarrow>
        \<lparr>fr_header = \<lparr>fh_length = of_nat (length data), fh_type = DATA, fh_flags = if e then 1 else 0, fh_stream_id = sid\<rparr>,
         fr_payload = data\<rparr>
    | Send_Headers sid hs e \<Rightarrow>
        \<lparr>fr_header = \<lparr>fh_length = of_nat (length (HpackEncoder_Encode hs)), fh_type = HEADERS,
           fh_flags = if e then 5 else 4, fh_stream_id = sid\<rparr>,
         fr_payload = map chr8 (HpackEncoder_Encode hs)\<rparr>)" for op
  have pos: "0 < (of_nat n :: uint32) \<longleftrightarrow> 0 < n" if "n < 2 ^ 24" for n
    using that by (simp add: word_less_nat_alt unat_of_nat32)
  have "frame_wf (mk op)" if op: "op \<in> set ops" for op
    using bspec[OF assms(1) op] by (cases op rule: h2_op.exhaust) (simp_all add: mk_def frame_wf_def)
  then have wf: "list_all frame_wf (map mk ops)" by (simp add: list_all_iff)
  have "h2_written op = wire_frame (mk op)" if op: "op \<in> set ops" for op
  proof (cases op)
    case (Send_Stream_Data sid data e)
    then show ?thesis by (simp add: h2_written_def wire_frame_def mk_def DATA_def)
  next
    case (Send_Headers sid hs e)
    with assms(1) op have "length (HpackEncoder_Encode hs) < 2 ^ 24" by fastforce
    then show ?thesis
      by (simp add: Send_Headers h2_written_def wire_frame_def mk_def HEADERS_def Let_def pos)
  qed
  then have wire: "concat (map h2_written ops) = concat (map wire_frame (map mk ops))"
    by (auto intro!: arg_cong[where f = concat])
  have all2: "list_all2 (\<lambda>op f. case op of
        Send_Stream_Data sid data e \<Rightarrow>
          fh_type (fr_header f) = DATA \<and> fh_stream_id (fr_header f) = sid \<and> fr_payload f = data \<and>
          fh_flags (fr_header f) = (if e then 1 else 0)
      | Send_Headers sid hs e \<Rightarrow>
          fh_type (fr_header f) = HEADERS \<and> fh_stream_id (fr_header f) = sid \<and>
          rfc_decode (length hs) (map u8 (fr_payload f)) = Some hs \<and>
          fh_flags (fr_header f) = (if e then 5 else 4)) ops (map mk ops)"
    unfolding list_all2_map2 list_all2_same
  proof
    fix op assume "op \<in> set ops"
    then show "case op of
        Send_Stream_Data sid data e \<Rightarrow>
          fh_type (fr_header (mk op)) = DATA \<and> fh_stream_id (fr_header (mk op)) = sid \<and> fr_payload (mk op) = data \<and>
          fh_flags (fr_header (mk op)) = (if e then 1 else 0)
      | Send_Headers sid hs e \<Rightarrow>
          fh_type (fr_header (mk op)) = HEADERS \<and> fh_stream_id (fr_header (mk op)) = sid \<and>
          rfc_decode (length hs) (map u8 (fr_payload (mk op))) = Some hs \<and>
          fh_flags (fr_header (mk op)) = (if e then 5 else 4)"
      using bspec[OF assms(1) \<open>op \<in> set ops\<close>] by (cases op rule: h2_op.exhaust) (simp_all add: mk_def comp_def rfc_decode_Encode)
  qed
  obtain fp' where "parse_all (\<lambda>q. fp_size (snd q)) session_parse (True, fp) (concat (map h2_written ops))
      = (map mk ops, (True, fp'), [])"
    using h2_parse_frames[OF wf assms(2)] wire by auto
  with all2 show ?thesis by blast
qed

theorem h2_ops_roundtrip_witness:
  "\<exists>f g fp'. parse_all (\<lambda>q. fp_size (snd q)) session_parse (True, h2_parser fresh_h2)
     (concat (map h2_written [Send_Headers 1 [('':status'', ''200'')] False, Send_Stream_Data 3 ''x'' True])) = ([f, g], (True, fp'), []) \<and>
   rfc_decode 1 (map u8 (fr_payload f)) = Some [('':status'', ''200'')] \<and> fr_payload g = ''x'' \<and>
   fh_stream_id (fr_header g) = 3"
proof -
  have len: "length (HpackEncoder_Encode [('':status'', ''200'')]) = 1" by code_simp
  show ?thesis
    using h2_ops_roundtrip[of "[Send_Headers 1 [('':status'', ''200'')] False, Send_Stream_Data 3 ''x'' True]" "h2_parser fresh_h2"]
    by (fastforce simp: header_fits_def len list_all2_Cons1)
qed

end
