(* ===== verification/Grpc.thy ===== *)
theory Grpc
  imports Http2 Tcp
begin

text \<open>
  gRPC over the library's HTTP/2: \<open>GrpcCodec\<close>, the server's \<open>GrpcHandler\<close> with its stream context
  and \<open>GrpcStreamImpl\<close>, the \<open>ServiceRegistry\<close>, and \<open>GrpcClientProtocol\<close>.
\<close>

section \<open>The codec\<close>

definition kHeaderSize :: nat where
  "kHeaderSize = 5"

definition GrpcCodec_Encode :: "bytes \<Rightarrow> bool \<Rightarrow> bytes" where
  "GrpcCodec_Encode payload compressed =
     (if compressed then CHR 0x01 else CHR 0x00) # htonl_bytes (of_nat (length payload)) @ payload"

text \<open>
  \<open>Decode\<close>: whether a message was found, what it wrote to its two output arguments (if it wrote
  them), and the buffer.
\<close>

definition GrpcCodec_Decode :: "buffer \<Rightarrow> bool \<times> bytes option \<times> bool option \<times> buffer" where
  "GrpcCodec_Decode buf =
     (if Buffer_ReadableBytes buf < kHeaderSize then (False, None, None, buf)
      else
        (let data = Buffer_Peek buf;
             compressed = (data ! 0 \<noteq> CHR 0x00);
             len = unat (ntohl_at (drop 1 data))
         in if Buffer_ReadableBytes buf < kHeaderSize + len then (False, None, Some compressed, buf)
            else (True, Some (take len (drop kHeaderSize data)), Some compressed,
                  Buffer_Retrieve buf (kHeaderSize + len))))"

text \<open>The buffer that a handler fills with the bytes of one DATA frame.\<close>

definition local_buffer :: "bytes \<Rightarrow> buffer" where
  "local_buffer data = Buffer_Append (snd (Buffer_new [] 1024)) data"

section \<open>The server\<close>

fun GrpcStreamContext :: "uint32 \<Rightarrow> ctx_op \<Rightarrow> h2_op list" where
  "GrpcStreamContext sid (Ctx_Write_Envelope msg) =
     (case env_payload msg of
        None \<Rightarrow> []
      | Some p \<Rightarrow> [Send_Stream_Data sid (GrpcCodec_Encode (pay_data p) False) False])"
| "GrpcStreamContext sid (Ctx_Write data) = [Send_Stream_Data sid (GrpcCodec_Encode data False) False]"
| "GrpcStreamContext sid Ctx_Close = [Send_Stream_Data sid [] True]"

text \<open>
  A registered method talks to its \<open>GrpcStream\<close>; setting the message callback has an effect only on
  messages that arrive later.
\<close>

datatype grpc_op = Stream_Write bytes | Stream_WriteHeaders int | Stream_Finish int

fun GrpcStreamImpl :: "uint32 \<Rightarrow> grpc_op \<Rightarrow> h2_op" where
  "GrpcStreamImpl sid (Stream_Write data) = Send_Stream_Data sid (GrpcCodec_Encode data False) False"
| "GrpcStreamImpl sid (Stream_WriteHeaders status) =
     Send_Headers sid [('':status'', dec_int status), (''content-type'', ''application/grpc'')] False"
| "GrpcStreamImpl sid (Stream_Finish status) =
     Send_Headers sid
       (if status \<noteq> 0 then [(''grpc-message'', ''Error''), (''grpc-status'', dec_int status)]
        else [(''grpc-status'', dec_int status)]) True"

text \<open>\<open>OnDataReceived\<close> with the callback that is set on the stream, if any.\<close>

definition GrpcStream_OnDataReceived :: "('s \<Rightarrow> bytes \<Rightarrow> 's) option \<Rightarrow> bytes \<Rightarrow> 's \<Rightarrow> 's" where
  "GrpcStream_OnDataReceived on_message data s =
     (case GrpcCodec_Decode (local_buffer data) of
        (True, Some payload, _) \<Rightarrow> (case on_message of None \<Rightarrow> s | Some f \<Rightarrow> f s payload)
      | _ \<Rightarrow> s)"

type_synonym 's stream_callback = "'s \<Rightarrow> 's \<times> grpc_op list \<times> exn option"
type_synonym 's registry = "string \<rightharpoonup> 's stream_callback"

definition ServiceRegistry_RegisterMethod :: "string \<Rightarrow> 's stream_callback \<Rightarrow> 's registry \<Rightarrow> 's registry" where
  "ServiceRegistry_RegisterMethod path cb reg = reg(path \<mapsto> cb)"

definition ServiceRegistry_Dispatch ::
    "'s registry \<Rightarrow> string \<Rightarrow> 's \<Rightarrow> (exn + unit result) \<times> 's \<times> grpc_op list" where
  "ServiceRegistry_Dispatch reg path s =
     (case reg path of
        None \<Rightarrow> (Inr (Result_Failure kNotFound (''Method not found: '' @ path)), s, [Stream_Finish kNotFound])
      | Some cb \<Rightarrow>
          (case cb s of
             (s', ops, e) \<Rightarrow> (case e of Some x \<Rightarrow> Inl x | None \<Rightarrow> Inr (Result_Success ()), s', ops)))"

definition test_path :: string where
  "test_path = ''/test.Service/Method''"

text \<open>The request the handler makes of a decoded payload.\<close>

definition Grpc_request :: "proto \<Rightarrow> bytes \<Rightarrow> envelope" where
  "Grpc_request pb payload =
     (let (parsed, req) = pb_parse pb payload
      in if \<not> parsed \<or> env_header req = None \<or> message_type (get_header req) = []
         then set_data payload (upd_header (\<lambda>h. h\<lparr>message_type := test_path\<rparr>) envelope_empty)
         else req)"

text \<open>The callback that \<open>OnConnection\<close> installs on the session.\<close>

definition Grpc_on_stream_data :: "proto \<Rightarrow> 's stream_handler option \<Rightarrow> 's registry \<Rightarrow> 's stream_data_cb" where
  "Grpc_on_stream_data pb sh reg s sid data =
     (case sh of
        Some f \<Rightarrow>
          (case GrpcCodec_Decode (local_buffer data) of
             (True, Some payload, _) \<Rightarrow>
               (case f s (Grpc_request pb payload) envelope_empty of
                  (s', ops, r) \<Rightarrow>
                    (s',
                     concat (map (GrpcStreamContext sid) ops) @
                       (case r of
                          Inl _ \<Rightarrow> []
                        | Inr resp \<Rightarrow>
                            if env_payload resp \<noteq> None
                            then GrpcStreamContext sid (Ctx_Write_Envelope resp) @ GrpcStreamContext sid Ctx_Close
                            else []),
                     None))
           | _ \<Rightarrow> (s, [], None))
      | None \<Rightarrow>
          (let s1 = GrpcStream_OnDataReceived None data s
           in case ServiceRegistry_Dispatch reg test_path s1 of
                (r, s2, ops) \<Rightarrow>
                  (s2, map (GrpcStreamImpl sid) ops, case r of Inl x \<Rightarrow> Some x | Inr _ \<Rightarrow> None)))"

definition GrpcHandler_OnConnection :: "frame_header \<Rightarrow> h2" where
  "GrpcHandler_OnConnection uninitialised = Session_new uninitialised"

definition GrpcHandler_OnMessage ::
    "proto \<Rightarrow> 's stream_handler option \<Rightarrow> 's registry \<Rightarrow> h2 option \<times> 's session \<Rightarrow>
       exn option \<times> h2 option \<times> 's session" where
  "GrpcHandler_OnMessage pb sh reg q =
     (case q of
        (None, st) \<Rightarrow> (None, None, st)
      | (Some h, st) \<Rightarrow>
          (case Session_OnData (Some (Grpc_on_stream_data pb sh reg)) (h, st) of
             (e, h', st') \<Rightarrow> (e, Some h', st')))"

section \<open>The client\<close>

definition h2_settings :: "uint8 \<Rightarrow> bytes" where
  "h2_settings flags = map chr8 [0, 0, 0, 4, flags, 0, 0, 0, 0]"

definition GrpcClient_OnConnect :: "connection \<Rightarrow> connection" where
  "GrpcClient_OnConnect c = Connection_Send (h2_settings 0) (Connection_Send kClientPreface c)"

definition GrpcClient_headers :: "envelope \<Rightarrow> (string \<times> string) list" where
  "GrpcClient_headers e =
     [('':method'', ''POST''),
      ('':path'', if env_header e \<noteq> None \<and> message_type (get_header e) \<noteq> [] then message_type (get_header e)
                  else test_path),
      ('':scheme'', ''http''), (''content-type'', ''application/grpc''), (''te'', ''trailers'')]"

text \<open>A frame header for stream 1, as the client fills it in.\<close>

definition client_frame_header :: "nat \<Rightarrow> uint8 \<Rightarrow> uint8 \<Rightarrow> bytes" where
  "client_frame_header n ty flags =
     (let len = of_nat n :: uint32
      in [chr8 (ucast (drop_bit 16 len)), chr8 (ucast (drop_bit 8 len)), chr8 (ucast len),
          chr8 ty, chr8 flags, chr8 0, chr8 0, chr8 0, chr8 1])"

definition GrpcClient_Send :: "proto \<Rightarrow> envelope \<Rightarrow> connection \<Rightarrow> connection" where
  "GrpcClient_Send pb e c =
     (let block = HpackEncoder_Encode (GrpcClient_headers e);
          c1 = Connection_Send (client_frame_header (length block) 1 0x4) c;
          c2 = Connection_Send (map chr8 block) c1;
          grpc = GrpcCodec_Encode (pb_serialize pb e) False;
          c3 = Connection_Send (client_frame_header (length grpc) 0 0x1) c2
      in Connection_Send grpc c3)"

text \<open>One complete frame at the client.\<close>

definition GrpcClient_frame ::
    "proto \<Rightarrow> 's message_handler option \<Rightarrow> uint8 \<Rightarrow> uint8 \<Rightarrow> bytes \<Rightarrow> 's session \<Rightarrow> 's session" where
  "GrpcClient_frame pb mh ty flags payload st =
     (if ty = 4 then
        (if flags AND 0x1 = 0 then map_conn (Connection_Send (h2_settings 1)) st else st)
      else if ty = 0 then
        (case GrpcCodec_Decode (local_buffer payload) of
           (True, Some msg, _) \<Rightarrow>
             (case pb_parse pb msg of
                (True, env) \<Rightarrow> (case mh of Some f \<Rightarrow> st\<lparr>app := f (app st) env\<rparr> | None \<Rightarrow> st)
              | (False, _) \<Rightarrow> st)
         | _ \<Rightarrow> st)
      else st)"

lemma GrpcClient_frame_input [simp]: "in_buf (GrpcClient_frame pb mh ty flags payload st) = in_buf st"
  by (auto simp: GrpcClient_frame_def map_conn_def split: prod.splits bool.splits option.splits)

lemma read_frame_header_length: "unat (fh_length (read_frame_header p)) < 2 ^ 24"
proof -
  have "take_bit 24 (fh_length (read_frame_header p)) = fh_length (read_frame_header p)"
  proof (rule bit_word_eqI)
    fix n assume "n < LENGTH(32)"
    then show "bit (take_bit 24 (fh_length (read_frame_header p))) n = bit (fh_length (read_frame_header p)) n"
      by (cases "n < 24") (auto simp: read_frame_header_def bit_simps dest!: bit_imp_le_length)
  qed
  then have "unat (fh_length (read_frame_header p)) = take_bit 24 (unat (fh_length (read_frame_header p)))"
    by (metis unsigned_take_bit_eq)
  then show ?thesis by (metis take_bit_nat_less_exp)
qed

lemma frame_total: "unat (9 + fh_length (read_frame_header p)) = 9 + unat (fh_length (read_frame_header p))"
  using read_frame_header_length[of p] by (subst unat_add_lem[THEN iffD1]) auto

function GrpcClient_OnDataReceived :: "proto \<Rightarrow> 's message_handler option \<Rightarrow> 's session \<Rightarrow> 's session" where
  "GrpcClient_OnDataReceived pb mh st =
     (if 9 \<le> Buffer_ReadableBytes (in_buf st) then
        (let p = Buffer_Peek (in_buf st);
             hdr = read_frame_header p;
             len = fh_length hdr
         in if unat (9 + len) \<le> Buffer_ReadableBytes (in_buf st) then
              GrpcClient_OnDataReceived pb mh
                (map_input (\<lambda>b. Buffer_Retrieve b (unat (9 + len)))
                  (GrpcClient_frame pb mh (fh_type hdr) (fh_flags hdr) (take (unat len) (drop 9 p)) st))
            else st)
      else st)"
  by pat_completeness auto
termination
  by (relation "measure (\<lambda>(pb, mh, st). Buffer_ReadableBytes (in_buf st))")
     (auto simp: in_buf_map_input frame_total intro!: Retrieve_readable)

declare GrpcClient_OnDataReceived.simps [simp del]

section \<open>The codec as a framing\<close>

definition grpc_decode :: "bytes \<Rightarrow> ((bytes \<times> bool) \<times> nat) option" where
  "grpc_decode bs =
     (if length bs < 5 then None
      else
        (let n = unat (ntohl_at (drop 1 bs))
         in if length bs < 5 + n then None
            else Some ((take n (drop 5 bs), bs ! 0 \<noteq> CHR 0x00), 5 + n)))"

definition grpc_ok :: "bytes \<times> bool \<Rightarrow> bool" where
  "grpc_ok m \<longleftrightarrow> length (fst m) < 2 ^ 32"

interpretation grpc: frame_codec grpc_decode "\<lambda>m. GrpcCodec_Encode (fst m) (snd m)" grpc_ok
proof
  fix bs m n rest
  assume a: "grpc_decode bs = Some (m, n)"
  then show "0 < n \<and> n \<le> length bs"
    by (auto simp: grpc_decode_def Let_def split: if_splits)
  from a have l: "5 \<le> length bs" by (auto simp: grpc_decode_def split: if_splits)
  then have "ntohl_at (drop 1 (bs @ rest)) = ntohl_at (drop 1 bs)" "(bs @ rest) ! 0 = bs ! 0"
    by (auto simp: nth_append)
  with a show "grpc_decode (bs @ rest) = Some (m, n)"
    by (auto simp: grpc_decode_def Let_def split: if_splits)
next
  fix m rest assume "grpc_ok m"
  then show "grpc_decode (GrpcCodec_Encode (fst m) (snd m) @ rest) = Some (m, length (GrpcCodec_Encode (fst m) (snd m)))"
    by (cases m) (simp add: grpc_decode_def GrpcCodec_Encode_def grpc_ok_def wire_simps)
qed

lemma content_nth: "buffer_inv b \<Longrightarrow> i < length (content b) \<Longrightarrow> Buffer_Peek b ! i = content b ! i"
  by (rule nth_Peek) (simp add: ReadableBytes_content)

lemma drop_Peek_length:
  assumes "buffer_inv b" and "5 \<le> length (content b)"
  shows "ntohl_at (drop 1 (Buffer_Peek b)) = ntohl_at (drop 1 (content b))"
proof -
  have "length (content b) \<le> length (Buffer_Peek b)" by (simp add: content_def)
  with assms(2) have "1 \<le> length (Buffer_Peek b)" "1 \<le> length (content b)" by linarith+
  then show ?thesis using assms(2) by (simp add: ntohl_at_def content_nth[OF assms(1)])
qed

lemma Decode_content:
  assumes "buffer_inv b"
  shows "case grpc_decode (content b) of
      None \<Rightarrow> \<exists>c. GrpcCodec_Decode b = (False, None, c, b)
    | Some ((p, c), n) \<Rightarrow> GrpcCodec_Decode b = (True, Some p, Some c, Buffer_Retrieve b n)"
proof -
  have peek: "take n (drop 5 (Buffer_Peek b)) = take n (drop 5 (content b))" if "5 + n \<le> length (content b)" for n
    using take_Peek[of "5 + n" b] that assms by (metis ReadableBytes_content take_drop add.commute)
  have nth: "Buffer_Peek b ! 0 = content b ! 0" if "5 \<le> length (content b)"
    using that by (intro content_nth[OF assms]) linarith
  show ?thesis
    using assms drop_Peek_length[OF assms] peek nth
    by (auto simp: grpc_decode_def GrpcCodec_Decode_def kHeaderSize_def buf_simps Let_def split: if_splits option.splits)
qed

lemma local_buffer_facts [simp]: "buffer_inv (local_buffer data)" "content (local_buffer data) = data"
proof -
  have "buffer_inv (snd (Buffer_new [] 1024))" "content (snd (Buffer_new [] 1024)) = []"
    by (simp_all add: Buffer_new_def BufferPool_Acquire_def vec_new_def buffer_inv_def
        vec_inv_def content_def Buffer_ReadableBytes_def)
  then show "buffer_inv (local_buffer data)" "content (local_buffer data) = data"
    by (simp_all add: local_buffer_def buf_simps buffer_invs)
qed

lemma Decode_local_Some:
  "grpc_decode data = Some ((p, c), n) \<Longrightarrow> \<exists>x. GrpcCodec_Decode (local_buffer data) = (True, Some p, x)"
  using Decode_content[of "local_buffer data"] by auto

lemma Decode_local_None:
  "grpc_decode data = None \<Longrightarrow> \<exists>x. GrpcCodec_Decode (local_buffer data) = (False, None, x)"
  using Decode_content[of "local_buffer data"] by auto

text \<open>What a unary handler makes of a payload.\<close>

definition grpc_ops :: "uint32 \<Rightarrow> ctx_op list \<Rightarrow> (exn + envelope) \<Rightarrow> h2_op list" where
  "grpc_ops sid ops r =
     concat (map (GrpcStreamContext sid) ops) @
       (case r of
          Inl _ \<Rightarrow> []
        | Inr resp \<Rightarrow>
            if env_payload resp \<noteq> None
            then GrpcStreamContext sid (Ctx_Write_Envelope resp) @ GrpcStreamContext sid Ctx_Close
            else [])"

lemma on_stream_data_message:
  assumes "grpc_decode data = Some ((p, c), n)"
  shows "Grpc_on_stream_data pb (Some f) reg s sid data =
    (case f s (Grpc_request pb p) envelope_empty of (s', ops, r) \<Rightarrow> (s', grpc_ops sid ops r, None))"
  using Decode_local_Some[OF assms]
  by (auto simp: Grpc_on_stream_data_def grpc_ops_def split: prod.splits)

lemma on_stream_data_none:
  "grpc_decode data = None \<Longrightarrow> Grpc_on_stream_data pb (Some f) reg s sid data = (s, [], None)"
  using Decode_local_None[of data] by (auto simp: Grpc_on_stream_data_def)

lemma on_stream_data_safe: "cb_safe (Some (Grpc_on_stream_data pb (Some f) reg))"
proof -
  have "\<exists>s' ops. Grpc_on_stream_data pb (Some f) reg s i d = (s', ops, None)" for s i d
  proof (cases "grpc_decode d")
    case None
    then show ?thesis by (simp add: on_stream_data_none)
  next
    case (Some q)
    then obtain p c n where "grpc_decode d = Some ((p, c), n)" by (metis surj_pair)
    note on_stream_data_message[OF this, of pb f reg s i]
    then show ?thesis by (cases "f s (Grpc_request pb p) envelope_empty") simp
  qed
  then show ?thesis by (simp add: cb_safe_def)
qed

section \<open>Properties\<close>

text \<open>
  C29. \<open>GrpcCodec::Decode\<close> on a buffer that starts with an encoded message returns the payload and
  the compression flag and leaves the bytes after it; on a proper prefix of an encoded message it
  returns false and leaves the buffer as it is.
\<close>
theorem grpc_codec_roundtrip:
  assumes "buffer_inv b" and "length p < 2 ^ 32"
  shows "(\<forall>rest. content b = GrpcCodec_Encode p c @ rest \<longrightarrow>
            (\<exists>b'. GrpcCodec_Decode b = (True, Some p, Some c, b') \<and> content b' = rest \<and> buffer_inv b')) \<and>
         (\<forall>q. GrpcCodec_Encode p c = content b @ q \<and> q \<noteq> [] \<longrightarrow>
            (\<exists>c'. GrpcCodec_Decode b = (False, None, c', b)))"
proof -
  have ok: "grpc_ok (p, c)" using assms(2) by (simp add: grpc_ok_def)
  show ?thesis
    using Decode_content[OF assms(1)] grpc.dec_enc[OF ok] grpc.dec_partial[OF ok, of "content b"] assms(1)
    by (auto simp: buf_simps buffer_invs)
qed

theorem grpc_codec_roundtrip_witness:
  "\<exists>b'. GrpcCodec_Decode (local_buffer (GrpcCodec_Encode ''hello'' True @ ''xy'')) = (True, Some ''hello'', Some True, b') \<and>
    content b' = ''xy'' \<and> buffer_inv b'"
  using grpc_codec_roundtrip[of "local_buffer (GrpcCodec_Encode ''hello'' True @ ''xy'')" "''hello''" True] by simp

text \<open>
  The server takes exactly one message out of a DATA frame: a frame that holds only part of a
  message is dropped (its bytes are not kept for the next frame), and whatever follows a complete
  message in the same frame is ignored.
\<close>
theorem grpc_one_message_per_frame:
  assumes "length p < 2 ^ 32"
  shows "(\<forall>d q. GrpcCodec_Encode p c = d @ q \<and> q \<noteq> [] \<longrightarrow>
            Grpc_on_stream_data pb (Some f) reg s sid d = (s, [], None)) \<and>
         (\<forall>rest. Grpc_on_stream_data pb (Some f) reg s sid (GrpcCodec_Encode p c @ rest) =
            Grpc_on_stream_data pb (Some f) reg s sid (GrpcCodec_Encode p c))"
proof -
  have ok: "grpc_ok (p, c)" using assms by (simp add: grpc_ok_def)
  have "Grpc_on_stream_data pb (Some f) reg s sid (GrpcCodec_Encode p c @ rest) =
      (case f s (Grpc_request pb p) envelope_empty of (s', ops, r) \<Rightarrow> (s', grpc_ops sid ops r, None))" for rest
    using grpc.dec_enc[OF ok, of rest] by (intro on_stream_data_message) simp
  from this this[of "[]"] show ?thesis
    using grpc.dec_partial[OF ok] on_stream_data_none by (metis append_Nil2 fst_conv snd_conv)
qed

theorem grpc_one_message_per_frame_witness:
  "Grpc_on_stream_data pb_data_only (Some log_handler) Map.empty [] 1 (take 7 (GrpcCodec_Encode ''hello'' False)) = ([], [], None) \<and>
   Grpc_on_stream_data pb_data_only (Some log_handler) Map.empty [] 1 (GrpcCodec_Encode ''hello'' False @ GrpcCodec_Encode ''again'' False) =
   Grpc_on_stream_data pb_data_only (Some log_handler) Map.empty [] 1 (GrpcCodec_Encode ''hello'' False)"
proof -
  have split: "GrpcCodec_Encode ''hello'' False = take 7 (GrpcCodec_Encode ''hello'' False) @ drop 7 (GrpcCodec_Encode ''hello'' False)"
      "drop 7 (GrpcCodec_Encode ''hello'' False) \<noteq> []"
    by (simp_all add: GrpcCodec_Encode_def)
  have "length ''hello'' < (2::nat) ^ 32" by simp
  from grpc_one_message_per_frame[OF this, of False pb_data_only log_handler Map.empty "[]" 1] split
  show ?thesis by blast
qed

text \<open>
  Without a stream handler a registered method never sees its request: the outcome of a DATA
  frame is the same for every content, because the message callback is set, if at all, after the
  data has been delivered.
\<close>
theorem grpc_registered_method_blind:
  "Grpc_on_stream_data pb None reg s sid data = Grpc_on_stream_data pb None reg s sid data'"
proof -
  have "GrpcStream_OnDataReceived None d s = s" for d
    by (simp add: GrpcStream_OnDataReceived_def split: prod.splits bool.splits option.splits)
  then show ?thesis by (simp add: Grpc_on_stream_data_def)
qed

section \<open>Client to server\<close>

definition settings_frame :: h2_frame where
  "settings_frame = \<lparr>fr_header = \<lparr>fh_length = 0, fh_type = 4, fh_flags = 0, fh_stream_id = 0\<rparr>, fr_payload = []\<rparr>"

definition request_frames :: "proto \<Rightarrow> envelope \<Rightarrow> h2_frame list" where
  "request_frames pb e =
     (let block = map chr8 (HpackEncoder_Encode (GrpcClient_headers e));
          grpc = GrpcCodec_Encode (pb_serialize pb e) False
      in [\<lparr>fr_header = \<lparr>fh_length = of_nat (length block), fh_type = 1, fh_flags = 4, fh_stream_id = 1\<rparr>,
           fr_payload = block\<rparr>,
          \<lparr>fr_header = \<lparr>fh_length = of_nat (length grpc), fh_type = 0, fh_flags = 1, fh_stream_id = 1\<rparr>,
           fr_payload = grpc\<rparr>])"

lemma client_frame_header_eq: "client_frame_header n ty flags = write_frame_header (of_nat n) ty flags 1"
  by (simp add: client_frame_header_def write_frame_header_def Let_def)

lemma OnConnect_outputs: "outputs (kClientPreface @ wire_frame settings_frame) c (GrpcClient_OnConnect c)"
proof -
  have "h2_settings 0 = wire_frame settings_frame"
    by (simp add: h2_settings_def wire_frame_def settings_frame_def write_frame_header_def)
  then show ?thesis
    unfolding GrpcClient_OnConnect_def using outputs_trans[OF Send_outputs Send_outputs] by metis
qed

lemma GrpcClient_Send_outputs: "outputs (concat (map wire_frame (request_frames pb e))) c (GrpcClient_Send pb e c)"
  unfolding GrpcClient_Send_def request_frames_def Let_def
  using outputs_trans[OF outputs_trans[OF outputs_trans[OF Send_outputs Send_outputs] Send_outputs] Send_outputs]
  by (simp add: wire_frame_def client_frame_header_eq)

lemma GrpcClient_fold_outputs:
  "outputs (concat (map wire_frame (concat (map (request_frames pb) es)))) c (fold (GrpcClient_Send pb) es c)"
proof (induction es arbitrary: c)
  case Nil
  then show ?case by simp
next
  case (Cons e es)
  from outputs_trans[OF GrpcClient_Send_outputs Cons.IH] show ?case by simp
qed

text \<open>What a request must satisfy: a path, and sizes that fit the frames.\<close>

definition request_ok :: "proto \<Rightarrow> envelope \<Rightarrow> bool" where
  "request_ok pb e \<longleftrightarrow> env_header e \<noteq> None \<and> message_type (get_header e) \<noteq> [] \<and>
     length (pb_serialize pb e) + 5 < 2 ^ 24 \<and>
     length (HpackEncoder_Encode (GrpcClient_headers e)) < 2 ^ 24"

lemma request_frames_wf: "request_ok pb e \<Longrightarrow> list_all frame_wf (request_frames pb e)"
  by (simp add: request_ok_def request_frames_def Let_def frame_wf_def GrpcCodec_Encode_def)

lemma request_frames_spec:
  assumes "request_ok pb e" and "pb_parse pb (pb_serialize pb e) = (True, e)"
  shows "\<exists>data' out'. fold (h2_spec (Some (Grpc_on_stream_data pb (Some f) reg))) (request_frames pb e) (a, data, out) =
    (fst (f a e envelope_empty), data', out')"
proof -
  have "grpc_ok (pb_serialize pb e, False)" using assms(1) by (simp add: grpc_ok_def request_ok_def)
  from grpc.dec_enc[OF this, of "[]"]
  have d: "grpc_decode (GrpcCodec_Encode (pb_serialize pb e) False) =
      Some ((pb_serialize pb e, False), length (GrpcCodec_Encode (pb_serialize pb e) False))" by simp
  have "Grpc_request pb (pb_serialize pb e) = e"
    using assms by (auto simp: Grpc_request_def request_ok_def)
  with on_stream_data_message[OF d, of pb f reg a 1] show ?thesis
    by (cases "f a e envelope_empty") (simp add: request_frames_def h2_spec_def DATA_def Let_def)
qed

lemma requests_spec:
  assumes "\<forall>e \<in> set es. request_ok pb e \<and> pb_parse pb (pb_serialize pb e) = (True, e)"
  shows "fst (fold (h2_spec (Some (Grpc_on_stream_data pb (Some f) reg))) (concat (map (request_frames pb) es)) (a, data, out)) =
    fold (\<lambda>e a. fst (f a e envelope_empty)) es a"
  using assms
proof (induction es arbitrary: a data out)
  case Nil
  then show ?case by simp
next
  case (Cons e es)
  obtain data' out' where "fold (h2_spec (Some (Grpc_on_stream_data pb (Some f) reg))) (request_frames pb e) (a, data, out) =
      (fst (f a e envelope_empty), data', out')"
    using request_frames_spec[of pb e f reg a data out] Cons.prems by auto
  with Cons show ?case by simp
qed

text \<open>
  C9. A gRPC call from end to end: the preface, the settings, the headers and the message that the
  client writes, cut into reads in any way, make the server call its stream handler once per
  request, in order, with the envelope the client sent.
\<close>
theorem grpc_end_to_end:
  assumes "h2_inv (Some (Grpc_on_stream_data pb (Some f) reg)) (h, st)" and "\<not> preface_received h"
    and "fp_state (h2_parser h) = kReadingHeader" and "pending st = []"
    and "\<forall>e \<in> set es. request_ok pb e" and "pb_roundtrip pb es"
    and "conn_inv c" and "in_loop_thread c" and "stream c = []"
    and "concat chs = stream (fold (GrpcClient_Send pb) es (GrpcClient_OnConnect c))"
  shows "\<exists>hs'. serve h2_receive (h2_loop (Some (Grpc_on_stream_data pb (Some f) reg))) chs (h, st) = Some hs' \<and>
    pending (snd hs') = [] \<and> app (snd hs') = fold (\<lambda>e a. fst (f a e envelope_empty)) es (app st)"
proof -
  let ?fs = "settings_frame # concat (map (request_frames pb) es)"
  let ?cb = "Some (Grpc_on_stream_data pb (Some f) reg)"
  have "list_all frame_wf ?fs"
    using assms(5) request_frames_wf[of pb]
    by (auto simp: list_all_iff settings_frame_def frame_wf_def)
  moreover have "concat chs = kClientPreface @ concat (map wire_frame ?fs)"
    using outputs_trans[OF OnConnect_outputs[of c] GrpcClient_fold_outputs[of pb es]] assms(7-10)
    by (simp add: outputs_def extends_def)
  ultimately obtain fp' where "parse_all (\<lambda>q. fp_size (snd q)) session_parse (False, h2_parser h) (concat chs)
      = (?fs, (True, fp'), [])"
    using h2_parse_session[OF _ assms(3), of ?fs] by auto
  with h2s.serve_concat[of ?cb "(h, st)" "(True, fp')" "[]" chs ?fs] assms(1-4)
  obtain hs' where hs': "serve h2_receive (h2_loop ?cb) chs (h, st) = Some hs'" "pending (snd hs') = []"
      "h2_visible hs' = fold (h2_spec ?cb) ?fs (h2_visible (h, st))"
    by (auto simp: bad_preface_def session_parse_def)
  have "h2_spec ?cb settings_frame v = v" for v
    by (simp add: h2_spec_def settings_frame_def split: prod.splits)
  then have "app (snd hs') = fst (fold (h2_spec ?cb) (concat (map (request_frames pb) es)) (h2_visible (h, st)))"
    using hs'(3) by (simp add: h2_visible_def) (metis fst_conv)
  also have "\<dots> = fold (\<lambda>e a. fst (f a e envelope_empty)) es (app st)"
    using requests_spec[of es pb f reg] assms(5,6) by (simp add: h2_visible_def pb_roundtrip_def)
  finally show ?thesis using hs'(1,2) by blast
qed

definition pb_typed :: proto where
  "pb_typed = \<lparr>pb_serialize = (\<lambda>e. message_type (get_header e) @ CHR ''|'' # get_data e),
     pb_parse = (\<lambda>bs. (True, upd_header (\<lambda>h. h\<lparr>message_type := takeWhile (\<lambda>c. c \<noteq> CHR ''|'') bs\<rparr>)
                          (data_message (tl (dropWhile (\<lambda>c. c \<noteq> CHR ''|'') bs))))),
     pb_parse_negative = (\<lambda>_. (False, envelope_empty))\<rparr>"

definition typed_message :: envelope where
  "typed_message = upd_header (\<lambda>h. h\<lparr>message_type := ''/a''\<rparr>) (data_message ''x'')"

theorem grpc_end_to_end_witness:
  "\<exists>hs'. serve h2_receive (h2_loop (Some (Grpc_on_stream_data pb_typed (Some log_handler) Map.empty)))
      [take 40 (stream (GrpcClient_Send pb_typed typed_message (GrpcClient_OnConnect fresh_conn))),
       drop 40 (stream (GrpcClient_Send pb_typed typed_message (GrpcClient_OnConnect fresh_conn)))]
      (fresh_h2, fresh_session []) = Some hs' \<and> pending (snd hs') = [] \<and> app (snd hs') = [''x'']"
proof -
  let ?s = "stream (GrpcClient_Send pb_typed typed_message (GrpcClient_OnConnect fresh_conn))"
  have t: "env_header typed_message \<noteq> None" "message_type (get_header typed_message) = ''/a''"
      "get_data typed_message = ''x''" "pb_serialize pb_typed typed_message = ''/a|x''"
      "pb_parse pb_typed ''/a|x'' = (True, typed_message)"
    by (simp_all add: typed_message_def pb_typed_def data_message_def envelope_defs)
  have "length (HpackEncoder_Encode (GrpcClient_headers typed_message)) < 100"
  proof -
    have "GrpcClient_headers typed_message =
        [('':method'', ''POST''), ('':path'', ''/a''), ('':scheme'', ''http''),
         (''content-type'', ''application/grpc''), (''te'', ''trailers'')]"
      using t by (simp add: GrpcClient_headers_def)
    moreover have "length (HpackEncoder_Encode
        [('':method'', ''POST''), ('':path'', ''/a''), ('':scheme'', ''http''),
         (''content-type'', ''application/grpc''), (''te'', ''trailers'')]) < 100"
      by code_simp
    ultimately show ?thesis by simp
  qed
  with t have "request_ok pb_typed typed_message" by (simp add: request_ok_def)
  then have "\<exists>hs'. serve h2_receive (h2_loop (Some (Grpc_on_stream_data pb_typed (Some log_handler) Map.empty)))
      [take 40 ?s, drop 40 ?s] (fresh_h2, fresh_session []) = Some hs' \<and> pending (snd hs') = [] \<and>
      app (snd hs') = fold (\<lambda>e a. fst (log_handler a e envelope_empty)) [typed_message] (app (fresh_session []))"
    using t by (intro grpc_end_to_end[where c = fresh_conn])
      (simp_all add: on_stream_data_safe pb_roundtrip_def)
  then show ?thesis using t(3) by (simp add: log_handler_def)
qed

section \<open>Server to client\<close>

text \<open>The client's framing: a complete HTTP/2 frame and its length.\<close>

definition client_frame :: "bytes \<Rightarrow> ((uint8 \<times> uint8 \<times> bytes) \<times> nat) option" where
  "client_frame bs =
     (if length bs < 9 then None
      else
        (let hdr = read_frame_header bs; n = unat (fh_length hdr)
         in if length bs < 9 + n then None
            else Some ((fh_type hdr, fh_flags hdr, take n (drop 9 bs)), 9 + n)))"

definition client_spec ::
    "proto \<Rightarrow> 's message_handler option \<Rightarrow> uint8 \<times> uint8 \<times> bytes \<Rightarrow> 's \<times> limiter \<times> bytes \<Rightarrow> 's \<times> limiter \<times> bytes" where
  "client_spec pb mh m v =
     (case (m, v) of ((ty, flags, payload), (a, lm, out)) \<Rightarrow>
        if ty = 4 then (a, lm, if flags AND 0x1 = 0 then out @ h2_settings 1 else out)
        else if ty = 0 then
          (case grpc_decode payload of
             Some ((msg, _), _) \<Rightarrow> (client_deliver pb mh msg a, lm, out)
           | None \<Rightarrow> v)
        else v)"

lemma GrpcClient_frame_visible:
  assumes "session_inv st"
  shows "session_inv (GrpcClient_frame pb mh ty flags payload st)"
    "pending (GrpcClient_frame pb mh ty flags payload st) = pending st"
    "visible (GrpcClient_frame pb mh ty flags payload st) = client_spec pb mh (ty, flags, payload) (visible st)"
proof -
  have send: "session_inv (map_conn (Connection_Send d) st) \<and> pending (map_conn (Connection_Send d) st) = pending st \<and>
      visible (map_conn (Connection_Send d) st) = (app st, rate_limiter st, stream (conn st) @ d)" for d
    using session_outputs[OF assms Send_outputs[of d "conn st"], of "app st"] by (simp add: map_conn_def)
  have set: "session_inv (st\<lparr>app := a\<rparr>) \<and> pending (st\<lparr>app := a\<rparr>) = pending st" for a
    using assms by (simp add: session_inv_def pending_def)
  obtain c x where d: "GrpcCodec_Decode (local_buffer payload) =
      (case grpc_decode payload of None \<Rightarrow> (False, None, c, x) | Some ((p, _), _) \<Rightarrow> (True, Some p, c, x))"
    using Decode_content[of "local_buffer payload"]
    by (cases "grpc_decode payload") (auto split: prod.splits)
  show "session_inv (GrpcClient_frame pb mh ty flags payload st)"
    "pending (GrpcClient_frame pb mh ty flags payload st) = pending st"
    using assms send set by (auto simp: GrpcClient_frame_def d split: prod.splits bool.splits option.splits)
  show "visible (GrpcClient_frame pb mh ty flags payload st) = client_spec pb mh (ty, flags, payload) (visible st)"
    using send
    by (auto simp: GrpcClient_frame_def d client_spec_def client_deliver_def visible_def
        split: prod.splits bool.splits option.splits)
qed

interpretation grpc_cli: frame_server client_frame "\<lambda>_. False" pending receive
    "\<lambda>st. Some (GrpcClient_OnDataReceived pb mh st)" visible "client_spec pb mh" session_inv for pb mh
proof (unfold_locales, goal_cases)
  case (1 bs m n)
  then show ?case by (auto simp: client_frame_def Let_def split: if_splits)
next
  case (2 bs m n rest)
  then show ?case
    by (auto simp: client_frame_def Let_def read_frame_header_append split: if_splits)
next
  case (4 st ch)
  then show ?case using session_receive[OF 4, of ch] by simp
next
  case (5 st)
  have hdr: "9 \<le> length (pending st) \<Longrightarrow> read_frame_header (Buffer_Peek (in_buf st)) = read_frame_header (pending st)"
    using 5(1) by (intro read_frame_header_cong) (auto simp: pending_def session_inv_def conn_inv_def intro!: content_nth)
  from 5 have "9 \<le> length (pending st) \<longrightarrow> length (pending st) < 9 + unat (fh_length (read_frame_header (pending st)))"
    by (auto simp: client_frame_def Let_def split: if_splits)
  with 5(1) hdr show ?case
    by (subst GrpcClient_OnDataReceived.simps) (auto simp: pending_readable frame_total Let_def)
next
  case (6 st m n)
  let ?hdr = "read_frame_header (pending st)"
  let ?l = "unat (fh_length ?hdr)"
  from 6 have l: "9 \<le> length (pending st)" "9 + ?l \<le> length (pending st)"
      and m: "m = (fh_type ?hdr, fh_flags ?hdr, take ?l (drop 9 (pending st)))" "n = 9 + ?l"
    by (auto simp: client_frame_def Let_def split: if_splits)
  have hdr: "read_frame_header (Buffer_Peek (in_buf st)) = ?hdr"
    using 6(1) l(1) by (intro read_frame_header_cong) (auto simp: pending_def session_inv_def conn_inv_def intro!: content_nth)
  have body: "take ?l (drop 9 (Buffer_Peek (in_buf st))) = take ?l (drop 9 (pending st))"
    using pending_Peek[of "9 + ?l" st] 6(1) l by (metis take_drop add.commute)
  let ?st1 = "GrpcClient_frame pb mh (fh_type ?hdr) (fh_flags ?hdr) (take ?l (drop 9 (pending st))) st"
  note f = GrpcClient_frame_visible[OF 6(1), of pb mh "fh_type ?hdr" "fh_flags ?hdr" "take ?l (drop 9 (pending st))"]
  have "GrpcClient_OnDataReceived pb mh st =
      GrpcClient_OnDataReceived pb mh (map_input (\<lambda>b. Buffer_Retrieve b n) ?st1)"
    using 6(1) l hdr body m(2)
    by (subst GrpcClient_OnDataReceived.simps) (simp add: pending_readable frame_total Let_def)
  with session_retrieve[OF f(1), of n] f(2,3) m(1) show ?case
    by (intro exI[of _ "map_input (\<lambda>b. Buffer_Retrieve b n) ?st1"]) simp
qed simp

text \<open>
  A unary response loses everything but its data on the way back: whatever envelope the handler
  returned, the client's message handler is given the envelope that the bare payload data parses
  to, if it parses at all.
\<close>
theorem grpc_response_is_data:
  assumes "session_inv st" and "pending st = []" and "env_payload resp = Some p"
    and "length (pay_data p) + 5 < 2 ^ 24" and "unat sid < 2 ^ 31"
    and "concat chs = concat (map h2_written (grpc_ops sid [] (Inr resp)))"
  shows "\<exists>st'. serve receive (\<lambda>s. Some (GrpcClient_OnDataReceived pb (Some g) s)) chs st = Some st' \<and>
    pending st' = [] \<and>
    app st' = (case pb_parse pb (pay_data p) of (True, e) \<Rightarrow> g (app st) e | (False, _) \<Rightarrow> app st)"
proof -
  let ?d = "GrpcCodec_Encode (pay_data p) False"
  let ?f = "\<lambda>data e. \<lparr>fr_header = \<lparr>fh_length = of_nat (length data), fh_type = 0, fh_flags = if e then 1 else 0, fh_stream_id = sid\<rparr>,
      fr_payload = data\<rparr>"
  have chs: "concat chs = wire_frame (?f ?d False) @ wire_frame (?f [] True)"
    using assms(3,6) by (simp add: grpc_ops_def h2_written_def wire_frame_def)
  have cf: "client_frame (wire_frame (?f data e) @ x) = Some ((0, if e then 1 else 0, data), length (wire_frame (?f data e)))"
    if "length data < 2 ^ 24" for data e x
  proof -
    have "read_frame_header (wire_frame (?f data e) @ x) = fr_header (?f data e)"
      using that assms(5) by (simp add: wire_frame_def read_write_frame_header take_bit_small unat_of_nat32)
    then show ?thesis
      using that by (simp add: client_frame_def wire_frame_def unat_of_nat32)
  qed
  have len: "length ?d < 2 ^ 24" using assms(4) by (simp add: GrpcCodec_Encode_def)
  have "drain client_frame (pending st @ concat chs) = ([(0, 0, ?d), (0, 1, [])], [])"
    using grpc_cli.drain_Some[OF cf[OF len, of False "wire_frame (?f [] True)"]]
      grpc_cli.drain_Some[OF cf[of "[]" True "[]"]] grpc_cli.drain_None[of "[]"] chs assms(2)
    by (simp add: client_frame_def)
  moreover have "client_frame [] = None" by (simp add: client_frame_def)
  ultimately obtain st' where st': "serve receive (\<lambda>s. Some (GrpcClient_OnDataReceived pb (Some g) s)) chs st = Some st'"
      "pending st' = []" "visible st' = fold (client_spec pb (Some g)) [(0, 0, ?d), (0, 1, [])] (visible st)"
    using grpc_cli.serve_concat[where st = st and r = "[]" and chs = chs and ms = "[(0, 0, ?d), (0, 1, [])]"
        and pb = pb and mh = "Some g"] assms(1,2) by auto
  have "grpc_decode ?d = Some ((pay_data p, False), length ?d)"
    using grpc.dec_enc[of "(pay_data p, False)" "[]"] assms(4) by (simp add: grpc_ok_def)
  moreover have "grpc_decode [] = None" by (simp add: grpc_decode_def)
  ultimately have "app st' = client_deliver pb (Some g) (pay_data p) (app st)"
    using st'(3) by (simp add: visible_def client_spec_def)
  with st'(1,2) show ?thesis by (auto simp: client_deliver_def split: prod.splits bool.splits)
qed

theorem grpc_response_is_data_witness:
  "\<exists>st'. serve receive (\<lambda>s. Some (GrpcClient_OnDataReceived pb_data_only (Some (\<lambda>a e. a @ [get_data e])) s))
      [take 5 (concat (map h2_written (grpc_ops 1 [] (Inr (data_message ''x''))))),
       drop 5 (concat (map h2_written (grpc_ops 1 [] (Inr (data_message ''x'')))))] (fresh_session []) = Some st' \<and>
    pending st' = [] \<and> app st' = [''x'']"
proof -
  have p: "env_payload (data_message ''x'') = Some (payload_default\<lparr>pay_data := ''x''\<rparr>)"
    by (simp add: data_message_def envelope_defs)
  have "\<exists>st'. serve receive (\<lambda>s. Some (GrpcClient_OnDataReceived pb_data_only (Some (\<lambda>a e. a @ [get_data e])) s))
      [take 5 (concat (map h2_written (grpc_ops 1 [] (Inr (data_message ''x''))))),
       drop 5 (concat (map h2_written (grpc_ops 1 [] (Inr (data_message ''x'')))))] (fresh_session []) = Some st' \<and>
    pending st' = [] \<and>
    app st' = (case pb_parse pb_data_only (pay_data (payload_default\<lparr>pay_data := ''x''\<rparr>)) of
      (True, e) \<Rightarrow> (\<lambda>a e. a @ [get_data e]) (app (fresh_session [])) e | (False, _) \<Rightarrow> app (fresh_session []))"
    by (rule grpc_response_is_data[where sid = 1, OF _ _ p]) (simp_all add: payload_default_def)
  then show ?thesis by (simp add: payload_default_def)
qed

section \<open>The client stub\<close>

text \<open>
  \<open>GrpcClient\<close> of \<open>grpc_client.h\<close>, a stub for tests: it makes a connection on a socket of its own and sends the
  connection preface; the encoded message is dropped.
\<close>

definition GrpcStub_Connect ::
    "int \<Rightarrow> buffer \<Rightarrow> buffer \<Rightarrow> bool \<Rightarrow> (int \<Rightarrow> connect_result) \<Rightarrow> bool \<times> connection option" where
  "GrpcStub_Connect sock ib ob valid res =
     (case Connection_Connect valid (res sock) (Connection_new sock ib ob) of
        (r, c) \<Rightarrow> (Result_HasValue r, Some c))"

definition GrpcStub_SendUnary :: "string \<Rightarrow> bytes \<Rightarrow> connection option \<Rightarrow> connection option" where
  "GrpcStub_SendUnary path protobuf_data co =
     (case co of None \<Rightarrow> None | Some c \<Rightarrow> Some (Connection_Send kClientPreface c))"

text \<open>Whatever it is asked to send, the stub sends the preface, again for each call.\<close>

lemma GrpcStub_sends_prefaces:
  assumes "conn_inv c" and "in_loop_thread c"
  shows "\<exists>c'. fold (\<lambda>(path, d). GrpcStub_SendUnary path d) calls (Some c) = Some c' \<and>
    stream c' = stream c @ concat (replicate (length calls) kClientPreface)"
  using assms
proof (induction calls arbitrary: c)
  case (Cons call calls)
  obtain path d where call: "call = (path, d)" by (cases call)
  have e: "extends kClientPreface c (Connection_Send kClientPreface c)" by (rule Send_extends[OF Cons.prems])
  have r: "conn_inv (Connection_Send kClientPreface c)" "in_loop_thread (Connection_Send kClientPreface c)"
    using e Cons.prems by (simp_all add: extends_def)
  from Cons.IH[OF r] e show ?case by (simp add: GrpcStub_SendUnary_def call extends_def)
qed simp

end
