(* ===== verification/Websocket.thy ===== *)
theory Websocket
  imports Session
begin

text \<open>
  The WebSocket protocol: \<open>websocket::FrameParser\<close>, the \<open>Handshake\<close>, \<open>WebSocketHandler\<close> with its
  stream context, and \<open>WebSocketClientProtocol\<close>.  SHA-1 and Base64 belong to OpenSSL and are
  parameters.  A pointer into the input buffer is what \<open>Peek\<close> returns, the storage from the reader
  index on, so that \<open>strstr\<close> sees the bytes behind the readable ones up to the first NUL (the end
  of the storage counts as one).
\<close>

section \<open>The frame parser\<close>

record ws_frame =
  ws_fin :: bool
  ws_opcode :: uint8
  ws_masked :: bool
  ws_payload :: "uint8 list"

datatype ws_state = kHeader | kPayloadLength | kMaskKey | kPayload

record ws_parser =
  wp_state :: ws_state
  current_frame :: ws_frame
  payload_length :: nat
  mask_key :: "uint8 list"
  bytes_needed :: nat

definition kText :: uint8 where "kText = 0x1"
definition kBinary :: uint8 where "kBinary = 0x2"
definition kClose :: uint8 where "kClose = 0x8"

definition WsParser_new :: "ws_frame \<Rightarrow> uint8 list \<Rightarrow> ws_parser" where
  "WsParser_new frame key =
     \<lparr>wp_state = kHeader, current_frame = frame, payload_length = 0, mask_key = key, bytes_needed = 2\<rparr>"

definition be64toh_safe :: "bytes \<Rightarrow> uint64" where
  "be64toh_safe p = foldl (\<lambda>r b. push_bit 8 r OR ucast (u8 b)) 0 (take 8 p)"

text \<open>
  The four stages of \<open>Parse\<close>: each gives \<open>False\<close> when the function returns false from it, the
  offset and the parser's fields.
\<close>

definition ws_read_header :: "bytes \<Rightarrow> nat \<Rightarrow> ws_parser \<Rightarrow> bool \<times> nat \<times> ws_parser" where
  "ws_read_header data len p =
     (if wp_state p = kHeader then
        (if len < 2 then (False, 0, p)
         else
           (let byte1 = u8 (data ! 0); byte2 = u8 (data ! 1);
                f = (current_frame p)\<lparr>ws_fin := byte1 AND 0x80 \<noteq> 0, ws_opcode := byte1 AND 0x0F,
                                     ws_masked := byte2 AND 0x80 \<noteq> 0\<rparr>;
                len_code = byte2 AND 0x7F;
                p1 = p\<lparr>current_frame := f\<rparr>
            in (True, 2,
                if len_code = 126 then p1\<lparr>wp_state := kPayloadLength, bytes_needed := 2\<rparr>
                else if len_code = 127 then p1\<lparr>wp_state := kPayloadLength, bytes_needed := 8\<rparr>
                else p1\<lparr>payload_length := unat len_code,
                        wp_state := (if ws_masked f then kMaskKey else kPayload),
                        bytes_needed := (if ws_masked f then 4 else unat len_code)\<rparr>)))
      else (True, 0, p))"

definition ws_read_length :: "bytes \<Rightarrow> nat \<Rightarrow> nat \<Rightarrow> ws_parser \<Rightarrow> bool \<times> nat \<times> ws_parser" where
  "ws_read_length data len off p =
     (if wp_state p = kPayloadLength then
        (if len - off < bytes_needed p then (False, off, p)
         else
           (let l = be64toh_safe (drop off data);
                n = (if bytes_needed p = 2 then unat (ntohs_at (drop off data)) else unat l);
                masked = ws_masked (current_frame p)
            in if bytes_needed p \<noteq> 2 \<and> l AND 0x8000000000000000 \<noteq> 0 then (False, off, p)
               else if bytes_needed p \<noteq> 2 \<and> 1024 * 1024 * 1024 < l then (False, off, p)
               else (True, off + bytes_needed p,
                     p\<lparr>payload_length := n, wp_state := (if masked then kMaskKey else kPayload),
                       bytes_needed := (if masked then 4 else n)\<rparr>)))
      else (True, off, p))"

definition ws_read_mask :: "bytes \<Rightarrow> nat \<Rightarrow> nat \<Rightarrow> ws_parser \<Rightarrow> bool \<times> nat \<times> ws_parser" where
  "ws_read_mask data len off p =
     (if wp_state p = kMaskKey then
        (if len - off < 4 then (False, off, p)
         else (True, off + 4,
               p\<lparr>mask_key := map u8 (take 4 (drop off data)), wp_state := kPayload,
                 bytes_needed := payload_length p\<rparr>))
      else (True, off, p))"

definition ws_unmask :: "uint8 list \<Rightarrow> uint8 list \<Rightarrow> uint8 list" where
  "ws_unmask key xs = map (\<lambda>i. xs ! i XOR key ! (i mod 4)) [0..<length xs]"

definition ws_read_payload :: "bytes \<Rightarrow> nat \<Rightarrow> nat \<Rightarrow> ws_parser \<Rightarrow> (nat \<times> ws_frame) option \<times> ws_parser" where
  "ws_read_payload data len off p =
     (if wp_state p = kPayload then
        (if len - off < payload_length p then (None, p)
         else
           (let raw = map u8 (take (payload_length p) (drop off data));
                f = (current_frame p)\<lparr>ws_payload :=
                       (if ws_masked (current_frame p) then ws_unmask (mask_key p) raw else raw)\<rparr>
            in (Some (off + payload_length p, f), p\<lparr>current_frame := f, wp_state := kHeader\<rparr>)))
      else (None, p))"

text \<open>\<open>Parse(data, len, consumed, out_frame)\<close>: \<open>Some (consumed, frame)\<close> when it returns true.\<close>

definition WsParser_Parse :: "bytes \<Rightarrow> nat \<Rightarrow> ws_parser \<Rightarrow> (nat \<times> ws_frame) option \<times> ws_parser" where
  "WsParser_Parse data len p =
     (case ws_read_header data len p of
        (False, _, p1) \<Rightarrow> (None, p1)
      | (True, o1, p1) \<Rightarrow>
          (case ws_read_length data len o1 p1 of
             (False, _, p2) \<Rightarrow> (None, p2)
           | (True, o2, p2) \<Rightarrow>
               (case ws_read_mask data len o2 p2 of
                  (False, _, p3) \<Rightarrow> (None, p3)
                | (True, o3, p3) \<Rightarrow> ws_read_payload data len o3 p3)))"

lemmas ws_parse_defs = WsParser_Parse_def ws_read_header_def ws_read_length_def ws_read_mask_def
  ws_read_payload_def

section \<open>The handshake\<close>

definition kGuid :: string where
  "kGuid = ''258EAFA5-E914-47DA-95CA-C5AB0DC85B11''"

text \<open>\<open>sha1\<close> and \<open>base64\<close> are the OpenSSL functions.\<close>

definition Handshake_Process ::
    "(bytes \<Rightarrow> bytes) \<Rightarrow> (bytes \<Rightarrow> string) \<Rightarrow> (string \<rightharpoonup> string) \<Rightarrow> string result" where
  "Handshake_Process sha1 base64 headers =
     (case headers ''Sec-WebSocket-Key'' of
        None \<Rightarrow> Result_Failure kInvalidRequest ''Missing Sec-WebSocket-Key''
      | Some key \<Rightarrow> Result_Success (base64 (sha1 (key @ kGuid))))"

definition Handshake_GenerateResponse :: "string \<Rightarrow> string" where
  "Handshake_GenerateResponse accept_key =
     ''HTTP/1.1 101 Switching Protocols'' @ crlf @ ''Upgrade: websocket'' @ crlf @
     ''Connection: Upgrade'' @ crlf @ ''Sec-WebSocket-Accept: '' @ accept_key @ crlf @ crlf"

text \<open>One header line; \<open>substr(colon + 2)\<close> throws when the line ends in the colon.\<close>

definition ws_header_line :: "string \<Rightarrow> (string \<rightharpoonup> string) \<Rightarrow> exn + (string \<rightharpoonup> string)" where
  "ws_header_line line headers =
     (case find_char CHR '':'' line of
        None \<Rightarrow> Inr headers
      | Some colon \<Rightarrow>
          (let key = take colon line
           in if length line < colon + 2 then Inl Out_Of_Range
              else
                (let val = drop (colon + 2) line;
                     val' = (if val \<noteq> [] \<and> last val = CR then butlast val else val)
                 in Inr (headers(key \<mapsto> val')))))"

fun ws_header_lines :: "string list \<Rightarrow> (string \<rightharpoonup> string) \<Rightarrow> exn + (string \<rightharpoonup> string)" where
  "ws_header_lines [] headers = Inr headers"
| "ws_header_lines (line # ls) headers =
     (if line = [CR] then Inr headers
      else case ws_header_line line headers of Inl e \<Rightarrow> Inl e | Inr h \<Rightarrow> ws_header_lines ls h)"

section \<open>The handler\<close>

text \<open>The length field and payload of a text frame, as the server writes it.\<close>

definition ws_text_frame :: "bytes \<Rightarrow> bytes" where
  "ws_text_frame payload =
     (let len = of_nat (length payload) :: uint64
      in CHR 0x81 #
         (if len < 126 then [chr8 (ucast len)]
          else if len < 65536 then [CHR 0x7E, chr8 (ucast (drop_bit 8 len)), chr8 (ucast len)]
          else CHR 0x7F # map (\<lambda>i. chr8 (ucast (drop_bit ((7 - i) * 8) len))) (rev [0..<8])) @
         payload)"

fun WebSocketStreamContext :: "ctx_op \<Rightarrow> connection \<Rightarrow> connection" where
  "WebSocketStreamContext (Ctx_Write_Envelope msg) c = Connection_Send (ws_text_frame (get_data msg)) c"
| "WebSocketStreamContext (Ctx_Write data) c = Connection_Send (ws_text_frame data) c"
| "WebSocketStreamContext Ctx_Close c = Connection_ForceClose c"

text \<open>The members of the handler object, which all its connections share.\<close>

record ws_handler =
  is_upgraded :: bool
  ws_frames :: ws_parser

definition WebSocketHandler_OnConnection :: "ws_handler \<Rightarrow> ws_handler" where
  "WebSocketHandler_OnConnection w = w\<lparr>is_upgraded := False\<rparr>"

definition ws_upgrade ::
    "(bytes \<Rightarrow> bytes) \<Rightarrow> (bytes \<Rightarrow> string) \<Rightarrow> ws_handler \<times> 's session \<Rightarrow> exn option \<times> ws_handler \<times> 's session" where
  "ws_upgrade sha1 base64 q =
     (case q of (w, st) \<Rightarrow>
        (case strstr (Buffer_Peek (in_buf st)) (crlf @ crlf) of
           None \<Rightarrow> (None, w, st)
         | Some i \<Rightarrow>
             (let header_str = take i (Buffer_Peek (in_buf st));
                  st1 = map_input (\<lambda>b. Buffer_Retrieve b (length header_str + 4)) st
              in case ws_header_lines (getlines LF header_str) Map.empty of
                   Inl e \<Rightarrow> (Some e, w, st1)
                 | Inr headers \<Rightarrow>
                     (case Handshake_Process sha1 base64 headers of
                        Inr k \<Rightarrow>
                          (None, w\<lparr>is_upgraded := True\<rparr>,
                           map_conn (Connection_Send (Handshake_GenerateResponse k)) st1)
                      | Inl _ \<Rightarrow>
                          (None, w,
                           map_conn (\<lambda>c. Connection_ForceClose
                             (Connection_Send (''HTTP/1.1 400 Bad Request'' @ crlf @ crlf) c)) st1)))))"

definition ws_request :: "uint8 list \<Rightarrow> envelope" where
  "ws_request payload =
     set_data (map chr8 payload) (upd_header (\<lambda>h. h\<lparr>message_type := ''websocket''\<rparr>) envelope_empty)"

text \<open>One parsed frame: \<open>True\<close> when \<open>OnMessage\<close> returns after it.\<close>

definition ws_message :: "'s stream_handler option \<Rightarrow> ws_frame \<Rightarrow> 's session \<Rightarrow> bool \<times> 's session" where
  "ws_message sh f st =
     (if ws_opcode f = kText \<or> ws_opcode f = kBinary then
        (case Handler_CheckRateLimit st of
           (ok, st1) \<Rightarrow>
             if \<not> ok then (True, map_conn Connection_ForceClose st1)
             else
               (case sh of
                  None \<Rightarrow> (False, st1)
                | Some g \<Rightarrow>
                    (case call_stream WebSocketStreamContext g (ws_request (ws_payload f)) envelope_empty st1 of
                       (Inl e, st2) \<Rightarrow> (False, st2)
                     | (Inr resp, st2) \<Rightarrow>
                         (False,
                          if env_payload resp \<noteq> None
                          then map_conn (WebSocketStreamContext (Ctx_Write_Envelope resp)) st2 else st2))))
      else if ws_opcode f = kClose then (True, map_conn Connection_ForceClose st)
      else (False, st))"

definition ws_size :: "ws_parser \<Rightarrow> nat" where
  "ws_size p = (if wp_state p = kHeader then 0 else 1)"

lemma WsParser_Parse_shrinks:
  "(Some (n, f), p') = WsParser_Parse data len p \<Longrightarrow> 0 < len \<Longrightarrow> wp_state p' = kHeader \<and> (wp_state p = kHeader \<longrightarrow> 0 < n)"
  by (cases "wp_state p")
     (auto simp: ws_parse_defs Let_def split: if_splits prod.splits bool.splits)

lemma run_ctx_ws_input [simp]: "input_buffer (run_ctx WebSocketStreamContext ops c) = input_buffer c"
proof (induction ops arbitrary: c)
  case (Cons op ops)
  have "input_buffer (WebSocketStreamContext op c) = input_buffer c"
    by (cases op) (simp_all add: Connection_ForceClose_def)
  with Cons show ?case by (simp add: run_ctx_def)
qed (simp add: run_ctx_def)

lemma ws_message_eq: "(b, st') = ws_message sh f st \<Longrightarrow> in_buf st' = in_buf st"
  by (auto simp: ws_message_def call_stream_def map_conn_def Connection_ForceClose_def
      split: if_splits prod.splits option.splits sum.splits dest!: Handler_CheckRateLimit_eq[OF sym])

lemma ws_step_shrinks:
  assumes "(Some (n, f), p') = WsParser_Parse (Buffer_Peek b) (Buffer_ReadableBytes b) p" and "0 < Buffer_ReadableBytes b"
  shows "Buffer_ReadableBytes (Buffer_Retrieve b n) + ws_size p' < Buffer_ReadableBytes b + ws_size p"
proof -
  have "Buffer_ReadableBytes (Buffer_Retrieve b n) \<le> Buffer_ReadableBytes b" by (auto simp: buffer_defs)
  with WsParser_Parse_shrinks[OF assms] Retrieve_readable[OF _ assms(2), of n]
  show ?thesis by (cases "wp_state p = kHeader") (auto simp: ws_size_def)
qed

function ws_loop :: "'s stream_handler option \<Rightarrow> ws_handler \<times> 's session \<Rightarrow> ws_handler \<times> 's session" where
  "ws_loop sh (w, st) =
     (if 0 < Buffer_ReadableBytes (in_buf st) then
        (case WsParser_Parse (Buffer_Peek (in_buf st)) (Buffer_ReadableBytes (in_buf st)) (ws_frames w) of
           (None, p) \<Rightarrow> (w\<lparr>ws_frames := p\<rparr>, st)
         | (Some (n, f), p) \<Rightarrow>
             (case ws_message sh f (map_input (\<lambda>b. Buffer_Retrieve b n) st) of
                (True, st1) \<Rightarrow> (w\<lparr>ws_frames := p\<rparr>, st1)
              | (False, st1) \<Rightarrow> ws_loop sh (w\<lparr>ws_frames := p\<rparr>, st1)))
      else (w, st))"
  by pat_completeness auto
termination
  by (relation "measure (\<lambda>(sh, w, st). Buffer_ReadableBytes (in_buf st) + ws_size (ws_frames w))")
     (auto simp: in_buf_map_input dest!: ws_message_eq dest: ws_step_shrinks)

declare ws_loop.simps [simp del]

definition WebSocketHandler_OnMessage ::
    "(bytes \<Rightarrow> bytes) \<Rightarrow> (bytes \<Rightarrow> string) \<Rightarrow> 's stream_handler option \<Rightarrow> ws_handler \<times> 's session \<Rightarrow>
       exn option \<times> ws_handler \<times> 's session" where
  "WebSocketHandler_OnMessage sha1 base64 sh q =
     (if \<not> is_upgraded (fst q) then ws_upgrade sha1 base64 q else (None, ws_loop sh q))"

section \<open>The client\<close>

definition ws_upgrade_request :: string where
  "ws_upgrade_request =
     ''GET / HTTP/1.1'' @ crlf @ ''Host: localhost'' @ crlf @ ''Upgrade: websocket'' @ crlf @
     ''Connection: Upgrade'' @ crlf @ ''Sec-WebSocket-Key: dGhlIHNhbXBsZSBub25jZQ=='' @ crlf @
     ''Sec-WebSocket-Version: 13'' @ crlf @ crlf"

definition WsClient_OnConnect :: "connection \<Rightarrow> connection" where
  "WsClient_OnConnect c = Connection_Send ws_upgrade_request c"

definition ws_client_frame :: "bytes \<Rightarrow> bytes" where
  "ws_client_frame payload =
     [CHR 0x81, chr8 (0x80 OR ucast (of_nat (length payload) AND 0x7F :: uint64)),
      CHR 0x00, CHR 0x00, CHR 0x00, CHR 0x00] @ payload"

definition WsClient_Send :: "envelope \<Rightarrow> connection \<Rightarrow> connection" where
  "WsClient_Send e c = Connection_Send (ws_client_frame (get_data e)) c"

definition ws_client_message :: "bytes \<Rightarrow> envelope" where
  "ws_client_message msg =
     upd_header (\<lambda>h. h\<lparr>message_type := ''websocket.message''\<rparr>) (set_data msg envelope_empty)"

definition WsClient_OnDataReceived :: "'s message_handler option \<Rightarrow> bool \<times> 's session \<Rightarrow> bool \<times> 's session" where
  "WsClient_OnDataReceived mh q =
     (case q of (upgraded, st) \<Rightarrow>
        if \<not> upgraded then
          (if strstr (Buffer_Peek (in_buf st)) ''101 Switching Protocols'' \<noteq> None
           then (True, map_input Buffer_RetrieveAll st) else (False, st))
        else if 2 \<le> Buffer_ReadableBytes (in_buf st) then
          (let b2 = u8 (Buffer_Peek (in_buf st) ! 1);
               len = unat (b2 AND 0x7F);
               header_len = (if len = 126 then 4 else 2)
           in if header_len + len \<le> Buffer_ReadableBytes (in_buf st) then
                (let msg = take len (drop header_len (Buffer_Peek (in_buf st)));
                     st1 = (case mh of None \<Rightarrow> st | Some f \<Rightarrow> st\<lparr>app := f (app st) (ws_client_message msg)\<rparr>)
                 in (True, map_input (\<lambda>b. Buffer_Retrieve b (header_len + len)) st1))
              else (True, st))
        else (True, st))"

section \<open>Frames of RFC 6455\<close>

text \<open>The encoding the standard prescribes (5.2), against which the parser is compared.\<close>

primrec be_bytes :: "nat \<Rightarrow> uint64 \<Rightarrow> bytes" where
  "be_bytes 0 w = []"
| "be_bytes (Suc k) w = be_bytes k (drop_bit 8 w) @ [chr8 (ucast w)]"

definition rfc_length :: "uint8 \<Rightarrow> nat \<Rightarrow> bytes" where
  "rfc_length mask_bit n =
     (if n < 126 then [chr8 (mask_bit OR of_nat n)]
      else if n < 65536 then chr8 (mask_bit OR 126) # be_bytes 2 (of_nat n)
      else chr8 (mask_bit OR 127) # be_bytes 8 (of_nat n))"

definition rfc_frame :: "bool \<Rightarrow> uint8 \<Rightarrow> uint8 list option \<Rightarrow> uint8 list \<Rightarrow> bytes" where
  "rfc_frame fin op key payload =
     chr8 ((if fin then 0x80 else 0) OR op) #
     rfc_length (case key of None \<Rightarrow> 0 | Some _ \<Rightarrow> 0x80) (length payload) @
     (case key of None \<Rightarrow> [] | Some k \<Rightarrow> map chr8 k) @
     map chr8 (case key of None \<Rightarrow> payload | Some k \<Rightarrow> ws_unmask k payload)"

lemma unmask_length [simp]: "length (ws_unmask k xs) = length xs"
  by (simp add: ws_unmask_def)

lemma unmask_involution [simp]: "ws_unmask k (ws_unmask k xs) = xs"
  by (rule nth_equalityI) (simp_all add: ws_unmask_def xor.assoc)

lemma unmask_zero [simp]: "ws_unmask [0, 0, 0, 0] xs = xs"
proof (rule nth_equalityI)
  fix i assume i: "i < length (ws_unmask [0, 0, 0, 0] xs)"
  have "replicate 4 (0 :: uint8) ! (i mod 4) = 0" by (rule nth_replicate) simp
  moreover have "replicate 4 (0 :: uint8) = [0, 0, 0, 0]" by (simp add: eval_nat_numeral)
  ultimately have "[0, 0, 0, 0 :: uint8] ! (i mod 4) = 0" by argo
  with i show "ws_unmask [0, 0, 0, 0] xs ! i = xs ! i" unfolding ws_unmask_def
    by (simp only: length_map length_upt diff_zero nth_map nth_upt add_0 xor.right_neutral)
qed simp

lemma byte_bits:
  "bit (0x80 :: uint8) n \<longleftrightarrow> n = 7" "bit (0x7F :: uint8) n \<longleftrightarrow> n < 7" "bit (0x0F :: uint8) n \<longleftrightarrow> n < 4"
proof -
  have "(0x80 :: uint8) = 2 ^ 7" "(0x7F :: uint8) = mask 7" "(0x0F :: uint8) = mask 4"
    by (simp_all add: mask_eq_exp_minus_1)
  then show "bit (0x80 :: uint8) n \<longleftrightarrow> n = 7" "bit (0x7F :: uint8) n \<longleftrightarrow> n < 7" "bit (0x0F :: uint8) n \<longleftrightarrow> n < 4"
    by (simp_all only: bit_mask_iff bit_exp_iff) auto
qed

lemma small_byte:
  assumes "unat (w :: uint8) < 128"
  shows "(0x80 OR w) AND 0x80 = 0x80" "w AND 0x80 = 0" "(0x80 OR w) AND 0x7F = w" "w AND 0x7F = w"
proof -
  have b: "bit w n \<Longrightarrow> n < 7" for n using bit_below[of w 7 n] assms by simp
  show "(0x80 OR w) AND 0x80 = 0x80" "w AND 0x80 = 0" "(0x80 OR w) AND 0x7F = w" "w AND 0x7F = w"
    by (auto intro!: bit_word_eqI simp only: bit_and_iff bit_or_iff byte_bits bit_0_eq bot_apply bot_bool_def dest: b)
qed

lemma opcode_byte:
  assumes "unat (op :: uint8) < 16"
  shows "(0x80 OR op) AND 0x0F = op" "op AND 0x0F = op" "(0x80 OR op) AND 0x80 = 0x80" "op AND 0x80 = 0"
proof -
  have b: "bit op n \<Longrightarrow> n < 4" for n using bit_below[of op 4 n] assms by simp
  show "(0x80 OR op) AND 0x0F = op" "op AND 0x0F = op"
    by (auto intro!: bit_word_eqI simp only: bit_and_iff bit_or_iff byte_bits dest: b)
  from assms show "(0x80 OR op) AND 0x80 = 0x80" "op AND 0x80 = 0" using small_byte[of op] by simp_all
qed

lemma length_be_bytes [simp]: "length (be_bytes k w) = k"
  by (induction k arbitrary: w) simp_all

lemma be_bytes_2: "be_bytes 2 w = [chr8 (ucast (drop_bit 8 w)), chr8 (ucast w)]"
  by (simp add: numeral_2_eq_2)

lemma foldl_be_bytes:
  "foldl (\<lambda>r b. push_bit 8 r OR ucast (u8 b)) 0 (be_bytes k w) = (take_bit (8 * k) w :: uint64)"
proof (induction k arbitrary: w)
  case 0
  then show ?case by simp
next
  case (Suc k)
  have "push_bit 8 (take_bit (8 * k) (drop_bit 8 w)) OR ucast (ucast w :: uint8) = take_bit (8 * Suc k) w"
  proof (rule bit_word_eqI)
    fix n assume "n < LENGTH(64)"
    then show "bit (push_bit 8 (take_bit (8 * k) (drop_bit 8 w)) OR ucast (ucast w :: uint8)) n
        = bit (take_bit (8 * Suc k) w) n"
      by (cases "n < 8") (auto simp: bit_simps)
  qed
  with Suc show ?case by simp
qed

lemma be64toh_be_bytes: "be64toh_safe (be_bytes 8 w @ rest) = w"
  using foldl_be_bytes[of 8 w] take_bit_word_eq_self[of 64 w] by (simp add: be64toh_safe_def)

lemma ntohs_be_bytes: "ntohs_at (be_bytes 2 w @ rest) = ucast w"
proof (rule bit_word_eqI)
  fix n assume "n < LENGTH(16)"
  then consider "n < 8" | "8 \<le> n" "n < 16" by fastforce
  then show "bit (ntohs_at (be_bytes 2 w @ rest)) n = bit (ucast w :: uint16) n"
    by cases (auto simp: ntohs_at_def be_bytes_2 bit_simps)
qed

section \<open>What the parser reads\<close>

text \<open>The result of the first two stages on a frame whose length field is all there.\<close>

lemma parse_length_field:
  assumes st: "wp_state p = kHeader" and op: "unat op < 16" and n: "n \<le> 2 ^ 30"
    and m: "m = (if masked then 0x80 else 0)"
    and data: "data = chr8 ((if fin then 0x80 else 0) OR op) # rfc_length m n @ rest"
    and len: "length (rfc_length m n) < len"
  shows "\<exists>p1 p2 off. ws_read_header data len p = (True, off, p1) \<and>
    ws_read_length data len off p1 = (True, Suc (length (rfc_length m n)), p2) \<and>
    payload_length p2 = n \<and> wp_state p2 = (if masked then kMaskKey else kPayload) \<and>
    current_frame p2 = (current_frame p)\<lparr>ws_fin := fin, ws_opcode := op, ws_masked := masked\<rparr>"
proof -
  let ?b1 = "(if fin then 0x80 else 0) OR op"
  have b1: "(?b1 AND 0x80 \<noteq> 0) = fin" "?b1 AND 0x0F = op"
    using opcode_byte[OF op] by auto
  have b2: "(m OR w) AND 0x7F = w" "((m OR w) AND 0x80 \<noteq> 0) = masked" if "unat w < 128" for w
    using small_byte[OF that] m by auto
  define p0 where "p0 = p\<lparr>current_frame := (current_frame p)\<lparr>ws_fin := fin, ws_opcode := op, ws_masked := masked\<rparr>\<rparr>"
  consider "n < 126" | "126 \<le> n" "n < 65536" | "65536 \<le> n" by linarith
  then show ?thesis
  proof cases
    case 1
    then have u: "unat (of_nat n :: uint8) = n" by (simp add: unat_of_nat take_bit_eq_mod)
    then have w: "unat (of_nat n :: uint8) < 128" using 1 by simp
    have ne: "(of_nat n :: uint8) \<noteq> 126" "(of_nat n :: uint8) \<noteq> 127" using u 1 by auto
    have "ws_read_header data len p = (True, 2, p0\<lparr>payload_length := n,
        wp_state := (if masked then kMaskKey else kPayload), bytes_needed := (if masked then 4 else n)\<rparr>)"
      using st len 1 b1 b2[OF w] u ne unfolding data
      by (simp add: ws_read_header_def rfc_length_def p0_def Let_def)
    then show ?thesis using 1 by (auto simp: ws_read_length_def rfc_length_def p0_def)
  next
    case 2
    have "ws_read_header data len p = (True, 2, p0\<lparr>wp_state := kPayloadLength, bytes_needed := 2\<rparr>)"
      using st len 2 b1 b2[of 126] unfolding data
      by (simp add: ws_read_header_def rfc_length_def p0_def Let_def)
    moreover have "unat (ntohs_at (be_bytes 2 (of_nat n) @ rest)) = n"
      using 2 by (simp add: ntohs_be_bytes unat_of_nat16 unsigned_ucast_eq unat_of_nat64 take_bit_eq_mod)
    ultimately show ?thesis
      using 2 len unfolding data
      by (auto simp: ws_read_length_def rfc_length_def p0_def Let_def)
  next
    case 3
    have "ws_read_header data len p = (True, 2, p0\<lparr>wp_state := kPayloadLength, bytes_needed := 8\<rparr>)"
      using st len 3 b1 b2[of 127] unfolding data
      by (simp add: ws_read_header_def rfc_length_def p0_def Let_def)
    moreover have u: "unat (of_nat n :: uint64) = n" using n by (simp add: unat_of_nat64)
    moreover have "(of_nat n :: uint64) AND 0x8000000000000000 = 0"
    proof -
      have "n < 2 ^ 63" using n by simp
      then have "\<not> bit (of_nat n :: uint64) 63" using bit_below[of "of_nat n :: uint64" 63 63] u by auto
      moreover have "(0x8000000000000000 :: uint64) = 2 ^ 63" by simp
      ultimately show ?thesis by (simp only: and_exp_eq_0_iff_not_bit not_False_eq_True)
    qed
    moreover have "\<not> 1024 * 1024 * 1024 < (of_nat n :: uint64)"
      using u n by (simp add: word_less_nat_alt)
    ultimately show ?thesis
      using 3 len be64toh_be_bytes[of "of_nat n" rest] unfolding data
      by (auto simp: ws_read_length_def rfc_length_def p0_def Let_def)
  qed
qed

lemma length_rfc_frame:
  "length (rfc_frame fin op key payload) =
     Suc (length (rfc_length (case key of None \<Rightarrow> 0 | Some _ \<Rightarrow> 0x80) (length payload))) +
     (case key of None \<Rightarrow> 0 | Some k \<Rightarrow> length k) + length payload"
  by (simp add: rfc_frame_def split: option.splits)

lemma parse_rfc_frame:
  assumes st: "wp_state p = kHeader" and op: "unat op < 16" and n: "length payload \<le> 2 ^ 30"
    and key: "\<forall>k. key = Some k \<longrightarrow> length k = 4"
    and len: "length (rfc_frame fin op key payload) \<le> len"
  shows "\<exists>p'. WsParser_Parse (rfc_frame fin op key payload @ rest) len p =
    (Some (length (rfc_frame fin op key payload),
       \<lparr>ws_fin = fin, ws_opcode = op, ws_masked = (key \<noteq> None), ws_payload = payload\<rparr>), p') \<and> wp_state p' = kHeader"
proof -
  define data where "data = rfc_frame fin op key payload @ rest"
  define m :: uint8 where "m = (case key of None \<Rightarrow> 0 | Some _ \<Rightarrow> 0x80)"
  define off where "off = Suc (length (rfc_length m (length payload)))"
  define tl where "tl = (case key of None \<Rightarrow> [] | Some k \<Rightarrow> map chr8 k) @
      map chr8 (case key of None \<Rightarrow> payload | Some k \<Rightarrow> ws_unmask k payload) @ rest"
  have data': "data = chr8 ((if fin then 0x80 else 0) OR op) # rfc_length m (length payload) @ tl"
    by (simp add: data_def rfc_frame_def m_def tl_def)
  have m: "m = (if key \<noteq> None then 0x80 else 0)" by (simp add: m_def split: option.splits)
  have lens: "length (rfc_frame fin op key payload) = off + (if key = None then 0 else 4) + length payload"
    using key by (auto simp: length_rfc_frame off_def m_def split: option.splits)
  have "length (rfc_length m (length payload)) < len" using len lens off_def by linarith
  from parse_length_field[OF st op n m data' this]
  obtain p1 p2 o1 where s1: "ws_read_header data len p = (True, o1, p1)"
    and s2: "ws_read_length data len o1 p1 = (True, off, p2)"
    and p2: "payload_length p2 = length payload" "wp_state p2 = (if key \<noteq> None then kMaskKey else kPayload)"
      "current_frame p2 = (current_frame p)\<lparr>ws_fin := fin, ws_opcode := op, ws_masked := key \<noteq> None\<rparr>"
    unfolding off_def by blast
  have tl: "drop off data = tl" by (simp add: data' off_def)
  show ?thesis
  proof (cases key)
    case None
    with tl have raw: "map u8 (take (length payload) (drop off data)) = payload"
      by (simp add: tl_def comp_def)
    show ?thesis
      using s1 s2 p2 None lens len raw unfolding data_def[symmetric]
      by (simp add: WsParser_Parse_def ws_read_mask_def ws_read_payload_def Let_def)
  next
    case (Some k)
    with key have k: "length k = 4" by simp
    with tl Some have mk: "map u8 (take 4 (drop off data)) = k" by (simp add: tl_def comp_def)
    have "drop (off + 4) data = map chr8 (ws_unmask k payload) @ rest"
      using tl Some k by (metis (no_types, lifting) append_eq_conv_conj drop_drop length_map tl_def option.case(2) add.commute)
    then have raw: "map u8 (take (length payload) (drop (off + 4) data)) = ws_unmask k payload"
      by (simp add: comp_def)
    have "\<not> len - off < 4" "\<not> len - (off + 4) < length payload"
      using lens len Some by simp_all
    then show ?thesis
      using s1 s2 p2 Some lens mk raw unfolding data_def[symmetric]
      by (simp add: WsParser_Parse_def ws_read_mask_def ws_read_payload_def Let_def)
  qed
qed

lemma ucast_of_nat8: "n < 2 ^ 64 \<Longrightarrow> (ucast (of_nat n :: uint64) :: uint8) = of_nat n"
  by (simp add: word_unat_eq_iff unsigned_ucast_eq unat_of_nat take_bit_eq_mod)

text \<open>The server writes the standard's frame when the payload is below 64 KB.\<close>

lemma ws_text_frame_rfc:
  assumes "length payload < 65536"
  shows "ws_text_frame payload = rfc_frame True kText None (map u8 payload)"
proof -
  let ?len = "of_nat (length payload) :: uint64"
  have u: "unat ?len = length payload" using assms by (simp add: unat_of_nat64)
  have lt: "?len < 126 \<longleftrightarrow> length payload < 126" "?len < 65536"
    using u assms by (simp_all add: word_less_nat_alt)
  have "(ucast ?len :: uint8) = of_nat (length payload)" using assms by (intro ucast_of_nat8) simp
  moreover have "chr8 (0x80 OR kText) = CHR 0x81" "chr8 126 = CHR 0x7E" by code_simp+
  ultimately show ?thesis
    using lt assms by (simp add: ws_text_frame_def rfc_frame_def rfc_length_def be_bytes_2 comp_def Let_def)
qed

lemma ws_client_frame_rfc:
  assumes "length payload < 126"
  shows "ws_client_frame payload = rfc_frame True kText (Some [0, 0, 0, 0]) (map u8 payload)"
proof -
  let ?len = "of_nat (length payload) :: uint64"
  have u: "unat ?len = length payload" using assms by (simp add: unat_of_nat64)
  have "?len AND 0x7F = take_bit 7 ?len" by (simp add: take_bit_eq_mask mask_eq_exp_minus_1)
  also have "\<dots> = ?len" using u assms by (intro take_bit_small) simp
  finally have a: "?len AND 0x7F = ?len" .
  have "(ucast ?len :: uint8) = of_nat (length payload)" using assms by (intro ucast_of_nat8) simp
  moreover have "chr8 (0x80 OR kText) = CHR 0x81" "chr8 0 = CHR 0x00" by code_simp+
  ultimately show ?thesis
    using assms a by (simp add: ws_client_frame_def rfc_frame_def rfc_length_def comp_def)
qed

section \<open>Properties\<close>

text \<open>
  C28. The parser reads every frame of RFC 6455 up to 1 GB that is completely received, masked or
  not, with a length field of any of the three forms: it returns the frame that was encoded and
  consumes exactly its bytes.
\<close>
theorem ws_parser_reads_rfc_frames:
  assumes "wp_state p = kHeader" and "unat op < 16" and "length payload \<le> 2 ^ 30"
    and "\<forall>k. key = Some k \<longrightarrow> length k = 4"
    and "length (rfc_frame fin op key payload) \<le> len"
  shows "\<exists>p'. WsParser_Parse (rfc_frame fin op key payload @ rest) len p =
    (Some (length (rfc_frame fin op key payload),
       \<lparr>ws_fin = fin, ws_opcode = op, ws_masked = (key \<noteq> None), ws_payload = payload\<rparr>), p') \<and> wp_state p' = kHeader"
  by (rule parse_rfc_frame[OF assms])

definition fresh_parser :: ws_parser where
  "fresh_parser = WsParser_new \<lparr>ws_fin = False, ws_opcode = 0, ws_masked = False, ws_payload = []\<rparr> [0, 0, 0, 0]"

lemma fresh_parser_state [simp]: "wp_state fresh_parser = kHeader"
  by (simp add: fresh_parser_def WsParser_new_def)

theorem ws_parser_reads_rfc_frames_witness:
  "\<exists>p'. WsParser_Parse (rfc_frame True kText (Some [1, 2, 3, 4]) (replicate 200 7) @ ''xy'') 300 fresh_parser =
    (Some (length (rfc_frame True kText (Some [1, 2, 3, 4]) (replicate 200 7)),
       \<lparr>ws_fin = True, ws_opcode = kText, ws_masked = True, ws_payload = replicate 200 7\<rparr>), p')"
  using ws_parser_reads_rfc_frames[of fresh_parser kText "replicate 200 7" "Some [1, 2, 3, 4]" True 300 "''xy''"]
  by (auto simp: kText_def length_rfc_frame rfc_length_def)

text \<open>
  A frame that arrives in two pieces is misread.  The parser remembers that it has read the
  header but the handler gives it the header's bytes again: of a masked frame whose first piece
  ends before the mask key is complete, the second call takes the frame's own first four bytes as
  the key, unmasks the wrong bytes, and reports two bytes less than the frame has.
\<close>
theorem ws_split_frame_misread:
  assumes "wp_state p = kHeader" and "unat op < 16" and "length payload < 126" and "length key = 4"
    and "frame = rfc_frame True op (Some key) payload" and "2 \<le> k" and "k < 6"
  shows "\<exists>p1 p2 f. WsParser_Parse frame k p = (None, p1) \<and>
    WsParser_Parse frame (length frame) p1 = (Some (length frame - 2, f), p2) \<and>
    ws_payload f = ws_unmask (map u8 (take 4 frame)) (map u8 (take (length payload) (drop 4 frame)))"
proof -
  have lf: "length (rfc_length 0x80 (length payload)) = 1" "length frame = 6 + length payload"
    using assms by (simp_all add: length_rfc_frame rfc_length_def)
  obtain p1 p2 off where s: "ws_read_header frame k p = (True, off, p1)"
      "ws_read_length frame k off p1 = (True, 2, p2)"
      "payload_length p2 = length payload" "wp_state p2 = kMaskKey"
      "current_frame p2 = (current_frame p)\<lparr>ws_fin := True, ws_opcode := op, ws_masked := True\<rparr>"
    using parse_length_field[OF assms(1,2), of "length payload" "0x80" True frame True
        "map chr8 key @ map chr8 (ws_unmask key payload)" k] assms(3-6) lf
    by (auto simp: rfc_frame_def)
  have "k - 2 < 4" using assms(6,7) by linarith
  then have none: "WsParser_Parse frame k p = (None, p2)"
    using s(1,2,4) by (simp add: WsParser_Parse_def ws_read_mask_def)
  let ?raw = "map u8 (take (length payload) (drop 4 frame))"
  let ?f = "(current_frame p2)\<lparr>ws_payload := ws_unmask (map u8 (take 4 frame)) ?raw\<rparr>"
  have "\<exists>p3. WsParser_Parse frame (length frame) p2 = (Some (length frame - 2, ?f), p3)"
    using s(3-5) lf(2)
    by (simp add: WsParser_Parse_def ws_read_header_def ws_read_length_def ws_read_mask_def ws_read_payload_def Let_def)
  with none show ?thesis by fastforce
qed

theorem ws_split_frame_misread_witness:
  "\<exists>p1 p2 f. WsParser_Parse (rfc_frame True kText (Some [9, 9, 9, 9]) [1, 2, 3]) 4 fresh_parser = (None, p1) \<and>
    WsParser_Parse (rfc_frame True kText (Some [9, 9, 9, 9]) [1, 2, 3]) 9 p1 = (Some (7, f), p2) \<and>
    ws_payload f = [136, 138, 1]"
proof -
  let ?fr = "rfc_frame True kText (Some [9, 9, 9, 9]) [1, 2, 3]"
  have c: "length ?fr = 9" "ws_unmask (map u8 (take 4 ?fr)) (map u8 (take (length [1, 2, 3 :: uint8]) (drop 4 ?fr))) = [136, 138, 1]"
    by code_simp+
  have "\<exists>p1 p2 f. WsParser_Parse ?fr 4 fresh_parser = (None, p1) \<and>
    WsParser_Parse ?fr (length ?fr) p1 = (Some (length ?fr - 2, f), p2) \<and>
    ws_payload f = ws_unmask (map u8 (take 4 ?fr)) (map u8 (take (length [1, 2, 3 :: uint8]) (drop 4 ?fr)))"
    by (rule ws_split_frame_misread[where key = "[9, 9, 9, 9]" and op = kText]) (simp_all add: kText_def)
  then show ?thesis unfolding c by simp
qed

lemma be_bytes_numeral:
  "be_bytes (numeral v) w = be_bytes (pred_numeral v) (drop_bit 8 w) @ [chr8 (ucast w)]"
  by (simp add: numeral_eq_Suc)

lemma rev_be_bytes_8:
  "rev (be_bytes 8 w) = [chr8 (ucast w), chr8 (ucast (drop_bit 8 w)), chr8 (ucast (drop_bit 16 w)),
     chr8 (ucast (drop_bit 24 w)), chr8 (ucast (drop_bit 32 w)), chr8 (ucast (drop_bit 40 w)),
     chr8 (ucast (drop_bit 48 w)), chr8 (ucast (drop_bit 56 w))]"
  by (simp add: be_bytes_numeral drop_bit_drop_bit)

text \<open>The 64-bit length field of the server: its bytes are written least significant first.\<close>

lemma ws_text_frame_long:
  assumes "65536 \<le> length payload" and "length payload < 2 ^ 64"
  shows "ws_text_frame payload = [CHR 0x81, CHR 0x7F] @ rev (be_bytes 8 (of_nat (length payload))) @ payload"
proof -
  let ?len = "of_nat (length payload) :: uint64"
  have u: "unat ?len = length payload" using assms by (simp add: unat_of_nat64)
  have lt: "\<not> ?len < 126" "\<not> ?len < 65536" using u assms(1) by (simp_all add: word_less_nat_alt)
  have "map (\<lambda>i. chr8 (ucast (drop_bit ((7 - i) * 8) ?len))) (rev [0..<8]) = rev (be_bytes 8 ?len)"
    by (simp add: rev_be_bytes_8 upt_rec)
  with lt show ?thesis by (simp add: ws_text_frame_def Let_def)
qed

lemma be64toh_reversed:
  assumes "w \<noteq> 0" and "unat (w :: uint64) < 2 ^ 32"
  shows "2 ^ 32 \<le> unat (be64toh_safe (rev (be_bytes 8 w) @ rest))"
proof (rule ccontr)
  let ?l = "be64toh_safe (rev (be_bytes 8 w) @ rest)"
  assume "\<not> 2 ^ 32 \<le> unat ?l"
  then have low: "bit ?l n \<Longrightarrow> n < 32" for n using bit_below[of ?l 32] by simp
  have b: "\<not> bit w k" "\<not> bit w (8 + k)" "\<not> bit w (16 + k)" "\<not> bit w (24 + k)" if "k < 8" for k
    using that low[of "56 + k"] low[of "48 + k"] low[of "40 + k"] low[of "32 + k"]
    by (auto simp: be64toh_safe_def rev_be_bytes_8 bit_simps)
  have "\<not> bit w n" for n
  proof (cases "n < 32")
    case True
    then have "n div 8 = 0 \<or> n div 8 = 1 \<or> n div 8 = 2 \<or> n div 8 = 3" by linarith
    then have "n = n mod 8 \<or> n = 8 + n mod 8 \<or> n = 16 + n mod 8 \<or> n = 24 + n mod 8"
      using mult_div_mod_eq[of 8 n] by linarith
    with b[of "n mod 8"] show ?thesis by fastforce
  next
    case False
    then show ?thesis using bit_below[of w 32 n] assms(2) by auto
  qed
  then have "w = 0" by (intro bit_word_eqI) simp
  with assms(1) show False by simp
qed

section \<open>The handler on a connection\<close>

fun ws_written :: "ctx_op \<Rightarrow> bytes" where
  "ws_written (Ctx_Write_Envelope msg) = ws_text_frame (get_data msg)"
| "ws_written (Ctx_Write data) = ws_text_frame data"
| "ws_written Ctx_Close = []"

interpretation ws_ctx: stream_context WebSocketStreamContext ws_written
proof
  fix op c show "outputs (ws_written op) c (WebSocketStreamContext op c)"
    by (cases op) (simp_all add: Send_outputs ForceClose_outputs)
qed

text \<open>What a text message does to the application and to the output.\<close>

fun ws_serve :: "'s stream_handler \<Rightarrow> bytes list \<Rightarrow> 's \<times> bytes \<Rightarrow> 's \<times> bytes" where
  "ws_serve g [] q = q"
| "ws_serve g (d # ds) (s, out) =
     (case g s (ws_request (map u8 d)) envelope_empty of
        (s', ops, r) \<Rightarrow>
          ws_serve g ds
            (s', out @ concat (map ws_written ops) @
               (case r of Inl _ \<Rightarrow> []
                | Inr resp \<Rightarrow> if env_payload resp \<noteq> None then ws_text_frame (get_data resp) else [])))"

lemma ws_message_serves:
  assumes "session_inv st" and "rate_limiter st = None" and "ws_opcode f = kText" and "ws_payload f = map u8 d"
  shows "\<exists>st'. ws_message (Some g) f st = (False, st') \<and> session_inv st' \<and> pending st' = pending st \<and>
    rate_limiter st' = None \<and> ws_serve g ds (app st', stream (conn st')) = ws_serve g (d # ds) (app st, stream (conn st))"
proof -
  obtain s' ops r where g: "g (app st) (ws_request (map u8 d)) envelope_empty = (s', ops, r)"
    by (rule prod_cases3)
  from ws_ctx.call_stream_outputs[of g st, OF g] obtain c' where
    call: "call_stream WebSocketStreamContext g (ws_request (map u8 d)) envelope_empty st = (r, st\<lparr>app := s', conn := c'\<rparr>)"
    and out: "outputs (concat (map ws_written ops)) (conn st) c'" by blast
  have lim: "Handler_CheckRateLimit st = (True, st)"
    using assms(2) by (simp add: Handler_CheckRateLimit_def CheckRateLimit_def)
  show ?thesis
  proof (cases "\<exists>resp. r = Inr resp \<and> env_payload resp \<noteq> None")
    case True
    then obtain resp where r: "r = Inr resp" "env_payload resp \<noteq> None" by blast
    let ?c = "Connection_Send (ws_text_frame (get_data resp)) c'"
    have o2: "outputs (concat (map ws_written ops) @ ws_text_frame (get_data resp)) (conn st) ?c"
      by (rule outputs_trans[OF out Send_outputs])
    show ?thesis
      using session_outputs[OF assms(1) o2, of s'] lim call assms(2-4) r g
      by (simp add: ws_message_def map_conn_def visible_def)
  next
    case False
    have "ws_message (Some g) f st = (False, st\<lparr>app := s', conn := c'\<rparr>)"
      using lim call assms(3,4) False by (auto simp: ws_message_def split: sum.splits)
    then show ?thesis
      using session_outputs[OF assms(1) out, of s'] assms(2) g False by (cases r) (auto simp: visible_def)
  qed
qed

lemma ws_loop_frames:
  assumes "session_inv st" and "rate_limiter st = None" and "wp_state (ws_frames w) = kHeader"
    and "pending st = concat (map ws_client_frame ds)" and "\<forall>d \<in> set ds. length d < 126"
  shows "\<exists>w' st'. ws_loop (Some g) (w, st) = (w', st') \<and> session_inv st' \<and> rate_limiter st' = None \<and>
    wp_state (ws_frames w') = kHeader \<and> is_upgraded w' = is_upgraded w \<and> pending st' = [] \<and>
    (app st', stream (conn st')) = ws_serve g ds (app st, stream (conn st))"
  using assms
proof (induction ds arbitrary: w st)
  case Nil
  then have "Buffer_ReadableBytes (in_buf st) = 0" by (simp add: pending_readable)
  then have "ws_loop (Some g) (w, st) = (w, st)" by (subst ws_loop.simps) simp
  with Nil show ?case by simp
next
  case (Cons d ds)
  let ?fr = "ws_client_frame d"
  let ?f = "\<lparr>ws_fin = True, ws_opcode = kText, ws_masked = True, ws_payload = map u8 d\<rparr>"
  have d: "length d < 126" using Cons.prems(5) by simp
  have fr: "?fr = rfc_frame True kText (Some [0, 0, 0, 0]) (map u8 d)" using ws_client_frame_rfc[OF d] .
  have pend: "pending st = ?fr @ concat (map ws_client_frame ds)" using Cons.prems(4) by simp
  obtain rest where peek: "Buffer_Peek (in_buf st) = ?fr @ rest"
  proof (rule that)
    have "take (length ?fr) (Buffer_Peek (in_buf st)) = ?fr"
      using pending_Peek[of "length ?fr" st] Cons.prems(1) pend by simp
    then show "Buffer_Peek (in_buf st) = ?fr @ drop (length ?fr) (Buffer_Peek (in_buf st))"
      by (metis append_take_drop_id)
  qed
  have len: "length ?fr \<le> Buffer_ReadableBytes (in_buf st)" "0 < Buffer_ReadableBytes (in_buf st)"
    using pending_readable[OF Cons.prems(1)] pend by (simp_all add: ws_client_frame_def)
  obtain p' where p': "WsParser_Parse (Buffer_Peek (in_buf st)) (Buffer_ReadableBytes (in_buf st)) (ws_frames w) =
      (Some (length ?fr, ?f), p')" "wp_state p' = kHeader"
    using parse_rfc_frame[OF Cons.prems(3), of kText "map u8 d" "Some [0, 0, 0, 0]" True
        "Buffer_ReadableBytes (in_buf st)" rest] len d fr peek
    by (auto simp: kText_def)
  let ?st1 = "map_input (\<lambda>b. Buffer_Retrieve b (length ?fr)) st"
  note r = session_retrieve[OF Cons.prems(1), of "length ?fr"]
  have vis: "app ?st1 = app st" "stream (conn ?st1) = stream (conn st)" "rate_limiter ?st1 = None"
    using r(3) Cons.prems(2) by (simp_all add: visible_def)
  have pend1: "pending ?st1 = concat (map ws_client_frame ds)" using r(2) pend by simp
  obtain st2 where m: "ws_message (Some g) ?f ?st1 = (False, st2)" "session_inv st2" "pending st2 = pending ?st1"
      "rate_limiter st2 = None" "ws_serve g ds (app st2, stream (conn st2)) = ws_serve g (d # ds) (app st, stream (conn st))"
    using ws_message_serves[OF r(1) vis(3), of ?f d g ds] unfolding vis by auto
  have step: "ws_loop (Some g) (w, st) = ws_loop (Some g) (w\<lparr>ws_frames := p'\<rparr>, st2)"
    by (subst ws_loop.simps) (simp add: len(2) p'(1) m(1))
  have "\<forall>d \<in> set ds. length d < 126" using Cons.prems(5) by simp
  with Cons.IH[OF m(2,4), of "w\<lparr>ws_frames := p'\<rparr>"] p'(2) m(3,5) pend1 step
  show ?case by simp
qed


definition upgraded_handler :: ws_handler where
  "upgraded_handler = \<lparr>is_upgraded = True, ws_frames = fresh_parser\<rparr>"


text \<open>
  The server's long frames cannot be read back: of a text frame with 64 KB or more (below 4 GB)
  the server writes the 64-bit length least significant byte first, so that the library's own
  parser sees a length above its 1 GB limit and never delivers the message.
\<close>
theorem ws_server_long_frame_unreadable:
  assumes "65536 \<le> length payload" and "length payload < 2 ^ 32" and "wp_state p = kHeader"
  shows "fst (WsParser_Parse (ws_text_frame payload @ rest) len p) = None"
proof (cases "len < 2")
  case True
  with assms(3) show ?thesis by (simp add: WsParser_Parse_def ws_read_header_def)
next
  case False
  let ?w = "of_nat (length payload) :: uint64"
  let ?data = "ws_text_frame payload @ rest"
  have fr: "ws_text_frame payload = [CHR 0x81, CHR 0x7F] @ rev (be_bytes 8 ?w) @ payload"
    using assms by (intro ws_text_frame_long) simp_all
  have "unat ?w = length payload" using assms(2) by (simp add: unat_of_nat64)
  moreover have "?w \<noteq> 0" using calculation assms(1) by auto
  ultimately have big: "2 ^ 32 \<le> unat (be64toh_safe (drop 2 ?data))"
    using be64toh_reversed[of ?w "payload @ rest"] assms(2) fr by simp
  have lt: "1024 * 1024 * 1024 < be64toh_safe (drop 2 ?data)"
    using big by (simp add: word_less_nat_alt)
  have by2: "?data ! 0 = CHR 0x81" "?data ! 1 = CHR 0x7F" using fr by simp_all
  have h: "\<exists>p1. ws_read_header ?data len p = (True, 2, p1) \<and> wp_state p1 = kPayloadLength \<and> bytes_needed p1 = 8"
  proof -
    have "u8 (CHR 0x7F) AND 0x7F = 127" by code_simp
    then show ?thesis using assms(3) False unfolding ws_read_header_def by2 by (simp add: Let_def)
  qed
  then obtain p1 where p1: "ws_read_header ?data len p = (True, 2, p1)" "wp_state p1 = kPayloadLength"
    "bytes_needed p1 = 8" by blast
  have "fst (ws_read_length ?data len 2 p1) = False"
    unfolding ws_read_length_def using p1(2,3) lt by (simp add: Let_def)
  with p1(1) show ?thesis unfolding WsParser_Parse_def by (auto split: prod.splits bool.splits)
qed

theorem ws_server_long_frame_unreadable_witness:
  "fst (WsParser_Parse (ws_text_frame (replicate 70000 CHR ''a'') @ []) 70010 fresh_parser) = None"
  by (rule ws_server_long_frame_unreadable) simp_all

lemma ws_client_frame_mod:
  assumes "length payload < 2 ^ 64" and "k = length payload mod 128"
  shows "ws_client_frame payload = ws_client_frame (take k payload) @ drop k payload"
proof -
  let ?w = "\<lambda>n. of_nat n AND 0x7F :: uint64"
  have low: "unat (?w n) = n mod 128" if "n < 2 ^ 64" for n
  proof -
    have "?w n = take_bit 7 (of_nat n)" by (simp add: take_bit_eq_mask mask_eq_exp_minus_1)
    then show ?thesis using that by (simp only: unsigned_take_bit_eq unat_of_nat64) (simp add: take_bit_eq_mod)
  qed
  have "k < 2 ^ 64" using assms(1) unfolding assms(2) by (rule le_less_trans[OF mod_less_eq_dividend])
  with low[of k] low[OF assms(1)] assms(2) have "?w (length payload) = ?w k" by (simp add: word_unat_eq_iff)
  moreover have "length (take k payload) = k" using assms(2) by (simp add: min_def)
  ultimately show ?thesis by (simp add: ws_client_frame_def)
qed

text \<open>
  The client truncates: of a text of \<open>n\<close> bytes it announces only \<open>n mod 128\<close>, so for a longer
  text (when the remainder is below 126) the server takes the first \<open>n mod 128\<close> bytes for the whole
  message and would read the rest of the text as further frames.
\<close>
theorem ws_client_send_truncates:
  assumes "126 \<le> length payload" and "length payload < 2 ^ 64" and "k = length payload mod 128" and "k < 126"
    and "wp_state p = kHeader"
  shows "\<exists>p'. WsParser_Parse (ws_client_frame payload) (length (ws_client_frame payload)) p =
    (Some (6 + k, \<lparr>ws_fin = True, ws_opcode = kText, ws_masked = True, ws_payload = map u8 (take k payload)\<rparr>), p') \<and>
    6 + k < length (ws_client_frame payload)"
proof -
  have k: "k < length payload" using assms(1,3,4) mod_less_divisor[of 128 "length payload"] by linarith
  then have l: "length (take k payload) = k" by simp
  with assms(4) have "length (take k payload) < 126" by simp
  from ws_client_frame_rfc[OF this]
  have fr: "ws_client_frame payload = rfc_frame True kText (Some [0, 0, 0, 0]) (map u8 (take k payload)) @ drop k payload"
    using ws_client_frame_mod[OF assms(2,3)] by simp
  have lf: "length (rfc_frame True kText (Some [0, 0, 0, 0]) (map u8 (take k payload))) = 6 + k"
    using assms(4) l by (simp add: length_rfc_frame rfc_length_def)
  show ?thesis
    unfolding fr using parse_rfc_frame[OF assms(5), of kText "map u8 (take k payload)" "Some [0, 0, 0, 0]" True
        "length (ws_client_frame payload)" "drop k payload"] lf assms(4) l k fr
    by (auto simp: kText_def)
qed

theorem ws_client_send_truncates_witness:
  "\<exists>p'. WsParser_Parse (ws_client_frame (replicate 200 CHR ''a'')) 206 fresh_parser =
    (Some (78, \<lparr>ws_fin = True, ws_opcode = kText, ws_masked = True, ws_payload = replicate 72 (u8 CHR ''a'')\<rparr>), p')"
  using ws_client_send_truncates[of "replicate 200 CHR ''a''" 72 fresh_parser]
  by (auto simp: ws_client_frame_def)

section \<open>The handshake on a connection\<close>

text \<open>What \<open>OnMessage\<close> finds before the upgrade when a header block \<open>h\<close> has arrived.\<close>

lemma ws_header_block:
  assumes "session_inv st" and "pending st = h @ crlf @ crlf @ r"
    and "search (crlf @ crlf) (h @ crlf @ crlf) = Some (length h)" and "CHR 0x00 \<notin> set h"
  shows "strstr (Buffer_Peek (in_buf st)) (crlf @ crlf) = Some (length h)"
    and "take (length h) (Buffer_Peek (in_buf st)) = h"
proof -
  let ?n = "length (h @ crlf @ crlf)"
  have "take ?n (Buffer_Peek (in_buf st)) = h @ crlf @ crlf"
    using pending_Peek[of ?n st] assms(1,2) by simp
  then obtain x where x: "Buffer_Peek (in_buf st) = h @ (crlf @ crlf) @ x"
    by (metis append_take_drop_id append.assoc)
  then show "take (length h) (Buffer_Peek (in_buf st)) = h" by simp
  have "CHR 0x00 \<notin> set (crlf @ crlf)" by (simp add: crlf_def)
  then show "strstr (Buffer_Peek (in_buf st)) (crlf @ crlf) = Some (length h)"
    unfolding x using strstr_hit[OF assms(4) _ take_search[of "crlf @ crlf" h]] assms(3) by simp
qed

definition ws_key :: string where
  "ws_key = ''dGhlIHNhbXBsZSBub25jZQ==''"

definition ws_request_head :: string where
  "ws_request_head = take (length ws_upgrade_request - 4) ws_upgrade_request"

lemma ws_upgrade_request_facts:
  "ws_upgrade_request = ws_request_head @ crlf @ crlf"
  "search (crlf @ crlf) (ws_request_head @ crlf @ crlf) = Some (length ws_request_head)"
  "CHR 0x00 \<notin> set ws_request_head" "ws_request_head \<noteq> []"
  by code_simp+

lemma ws_request_head_key:
  "\<exists>m. ws_header_lines (getlines LF ws_request_head) Map.empty = Inr m \<and> m ''Sec-WebSocket-Key'' = Some ws_key"
proof -
  have "(case ws_header_lines (getlines LF ws_request_head) Map.empty of
      Inr m \<Rightarrow> m ''Sec-WebSocket-Key'' = Some ws_key | Inl _ \<Rightarrow> False)"
    by code_simp
  then show ?thesis by (auto split: sum.splits)
qed

lemma ws_upgrade_accepts:
  assumes "session_inv st" and "pending st = ws_upgrade_request"
  shows "\<exists>st'. ws_upgrade sha1 base64 (w, st) = (None, w\<lparr>is_upgraded := True\<rparr>, st') \<and> session_inv st' \<and>
    pending st' = [] \<and> visible st' =
      (app st, rate_limiter st, stream (conn st) @ Handshake_GenerateResponse (base64 (sha1 (ws_key @ kGuid))))"
proof -
  note blk = ws_header_block[OF assms(1), of ws_request_head "[]"]
  have hd: "strstr (Buffer_Peek (in_buf st)) (crlf @ crlf) = Some (length ws_request_head)"
    "take (length ws_request_head) (Buffer_Peek (in_buf st)) = ws_request_head"
    using blk assms(2) ws_upgrade_request_facts by simp_all
  obtain m where m: "ws_header_lines (getlines LF ws_request_head) Map.empty = Inr m"
    "m ''Sec-WebSocket-Key'' = Some ws_key"
    using ws_request_head_key by blast
  let ?resp = "Handshake_GenerateResponse (base64 (sha1 (ws_key @ kGuid)))"
  let ?st1 = "map_input (\<lambda>b. Buffer_Retrieve b (length ws_request_head + 4)) st"
  note r = session_retrieve[OF assms(1), of "length ws_request_head + 4"]
  have "length ws_upgrade_request = length ws_request_head + 4"
    using arg_cong[OF ws_upgrade_request_facts(1), of length] by simp
  then have "pending ?st1 = []" using r(2) assms(2) by simp
  moreover have "ws_upgrade sha1 base64 (w, st) = (None, w\<lparr>is_upgraded := True\<rparr>, map_conn (Connection_Send ?resp) ?st1)"
    using hd m by (simp add: ws_upgrade_def Handshake_Process_def Result_Success_def Let_def)
  moreover have "map_conn (Connection_Send ?resp) ?st1 = ?st1\<lparr>app := app ?st1, conn := Connection_Send ?resp (conn ?st1)\<rparr>"
    by (simp add: map_conn_def)
  ultimately show ?thesis
    using session_outputs[OF r(1) Send_outputs, of ?resp "app ?st1"] r(3) by (simp add: visible_def)
qed

text \<open>
  The handshake end to end: the client's upgrade request makes the server answer 101 with the
  accept key \<open>base64 (sha1 (key @ guid))\<close> of RFC 6455 and switch to frames, and that answer makes
  the client switch; both inputs are consumed.
\<close>
theorem ws_handshake:
  assumes "session_inv srv" and "pending srv = []" and "\<not> is_upgraded w"
    and "session_inv cl" and "pending cl = []"
    and "resp = Handshake_GenerateResponse (base64 (sha1 (ws_key @ kGuid)))"
  shows "\<exists>srv' cl'. WebSocketHandler_OnMessage sha1 base64 sh (w, receive ws_upgrade_request srv) =
      (None, w\<lparr>is_upgraded := True\<rparr>, srv') \<and>
    stream (conn srv') = stream (conn srv) @ resp \<and> pending srv' = [] \<and>
    WsClient_OnDataReceived mh (False, receive resp cl) = (True, cl') \<and> pending cl' = []"
proof -
  note s = session_receive[OF assms(1), of ws_upgrade_request]
  note c = session_receive[OF assms(4), of resp]
  have pend: "pending (receive ws_upgrade_request srv) = ws_upgrade_request" using s assms(2) by simp
  from ws_upgrade_accepts[OF conjunct1[OF s] pend, of sha1 base64 w]
  obtain srv' where srv': "WebSocketHandler_OnMessage sha1 base64 sh (w, receive ws_upgrade_request srv) =
      (None, w\<lparr>is_upgraded := True\<rparr>, srv')" "pending srv' = []" "stream (conn srv') = stream (conn srv) @ resp"
    using assms(3,6) s by (auto simp: WebSocketHandler_OnMessage_def visible_def)
  let ?pat = "''101 Switching Protocols''"
  obtain t where t: "resp = ''HTTP/1.1 '' @ ?pat @ t"
    unfolding assms(6) Handshake_GenerateResponse_def by simp
  have "length resp \<le> length (pending (receive resp cl))" using c assms(5) by simp
  with pending_Peek[OF this] c assms(5)
  have "take (length resp) (Buffer_Peek (in_buf (receive resp cl))) = resp" by simp
  then obtain x where x: "Buffer_Peek (in_buf (receive resp cl)) = ''HTTP/1.1 '' @ ?pat @ t @ x"
    unfolding t by (metis append_take_drop_id append.assoc)
  obtain i where "search ?pat (''HTTP/1.1 '' @ ?pat @ takeWhile (\<lambda>c. c \<noteq> CHR 0x00) (t @ x)) = Some i"
    using search_found by (metis not_None_eq)
  moreover have "CHR 0x00 \<notin> set ''HTTP/1.1 ''" "CHR 0x00 \<notin> set ?pat" by simp_all
  ultimately have "strstr (Buffer_Peek (in_buf (receive resp cl))) ?pat = Some i"
    unfolding x using strstr_hit by blast
  then have "WsClient_OnDataReceived mh (False, receive resp cl) = (True, map_input Buffer_RetrieveAll (receive resp cl))"
    by (simp add: WsClient_OnDataReceived_def)
  moreover have "pending (map_input Buffer_RetrieveAll (receive resp cl)) = []"
    by (simp add: pending_def in_buf_map_input)
  ultimately show ?thesis using srv' by blast
qed

theorem ws_handshake_witness:
  "\<exists>srv' cl'. WebSocketHandler_OnMessage id id None (upgraded_handler\<lparr>is_upgraded := False\<rparr>,
      receive ws_upgrade_request (fresh_session ())) = (None, upgraded_handler, srv') \<and>
    stream (conn srv') = Handshake_GenerateResponse (ws_key @ kGuid) \<and>
    WsClient_OnDataReceived None (False, receive (Handshake_GenerateResponse (ws_key @ kGuid)) (fresh_session ())) = (True, cl')"
proof -
  have "stream (conn (fresh_session ())) = []" by (simp add: fresh_session_def)
  then show ?thesis
    using ws_handshake[of "fresh_session ()" "upgraded_handler\<lparr>is_upgraded := False\<rparr>" "fresh_session ()" _ id id None None]
    by (auto simp: upgraded_handler_def)
qed

text \<open>
  A header line that ends in its colon kills the process: when the last header of an upgrade
  request is a name and a colon with no value, \<open>substr(colon + 2)\<close> throws out of \<open>OnMessage\<close>, which
  nothing catches.
\<close>
theorem ws_empty_header_throws:
  assumes "session_inv st" and "pending st = []" and "\<not> is_upgraded w" and "line \<noteq> []"
    and "set line \<inter> {CHR '':'', CR, LF, CHR 0x00} = {}" and "set name \<inter> {CHR '':'', CR, LF, CHR 0x00} = {}"
  shows "\<exists>st'. WebSocketHandler_OnMessage sha1 base64 sh
      (w, receive (line @ crlf @ name @ '':'' @ crlf @ crlf) st) = (Some Out_Of_Range, w, st')"
proof -
  let ?h = "line @ crlf @ name @ '':''"
  let ?st = "receive (?h @ crlf @ crlf) st"
  note s = session_receive[OF assms(1), of "?h @ crlf @ crlf"]
  have "search (crlf @ crlf) (?h @ crlf @ crlf) = Some (length ?h)"
  proof -
    have nm: "hd (crlf @ crlf) \<notin> set (name @ '':'')" "hd (crlf @ crlf) \<notin> set line" "crlf @ crlf \<noteq> []"
      using assms(5,6) by (auto simp: crlf_def)
    have "search (crlf @ crlf) ((name @ '':'') @ crlf @ crlf) = Some (length (name @ '':''))"
      using search_hit[OF nm(1,3), of "[]"] by simp
    moreover have "take 2 ((name @ '':'') @ crlf @ crlf) \<noteq> crlf"
      using assms(6) by (cases name) (auto simp: crlf_def)
    ultimately have "search (crlf @ crlf) (crlf @ (name @ '':'') @ crlf @ crlf) = Some (length (crlf @ name @ '':''))"
      by (auto simp: crlf_def numeral_2_eq_2)
    with search_skip[OF nm(2,3)] show ?thesis by simp
  qed
  moreover have "CHR 0x00 \<notin> set ?h" using assms(5,6) by (auto simp: crlf_def)
  ultimately have hd: "strstr (Buffer_Peek (in_buf ?st)) (crlf @ crlf) = Some (length ?h)"
    "take (length ?h) (Buffer_Peek (in_buf ?st)) = ?h"
    using ws_header_block[of ?st ?h "[]"] s assms(2) by simp_all
  have "getlines LF ?h = [line @ [CR], name @ '':'']"
  proof -
    have "LF \<notin> set (line @ [CR])" "LF \<notin> set (name @ '':'')" using assms(5,6) by auto
    then show ?thesis
      using getlines_step[of LF "line @ [CR]" "name @ '':''"] getlines_no_delim[of LF "name @ '':''"]
      by (simp add: crlf_def)
  qed
  moreover have "find_char CHR '':'' (line @ [CR]) = None" using assms(5) by (intro find_char_miss) auto
  moreover have "find_char CHR '':'' (name @ '':'') = Some (length name)" using assms(6) by (intro find_char_hit) auto
  moreover have "name @ '':'' \<noteq> [CR]" using assms(6) by (cases name) auto
  moreover have "line @ [CR] \<noteq> [CR]" using assms(4) by simp
  ultimately have "ws_header_lines (getlines LF ?h) Map.empty = Inl Out_Of_Range"
    by (simp add: ws_header_line_def)
  with hd assms(3) show ?thesis by (simp add: WebSocketHandler_OnMessage_def ws_upgrade_def Let_def)
qed

theorem ws_empty_header_throws_witness:
  "\<exists>st'. WebSocketHandler_OnMessage id id None (upgraded_handler\<lparr>is_upgraded := False\<rparr>,
      receive (''GET / HTTP/1.1'' @ crlf @ ''Cookie'' @ '':'' @ crlf @ crlf) (fresh_session ())) =
      (Some Out_Of_Range, upgraded_handler\<lparr>is_upgraded := False\<rparr>, st')"
  by (rule ws_empty_header_throws) (simp_all add: upgraded_handler_def)

text \<open>
  The handler object is one per server: a second connection's \<open>OnConnection\<close> resets the flag of
  the first, whose next frames wait for a blank line and are never parsed.
\<close>

lemma ws_new_connection_resets_others:
  assumes "strstr (Buffer_Peek (in_buf (receive data st))) (crlf @ crlf) = None"
  shows "WebSocketHandler_OnMessage sha1 base64 sh (WebSocketHandler_OnConnection w, receive data st) =
    (None, WebSocketHandler_OnConnection w, receive data st)"
  using assms by (simp add: WebSocketHandler_OnMessage_def WebSocketHandler_OnConnection_def ws_upgrade_def)

end
