(* ===== verification/Http.thy ===== *)
theory Http
  imports Session
begin

text \<open>
  The HTTP/1.1 protocol: the request parser with its \<open>HttpContext\<close>, \<open>HttpHandler\<close> with the chunked
  stream context, and \<open>HttpClientProtocol\<close>.  The connection's context is \<open>None\<close> when it does not
  hold an \<open>HttpContext\<close>.
\<close>

section \<open>The request parser\<close>

datatype http_state = kExpectRequestLine | kExpectHeaders | kExpectBody | kDone

record http_context =
  hc_state :: http_state
  hc_method :: string
  hc_path :: string
  hc_version :: string
  hc_headers :: "string \<rightharpoonup> string"
  hc_body :: bytes

definition HttpContext_new :: http_context where
  "HttpContext_new = \<lparr>hc_state = kExpectRequestLine, hc_method = [], hc_path = [], hc_version = [],
     hc_headers = Map.empty, hc_body = []\<rparr>"

definition HttpContext_Reset :: "http_context \<Rightarrow> http_context" where
  "HttpContext_Reset ctx = ctx\<lparr>hc_state := kExpectRequestLine, hc_method := [], hc_path := [], hc_version := [],
     hc_headers := Map.empty, hc_body := []\<rparr>"

text \<open>\<open>iss >> method >> path >> version\<close>: a word that is not there leaves its string as it was.\<close>

function words :: "string \<Rightarrow> string list" where
  "words s =
     (let t = dropWhile is_space s
      in if t = [] then []
         else takeWhile (\<lambda>c. \<not> is_space c) t # words (dropWhile (\<lambda>c. \<not> is_space c) t))"
  by pat_completeness auto
termination
proof (relation "measure length")
  fix s t assume t: "t = dropWhile is_space s" "t \<noteq> []"
  obtain c u where c: "t = c # u" using t(2) by (meson list.exhaust)
  have "\<not> is_space c" using t c by (metis hd_dropWhile list.sel(1))
  then have "length (dropWhile (\<lambda>c. \<not> is_space c) t) < length t"
    unfolding c by (simp add: le_imp_less_Suc length_dropWhile_le)
  also have "\<dots> \<le> length s" using t(1) by (simp add: length_dropWhile_le)
  finally show "(dropWhile (\<lambda>c. \<not> is_space c) t, s) \<in> measure length" by simp
qed simp

declare words.simps [simp del]

definition http_request_line :: "string \<Rightarrow> http_context \<Rightarrow> http_context" where
  "http_request_line line ctx =
     (let ws = words line
      in ctx\<lparr>hc_method := (if 0 < length ws then ws ! 0 else hc_method ctx),
             hc_path := (if 1 < length ws then ws ! 1 else hc_path ctx),
             hc_version := (if 2 < length ws then ws ! 2 else hc_version ctx),
             hc_state := kExpectHeaders\<rparr>)"

text \<open>One header line; \<open>substr(colon + 2)\<close> throws when the line ends in the colon.\<close>

definition http_header_line :: "string \<Rightarrow> (string \<rightharpoonup> string) \<Rightarrow> exn + (string \<rightharpoonup> string)" where
  "http_header_line line headers =
     (case find_char CHR '':'' line of
        None \<Rightarrow> Inr headers
      | Some colon \<Rightarrow>
          (let key = take colon line
           in if length line < colon + 2 then Inl Out_Of_Range
              else
                (let val = drop (colon + 2) line;
                     val' = (if val \<noteq> [] \<and> last val = CR then butlast val else val)
                 in Inr (headers(key \<mapsto> val')))))"

text \<open>How a stage ends: it throws, returns from \<open>ParseRequest\<close>, or goes on to the next stage.\<close>

datatype stage = Throw exn | Return bool | Next

function http_header_loop :: "buffer \<Rightarrow> http_context \<Rightarrow> stage \<times> buffer \<times> http_context" where
  "http_header_loop b ctx =
     (case Buffer_FindCRLF b of
        None \<Rightarrow> (Return False, b, ctx)
      | Some i \<Rightarrow>
          (let line = take i (Buffer_Peek b);
               b1 = Buffer_Retrieve b (length line + 2)
           in if line = [] then
                (if hc_headers ctx ''Content-Length'' \<noteq> None
                 then (Next, b1, ctx\<lparr>hc_state := kExpectBody\<rparr>)
                 else (Return True, b1, ctx\<lparr>hc_state := kDone\<rparr>))
              else
                (case http_header_line line (hc_headers ctx) of
                   Inl e \<Rightarrow> (Throw e, b1, ctx)
                 | Inr h \<Rightarrow> http_header_loop b1 (ctx\<lparr>hc_headers := h\<rparr>))))"
  by pat_completeness auto
termination
proof (relation "measure (\<lambda>(b, _). Buffer_ReadableBytes b)")
  fix b :: buffer and i and line :: string and b1
  assume i: "Buffer_FindCRLF b = Some i" and l: "line = take i (Buffer_Peek b)"
    and b1: "b1 = Buffer_Retrieve b (length line + 2)"
  have "0 < Buffer_ReadableBytes b"
    using search_SomeD[of crlf "take (Buffer_ReadableBytes b) (Buffer_Peek b)" i] i
    by (auto simp: Buffer_FindCRLF_def)
  then have "Buffer_ReadableBytes b1 < Buffer_ReadableBytes b" unfolding b1 by (intro Retrieve_readable) simp_all
  then show "((b1, ctx'), (b, ctx)) \<in> measure (\<lambda>(b, _). Buffer_ReadableBytes b)" for ctx ctx' :: http_context by simp
qed simp

declare http_header_loop.simps [simp del]

definition http_stage_line :: "buffer \<Rightarrow> http_context \<Rightarrow> stage \<times> buffer \<times> http_context" where
  "http_stage_line b ctx =
     (if hc_state ctx = kExpectRequestLine then
        (case Buffer_FindCRLF b of
           None \<Rightarrow> (Return False, b, ctx)
         | Some i \<Rightarrow>
             (let line = take i (Buffer_Peek b)
              in (Next, Buffer_Retrieve b (length line + 2), http_request_line line ctx)))
      else (Next, b, ctx))"

definition http_stage_headers :: "buffer \<Rightarrow> http_context \<Rightarrow> stage \<times> buffer \<times> http_context" where
  "http_stage_headers b ctx = (if hc_state ctx = kExpectHeaders then http_header_loop b ctx else (Next, b, ctx))"

text \<open>\<open>ctx.headers["Content-Length"]\<close> inserts an empty value when there is none.\<close>

definition map_index :: "(string \<rightharpoonup> string) \<Rightarrow> string \<Rightarrow> (string \<rightharpoonup> string) \<times> string" where
  "map_index m k = (case m k of None \<Rightarrow> (m(k \<mapsto> []), []) | Some v \<Rightarrow> (m, v))"

definition http_stage_body :: "buffer \<Rightarrow> http_context \<Rightarrow> stage \<times> buffer \<times> http_context" where
  "http_stage_body b ctx =
     (if hc_state ctx = kExpectBody then
        (let (h, v) = map_index (hc_headers ctx) ''Content-Length''; ctx = ctx\<lparr>hc_headers := h\<rparr>
         in case stoi v of
              Inl e \<Rightarrow> (Throw e, b, ctx)
            | Inr n \<Rightarrow>
                (let len = unat (of_int n :: uint64)
                 in if len \<le> Buffer_ReadableBytes b
                    then (Return True, Buffer_Retrieve b len, ctx\<lparr>hc_body := take len (Buffer_Peek b), hc_state := kDone\<rparr>)
                    else (Return False, b, ctx)))
      else (Return (hc_state ctx = kDone), b, ctx))"

text \<open>Running the stages in order.\<close>

definition then_stage ::
    "stage \<times> 'b \<times> http_context \<Rightarrow> ('b \<Rightarrow> http_context \<Rightarrow> stage \<times> 'b \<times> http_context) \<Rightarrow>
       stage \<times> 'b \<times> http_context" where
  "then_stage q f = (case q of (Next, b, ctx) \<Rightarrow> f b ctx | (out, b, ctx) \<Rightarrow> (out, b, ctx))"

definition HttpHandler_ParseRequest :: "buffer \<Rightarrow> http_context \<Rightarrow> stage \<times> buffer \<times> http_context" where
  "HttpHandler_ParseRequest b ctx =
     then_stage (then_stage (http_stage_line b ctx) http_stage_headers) http_stage_body"

section \<open>The handler\<close>

definition http_response :: "int \<Rightarrow> string \<Rightarrow> bytes" where
  "http_response status msg =
     ''HTTP/1.1 '' @ dec_int status @ '' OK'' @ crlf @ ''Content-Type: text/plain'' @ crlf @
     ''Content-Length: '' @ dec_str (length msg) @ crlf @ ''Connection: close'' @ crlf @ crlf @ msg"

definition HttpHandler_SendResponse :: "int \<Rightarrow> string \<Rightarrow> connection \<Rightarrow> connection" where
  "HttpHandler_SendResponse status msg c = Connection_Send (http_response status msg) c"

definition chunked_head :: bytes where
  "chunked_head =
     ''HTTP/1.1 200 OK'' @ crlf @ ''Connection: keep-alive'' @ crlf @ ''Transfer-Encoding: chunked'' @ crlf @ crlf"

definition chunk :: "bytes \<Rightarrow> bytes" where
  "chunk data = hex_str (length data) @ crlf @ data @ crlf"

text \<open>\<open>HttpStreamContext\<close>: its flag \<open>headers_sent_\<close> and the connection.\<close>

definition http_write :: "bytes \<Rightarrow> bool \<times> connection \<Rightarrow> bool \<times> connection" where
  "http_write data q =
     (case q of (headers_sent, c) \<Rightarrow>
        (let c1 = (if headers_sent then c else Connection_Send chunked_head c)
         in (True, if data \<noteq> [] then Connection_Send (chunk data) c1 else c1)))"

fun HttpStreamContext :: "ctx_op \<Rightarrow> bool \<times> connection \<Rightarrow> bool \<times> connection" where
  "HttpStreamContext (Ctx_Write_Envelope msg) q = http_write (get_data msg) q"
| "HttpStreamContext (Ctx_Write data) q = http_write data q"
| "HttpStreamContext Ctx_Close (headers_sent, c) =
     (headers_sent, Connection_Shutdown (if headers_sent then Connection_Send (''0'' @ crlf @ crlf) c else c))"

definition http_run :: "ctx_op list \<Rightarrow> bool \<times> connection \<Rightarrow> bool \<times> connection" where
  "http_run ops q = foldl (\<lambda>q op. HttpStreamContext op q) q ops"

definition http_envelope :: "http_context \<Rightarrow> envelope" where
  "http_envelope ctx =
     (let e = upd_header (\<lambda>h. h\<lparr>message_type := hc_method ctx @ '' '' @ hc_path ctx,
                                protocol_version := hc_version ctx\<rparr>) envelope_empty;
          e1 = e\<lparr>env_metadata := Some (hc_headers ctx)\<rparr>
      in if hc_body ctx \<noteq> [] then set_data (hc_body ctx) e1 else e1)"

definition http_call :: "'s stream_handler \<Rightarrow> http_context \<Rightarrow> 's session \<Rightarrow> 's session" where
  "http_call g ctx st =
     (case g (app st) (http_envelope ctx) envelope_empty of
        (s', ops, r) \<Rightarrow>
          (let q = http_run ops (False, conn st)
           in st\<lparr>app := s',
                 conn := (case r of
                     Inl _ \<Rightarrow> HttpHandler_SendResponse 500 ''Internal Server Error'' (snd q)
                   | Inr resp \<Rightarrow>
                       if env_payload resp \<noteq> None
                       then snd (http_run [Ctx_Write_Envelope resp, Ctx_Close] q) else snd q)\<rparr>))"

definition http_hello :: "http_context \<Rightarrow> string" where
  "http_hello ctx = ''Hello from NetworkLib HTTP Server!'' @ [LF] @ ''Path: '' @ hc_path ctx @ [LF]"

definition HttpHandler_OnConnection :: "http_context option \<times> 's session \<Rightarrow> http_context option \<times> 's session" where
  "HttpHandler_OnConnection q = (Some HttpContext_new, snd q)"

definition HttpHandler_OnMessage ::
    "'s stream_handler option \<Rightarrow> http_context option \<times> 's session \<Rightarrow>
       exn option \<times> http_context option \<times> 's session" where
  "HttpHandler_OnMessage sh q =
     (case q of
        (None, st) \<Rightarrow> (None, None, st)
      | (Some ctx0, st0) \<Rightarrow>
          (case HttpHandler_ParseRequest (in_buf st0) ctx0 of
             (out, b, ctx) \<Rightarrow>
               (let st = map_input (\<lambda>_. b) st0
                in case out of
                     Throw e \<Rightarrow> (Some e, Some ctx, st)
                   | Return True \<Rightarrow>
                       (case Handler_CheckRateLimit st of
                          (ok, st1) \<Rightarrow>
                            (None, Some ctx,
                             if \<not> ok then
                               map_conn (\<lambda>c. Connection_Shutdown (HttpHandler_SendResponse 429 ''Too Many Requests'' c)) st1
                             else case sh of
                               Some g \<Rightarrow> http_call g ctx st1
                             | None \<Rightarrow> map_conn (HttpHandler_SendResponse 200 (http_hello ctx)) st1))
                   | _ \<Rightarrow> (None, Some ctx, st))))"

section \<open>The client\<close>

text \<open>
  The order in which a Protocol Buffers map yields its entries is not specified: \<open>entries\<close> lists
  them in the order of the iteration.
\<close>

definition http_request :: "((string \<rightharpoonup> string) \<Rightarrow> (string \<times> string) list) \<Rightarrow> envelope \<Rightarrow> bytes" where
  "http_request entries e =
     (let body = get_data e;
          path = (if env_header e \<noteq> None \<and> message_type (get_header e) \<noteq> [] then message_type (get_header e) else ''/'')
      in ''POST '' @ path @ '' HTTP/1.1'' @ crlf @ ''Host: localhost'' @ crlf @
         (case env_metadata e of
            None \<Rightarrow> []
          | Some m \<Rightarrow> concat (map (\<lambda>(k, v). k @ '': '' @ v @ crlf) (entries m))) @
         ''Content-Length: '' @ dec_str (length body) @ crlf @ ''Connection: keep-alive'' @ crlf @ crlf @ body)"

definition HttpClient_Send ::
    "((string \<rightharpoonup> string) \<Rightarrow> (string \<times> string) list) \<Rightarrow> envelope \<Rightarrow> connection \<Rightarrow> connection" where
  "HttpClient_Send entries e c = Connection_Send (http_request entries e) c"

definition http_client_message :: "bytes \<Rightarrow> envelope" where
  "http_client_message body =
     upd_header (\<lambda>h. h\<lparr>message_type := ''http.response''\<rparr>) (set_data body envelope_empty)"

text \<open>
  The length \<open>ReadableBytes() - (body_start - Peek() + 4)\<close> wraps when the blank line lies behind
  the readable bytes; the constructor of \<open>std::string\<close> then throws \<open>length_error\<close>.
\<close>

definition HttpClient_OnDataReceived :: "'s message_handler option \<Rightarrow> 's session \<Rightarrow> exn option \<times> 's session" where
  "HttpClient_OnDataReceived mh st =
     (case Buffer_FindCRLF (in_buf st) of
        None \<Rightarrow> (None, st)
      | Some _ \<Rightarrow>
          (case strstr (Buffer_Peek (in_buf st)) (crlf @ crlf) of
             None \<Rightarrow> (None, st)
           | Some i \<Rightarrow>
               if Buffer_ReadableBytes (in_buf st) < i + 4 then (Some Length_Error, st)
               else
                 (let body = take (Buffer_ReadableBytes (in_buf st) - (i + 4)) (drop (i + 4) (Buffer_Peek (in_buf st)));
                      st1 = (case mh of None \<Rightarrow> st | Some f \<Rightarrow> st\<lparr>app := f (app st) (http_client_message body)\<rparr>)
                  in (None, map_input Buffer_RetrieveAll st1))))"

section \<open>The parser on bytes\<close>

text \<open>
  The same stages over the readable bytes, without the buffer.  They are the specification the
  buffer code refines, and they are where segmentation is reasoned about.
\<close>

function hp_header_loop :: "bytes \<Rightarrow> http_context \<Rightarrow> stage \<times> bytes \<times> http_context" where
  "hp_header_loop bs ctx =
     (case search crlf bs of
        None \<Rightarrow> (Return False, bs, ctx)
      | Some i \<Rightarrow>
          (if i = 0 then
             (if hc_headers ctx ''Content-Length'' \<noteq> None
              then (Next, drop 2 bs, ctx\<lparr>hc_state := kExpectBody\<rparr>)
              else (Return True, drop 2 bs, ctx\<lparr>hc_state := kDone\<rparr>))
           else
             (case http_header_line (take i bs) (hc_headers ctx) of
                Inl e \<Rightarrow> (Throw e, drop (i + 2) bs, ctx)
              | Inr h \<Rightarrow> hp_header_loop (drop (i + 2) bs) (ctx\<lparr>hc_headers := h\<rparr>))))"
  by pat_completeness auto
termination
  by (relation "measure (\<lambda>(bs, _). length bs)") (auto dest: search_SomeD)

declare hp_header_loop.simps [simp del]

definition hp_line :: "bytes \<Rightarrow> http_context \<Rightarrow> stage \<times> bytes \<times> http_context" where
  "hp_line bs ctx =
     (if hc_state ctx = kExpectRequestLine then
        (case search crlf bs of
           None \<Rightarrow> (Return False, bs, ctx)
         | Some i \<Rightarrow> (Next, drop (i + 2) bs, http_request_line (take i bs) ctx))
      else (Next, bs, ctx))"

definition hp_headers :: "bytes \<Rightarrow> http_context \<Rightarrow> stage \<times> bytes \<times> http_context" where
  "hp_headers bs ctx = (if hc_state ctx = kExpectHeaders then hp_header_loop bs ctx else (Next, bs, ctx))"

definition hp_body :: "bytes \<Rightarrow> http_context \<Rightarrow> stage \<times> bytes \<times> http_context" where
  "hp_body bs ctx =
     (if hc_state ctx = kExpectBody then
        (let (h, v) = map_index (hc_headers ctx) ''Content-Length''; ctx = ctx\<lparr>hc_headers := h\<rparr>
         in case stoi v of
              Inl e \<Rightarrow> (Throw e, bs, ctx)
            | Inr n \<Rightarrow>
                (let len = unat (of_int n :: uint64)
                 in if len \<le> length bs
                    then (Return True, drop len bs, ctx\<lparr>hc_body := take len bs, hc_state := kDone\<rparr>)
                    else (Return False, bs, ctx)))
      else (Return (hc_state ctx = kDone), bs, ctx))"

definition http_parse :: "bytes \<Rightarrow> http_context \<Rightarrow> stage \<times> bytes \<times> http_context" where
  "http_parse bs ctx = then_stage (then_stage (hp_line bs ctx) hp_headers) hp_body"

text \<open>The buffer code computes the same.\<close>

definition refines :: "stage \<times> buffer \<times> http_context \<Rightarrow> stage \<times> bytes \<times> http_context \<Rightarrow> bool" where
  "refines q q' \<longleftrightarrow> (case q of (out, b, ctx) \<Rightarrow> buffer_inv b \<and> q' = (out, content b, ctx))"

lemma FindCRLF_Some:
  assumes "buffer_inv b" and "Buffer_FindCRLF b = Some i"
  shows "search crlf (content b) = Some i" and "take i (Buffer_Peek b) = take i (content b)"
    and "length (take i (Buffer_Peek b)) = i"
proof -
  show s: "search crlf (content b) = Some i" using assms by (simp add: FindCRLF_content)
  from search_SomeD[OF this] have "i \<le> length (content b)" by simp
  with assms(1) show "take i (Buffer_Peek b) = take i (content b)" "length (take i (Buffer_Peek b)) = i"
    by (simp_all add: take_Peek ReadableBytes_content)
qed

lemma header_loop_refines: "buffer_inv b \<Longrightarrow> refines (http_header_loop b ctx) (hp_header_loop (content b) ctx)"
proof (induction b ctx rule: http_header_loop.induct)
  case (1 b ctx)
  show ?case
  proof (cases "Buffer_FindCRLF b")
    case None
    then have "search crlf (content b) = None" using 1(2) by (simp add: FindCRLF_content)
    with None 1(2) show ?thesis
      by (simp add: refines_def http_header_loop.simps[of b] hp_header_loop.simps[of "content b"])
  next
    case (Some i)
    note f = FindCRLF_Some[OF 1(2) Some]
    let ?line = "take i (content b)" and ?b1 = "Buffer_Retrieve b (i + 2)"
    have b1: "buffer_inv ?b1" "content ?b1 = drop (i + 2) (content b)"
      using 1(2) by (simp_all add: Retrieve_inv Retrieve_content)
    have nil: "?line = [] \<longleftrightarrow> i = 0" using f(2,3) by auto
    have buf: "http_header_loop b ctx = (if i = 0 then
        (if hc_headers ctx ''Content-Length'' \<noteq> None then (Next, ?b1, ctx\<lparr>hc_state := kExpectBody\<rparr>)
         else (Return True, ?b1, ctx\<lparr>hc_state := kDone\<rparr>))
      else (case http_header_line ?line (hc_headers ctx) of Inl e \<Rightarrow> (Throw e, ?b1, ctx)
        | Inr h \<Rightarrow> http_header_loop ?b1 (ctx\<lparr>hc_headers := h\<rparr>)))"
      using Some f nil by (subst http_header_loop.simps) (auto simp: Let_def split: sum.splits)
    show ?thesis
    proof (cases "i = 0 \<or> (\<exists>e. http_header_line ?line (hc_headers ctx) = Inl e)")
      case True
      then show ?thesis unfolding buf using b1 f(1)
        by (subst hp_header_loop.simps) (auto simp: refines_def numeral_2_eq_2)
    next
      case False
      then obtain h where h: "http_header_line ?line (hc_headers ctx) = Inr h" "i \<noteq> 0"
        by (cases "http_header_line ?line (hc_headers ctx)") auto
      have "refines (http_header_loop ?b1 (ctx\<lparr>hc_headers := h\<rparr>)) (hp_header_loop (content ?b1) (ctx\<lparr>hc_headers := h\<rparr>))"
        using 1(1)[OF Some refl refl, of h] f nil h b1(1) by simp
      with h f(1) b1(2) show ?thesis unfolding buf by (subst hp_header_loop.simps) simp
    qed
  qed
qed

lemma then_stage_refines:
  assumes "refines q q'" and "\<And>b ctx. buffer_inv b \<Longrightarrow> refines (f b ctx) (f' (content b) ctx)"
  shows "refines (then_stage q f) (then_stage q' f')"
proof -
  obtain out b ctx where q: "q = (out, b, ctx)" by (rule prod_cases3)
  with assms(1) have "buffer_inv b" "q' = (out, content b, ctx)" by (simp_all add: refines_def)
  with assms(2) q show ?thesis by (cases out) (simp_all add: then_stage_def refines_def)
qed

lemma ParseRequest_refines:
  assumes "buffer_inv b"
  shows "refines (HttpHandler_ParseRequest b ctx) (http_parse (content b) ctx)"
  unfolding HttpHandler_ParseRequest_def http_parse_def
proof (intro then_stage_refines)
  show "refines (http_stage_line b ctx) (hp_line (content b) ctx)"
    using assms FindCRLF_Some[OF assms]
    by (auto simp: http_stage_line_def hp_line_def refines_def FindCRLF_content Retrieve_inv
        Retrieve_content Let_def split: option.splits)
next
  fix b ctx assume "buffer_inv b"
  then show "refines (http_stage_headers b ctx) (hp_headers (content b) ctx)"
    using header_loop_refines[of b ctx] by (simp add: http_stage_headers_def hp_headers_def refines_def)
next
  fix b ctx assume b: "buffer_inv b"
  then show "refines (http_stage_body b ctx) (hp_body (content b) ctx)"
    by (auto simp: http_stage_body_def hp_body_def refines_def Retrieve_inv Retrieve_content
        ReadableBytes_content take_Peek Let_def split: sum.splits prod.splits)
qed

section \<open>Resuming the parser\<close>

lemma hp_header_loop_more:
  "hp_header_loop bs ctx = (out, r, ctx') \<Longrightarrow> out \<noteq> Return False \<Longrightarrow>
     hp_header_loop (bs @ x) ctx = (out, r @ x, ctx')"
proof (induction bs ctx rule: hp_header_loop.induct)
  case (1 bs ctx)
  from 1(2,3) obtain i where i: "search crlf bs = Some i"
    by (subst (asm) hp_header_loop.simps) (auto split: option.splits)
  from search_SomeD[OF i] have le: "i + 2 \<le> length bs" by simp
  show ?case
  proof (cases "i \<noteq> 0 \<and> (\<exists>h. http_header_line (take i bs) (hc_headers ctx) = Inr h)")
    case True
    then obtain h where h: "i \<noteq> 0" "http_header_line (take i bs) (hc_headers ctx) = Inr h" by blast
    have "hp_header_loop (drop (i + 2) bs) (ctx\<lparr>hc_headers := h\<rparr>) = (out, r, ctx')"
      using 1(2) i h by (subst (asm) hp_header_loop.simps) simp
    from 1(1)[OF i h this 1(3)] h search_append[OF i, of x] le
    show ?thesis by (subst hp_header_loop.simps) simp
  next
    case False
    with 1(2) i le search_append[OF i, of x] show ?thesis
      by (subst (asm) hp_header_loop.simps, subst hp_header_loop.simps) (auto split: sum.splits if_splits)
  qed
qed

lemma hp_header_loop_resume:
  "hp_header_loop bs ctx = (Return False, r, ctx') \<Longrightarrow>
     hp_header_loop (bs @ x) ctx = hp_header_loop (r @ x) ctx' \<and> hc_state ctx' = hc_state ctx"
proof (induction bs ctx rule: hp_header_loop.induct)
  case (1 bs ctx)
  show ?case
  proof (cases "search crlf bs")
    case None
    with 1(2) show ?thesis by (subst (asm) hp_header_loop.simps) simp
  next
    case (Some i)
    from search_SomeD[OF Some] have le: "i + 2 \<le> length bs" by simp
    from 1(2) Some have i0: "i \<noteq> 0" by (subst (asm) hp_header_loop.simps) (auto split: if_splits)
    with 1(2) Some obtain h where h: "http_header_line (take i bs) (hc_headers ctx) = Inr h"
      by (subst (asm) hp_header_loop.simps) (auto split: sum.splits)
    have "hp_header_loop (drop (i + 2) bs) (ctx\<lparr>hc_headers := h\<rparr>) = (Return False, r, ctx')"
      using 1(2) Some h i0 by (subst (asm) hp_header_loop.simps) simp
    from 1(1)[OF Some i0 h this] h i0 search_append[OF Some, of x] le
    show ?thesis by (subst hp_header_loop.simps) simp
  qed
qed

lemma hp_header_loop_state:
  "hp_header_loop bs ctx = (Next, r, ctx') \<Longrightarrow> hc_state ctx' = kExpectBody"
proof (induction bs ctx rule: hp_header_loop.induct)
  case (1 bs ctx)
  obtain i where i: "search crlf bs = Some i"
    using 1(2) by (subst (asm) hp_header_loop.simps) (auto split: option.splits)
  show ?case
  proof (cases "i \<noteq> 0 \<and> (\<exists>h. http_header_line (take i bs) (hc_headers ctx) = Inr h)")
    case True
    then obtain h where h: "i \<noteq> 0" "http_header_line (take i bs) (hc_headers ctx) = Inr h" by blast
    have "hp_header_loop (drop (i + 2) bs) (ctx\<lparr>hc_headers := h\<rparr>) = (Next, r, ctx')"
      using 1(2) i h by (subst (asm) hp_header_loop.simps) simp
    from 1(1)[OF i h this] show ?thesis .
  next
    case False
    with 1(2) i show ?thesis
      by (subst (asm) hp_header_loop.simps) (auto split: sum.splits if_splits)
  qed
qed

text \<open>What the first two stages leave behind.\<close>

lemma hp_first_stages:
  assumes "then_stage (hp_line bs ctx) hp_headers = (out, r, ctx')"
  shows "out \<noteq> Return False \<Longrightarrow> then_stage (hp_line (bs @ x) ctx) hp_headers = (out, r @ x, ctx')"
    and "out = Return False \<Longrightarrow> then_stage (hp_line (bs @ x) ctx) hp_headers = then_stage (hp_line (r @ x) ctx') hp_headers"
    and "out = Next \<Longrightarrow> hc_state ctx' = kExpectBody \<or> hc_state ctx' = kDone"
proof -
  obtain o1 r1 c1 where l: "hp_line bs ctx = (o1, r1, c1)" by (rule prod_cases3)
  have line: "(o1 = Next \<and> hp_line (bs @ x) ctx = (Next, r1 @ x, c1) \<and> hc_state c1 \<noteq> kExpectRequestLine) \<or>
      (o1 = Return False \<and> r1 = bs \<and> c1 = ctx)"
    using l search_append[of crlf bs _ x] search_SomeD[of crlf bs]
    by (auto simp: hp_line_def http_request_line_def Let_def split: if_splits option.splits)
  show "then_stage (hp_line (bs @ x) ctx) hp_headers = (out, r @ x, ctx')" if "out \<noteq> Return False"
    using that assms l line hp_header_loop_more[of r1 c1 out r ctx' x]
    by (auto simp: then_stage_def hp_headers_def split: if_splits)
  show "then_stage (hp_line (bs @ x) ctx) hp_headers = then_stage (hp_line (r @ x) ctx') hp_headers" if "out = Return False"
    using that assms l line hp_header_loop_resume[of r1 c1 r ctx' x]
    by (auto simp: then_stage_def hp_headers_def hp_line_def[of _ ctx'] split: if_splits)
  show "hc_state ctx' = kExpectBody \<or> hc_state ctx' = kDone" if "out = Next"
    using that assms l line hp_header_loop_state[of r1 c1 r ctx']
    by (cases "hc_state c1") (auto simp: then_stage_def hp_headers_def split: if_splits)
qed

lemma map_index_idem: "map_index m k = (m', v) \<Longrightarrow> map_index m' k = (m', v)"
  by (auto simp: map_index_def split: option.splits)

lemma hp_body_more:
  "hp_body bs ctx = (out, r, ctx') \<Longrightarrow> out \<noteq> Return False \<Longrightarrow> hp_body (bs @ x) ctx = (out, r @ x, ctx')"
  by (auto simp: hp_body_def Let_def split: if_splits sum.splits prod.splits)

lemma http_parse_more:
  assumes "http_parse bs ctx = (out, r, ctx')" and "out \<noteq> Return False"
  shows "http_parse (bs @ x) ctx = (out, r @ x, ctx')"
proof -
  obtain o1 r1 c1 where f: "then_stage (hp_line bs ctx) hp_headers = (o1, r1, c1)" by (rule prod_cases3)
  with assms have "o1 \<noteq> Return False" by (auto simp: http_parse_def then_stage_def)
  from hp_first_stages(1)[OF f this, of x] assms f hp_body_more[of r1 c1 out r ctx' x]
  show ?thesis by (cases o1) (auto simp: http_parse_def then_stage_def)
qed

lemma http_parse_resume:
  assumes "http_parse bs ctx = (Return False, r, ctx')"
  shows "http_parse (bs @ x) ctx = http_parse (r @ x) ctx'"
proof -
  obtain o1 r1 c1 where f: "then_stage (hp_line bs ctx) hp_headers = (o1, r1, c1)" by (rule prod_cases3)
  show ?thesis
  proof (cases "o1 = Return False")
    case True
    with hp_first_stages(2)[OF f this, of x] assms f show ?thesis by (simp add: http_parse_def then_stage_def[of "(Return False, _)"])
  next
    case False
    with assms f have o1: "o1 = Next" by (cases o1) (auto simp: http_parse_def then_stage_def)
    with assms f have b: "hp_body r1 c1 = (Return False, r, ctx')" by (simp add: http_parse_def then_stage_def)
    from hp_first_stages(3)[OF f o1] b have st: "hc_state c1 = kExpectBody" by (auto simp: hp_body_def)
    then have c': "hc_state ctx' = kExpectBody \<and> r = r1 \<and> hp_body (r1 @ x) c1 = hp_body (r1 @ x) ctx'"
      using b by (auto simp: hp_body_def Let_def map_index_def split: if_splits sum.splits prod.splits option.splits)
    then have "then_stage (hp_line (r @ x) ctx') hp_headers = (Next, r @ x, ctx')"
      by (simp add: then_stage_def hp_line_def hp_headers_def)
    with c' hp_first_stages(1)[OF f, of x] o1 show ?thesis by (simp add: http_parse_def then_stage_def)
  qed
qed

section \<open>The handler on a connection\<close>

fun http_written :: "bool \<Rightarrow> ctx_op list \<Rightarrow> bytes" where
  "http_written sent [] = []"
| "http_written sent (Ctx_Write_Envelope msg # ops) =
     (if sent then [] else chunked_head) @ (if get_data msg \<noteq> [] then chunk (get_data msg) else []) @
     http_written True ops"
| "http_written sent (Ctx_Write data # ops) =
     (if sent then [] else chunked_head) @ (if data \<noteq> [] then chunk data else []) @ http_written True ops"
| "http_written sent (Ctx_Close # ops) = (if sent then ''0'' @ crlf @ crlf else []) @ http_written sent ops"

lemma Shutdown_outputs: "outputs [] c (Connection_Shutdown c)"
proof -
  have "input_buffer (Connection_Shutdown c) = input_buffer c"
    by (simp add: Connection_Shutdown_def emit_def Let_def)
  then show ?thesis by (simp add: outputs_def Shutdown_extends)
qed

lemma http_write_outputs:
  "\<exists>c'. http_write data (sent, c) = (True, c') \<and>
     outputs ((if sent then [] else chunked_head) @ (if data \<noteq> [] then chunk data else [])) c c'"
proof -
  let ?c1 = "if sent then c else Connection_Send chunked_head c"
  have "outputs (if sent then [] else chunked_head) c ?c1" by (simp add: Send_outputs)
  moreover have "outputs (if data \<noteq> [] then chunk data else []) ?c1
      (if data \<noteq> [] then Connection_Send (chunk data) ?c1 else ?c1)" by (simp add: Send_outputs)
  ultimately show ?thesis using outputs_trans by (simp add: http_write_def Let_def)
qed

lemma http_run_outputs: "\<exists>sent' c'. http_run ops (sent, c) = (sent', c') \<and> outputs (http_written sent ops) c c'"
proof (induction ops arbitrary: sent c)
  case Nil
  then show ?case by (simp add: http_run_def)
next
  case (Cons op ops)
  have run: "http_run (op # ops) (sent, c) = http_run ops (HttpStreamContext op (sent, c))"
    by (simp add: http_run_def)
  show ?case
  proof (cases op)
    case (Ctx_Write_Envelope msg)
    obtain c1 where c1: "http_write (get_data msg) (sent, c) = (True, c1)"
      "outputs ((if sent then [] else chunked_head) @ (if get_data msg \<noteq> [] then chunk (get_data msg) else [])) c c1"
      using http_write_outputs by blast
    obtain s' c' where "http_run ops (True, c1) = (s', c')" "outputs (http_written True ops) c1 c'"
      using Cons.IH by blast
    with c1 outputs_trans[OF c1(2)] run Ctx_Write_Envelope show ?thesis by fastforce
  next
    case (Ctx_Write data)
    obtain c1 where c1: "http_write data (sent, c) = (True, c1)"
      "outputs ((if sent then [] else chunked_head) @ (if data \<noteq> [] then chunk data else [])) c c1"
      using http_write_outputs by blast
    obtain s' c' where "http_run ops (True, c1) = (s', c')" "outputs (http_written True ops) c1 c'"
      using Cons.IH by blast
    with c1 outputs_trans[OF c1(2)] run Ctx_Write show ?thesis by fastforce
  next
    case Ctx_Close
    let ?init = "if sent then Connection_Send (''0'' @ crlf @ crlf) c else c"
    have "outputs (if sent then ''0'' @ crlf @ crlf else []) c ?init" by (simp add: Send_outputs)
    from outputs_trans[OF this Shutdown_outputs]
    have c1: "outputs (if sent then ''0'' @ crlf @ crlf else []) c (Connection_Shutdown ?init)" by simp
    obtain s' c' where "http_run ops (sent, Connection_Shutdown ?init) = (s', c')"
      "outputs (http_written sent ops) (Connection_Shutdown ?init) c'"
      using Cons.IH by blast
    with outputs_trans[OF c1] run Ctx_Close show ?thesis by fastforce
  qed
qed

text \<open>What a request does to the application and to the output.\<close>

definition http_answer :: "'s stream_handler \<Rightarrow> http_context \<Rightarrow> 's \<times> bytes \<Rightarrow> 's \<times> bytes" where
  "http_answer g ctx q =
     (case g (fst q) (http_envelope ctx) envelope_empty of
        (s', ops, Inl _) \<Rightarrow> (s', snd q @ http_written False ops @ http_response 500 ''Internal Server Error'')
      | (s', ops, Inr resp) \<Rightarrow>
          (s', snd q @ http_written False
             (ops @ (if env_payload resp \<noteq> None then [Ctx_Write_Envelope resp, Ctx_Close] else []))))"

lemma http_run_Nil [simp]: "http_run [] q = q"
  by (simp add: http_run_def)

lemma http_run_append: "http_run (xs @ ys) q = http_run ys (http_run xs q)"
  by (simp add: http_run_def)

lemma http_call_answers:
  assumes "session_inv st"
  shows "session_inv (http_call g ctx st) \<and> pending (http_call g ctx st) = pending st \<and>
    rate_limiter (http_call g ctx st) = rate_limiter st \<and>
    (app (http_call g ctx st), stream (conn (http_call g ctx st))) = http_answer g ctx (app st, stream (conn st))"
proof -
  obtain s' ops r where g: "g (app st) (http_envelope ctx) envelope_empty = (s', ops, r)" by (rule prod_cases3)
  have fin: "\<exists>c'. http_call g ctx st = st\<lparr>app := s', conn := c'\<rparr> \<and> outputs xs (conn st) c' \<and>
      http_answer g ctx (app st, stream (conn st)) = (s', stream (conn st) @ xs)"
    if "xs = (case r of Inl _ \<Rightarrow> http_written False ops @ http_response 500 ''Internal Server Error''
      | Inr resp \<Rightarrow> http_written False (ops @ (if env_payload resp \<noteq> None then [Ctx_Write_Envelope resp, Ctx_Close] else [])))" for xs
  proof (cases r)
    case (Inl e)
    obtain b c1 where c1: "http_run ops (False, conn st) = (b, c1)" "outputs (http_written False ops) (conn st) c1"
      using http_run_outputs by blast
    let ?c = "HttpHandler_SendResponse 500 ''Internal Server Error'' c1"
    have "outputs xs (conn st) ?c"
      using outputs_trans[OF c1(2) Send_outputs] Inl that by (simp add: HttpHandler_SendResponse_def)
    moreover have "http_call g ctx st = st\<lparr>app := s', conn := ?c\<rparr>"
      using c1(1) g Inl by (simp add: http_call_def)
    ultimately show ?thesis using g Inl that by (auto simp: http_answer_def)
  next
    case (Inr resp)
    let ?ops = "ops @ (if env_payload resp \<noteq> None then [Ctx_Write_Envelope resp, Ctx_Close] else [])"
    obtain b c1 where c1: "http_run ?ops (False, conn st) = (b, c1)" "outputs (http_written False ?ops) (conn st) c1"
      using http_run_outputs by blast
    have "http_call g ctx st = st\<lparr>app := s', conn := c1\<rparr>"
      using g Inr c1(1) by (auto simp: http_call_def http_run_append split: if_splits)
    with c1(2) g Inr that show ?thesis by (auto simp: http_answer_def)
  qed
  from fin[OF refl] session_outputs[OF assms] show ?thesis by (fastforce simp: visible_def)
qed

lemma session_set_input:
  assumes "session_inv st" and "buffer_inv b"
  shows "session_inv (map_input (\<lambda>_. b) st)" "pending (map_input (\<lambda>_. b) st) = content b"
    "visible (map_input (\<lambda>_. b) st) = visible st"
  using assms by (auto simp: session_inv_def pending_def visible_def map_input_def map_conn_def conn_inv_def stream_def)

text \<open>One call of \<open>OnMessage\<close>, by the outcome of the parser.\<close>

lemma OnMessage_parsed:
  assumes "session_inv st" and "http_parse (pending st) ctx = (out, r, ctx')"
  obtains b where "HttpHandler_ParseRequest (in_buf st) ctx = (out, b, ctx')"
    "session_inv (map_input (\<lambda>_. b) st)" "pending (map_input (\<lambda>_. b) st) = r"
    "visible (map_input (\<lambda>_. b) st) = visible st"
proof -
  have "buffer_inv (in_buf st)" using assms(1) by (simp add: session_inv_def conn_inv_def)
  from ParseRequest_refines[OF this, of ctx] assms(2)
  obtain b where "HttpHandler_ParseRequest (in_buf st) ctx = (out, b, ctx')" "buffer_inv b" "content b = r"
    by (auto simp: refines_def pending_def split: prod.splits)
  with session_set_input[OF assms(1)] that show thesis by blast
qed

lemma OnMessage_incomplete:
  assumes "session_inv st" and "http_parse (pending st) ctx = (Return False, r, ctx')"
  shows "\<exists>st'. HttpHandler_OnMessage sh (Some ctx, st) = (None, Some ctx', st') \<and> session_inv st' \<and>
    pending st' = r \<and> visible st' = visible st"
  by (rule OnMessage_parsed[OF assms]) (simp add: HttpHandler_OnMessage_def Let_def)

lemma OnMessage_complete:
  assumes "session_inv st" and "http_parse (pending st) ctx = (Return True, r, ctx')" and "rate_limiter st = None"
  shows "\<exists>st'. HttpHandler_OnMessage (Some g) (Some ctx, st) = (None, Some ctx', st') \<and> session_inv st' \<and>
    pending st' = r \<and> rate_limiter st' = None \<and> (app st', stream (conn st')) = http_answer g ctx' (app st, stream (conn st))"
proof (rule OnMessage_parsed[OF assms(1,2)])
  fix b assume b: "HttpHandler_ParseRequest (in_buf st) ctx = (Return True, b, ctx')"
    "session_inv (map_input (\<lambda>_. b) st)" "pending (map_input (\<lambda>_. b) st) = r"
    "visible (map_input (\<lambda>_. b) st) = visible st"
  let ?st = "map_input (\<lambda>_. b) st"
  have v: "app ?st = app st" "stream (conn ?st) = stream (conn st)" "rate_limiter ?st = None"
    using b(4) assms(3) by (simp_all add: visible_def)
  then have "Handler_CheckRateLimit ?st = (True, ?st)"
    by (simp add: Handler_CheckRateLimit_def CheckRateLimit_def)
  then have "HttpHandler_OnMessage (Some g) (Some ctx, st) = (None, Some ctx', http_call g ctx' ?st)"
    using b(1) by (simp add: HttpHandler_OnMessage_def Let_def)
  with http_call_answers[OF b(2), of g ctx'] v b(3) show ?thesis by simp
qed

lemma OnMessage_throws:
  assumes "session_inv st" and "http_parse (pending st) ctx = (Throw e, r, ctx')"
  shows "\<exists>st'. HttpHandler_OnMessage sh (Some ctx, st) = (Some e, Some ctx', st')"
  by (rule OnMessage_parsed[OF assms]) (simp add: HttpHandler_OnMessage_def Let_def)

section \<open>The client's request\<close>

lemma words_one:
  assumes "w \<noteq> []" and "\<forall>c \<in> set w. \<not> is_space c"
  shows "words (w @ CHR '' '' # s) = w # words s" and "words w = [w]"
proof -
  have d: "dropWhile is_space (w @ t) = w @ t" for t using assms by (cases w) auto
  have t: "takeWhile (\<lambda>c. \<not> is_space c) (w @ CHR '' '' # s) = w"
    "dropWhile (\<lambda>c. \<not> is_space c) (w @ CHR '' '' # s) = CHR '' '' # s"
    using assms(2) by (subst takeWhile_append2 dropWhile_append2, auto simp: is_space_def)+
  have "words (CHR '' '' # s) = words s"
    by (subst (1 2) words.simps) (simp add: is_space_def)
  with d[of "CHR '' '' # s"] t assms(1) show "words (w @ CHR '' '' # s) = w # words s"
    by (subst words.simps) (simp add: Let_def)
  have "takeWhile (\<lambda>c. \<not> is_space c) w = w" "dropWhile (\<lambda>c. \<not> is_space c) w = []"
    using assms(2) by (simp_all add: takeWhile_eq_all_conv)
  moreover have "words [] = []" by (subst words.simps) simp
  ultimately show "words w = [w]" using d[of "[]"] assms(1)
    by (subst words.simps) (simp add: Let_def del: dropWhile_eq_Nil_conv takeWhile_eq_all_conv)
qed

definition put_fields :: "(string \<times> string) list \<Rightarrow> (string \<rightharpoonup> string) \<Rightarrow> (string \<rightharpoonup> string)" where
  "put_fields kvs m = foldl (\<lambda>m (k, v). m(k \<mapsto> v)) m kvs"

definition field_ok :: "string \<times> string \<Rightarrow> bool" where
  "field_ok kv \<longleftrightarrow> CR \<notin> set (fst kv) \<and> CHR '':'' \<notin> set (fst kv) \<and> CR \<notin> set (snd kv)"

lemma search_line: "CR \<notin> set line \<Longrightarrow> search crlf (line @ crlf @ rest) = Some (length line)"
  by (rule search_hit) (simp_all add: crlf_def)

lemma hp_header_line:
  assumes "CR \<notin> set line" and "line \<noteq> []"
  shows "hp_header_loop (line @ crlf @ rest) ctx =
    (case http_header_line line (hc_headers ctx) of
       Inl e \<Rightarrow> (Throw e, rest, ctx) | Inr h \<Rightarrow> hp_header_loop rest (ctx\<lparr>hc_headers := h\<rparr>))"
proof -
  have "drop (length line + 2) (line @ crlf @ rest) = rest" by simp
  then show ?thesis
    using search_line[OF assms(1), of rest] assms(2) by (subst hp_header_loop.simps) (simp split: sum.splits)
qed

lemma hp_field:
  assumes "field_ok (k, v)"
  shows "hp_header_loop (k @ '': '' @ v @ crlf @ rest) ctx =
    hp_header_loop rest (ctx\<lparr>hc_headers := (hc_headers ctx)(k \<mapsto> v)\<rparr>)"
proof -
  let ?line = "k @ CHR '':'' # CHR '' '' # v"
  have cr: "CR \<notin> set ?line" using assms by (auto simp: field_ok_def)
  have "find_char CHR '':'' ?line = Some (length k)"
    using assms find_char_hit[of "CHR '':''" k "CHR '' '' # v"] by (simp add: field_ok_def)
  moreover have "v \<noteq> [] \<Longrightarrow> last v \<noteq> CR" using assms by (metis field_ok_def last_in_set snd_conv)
  ultimately have "http_header_line ?line (hc_headers ctx) = Inr ((hc_headers ctx)(k \<mapsto> v))"
    by (auto simp: http_header_line_def Let_def)
  with hp_header_line[OF cr, of rest ctx] show ?thesis by simp
qed

lemma hp_fields:
  assumes "\<forall>kv \<in> set kvs. field_ok kv"
  shows "hp_header_loop (concat (map (\<lambda>(k, v). k @ '': '' @ v @ crlf) kvs) @ rest) ctx =
    hp_header_loop rest (ctx\<lparr>hc_headers := put_fields kvs (hc_headers ctx)\<rparr>)"
  using assms
proof (induction kvs arbitrary: ctx)
  case Nil
  then show ?case by (simp add: put_fields_def)
next
  case (Cons kv kvs)
  obtain k v where kv: "kv = (k, v)" by (cases kv)
  with Cons hp_field[of k v "concat (map (\<lambda>(k, v). k @ '': '' @ v @ crlf) kvs) @ rest" ctx]
  show ?case by (simp add: put_fields_def)
qed

text \<open>The request the server reads from what the client sends.\<close>

definition client_fields ::
    "((string \<rightharpoonup> string) \<Rightarrow> (string \<times> string) list) \<Rightarrow> envelope \<Rightarrow> (string \<times> string) list" where
  "client_fields entries e =
     [(''Host'', ''localhost'')] @ (case env_metadata e of None \<Rightarrow> [] | Some m \<Rightarrow> entries m) @
     [(''Content-Length'', dec_str (length (get_data e))), (''Connection'', ''keep-alive'')]"

definition client_path :: "envelope \<Rightarrow> string" where
  "client_path e =
     (if env_header e \<noteq> None \<and> message_type (get_header e) \<noteq> [] then message_type (get_header e) else ''/'')"

definition client_context ::
    "((string \<rightharpoonup> string) \<Rightarrow> (string \<times> string) list) \<Rightarrow> envelope \<Rightarrow> http_context" where
  "client_context entries e =
     \<lparr>hc_state = kDone, hc_method = ''POST'', hc_path = client_path e, hc_version = ''HTTP/1.1'',
      hc_headers = put_fields (client_fields entries e) Map.empty, hc_body = get_data e\<rparr>"

definition client_ok ::
    "((string \<rightharpoonup> string) \<Rightarrow> (string \<times> string) list) \<Rightarrow> envelope \<Rightarrow> bool" where
  "client_ok entries e \<longleftrightarrow> length (get_data e) < 2 ^ 31 \<and> (\<forall>c \<in> set (client_path e). \<not> is_space c) \<and>
     (\<forall>kv \<in> set (client_fields entries e). field_ok kv)"

lemma http_request_fields:
  "http_request entries e =
     (''POST '' @ client_path e @ '' HTTP/1.1'') @ crlf @
     concat (map (\<lambda>(k, v). k @ '': '' @ v @ crlf) (client_fields entries e)) @ crlf @ get_data e"
  by (simp add: http_request_def client_fields_def client_path_def Let_def split: option.splits)

lemma client_fields_length:
  "put_fields (client_fields entries e) m ''Content-Length'' = Some (dec_str (length (get_data e)))"
  by (simp add: client_fields_def put_fields_def)

lemma hp_line_hit:
  assumes "CR \<notin> set line" and "hc_state ctx = kExpectRequestLine"
  shows "hp_line (line @ crlf @ rest) ctx = (Next, rest, http_request_line line ctx)"
  using assms search_line[OF assms(1), of rest] by (simp add: hp_line_def)

lemma http_parse_request:
  assumes "client_ok entries e"
  shows "http_parse (http_request entries e) HttpContext_new = (Return True, [], client_context entries e)"
proof -
  let ?path = "client_path e" and ?d = "get_data e"
  let ?fs = "concat (map (\<lambda>(k, v). k @ '': '' @ v @ crlf) (client_fields entries e))"
  let ?line = "''POST '' @ ?path @ '' HTTP/1.1''"
  let ?h = "put_fields (client_fields entries e) Map.empty"
  have path: "?path \<noteq> []" "\<forall>c \<in> set ?path. \<not> is_space c"
    using assms by (auto simp: client_ok_def client_path_def)
  then have cr: "CR \<notin> set ?line" by (auto simp: is_space_def)
  have "words ?line = [''POST'', ?path, ''HTTP/1.1'']"
  proof -
    have "words (''POST'' @ CHR '' '' # ?path @ CHR '' '' # ''HTTP/1.1'') = [''POST'', ?path, ''HTTP/1.1'']"
      by (subst words_one(1)) (simp_all add: is_space_def words_one(1)[OF path] words_one(2))
    then show ?thesis by simp
  qed
  then have l: "hp_line (http_request entries e) HttpContext_new =
      (Next, ?fs @ crlf @ ?d, HttpContext_new\<lparr>hc_method := ''POST'', hc_path := ?path,
         hc_version := ''HTTP/1.1'', hc_state := kExpectHeaders\<rparr>)"
    unfolding http_request_fields
    using hp_line_hit[OF cr, of HttpContext_new "?fs @ crlf @ ?d"]
    by (simp add: http_request_line_def HttpContext_new_def)
  have hd: "hp_header_loop (?fs @ crlf @ ?d) ctx =
      (Next, ?d, ctx\<lparr>hc_headers := put_fields (client_fields entries e) (hc_headers ctx), hc_state := kExpectBody\<rparr>)" for ctx
  proof -
    have "hp_header_loop (crlf @ ?d) ctx' = (Next, ?d, ctx'\<lparr>hc_state := kExpectBody\<rparr>)"
      if "hc_headers ctx' ''Content-Length'' \<noteq> None" for ctx'
      using that search_line[of "[]" ?d] by (subst hp_header_loop.simps) simp
    with hp_fields[of "client_fields entries e" "crlf @ ?d" ctx] assms show ?thesis
      by (simp add: client_ok_def client_fields_length)
  qed
  have st: "stoi (dec_str (length ?d)) = Inr (int (length ?d))"
    using assms by (simp add: client_ok_def stoi_dec_str)
  have "length ?d < 2 ^ 64" using assms by (simp add: client_ok_def)
  then have u: "unat (of_int (int (length ?d)) :: uint64) = length ?d" by (simp add: unat_of_nat64)
  let ?c = "HttpContext_new\<lparr>hc_method := ''POST'', hc_path := ?path, hc_version := ''HTTP/1.1'',
      hc_state := kExpectBody, hc_headers := ?h\<rparr>"
  let ?init = "HttpContext_new\<lparr>hc_method := ''POST'', hc_path := ?path, hc_version := ''HTTP/1.1'',
      hc_state := kExpectHeaders\<rparr>"
  have st0: "hc_state ?init = kExpectHeaders" by simp
  have hh: "hp_headers (?fs @ crlf @ ?d) ?init =
      (Next, ?d, ?init\<lparr>hc_headers := put_fields (client_fields entries e) (hc_headers ?init), hc_state := kExpectBody\<rparr>)"
    unfolding hp_headers_def hd if_P[OF st0] ..
  have two: "then_stage (hp_line (http_request entries e) HttpContext_new) hp_headers = (Next, ?d, ?c)"
    unfolding l then_stage_def prod.case stage.case hh by (simp add: HttpContext_new_def)
  have "map_index (hc_headers ?c) ''Content-Length'' = (?h, dec_str (length ?d))"
    using client_fields_length[of entries e Map.empty] by (simp add: map_index_def)
  then have "hp_body ?d ?c = (Return True, [], client_context entries e)"
    unfolding hp_body_def Let_def using st u by (simp add: client_context_def HttpContext_new_def)
  then show ?thesis unfolding http_parse_def two by (simp add: then_stage_def)
qed

section \<open>Chunked transfer coding\<close>

text \<open>The decoder RFC 7230 (4.1) prescribes, without trailers.\<close>

definition hex_digit :: "char \<Rightarrow> nat" where
  "hex_digit c = (let k = of_char c in if k \<le> 57 then k - 48 else if k \<le> 70 then k - 55 else k - 87)"

definition hex_val :: "string \<Rightarrow> nat" where
  "hex_val s = foldl (\<lambda>n c. 16 * n + hex_digit c) 0 s"

function dechunk :: "bytes \<Rightarrow> bytes list option" where
  "dechunk bs =
     (case search crlf bs of
        None \<Rightarrow> None
      | Some i \<Rightarrow>
          (let n = hex_val (take i bs); rest = drop (i + 2) bs
           in if i = 0 then None
              else if n = 0 then (if rest = crlf then Some [] else None)
              else if take 2 (drop n rest) = crlf then map_option ((#) (take n rest)) (dechunk (drop (n + 2) rest))
              else None))"
  by pat_completeness auto
termination
  by (relation "measure length") (auto dest: search_SomeD)

declare dechunk.simps [simp del]

lemma hex_digit_digit_char: "d < 16 \<Longrightarrow> hex_digit (digit_char d) = d"
  by (simp add: hex_digit_def digit_char_def)

lemma digit_char_not_CR: "d < 16 \<Longrightarrow> digit_char d \<noteq> CR"
proof
  assume d: "d < 16" and eq: "digit_char d = CR"
  from d have "48 \<le> (of_char (digit_char d) :: nat)" by (simp add: digit_char_def)
  then show False unfolding eq by simp
qed

lemma hex_str_facts: "hex_val (hex_str n) = n \<and> CR \<notin> set (hex_str n) \<and> hex_str n \<noteq> []"
  unfolding hex_str_def
proof (induction n rule: less_induct)
  case (less n)
  show ?case
  proof (cases "n < 16")
    case True
    then show ?thesis using digit_char_not_CR[of n]
      by (simp add: base_str.simps[of 16 n] hex_val_def hex_digit_digit_char)
  next
    case False
    then have "hex_val (base_str 16 (n div 16)) = n div 16" "CR \<notin> set (base_str 16 (n div 16))" using less by simp_all
    with False show ?thesis using digit_char_not_CR[of "n mod 16"]
      by (simp add: base_str.simps[of 16 n] hex_val_def hex_digit_digit_char)
  qed
qed

lemma dechunk_chunk:
  assumes "d \<noteq> []"
  shows "dechunk (chunk d @ rest) = map_option ((#) d) (dechunk rest)"
proof -
  let ?h = "hex_str (length d)"
  have h: "hex_val ?h = length d" "CR \<notin> set ?h" "?h \<noteq> []" using hex_str_facts by auto
  have "search crlf (?h @ crlf @ d @ crlf @ rest) = Some (length ?h)" by (rule search_line[OF h(2)])
  moreover have "drop (length ?h + 2) (?h @ crlf @ d @ crlf @ rest) = d @ crlf @ rest" by simp
  moreover have "take 2 (drop (length d) (d @ crlf @ rest)) = crlf" by simp
  moreover have "drop (length d + 2) (d @ crlf @ rest) = rest" by simp
  ultimately show ?thesis
    using h assms unfolding chunk_def by (subst dechunk.simps) (simp add: Let_def)
qed

lemma dechunk_end: "dechunk (''0'' @ crlf @ crlf) = Some []"
  by (subst dechunk.simps) (simp add: crlf_def hex_val_def hex_digit_def)

definition chunked_body :: "bytes list \<Rightarrow> bytes" where
  "chunked_body ds = concat (map chunk (filter (\<lambda>d. d \<noteq> []) ds)) @ ''0'' @ crlf @ crlf"

lemma dechunk_body: "dechunk (chunked_body ds) = Some (filter (\<lambda>d. d \<noteq> []) ds)"
  unfolding chunked_body_def by (induction ds) (simp_all add: dechunk_end[simplified] dechunk_chunk)

lemma written_chunks: "http_written True (map Ctx_Write ds @ [Ctx_Close]) = chunked_body ds"
  by (induction ds) (simp_all add: chunked_body_def)

section \<open>Properties\<close>

definition http_loop :: "'s stream_handler \<Rightarrow> http_context option \<times> 's session \<Rightarrow> (http_context option \<times> 's session) option" where
  "http_loop g q = (case HttpHandler_OnMessage (Some g) q of (None, q') \<Rightarrow> Some q' | (Some _, _) \<Rightarrow> None)"

definition http_arrive :: "bytes \<Rightarrow> http_context option \<times> 's session \<Rightarrow> http_context option \<times> 's session" where
  "http_arrive ch q = (fst q, receive ch (snd q))"

text \<open>Pieces before the end of the request change nothing an observer sees.\<close>

lemma http_serve_pieces:
  assumes "session_inv st" and "http_parse (pending st @ concat chs @ x) ctx0 = (Return True, r, ctx)"
    and "length r < length x"
  shows "\<exists>ctx1 st1. serve http_arrive (http_loop g) chs (Some ctx0, st) = Some (Some ctx1, st1) \<and>
    session_inv st1 \<and> visible st1 = visible st \<and> http_parse (pending st1 @ x) ctx1 = (Return True, r, ctx)"
  using assms
proof (induction chs arbitrary: st ctx0)
  case Nil
  then show ?case by simp
next
  case (Cons ch chs)
  let ?st = "receive ch st" and ?more = "concat chs @ x"
  note a = session_receive[OF Cons.prems(1), of ch]
  obtain out r1 ctx1 where p: "http_parse (pending ?st) ctx0 = (out, r1, ctx1)" by (rule prod_cases3)
  have whole: "http_parse (pending ?st @ ?more) ctx0 = (Return True, r, ctx)"
    using a Cons.prems(2) by simp
  have out: "out = Return False"
  proof (rule ccontr)
    assume "out \<noteq> Return False"
    from http_parse_more[OF p this, of ?more] whole have "r = r1 @ ?more" by simp
    with Cons.prems(3) show False by simp
  qed
  obtain st1 where st1: "HttpHandler_OnMessage (Some g) (Some ctx0, ?st) = (None, Some ctx1, st1)"
    "session_inv st1" "pending st1 = r1" "visible st1 = visible ?st"
    using OnMessage_incomplete[OF conjunct1[OF a] p[unfolded out]] by blast
  have "http_parse (pending st1 @ ?more) ctx1 = (Return True, r, ctx)"
    using http_parse_resume[OF p[unfolded out], of ?more] whole st1(3) by simp
  from Cons.IH[OF st1(2) this Cons.prems(3)] st1(1,4) a
  show ?case by (simp add: http_loop_def[of g "(Some ctx0, _)"] http_arrive_def)
qed

text \<open>
  C10. HTTP end to end: a request the client sends, cut into any pieces on its way, makes the
  server call its handler exactly once, with method POST, the path, the version, exactly the
  client's header fields as metadata and exactly its body; nothing observable happens before the
  last piece has arrived and no input is left.
\<close>
theorem http_end_to_end:
  assumes "session_inv st" and "pending st = []" and "rate_limiter st = None"
    and "client_ok entries e" and "concat (chs @ [x]) = http_request entries e" and "x \<noteq> []"
  shows "\<exists>c1 st1 st'. serve http_arrive (http_loop g) chs (Some HttpContext_new, st) = Some (c1, st1) \<and>
      visible st1 = visible st \<and>
      http_loop g (http_arrive x (c1, st1)) = Some (Some (client_context entries e), st') \<and> pending st' = [] \<and>
      (app st', stream (conn st')) = http_answer g (client_context entries e) (app st, stream (conn st))"
proof -
  have "http_parse (pending st @ concat chs @ x) HttpContext_new = (Return True, [], client_context entries e)"
    using http_parse_request[OF assms(4)] assms(2,5) by simp
  from http_serve_pieces[OF assms(1) this, of g] assms(6)
  obtain ctx1 st1 where s: "serve http_arrive (http_loop g) chs (Some HttpContext_new, st) = Some (Some ctx1, st1)"
    "session_inv st1" "visible st1 = visible st" "http_parse (pending st1 @ x) ctx1 = (Return True, [], client_context entries e)"
    by auto
  let ?st = "receive x st1"
  note a = session_receive[OF s(2), of x]
  have v: "rate_limiter ?st = None" "app ?st = app st" "stream (conn ?st) = stream (conn st)"
    using a s(3) assms(3) by (simp_all add: visible_def)
  have "http_parse (pending ?st) ctx1 = (Return True, [], client_context entries e)" using a s(4) by simp
  from OnMessage_complete[OF conjunct1[OF a] this v(1), of g] v(2,3)
  obtain st' where "HttpHandler_OnMessage (Some g) (Some ctx1, ?st) = (None, Some (client_context entries e), st')"
    "pending st' = []" "(app st', stream (conn st')) = http_answer g (client_context entries e) (app st, stream (conn st))"
    by auto
  then have "http_loop g (http_arrive x (Some ctx1, st1)) = Some (Some (client_context entries e), st')"
    by (simp add: http_loop_def http_arrive_def)
  with s(1,3) \<open>pending st' = []\<close> \<open>(app st', _) = _\<close> show ?thesis by blast
qed

definition no_entries :: "(string \<rightharpoonup> string) \<Rightarrow> (string \<times> string) list" where
  "no_entries m = []"

lemma dec_str_no_CR: "CR \<notin> set (dec_str n)"
  using dec_str_digits[of n] by (auto simp: is_digit_def)

theorem http_end_to_end_witness:
  "\<exists>c1 st1 st'. serve http_arrive (http_loop log_handler) [take 5 (http_request no_entries (data_message ''hi''))]
      (Some HttpContext_new, fresh_session ([] :: bytes list)) = Some (c1, st1) \<and>
    http_loop log_handler (http_arrive (drop 5 (http_request no_entries (data_message ''hi''))) (c1, st1)) =
      Some (Some (client_context no_entries (data_message ''hi'')), st') \<and>
    app st' = [''hi''] \<and> stream (conn st') = chunked_head @ chunk ''hi''"
proof -
  let ?e = "data_message ''hi''"
  have ok: "client_ok no_entries ?e"
    by (simp add: client_ok_def client_path_def client_fields_def field_ok_def data_message_def envelope_defs
        is_space_def dec_str_no_CR)
  have ans: "http_answer log_handler (client_context no_entries ?e) ([], []) = ([''hi''], chunked_head @ chunk ''hi'')"
    by (simp add: http_answer_def log_handler_def http_envelope_def client_context_def Let_def envelope_defs data_message_def)
  have "stream (conn (fresh_session ([] :: bytes list))) = []" by (simp add: fresh_session_def)
  moreover have "drop 5 (http_request no_entries ?e) \<noteq> []" unfolding http_request_fields by simp
  ultimately show ?thesis
    using http_end_to_end[of "fresh_session ([] :: bytes list)" no_entries ?e
        "[take 5 (http_request no_entries ?e)]" "drop 5 (http_request no_entries ?e)" log_handler] ok ans
    by (simp only: fresh_session_facts list.simps append_take_drop_id concat.simps append.simps append_Nil2 prod.inject) blast
qed

text \<open>
  The server cannot serve a second request: once a request is complete the parser stays in
  \<open>kDone\<close>, so every later read of the connection makes the handler answer the first request
  again, and none of its bytes are ever consumed.
\<close>
theorem http_keep_alive_replays:
  assumes "session_inv st" and "rate_limiter st = None" and "hc_state ctx = kDone"
  shows "\<exists>st'. HttpHandler_OnMessage (Some g) (Some ctx, receive data st) = (None, Some ctx, st') \<and>
    pending st' = pending st @ data \<and>
    (app st', stream (conn st')) = http_answer g ctx (app st, stream (conn st))"
proof -
  let ?st = "receive data st"
  note a = session_receive[OF assms(1), of data]
  have v: "rate_limiter ?st = None" "app ?st = app st" "stream (conn ?st) = stream (conn st)"
    using a assms(2) by (simp_all add: visible_def)
  have "http_parse (pending ?st) ctx = (Return True, pending ?st, ctx)"
    using assms(3) by (simp add: http_parse_def then_stage_def hp_line_def hp_headers_def hp_body_def)
  from OnMessage_complete[OF conjunct1[OF a] this v(1), of g] v(2,3) a show ?thesis by auto
qed

theorem http_keep_alive_replays_witness:
  "\<exists>st'. HttpHandler_OnMessage (Some log_handler) (Some (client_context no_entries (data_message ''one'')),
      receive (http_request no_entries (data_message ''two'')) (fresh_session ([] :: bytes list))) =
      (None, Some (client_context no_entries (data_message ''one'')), st') \<and>
    app st' = [''one''] \<and> pending st' = http_request no_entries (data_message ''two'')"
proof -
  have "http_answer log_handler (client_context no_entries (data_message ''one'')) ([], stream (conn (fresh_session ([] :: bytes list)))) =
      ([''one''], chunked_head @ chunk ''one'')"
    by (simp add: fresh_session_def http_answer_def log_handler_def http_envelope_def client_context_def
        Let_def envelope_defs data_message_def)
  with http_keep_alive_replays[of "fresh_session ([] :: bytes list)" "client_context no_entries (data_message ''one'')"
      log_handler "http_request no_entries (data_message ''two'')"]
  show ?thesis by (auto simp: client_context_def)
qed

lemma http_throwing_requests:
  assumes "session_inv st" and "pending st = []"
    and "CR \<notin> set line" and "CR \<notin> set name" and "CHR '':'' \<notin> set name"
    and "CR \<notin> set v" and "stoi v = Inl e"
  shows "\<exists>ctx st'. HttpHandler_OnMessage sh (Some HttpContext_new, receive (line @ crlf @ name @ '':'' @ crlf) st) =
      (Some Out_Of_Range, ctx, st')"
    and "\<exists>ctx st'. HttpHandler_OnMessage sh (Some HttpContext_new,
        receive (line @ crlf @ ''Content-Length'' @ '': '' @ v @ crlf @ crlf) st) = (Some e, ctx, st')"
proof -
  let ?l = "http_request_line line HttpContext_new"
  have st: "hc_state ?l = kExpectHeaders" by (simp add: http_request_line_def Let_def)
  have first: "then_stage (hp_line (line @ crlf @ t) HttpContext_new) hp_headers = hp_header_loop t ?l" for t
    using hp_line_hit[OF assms(3), of HttpContext_new t] st
    by (simp add: then_stage_def hp_headers_def HttpContext_new_def)
  note a = session_receive[OF assms(1)]
  have "find_char CHR '':'' (name @ '':'') = Some (length name)"
    using assms(5) by (intro find_char_hit)
  then have "http_header_line (name @ '':'') (hc_headers ?l) = Inl Out_Of_Range"
    by (simp add: http_header_line_def)
  then have "hp_header_loop ((name @ '':'') @ crlf @ []) ?l = (Throw Out_Of_Range, [], ?l)"
    using assms(4) by (subst hp_header_line) simp_all
  then have "http_parse (line @ crlf @ name @ '':'' @ crlf) HttpContext_new = (Throw Out_Of_Range, [], ?l)"
    unfolding http_parse_def first by (simp add: then_stage_def)
  with OnMessage_throws[of "receive (line @ crlf @ name @ '':'' @ crlf) st"] a assms(2)
  show "\<exists>ctx st'. HttpHandler_OnMessage sh (Some HttpContext_new, receive (line @ crlf @ name @ '':'' @ crlf) st) =
      (Some Out_Of_Range, ctx, st')" by fastforce
  let ?c = "?l\<lparr>hc_headers := (hc_headers ?l)(''Content-Length'' \<mapsto> v), hc_state := kExpectBody\<rparr>"
  have "hp_header_loop (''Content-Length'' @ '': '' @ v @ crlf @ crlf) ?l = (Next, [], ?c)"
  proof -
    have "hp_header_loop crlf (?l\<lparr>hc_headers := (hc_headers ?l)(''Content-Length'' \<mapsto> v)\<rparr>) = (Next, [], ?c)"
      by (subst hp_header_loop.simps) (simp add: crlf_def)
    moreover have "field_ok (''Content-Length'', v)" using assms(6) by (simp add: field_ok_def)
    ultimately show ?thesis by (simp only: hp_field)
  qed
  moreover have "hp_body [] ?c = (Throw e, [], ?c)"
    using assms(7) by (simp add: hp_body_def map_index_def)
  ultimately have "http_parse (line @ crlf @ ''Content-Length'' @ '': '' @ v @ crlf @ crlf) HttpContext_new = (Throw e, [], ?c)"
    unfolding http_parse_def first by (simp only: then_stage_def prod.case stage.case)
  with OnMessage_throws[of "receive (line @ crlf @ ''Content-Length'' @ '': '' @ v @ crlf @ crlf) st"] a assms(2)
  show "\<exists>ctx st'. HttpHandler_OnMessage sh (Some HttpContext_new,
        receive (line @ crlf @ ''Content-Length'' @ '': '' @ v @ crlf @ crlf) st) = (Some e, ctx, st')" by fastforce
qed

text \<open>
  Two malformed requests kill the process, since nothing catches what \<open>ParseRequest\<close> throws: a
  header line that ends in its colon, and a Content-Length that \<open>stoi\<close> rejects.
\<close>
theorem http_parse_throws:
  assumes "session_inv st" and "pending st = []"
    and "CR \<notin> set line" and "CR \<notin> set name" and "CHR '':'' \<notin> set name"
    and "CR \<notin> set v" and "stoi v = Inl e"
  shows "(\<exists>ctx st'. HttpHandler_OnMessage sh (Some HttpContext_new,
        receive (line @ crlf @ name @ '':'' @ crlf) st) = (Some Out_Of_Range, ctx, st')) \<and>
    (\<exists>ctx st'. HttpHandler_OnMessage sh (Some HttpContext_new,
        receive (line @ crlf @ ''Content-Length'' @ '': '' @ v @ crlf @ crlf) st) = (Some e, ctx, st'))"
  using http_throwing_requests[OF assms] by blast

theorem http_parse_throws_witness:
  "\<exists>ctx st'. HttpHandler_OnMessage None (Some HttpContext_new,
      receive (''GET / HTTP/1.1'' @ crlf @ ''Content-Length'' @ '': '' @ ''many'' @ crlf @ crlf) (fresh_session ())) =
      (Some Invalid_Argument, ctx, st')"
proof -
  have "stoi ''many'' = Inl Invalid_Argument" by code_simp
  then show ?thesis
    by (intro http_parse_throws[where name = "''X''", THEN conjunct2]) simp_all
qed

text \<open>
  C30. What a handler writes through the stream context and closes is one chunked HTTP response:
  after the head, RFC 7230's decoder reads back exactly the non-empty pieces it wrote, in order,
  and the end.
\<close>
theorem http_chunked_roundtrip:
  assumes "conn_inv c" and "in_loop_thread c" and "ds \<noteq> []"
  shows "\<exists>c' body. http_run (map Ctx_Write ds @ [Ctx_Close]) (False, c) = (True, c') \<and>
    stream c' = stream c @ chunked_head @ body \<and> dechunk body = Some (filter (\<lambda>d. d \<noteq> []) ds)"
proof -
  let ?ops = "map Ctx_Write ds @ [Ctx_Close]"
  have sent: "fst (http_run (map Ctx_Write xs @ [Ctx_Close]) (True, c1)) = True" for xs c1
  proof (induction xs arbitrary: c1)
    case Nil
    then show ?case by (simp add: http_run_def)
  next
    case (Cons a xs)
    obtain c2 where "http_write a (True, c1) = (True, c2)" using http_write_outputs[of a True c1] by blast
    with Cons[of c2] show ?case by (simp add: http_run_def)
  qed
  obtain d ds' where ds: "ds = d # ds'" using assms(3) by (cases ds) auto
  obtain c2 where "http_write d (False, c) = (True, c2)" using http_write_outputs[of d False c] by blast
  with sent[of ds' c2] ds have "fst (http_run ?ops (False, c)) = True" by (simp add: http_run_def)
  with http_run_outputs[of ?ops False c] obtain c' where
    c': "http_run ?ops (False, c) = (True, c')" "outputs (http_written False ?ops) c c'" by auto
  have "http_written False ?ops = chunked_head @ chunked_body ds"
    using written_chunks[of ds'] ds by (simp add: chunked_body_def)
  with c' assms(1,2) dechunk_body[of ds] show ?thesis by (auto simp: outputs_def extends_def)
qed

theorem http_chunked_roundtrip_witness:
  "\<exists>c' body. http_run (map Ctx_Write [''hello'', [], ''world''] @ [Ctx_Close]) (False, fresh_conn) = (True, c') \<and>
    stream c' = chunked_head @ body \<and> dechunk body = Some [''hello'', ''world'']"
  using http_chunked_roundtrip[of fresh_conn "[''hello'', [], ''world'']"] by simp

text \<open>
  The client does not undo the chunking: of the library server's own response that arrives in
  one read, it passes everything behind the head to the handler, chunk sizes and terminator
  included, so the message it delivers is not the text that was sent.
\<close>
theorem http_client_gets_chunk_framing:
  assumes "session_inv st" and "pending st = []"
  shows "\<exists>st'. HttpClient_OnDataReceived (Some f) (receive (chunked_head @ chunked_body [d]) st) = (None, st') \<and>
    pending st' = [] \<and> app st' = f (app st) (http_client_message (chunked_body [d])) \<and> chunked_body [d] \<noteq> d"
proof -
  let ?st = "receive (chunked_head @ chunked_body [d]) st"
  let ?h = "take (length chunked_head - 4) chunked_head"
  note a = session_receive[OF assms(1), of "chunked_head @ chunked_body [d]"]
  have pend: "pending ?st = chunked_head @ chunked_body [d]" using a assms(2) by simp
  have h: "chunked_head = ?h @ crlf @ crlf" "search (crlf @ crlf) (?h @ crlf @ crlf) = Some (length ?h)"
    "CHR 0x00 \<notin> set ?h" "search crlf chunked_head \<noteq> None"
    by code_simp+
  have "length (pending ?st) = length (chunked_head @ chunked_body [d])" using pend by simp
  then obtain x where x: "Buffer_Peek (in_buf ?st) = (chunked_head @ chunked_body [d]) @ x"
    using pending_Peek[of "length (pending ?st)" ?st] a pend by (metis append_take_drop_id order_refl take_all)
  have peek: "Buffer_Peek (in_buf ?st) = ?h @ (crlf @ crlf) @ chunked_body [d] @ x"
    using x h(1) by (metis append.assoc)
  have "CHR 0x00 \<notin> set (crlf @ crlf)" by (simp add: crlf_def)
  then have "strstr (Buffer_Peek (in_buf ?st)) (crlf @ crlf) = Some (length ?h)"
    unfolding peek using strstr_hit[OF h(3) _ take_search[of "crlf @ crlf" ?h]] h(2) by simp
  moreover have "length ?h + 4 = length chunked_head"
    using arg_cong[OF h(1), of length] by simp
  moreover have "Buffer_ReadableBytes (in_buf ?st) = length (chunked_head @ chunked_body [d])"
    using pending_readable[OF conjunct1[OF a]] pend by simp
  moreover obtain i where "Buffer_FindCRLF (in_buf ?st) = Some i"
  proof -
    have "Buffer_FindCRLF (in_buf ?st) = search crlf (pending ?st)"
      using a by (simp add: FindCRLF_content session_inv_def conn_inv_def pending_def)
    with pend h(4) search_append that show thesis by fastforce
  qed
  moreover have "take (length (chunked_body [d])) (drop (length chunked_head) (Buffer_Peek (in_buf ?st))) = chunked_body [d]"
    using x by simp
  ultimately have "HttpClient_OnDataReceived (Some f) ?st =
      (None, map_input Buffer_RetrieveAll (?st\<lparr>app := f (app ?st) (http_client_message (chunked_body [d]))\<rparr>))"
    by (simp add: HttpClient_OnDataReceived_def Let_def)
  moreover have "app ?st = app st" using a by (simp add: visible_def)
  moreover have "length d < length (chunked_body [d])" by (simp add: chunked_body_def chunk_def)
  ultimately show ?thesis by (auto simp: pending_def in_buf_map_input map_input_def map_conn_def)
qed

theorem http_client_gets_chunk_framing_witness:
  "\<exists>st'. HttpClient_OnDataReceived (Some (\<lambda>ms e. ms @ [get_data e]))
      (receive (chunked_head @ chunked_body [''hello'']) (fresh_session [])) = (None, st') \<and>
    app st' = [''5'' @ crlf @ ''hello'' @ crlf @ ''0'' @ crlf @ crlf]"
proof -
  have "chunk ''hello'' = ''5'' @ crlf @ ''hello'' @ crlf" by code_simp
  then have "get_data (http_client_message (chunked_body [''hello''])) = ''5'' @ crlf @ ''hello'' @ crlf @ ''0'' @ crlf @ crlf"
    by (simp add: http_client_message_def chunked_body_def envelope_defs)
  then show ?thesis
    using http_client_gets_chunk_framing[of "fresh_session []" "\<lambda>ms e. ms @ [get_data e]" "''hello''"] by auto
qed

end
