(* ===== verification/Event_Loop.thy ===== *)
theory Event_Loop
  imports Connection
begin

text \<open>
  \<open>EpollPoller\<close> and \<open>EventLoop\<close>.  The kernel's side of epoll is the interest list (which descriptor
  is registered with which mask and which pointer) and a script of the errors \<open>epoll_ctl\<close> runs
  into.  The \<open>EventHandler\<close> objects live in an explicit heap, because the loop reads them through
  the raw pointers epoll hands back: reading a freed one is undefined behaviour, the value \<open>None\<close>
  of the functions that do so.  Callbacks and tasks of the application are names; what they do to
  the loop and to the rest of the program (\<open>'w\<close>) is a parameter.
\<close>

section \<open>The poller\<close>

datatype 'c callback = Wakeup_Callback | Callback 'c

record 'c event_handler =
  eh_fd :: int
  eh_events :: uint32
  eh_callback :: "'c callback option"

text \<open>
  Nothing in \<open>Run\<close> or in the threads that call it catches an exception of a callback: \<open>loop_thrown\<close> is the
  exception that has ended the process.  The callbacks that can throw set it, and no callback or
  task does anything once it is set.
\<close>

record ('c, 't) event_loop =
  has_poller :: bool
  epoll_set :: "int \<rightharpoonup> uint32 \<times> nat"
  ctl_faults :: "string option list"
  loop_handlers :: "int \<rightharpoonup> nat"
  heap :: "nat \<rightharpoonup> 'c event_handler"
  next_addr :: nat
  running :: bool
  wakeup_fd :: int
  eventfd_count :: nat
  thread_id :: "nat option"
  pending_tasks :: "'t list"
  loop_thrown :: "exn option"

text \<open>The four bits the poller knows, one by one as the code tests them.\<close>

definition epoll_mask :: "uint32 \<Rightarrow> uint32" where
  "epoll_mask events =
     (if events AND 0x001 \<noteq> 0 then EPOLLIN else 0) OR (if events AND 0x004 \<noteq> 0 then EPOLLOUT else 0)"

definition ready_mask :: "uint32 \<Rightarrow> uint32" where
  "ready_mask revents =
     (if revents AND EPOLLIN \<noteq> 0 then 0x001 else 0) OR (if revents AND EPOLLOUT \<noteq> 0 then 0x004 else 0) OR
     (if revents AND EPOLLERR \<noteq> 0 then EPOLLERR else 0) OR (if revents AND EPOLLHUP \<noteq> 0 then EPOLLHUP else 0)"

definition next_fault :: "('c, 't) event_loop \<Rightarrow> string option \<times> ('c, 't) event_loop" where
  "next_fault l = (case ctl_faults l of [] \<Rightarrow> (None, l) | f # fs \<Rightarrow> (f, l\<lparr>ctl_faults := fs\<rparr>))"

definition EpollPoller_Add :: "int \<Rightarrow> uint32 \<Rightarrow> nat \<Rightarrow> ('c, 't) event_loop \<Rightarrow> exn option \<times> ('c, 't) event_loop" where
  "EpollPoller_Add f events data l =
     (case next_fault l of
        (Some e, l1) \<Rightarrow> (Some (Runtime_Error (''epoll_ctl add failed: '' @ e)), l1)
      | (None, l1) \<Rightarrow>
          if epoll_set l1 f \<noteq> None then (Some (Runtime_Error ''epoll_ctl add failed: File exists''), l1)
          else (None, l1\<lparr>epoll_set := (epoll_set l1)(f \<mapsto> (epoll_mask events, data))\<rparr>))"

definition EpollPoller_Modify :: "int \<Rightarrow> uint32 \<Rightarrow> nat \<Rightarrow> ('c, 't) event_loop \<Rightarrow> exn option \<times> ('c, 't) event_loop" where
  "EpollPoller_Modify f events data l =
     (case next_fault l of
        (Some e, l1) \<Rightarrow> (Some (Runtime_Error ''epoll_ctl mod failed''), l1)
      | (None, l1) \<Rightarrow>
          if epoll_set l1 f = None then (Some (Runtime_Error ''epoll_ctl mod failed''), l1)
          else (None, l1\<lparr>epoll_set := (epoll_set l1)(f \<mapsto> (epoll_mask events, data))\<rparr>))"

text \<open>
  \<open>EPOLL_CTL_DEL\<close> allocates nothing; it fails for a descriptor that is not in the interest list (a closed
  one has left it), which is only logged: the result says whether it succeeded.
\<close>

definition EpollPoller_Remove :: "int \<Rightarrow> ('c, 't) event_loop \<Rightarrow> bool \<times> ('c, 't) event_loop" where
  "EpollPoller_Remove f l =
     (if epoll_set l f = None then (False, l) else (True, l\<lparr>epoll_set := (epoll_set l)(f := None)\<rparr>))"

text \<open>
  What \<open>epoll_wait\<close> does: it reports at most 128 of the ready descriptors, each with the pointer it
  was registered with; or it is interrupted; or it fails.
\<close>

datatype wait_result = Ready "(int \<times> uint32) list" | Interrupted | Wait_Failed

definition kMaxEvents :: nat where "kMaxEvents = 128"

definition EpollPoller_Poll :: "wait_result \<Rightarrow> ('c, 't) event_loop \<Rightarrow> (nat \<times> uint32) list option" where
  "EpollPoller_Poll w l =
     (case w of
        Wait_Failed \<Rightarrow> None
      | Interrupted \<Rightarrow> Some []
      | Ready fds \<Rightarrow>
          Some (map (\<lambda>(f, rev). (snd (the (epoll_set l f)), ready_mask rev))
                  (take kMaxEvents (filter (\<lambda>(f, _). epoll_set l f \<noteq> None) fds))))"

section \<open>The event loop\<close>

definition EventLoop_new :: "('c, 't) event_loop" where
  "EventLoop_new =
     \<lparr>has_poller = False, epoll_set = Map.empty, ctl_faults = [], loop_handlers = Map.empty, heap = Map.empty,
      next_addr = 0, running = False, wakeup_fd = -1, eventfd_count = 0, thread_id = None, pending_tasks = [],
      loop_thrown = None\<rparr>"

definition EventLoop_WakeUp :: "('c, 't) event_loop \<Rightarrow> ('c, 't) event_loop" where
  "EventLoop_WakeUp l = l\<lparr>eventfd_count := eventfd_count l + 1\<rparr>"

text \<open>
  \<open>AddFd\<close>: the new object is freed again when the poller throws, and the object a descriptor had
  before is freed when the table entry is overwritten.
\<close>

definition EventLoop_AddFd ::
    "int \<Rightarrow> uint32 \<Rightarrow> 'c callback option \<Rightarrow> ('c, 't) event_loop \<Rightarrow> unit result \<times> ('c, 't) event_loop" where
  "EventLoop_AddFd f events cb l =
     (if \<not> has_poller l then (Result_Failure kNotInitialized ''EventLoop not initialized. Call Init() first.'', l)
      else
        (let a = next_addr l; l0 = l\<lparr>next_addr := Suc a\<rparr>
         in case EpollPoller_Add f events a l0 of
              (Some (Runtime_Error what), l1) \<Rightarrow> (Result_Failure kInternal what, l1)
            | (Some _, l1) \<Rightarrow> (Result_Failure kInternal [], l1)
            | (None, l1) \<Rightarrow>
                (Result_Success (),
                 l1\<lparr>loop_handlers := (loop_handlers l1)(f \<mapsto> a),
                    heap := (case loop_handlers l1 f of None \<Rightarrow> heap l1 | Some old \<Rightarrow> (heap l1)(old := None))
                              (a \<mapsto> \<lparr>eh_fd = f, eh_events = events, eh_callback = cb\<rparr>)\<rparr>)))"

definition EventLoop_ModifyFd :: "int \<Rightarrow> uint32 \<Rightarrow> ('c, 't) event_loop \<Rightarrow> unit result \<times> ('c, 't) event_loop" where
  "EventLoop_ModifyFd f events l =
     (if \<not> has_poller l then (Result_Failure kNotInitialized ''EventLoop not initialized. Call Init() first.'', l)
      else
        (case loop_handlers l f of
           None \<Rightarrow> (Result_Failure kNotFound ''FD not found in loop'', l)
         | Some a \<Rightarrow>
             (let l0 = l\<lparr>heap := (heap l)(a := map_option (\<lambda>h. h\<lparr>eh_events := events\<rparr>) (heap l a))\<rparr>
              in case EpollPoller_Modify f events a l0 of
                   (Some (Runtime_Error what), l1) \<Rightarrow> (Result_Failure kInternal what, l1)
                 | (Some _, l1) \<Rightarrow> (Result_Failure kInternal [], l1)
                 | (None, l1) \<Rightarrow> (Result_Success (), l1))))"

definition EventLoop_RemoveFd :: "int \<Rightarrow> ('c, 't) event_loop \<Rightarrow> ('c, 't) event_loop" where
  "EventLoop_RemoveFd f l =
     (if \<not> has_poller l then l
      else
        (case loop_handlers l f of
           None \<Rightarrow> l
         | Some a \<Rightarrow>
             (let l1 = snd (EpollPoller_Remove f l)
              in l1\<lparr>loop_handlers := (loop_handlers l1)(f := None), heap := (heap l1)(a := None)\<rparr>)))"

text \<open>\<open>Init\<close>: whether the poller could be made, and what \<open>eventfd\<close> returned.\<close>

definition EventLoop_Init :: "string option \<Rightarrow> int \<Rightarrow> ('c, 't) event_loop \<Rightarrow> unit result \<times> ('c, 't) event_loop" where
  "EventLoop_Init poller_error efd l =
     (case poller_error of
        Some what \<Rightarrow> (Result_Failure kInternal (''Failed to initialize poller: '' @ what), l)
      | None \<Rightarrow>
          (let l1 = l\<lparr>has_poller := True, epoll_set := Map.empty, wakeup_fd := efd\<rparr>
           in if efd < 0 then (Result_Failure kInternal ''Failed to create eventfd'', l1)
              else (Result_Success (), snd (EventLoop_AddFd efd EPOLLIN (Some Wakeup_Callback) l1))))"

definition EventLoop_Stop :: "('c, 't) event_loop \<Rightarrow> ('c, 't) event_loop" where
  "EventLoop_Stop l = EventLoop_WakeUp (l\<lparr>running := False\<rparr>)"

definition EventLoop_IsInLoopThread :: "nat \<Rightarrow> ('c, 't) event_loop \<Rightarrow> bool" where
  "EventLoop_IsInLoopThread self l \<longleftrightarrow> thread_id l = Some self"

definition EventLoop_QueueInLoop :: "'t \<Rightarrow> ('c, 't) event_loop \<Rightarrow> ('c, 't) event_loop" where
  "EventLoop_QueueInLoop t l = EventLoop_WakeUp (l\<lparr>pending_tasks := pending_tasks l @ [t]\<rparr>)"

text \<open>The program a loop runs in: the loop object and the world its callbacks act on.\<close>

type_synonym ('c, 't, 'w) program = "('c, 't) event_loop \<times> 'w"

definition EventLoop_RunInLoop ::
    "('t \<Rightarrow> ('c, 't, 'w) program \<Rightarrow> ('c, 't, 'w) program) \<Rightarrow> nat \<Rightarrow> 't \<Rightarrow> ('c, 't, 'w) program \<Rightarrow> ('c, 't, 'w) program" where
  "EventLoop_RunInLoop task self t q =
     (if EventLoop_IsInLoopThread self (fst q) then task t q else (EventLoop_QueueInLoop t (fst q), snd q))"

definition EventLoop_HandleRead ::
    "('t \<Rightarrow> ('c, 't, 'w) program \<Rightarrow> ('c, 't, 'w) program) \<Rightarrow> ('c, 't, 'w) program \<Rightarrow> ('c, 't, 'w) program" where
  "EventLoop_HandleRead task q =
     (case q of (l, w) \<Rightarrow>
        foldl (\<lambda>q t. task t q) (l\<lparr>eventfd_count := 0, pending_tasks := []\<rparr>, w) (pending_tasks l))"

text \<open>One ready event; \<open>None\<close> is the read of a freed object.\<close>

definition dispatch_event ::
    "('t \<Rightarrow> ('c, 't, 'w) program \<Rightarrow> ('c, 't, 'w) program) \<Rightarrow> ('c \<Rightarrow> uint32 \<Rightarrow> ('c, 't, 'w) program \<Rightarrow> ('c, 't, 'w) program) \<Rightarrow>
       nat \<times> uint32 \<Rightarrow> ('c, 't, 'w) program \<Rightarrow> ('c, 't, 'w) program option" where
  "dispatch_event task call ev q =
     (case heap (fst q) (fst ev) of
        None \<Rightarrow> None
      | Some raw \<Rightarrow>
          (case loop_handlers (fst q) (eh_fd raw) of
             None \<Rightarrow> Some q
           | Some a \<Rightarrow>
               (case heap (fst q) a of
                  None \<Rightarrow> None
                | Some h \<Rightarrow>
                    (case eh_callback h of
                       None \<Rightarrow> Some q
                     | Some Wakeup_Callback \<Rightarrow> Some (EventLoop_HandleRead task q)
                     | Some (Callback c) \<Rightarrow> Some (call c (ready_mask (snd ev)) q)))))"

fun dispatch_all ::
    "('t \<Rightarrow> ('c, 't, 'w) program \<Rightarrow> ('c, 't, 'w) program) \<Rightarrow> ('c \<Rightarrow> uint32 \<Rightarrow> ('c, 't, 'w) program \<Rightarrow> ('c, 't, 'w) program) \<Rightarrow>
       (nat \<times> uint32) list \<Rightarrow> ('c, 't, 'w) program \<Rightarrow> ('c, 't, 'w) program option" where
  "dispatch_all task call [] q = Some q"
| "dispatch_all task call (ev # evs) q = Option.bind (dispatch_event task call ev q) (dispatch_all task call evs)"

text \<open>The rounds of \<open>Run\<close>, one for each return of \<open>epoll_wait\<close>; \<open>True\<close> when the loop has ended.\<close>

fun run_rounds ::
    "('t \<Rightarrow> ('c, 't, 'w) program \<Rightarrow> ('c, 't, 'w) program) \<Rightarrow> ('c \<Rightarrow> uint32 \<Rightarrow> ('c, 't, 'w) program \<Rightarrow> ('c, 't, 'w) program) \<Rightarrow>
       wait_result list \<Rightarrow> ('c, 't, 'w) program \<Rightarrow> (bool \<times> ('c, 't, 'w) program) option" where
  "run_rounds task call [] q = Some (\<not> running (fst q), q)"
| "run_rounds task call (r # rs) q =
     (if \<not> running (fst q) then Some (True, q)
      else
        (case EpollPoller_Poll r (fst q) of
           None \<Rightarrow> Some (True, q)
         | Some evs \<Rightarrow> Option.bind (dispatch_all task call evs q) (run_rounds task call rs)))"

definition EventLoop_Run ::
    "('t \<Rightarrow> ('c, 't, 'w) program \<Rightarrow> ('c, 't, 'w) program) \<Rightarrow> ('c \<Rightarrow> uint32 \<Rightarrow> ('c, 't, 'w) program \<Rightarrow> ('c, 't, 'w) program) \<Rightarrow>
       nat \<Rightarrow> wait_result list \<Rightarrow> ('c, 't, 'w) program \<Rightarrow> (bool \<times> ('c, 't, 'w) program) option" where
  "EventLoop_Run task call self rs q =
     (if \<not> has_poller (fst q) then Some (True, q)
      else run_rounds task call rs ((fst q)\<lparr>thread_id := Some self, running := True\<rparr>, snd q))"

lemma EpollPoller_Remove_loop [simp]: "snd (EpollPoller_Remove f l) = l\<lparr>epoll_set := (epoll_set l)(f := None)\<rparr>"
  by (simp add: EpollPoller_Remove_def fun_upd_idem)

lemmas poller_defs = EpollPoller_Add_def EpollPoller_Modify_def next_fault_def
lemmas loop_defs = EventLoop_AddFd_def EventLoop_ModifyFd_def EventLoop_RemoveFd_def EventLoop_QueueInLoop_def
  EventLoop_WakeUp_def EventLoop_Stop_def

section \<open>The registry\<close>

text \<open>
  What keeps the raw pointers safe: a registered pointer is the handler the table has for its
  descriptor, the table's handlers are alive and know their descriptor, a live handler is in the
  table, and addresses are not used twice.
\<close>

definition loop_inv :: "('c, 't) event_loop \<Rightarrow> bool" where
  "loop_inv l \<longleftrightarrow>
     (\<forall>f m a. epoll_set l f = Some (m, a) \<longrightarrow> loop_handlers l f = Some a \<and> m AND EPOLLET = 0) \<and>
     (\<forall>f a. loop_handlers l f = Some a \<longrightarrow> (\<exists>h. heap l a = Some h \<and> eh_fd h = f)) \<and>
     (\<forall>a h. heap l a = Some h \<longrightarrow> loop_handlers l (eh_fd h) = Some a \<and> a < next_addr l)"

lemma epoll_mask_level: "epoll_mask events AND EPOLLET = 0"
  by (auto simp: epoll_mask_def EPOLLIN_def EPOLLOUT_def EPOLLET_def)

lemma loop_inv_new: "loop_inv EventLoop_new"
  by (simp add: loop_inv_def EventLoop_new_def)

lemma loop_inv_handlers:
  "loop_inv l \<Longrightarrow> loop_handlers l f = Some a \<Longrightarrow> \<exists>h. heap l a = Some h \<and> eh_fd h = f"
  by (simp add: loop_inv_def)

lemma loop_inv_inj: "loop_inv l \<Longrightarrow> loop_handlers l f = Some a \<Longrightarrow> loop_handlers l g = Some a \<Longrightarrow> g = f"
  using loop_inv_handlers[of l f a] loop_inv_handlers[of l g a] by auto

text \<open>Fields that play no part in the invariant.\<close>

lemma loop_inv_cong [simp]:
  "loop_inv (l\<lparr>ctl_faults := x\<rparr>) = loop_inv l" "loop_inv (l\<lparr>running := b\<rparr>) = loop_inv l"
  "loop_inv (l\<lparr>eventfd_count := n\<rparr>) = loop_inv l" "loop_inv (l\<lparr>pending_tasks := ts\<rparr>) = loop_inv l"
  "loop_inv (l\<lparr>thread_id := i\<rparr>) = loop_inv l"
  by (simp_all add: loop_inv_def)

text \<open>The two outcomes of each operation, on the fields the invariant reads.\<close>

lemma AddFd_fields:
  fixes l l' :: "('c, 't) event_loop"
  assumes "l' = snd (EventLoop_AddFd f events cb l)"
  shows "(epoll_set l' = epoll_set l \<and> loop_handlers l' = loop_handlers l \<and> heap l' = heap l \<and> next_addr l \<le> next_addr l') \<or>
    (epoll_set l' = (epoll_set l)(f \<mapsto> (epoll_mask events, next_addr l)) \<and>
     loop_handlers l' = (loop_handlers l)(f \<mapsto> next_addr l) \<and>
     heap l' = (case loop_handlers l f of None \<Rightarrow> heap l | Some old \<Rightarrow> (heap l)(old := None))
       (next_addr l \<mapsto> \<lparr>eh_fd = f, eh_events = events, eh_callback = cb\<rparr>) \<and> next_addr l' = Suc (next_addr l))"
  unfolding assms
  by (auto simp: EventLoop_AddFd_def poller_defs Let_def split: option.splits list.splits)

lemma ModifyFd_fields:
  fixes l l' :: "('c, 't) event_loop"
  assumes "l' = snd (EventLoop_ModifyFd f events l)"
  shows "l' = l \<or>
    (\<exists>a. loop_handlers l f = Some a \<and> loop_handlers l' = loop_handlers l \<and> next_addr l' = next_addr l \<and>
      heap l' = (heap l)(a := map_option (\<lambda>h. h\<lparr>eh_events := events\<rparr>) (heap l a)) \<and>
      (epoll_set l' = epoll_set l \<or> epoll_set l' = (epoll_set l)(f \<mapsto> (epoll_mask events, a))))"
  unfolding assms
  by (auto simp: EventLoop_ModifyFd_def poller_defs Let_def split: option.splits list.splits)

lemma RemoveFd_fields:
  fixes l l' :: "('c, 't) event_loop"
  assumes "l' = EventLoop_RemoveFd f l"
  shows "l' = l \<or>
    (\<exists>a. loop_handlers l f = Some a \<and> epoll_set l' = (epoll_set l)(f := None) \<and>
      loop_handlers l' = (loop_handlers l)(f := None) \<and> heap l' = (heap l)(a := None) \<and> next_addr l' = next_addr l)"
  unfolding assms by (auto simp: EventLoop_RemoveFd_def poller_defs Let_def split: option.splits)

lemma AddFd_inv:
  assumes "loop_inv l"
  shows "loop_inv (snd (EventLoop_AddFd f events cb l))"
proof -
  define l' where "l' = snd (EventLoop_AddFd f events cb l)"
  have fresh: "heap l (next_addr l) = None"
    using assms unfolding loop_inv_def by (metis less_irrefl not_None_eq)
  then have unused: "loop_handlers l g \<noteq> Some (next_addr l)" for g
    using loop_inv_handlers[OF assms] by fastforce
  from AddFd_fields[OF l'_def] show ?thesis
  proof
    assume "epoll_set l' = epoll_set l \<and> loop_handlers l' = loop_handlers l \<and> heap l' = heap l \<and> next_addr l \<le> next_addr l'"
    with assms show ?thesis unfolding l'_def[symmetric] loop_inv_def by (fastforce intro: less_le_trans)
  next
    assume ok: "epoll_set l' = (epoll_set l)(f \<mapsto> (epoll_mask events, next_addr l)) \<and>
       loop_handlers l' = (loop_handlers l)(f \<mapsto> next_addr l) \<and>
       heap l' = (case loop_handlers l f of None \<Rightarrow> heap l | Some old \<Rightarrow> (heap l)(old := None))
         (next_addr l \<mapsto> \<lparr>eh_fd = f, eh_events = events, eh_callback = cb\<rparr>) \<and> next_addr l' = Suc (next_addr l)"
    note own = loop_inv_inj[OF assms]
    show ?thesis unfolding l'_def[symmetric]
    proof (unfold loop_inv_def, intro conjI allI impI)
      fix g m a assume "epoll_set l' g = Some (m, a)"
      with ok assms epoll_mask_level[of events] show "loop_handlers l' g = Some a" "m AND EPOLLET = 0"
        by (auto simp: loop_inv_def split: if_splits)
    next
      fix g a assume g: "loop_handlers l' g = Some a"
      show "\<exists>h. heap l' a = Some h \<and> eh_fd h = g"
      proof (cases "g = f")
        case True
        with g ok show ?thesis by auto
      next
        case False
        with g ok have lg: "loop_handlers l g = Some a" by simp
        with loop_inv_handlers[OF assms lg] ok unused[of g] own[OF lg, of f] False show ?thesis
          by (auto split: option.splits)
      qed
    next
      fix a h assume "heap l' a = Some h"
      then consider "a = next_addr l" "eh_fd h = f" | "heap l a = Some h" "loop_handlers l f \<noteq> Some a" "a \<noteq> next_addr l"
        using ok by (auto split: if_splits option.splits)
      then show "loop_handlers l' (eh_fd h) = Some a" "a < next_addr l'"
        using ok assms by (cases, auto simp: loop_inv_def less_Suc_eq)+
    qed
  qed
qed

lemma ModifyFd_inv:
  assumes "loop_inv l"
  shows "loop_inv (snd (EventLoop_ModifyFd f events l))"
proof -
  define l' where "l' = snd (EventLoop_ModifyFd f events l)"
  from ModifyFd_fields[OF l'_def] show ?thesis unfolding l'_def[symmetric]
  proof (elim disjE exE conjE)
    assume "l' = l" with assms show "loop_inv l'" by simp
  next
    have heap: "loop_inv l'"
      if k: "loop_handlers l f = Some a" "loop_handlers l' = loop_handlers l" "next_addr l' = next_addr l"
        "heap l' = (heap l)(a := map_option (\<lambda>h. h\<lparr>eh_events := events\<rparr>) (heap l a))"
        "\<And>g m b. epoll_set l' g = Some (m, b) \<Longrightarrow> loop_handlers l g = Some b \<and> m AND EPOLLET = 0" for a
      unfolding loop_inv_def
    proof (intro conjI allI impI)
      fix g b assume "loop_handlers l' g = Some b"
      then obtain h where "heap l b = Some h" "eh_fd h = g" using loop_inv_handlers[OF assms] k(2) by auto
      with k(4) show "\<exists>h. heap l' b = Some h \<and> eh_fd h = g" by (cases "b = a") auto
    next
      fix b h assume "heap l' b = Some h"
      then obtain h0 where "heap l b = Some h0" "eh_fd h = eh_fd h0" using k(4) by (auto split: if_splits)
      with assms k(2,3) show "loop_handlers l' (eh_fd h) = Some b" "b < next_addr l'" by (auto simp: loop_inv_def)
    qed (use k(2,5) in auto)
    fix a assume l': "loop_handlers l f = Some a" "loop_handlers l' = loop_handlers l" "next_addr l' = next_addr l"
      "heap l' = (heap l)(a := map_option (\<lambda>h. h\<lparr>eh_events := events\<rparr>) (heap l a))"
    show "loop_inv l'" if "epoll_set l' = epoll_set l"
      using l' assms that by (intro heap[of a]) (simp_all add: loop_inv_def)
    show "loop_inv l'" if "epoll_set l' = (epoll_set l)(f \<mapsto> (epoll_mask events, a))"
      using l' assms that epoll_mask_level[of events]
      by (intro heap[of a]) (auto simp: loop_inv_def split: if_splits)
  qed
qed

lemma RemoveFd_inv:
  assumes "loop_inv l"
  shows "loop_inv (EventLoop_RemoveFd f l)"
proof -
  define l' where "l' = EventLoop_RemoveFd f l"
  from RemoveFd_fields[OF l'_def] show ?thesis unfolding l'_def[symmetric]
  proof (elim disjE exE conjE)
    assume "l' = l" with assms show "loop_inv l'" by simp
  next
    fix a assume l': "loop_handlers l f = Some a" "epoll_set l' = (epoll_set l)(f := None)"
      "loop_handlers l' = (loop_handlers l)(f := None)" "heap l' = (heap l)(a := None)" "next_addr l' = next_addr l"
    have "loop_handlers l g = Some a \<Longrightarrow> g = f" for g
      using loop_inv_inj[OF assms l'(1)] .
    moreover have "heap l b = Some h \<Longrightarrow> eh_fd h = f \<Longrightarrow> b = a" for b h
      using assms l'(1) by (auto simp: loop_inv_def)
    ultimately have sep: "loop_handlers l g = Some b \<Longrightarrow> g \<noteq> f \<Longrightarrow> b \<noteq> a" "heap l b = Some h \<Longrightarrow> b \<noteq> a \<Longrightarrow> eh_fd h \<noteq> f" for g b h
      by blast+
    show "loop_inv l'"
    proof (unfold loop_inv_def, intro conjI allI impI)
      fix g m b assume "epoll_set l' g = Some (m, b)"
      then have "g \<noteq> f" "epoll_set l g = Some (m, b)" using l'(2) by (auto split: if_splits)
      with assms l'(3) show "loop_handlers l' g = Some b" "m AND EPOLLET = 0" by (auto simp: loop_inv_def)
    next
      fix g b assume "loop_handlers l' g = Some b"
      then have "g \<noteq> f" "loop_handlers l g = Some b" using l'(3) by (auto split: if_splits)
      with sep(1) l'(4) loop_inv_handlers[OF assms] show "\<exists>h. heap l' b = Some h \<and> eh_fd h = g" by auto
    next
      fix b h assume "heap l' b = Some h"
      then have b: "b \<noteq> a" "heap l b = Some h" using l'(4) by (auto split: if_splits)
      with sep(2) l'(3,5) assms show "loop_handlers l' (eh_fd h) = Some b" "b < next_addr l'"
        by (auto simp: loop_inv_def)
    qed
  qed
qed

datatype 'c loop_op = Op_Add int uint32 'c | Op_Modify int uint32 | Op_Remove int | Op_Stop

fun loop_step :: "('c, 't) event_loop \<Rightarrow> 'c loop_op \<Rightarrow> ('c, 't) event_loop" where
  "loop_step l (Op_Add f events c) = snd (EventLoop_AddFd f events (Some (Callback c)) l)"
| "loop_step l (Op_Modify f events) = snd (EventLoop_ModifyFd f events l)"
| "loop_step l (Op_Remove f) = EventLoop_RemoveFd f l"
| "loop_step l Op_Stop = EventLoop_Stop l"

lemma loop_step_inv: "loop_inv l \<Longrightarrow> loop_inv (loop_step l op)"
  by (cases op) (simp_all add: AddFd_inv ModifyFd_inv RemoveFd_inv EventLoop_Stop_def EventLoop_WakeUp_def)

lemma loop_steps_inv: "loop_inv l \<Longrightarrow> loop_inv (foldl loop_step l ops)"
  by (induction ops arbitrary: l) (simp_all add: loop_step_inv)

lemma Init_inv:
  fixes l :: "('c, 't) event_loop"
  shows "loop_inv (snd (EventLoop_Init e efd (EventLoop_new\<lparr>ctl_faults := fs\<rparr> :: ('c, 't) event_loop)))"
proof -
  have "loop_inv ((EventLoop_new :: ('c, 't) event_loop)\<lparr>ctl_faults := fs, has_poller := True, epoll_set := Map.empty, wakeup_fd := efd\<rparr>)"
    by (simp add: loop_inv_def EventLoop_new_def)
  then show ?thesis using loop_inv_new
    by (auto simp: EventLoop_Init_def Let_def AddFd_inv split: option.splits)
qed

section \<open>Properties\<close>

text \<open>
  C7. The registry is sound: after any sequence of registrations, changes and removals, with
  whatever failures of \<open>epoll_ctl\<close>, every pointer epoll holds is the live handler of its own
  descriptor, a removed descriptor is gone from epoll and from the table, and no registration is
  edge-triggered, although the connections ask for it: the poller drops the \<open>EPOLLET\<close> bit.
\<close>
theorem loop_registry_sound:
  fixes l :: "('c, 't) event_loop"
  assumes "l = foldl loop_step (snd (EventLoop_Init e efd (EventLoop_new\<lparr>ctl_faults := fs\<rparr>))) ops"
  shows "(epoll_set l f = Some (m, a) \<longrightarrow>
      (\<exists>h. heap l a = Some h \<and> eh_fd h = f \<and> loop_handlers l f = Some a) \<and> m AND EPOLLET = 0) \<and>
    (has_poller l \<longrightarrow> epoll_set (EventLoop_RemoveFd f l) f = None \<and> loop_handlers (EventLoop_RemoveFd f l) f = None)"
proof
  have inv: "loop_inv l" unfolding assms by (intro loop_steps_inv Init_inv)
  then show "epoll_set l f = Some (m, a) \<longrightarrow>
      (\<exists>h. heap l a = Some h \<and> eh_fd h = f \<and> loop_handlers l f = Some a) \<and> m AND EPOLLET = 0"
    using loop_inv_handlers by (fastforce simp: loop_inv_def)
  have "loop_handlers l f = None \<Longrightarrow> epoll_set l f = None"
    using inv by (cases "epoll_set l f") (auto simp: loop_inv_def)
  then show "has_poller l \<longrightarrow> epoll_set (EventLoop_RemoveFd f l) f = None \<and> loop_handlers (EventLoop_RemoveFd f l) f = None"
    by (auto simp: EventLoop_RemoveFd_def split: option.splits)
qed

definition two_fds :: "(nat, nat) event_loop" where
  "two_fds = foldl loop_step (snd (EventLoop_Init None 3 EventLoop_new))
     [Op_Add 5 (EPOLLIN OR EPOLLET) 0, Op_Add 6 (EPOLLIN OR EPOLLET) 1]"

lemma two_fds_value:
  "two_fds = \<lparr>has_poller = True, epoll_set = [3 \<mapsto> (1, 0), 5 \<mapsto> (1, 1), 6 \<mapsto> (1, 2)], ctl_faults = [],
     loop_handlers = [3 \<mapsto> 0, 5 \<mapsto> 1, 6 \<mapsto> 2],
     heap = [0 \<mapsto> \<lparr>eh_fd = 3, eh_events = EPOLLIN, eh_callback = Some Wakeup_Callback\<rparr>,
             1 \<mapsto> \<lparr>eh_fd = 5, eh_events = EPOLLIN OR EPOLLET, eh_callback = Some (Callback 0)\<rparr>,
             2 \<mapsto> \<lparr>eh_fd = 6, eh_events = EPOLLIN OR EPOLLET, eh_callback = Some (Callback 1)\<rparr>],
     next_addr = 3, running = False, wakeup_fd = 3, eventfd_count = 0, thread_id = None, pending_tasks = [],
      loop_thrown = None\<rparr>"
proof -
  have "epoll_mask EPOLLIN = 1" "epoll_mask (EPOLLIN OR EPOLLET) = 1" by code_simp+
  then show ?thesis
    by (simp add: two_fds_def EventLoop_Init_def EventLoop_AddFd_def poller_defs EventLoop_new_def Let_def
        numeral_2_eq_2 numeral_3_eq_3)
qed

lemma two_fds_fields:
  "heap two_fds 1 = Some \<lparr>eh_fd = 5, eh_events = EPOLLIN OR EPOLLET, eh_callback = Some (Callback 0)\<rparr>"
  "heap two_fds 2 = Some \<lparr>eh_fd = 6, eh_events = EPOLLIN OR EPOLLET, eh_callback = Some (Callback 1)\<rparr>"
  "loop_handlers two_fds 5 = Some 1" "loop_handlers two_fds 6 = Some 2"
  "epoll_set two_fds 5 = Some (1, 1)" "epoll_set two_fds 6 = Some (1, 2)" "has_poller two_fds"
  by (simp_all add: two_fds_value)

lemma two_fds_inv: "loop_inv two_fds"
  unfolding two_fds_def using Init_inv[of None 3 "[]"] by (intro loop_steps_inv) (simp add: EventLoop_new_def)

theorem loop_registry_sound_witness:
  "epoll_set two_fds 5 = Some (1, 1) \<and> (\<exists>h. heap two_fds 1 = Some h \<and> eh_fd h = 5) \<and>
    epoll_set (EventLoop_RemoveFd 5 two_fds) 5 = None"
proof -
  have "two_fds = foldl loop_step (snd (EventLoop_Init None 3 (EventLoop_new\<lparr>ctl_faults := []\<rparr>)))
      [Op_Add 5 (EPOLLIN OR EPOLLET) 0, Op_Add 6 (EPOLLIN OR EPOLLET) 1]"
    by (simp add: two_fds_def EventLoop_new_def)
  from loop_registry_sound[OF this, of 5 1 1] have
    "epoll_set two_fds 5 = Some (1, 1) \<longrightarrow> (\<exists>h. heap two_fds 1 = Some h \<and> eh_fd h = 5)"
    "has_poller two_fds \<longrightarrow> epoll_set (EventLoop_RemoveFd 5 two_fds) 5 = None" by auto
  with two_fds_fields show ?thesis by blast
qed

text \<open>
  What a callback may do to the handlers when a batch of events is to be safe: it keeps the
  registry sound and leaves every handler with another callback in place.
\<close>

definition keeps_others :: "'c callback option \<Rightarrow> ('c, 't) event_loop \<Rightarrow> ('c, 't) event_loop \<Rightarrow> bool" where
  "keeps_others cb l l' \<longleftrightarrow> loop_inv l' \<and>
     (\<forall>a h. heap l a = Some h \<longrightarrow> eh_callback h \<noteq> cb \<longrightarrow>
        (\<exists>h'. heap l' a = Some h' \<and> eh_fd h' = eh_fd h \<and> eh_callback h' = eh_callback h))"

definition run_event ::
    "('t \<Rightarrow> ('c, 't, 'w) program \<Rightarrow> ('c, 't, 'w) program) \<Rightarrow> ('c \<Rightarrow> uint32 \<Rightarrow> ('c, 't, 'w) program \<Rightarrow> ('c, 't, 'w) program) \<Rightarrow>
       ('c, 't) event_loop \<Rightarrow> ('c, 't, 'w) program \<Rightarrow> nat \<times> uint32 \<Rightarrow> ('c, 't, 'w) program" where
  "run_event task call l q ev =
     (case eh_callback (the (heap l (fst ev))) of
        None \<Rightarrow> q
      | Some Wakeup_Callback \<Rightarrow> EventLoop_HandleRead task q
      | Some (Callback c) \<Rightarrow> call c (ready_mask (snd ev)) q)"

lemma dispatch_event_live:
  assumes "loop_inv (fst q)" and "heap (fst q) a = Some h"
  shows "dispatch_event task call (a, m) q = Some (run_event task call (fst q) q (a, m))"
proof -
  have "loop_handlers (fst q) (eh_fd h) = Some a" using assms by (simp add: loop_inv_def)
  then show ?thesis using assms(2)
    by (simp add: dispatch_event_def run_event_def split: option.splits callback.splits)
qed

lemma HandleRead_keeps:
  assumes "\<And>t q. loop_inv (fst q) \<Longrightarrow> I q \<Longrightarrow> keeps_others (Some Wakeup_Callback) (fst q) (fst (task t q)) \<and> I (task t q)"
    and "\<And>l w. I (l, w) \<Longrightarrow> I (l\<lparr>eventfd_count := 0, pending_tasks := []\<rparr>, w)"
    and "loop_inv (fst q)" and "I q"
  shows "keeps_others (Some Wakeup_Callback) (fst q) (fst (EventLoop_HandleRead task q)) \<and> I (EventLoop_HandleRead task q)"
proof -
  have fold: "keeps_others (Some Wakeup_Callback) (fst q) (fst (foldl (\<lambda>q t. task t q) q ts)) \<and> I (foldl (\<lambda>q t. task t q) q ts)"
    if "loop_inv (fst q)" and "I q" for q ts
    using that
  proof (induction ts arbitrary: q)
    case Nil
    then show ?case by (simp add: keeps_others_def)
  next
    case (Cons t ts)
    have k1: "keeps_others (Some Wakeup_Callback) (fst q) (fst (task t q))" "I (task t q)" using assms(1) Cons.prems by blast+
    then have "loop_inv (fst (task t q))" by (simp add: keeps_others_def)
    from Cons.IH[OF this k1(2)] k1(1) show ?case by (fastforce simp: keeps_others_def)
  qed
  obtain l w where q: "q = (l, w)" by (cases q)
  have "loop_inv (fst (l\<lparr>eventfd_count := 0, pending_tasks := []\<rparr>, w))" using assms(3) q by simp
  moreover have "I (l\<lparr>eventfd_count := 0, pending_tasks := []\<rparr>, w)" using assms(2,4) q by blast
  ultimately show ?thesis using fold[of "(l\<lparr>eventfd_count := 0, pending_tasks := []\<rparr>, w)" "pending_tasks l"]
    by (simp add: EventLoop_HandleRead_def q keeps_others_def)
qed

lemma dispatch_all_live:
  assumes "\<And>t q. loop_inv (fst q) \<Longrightarrow> I q \<Longrightarrow> keeps_others (Some Wakeup_Callback) (fst q) (fst (task t q)) \<and> I (task t q)"
    and "\<And>c m q. loop_inv (fst q) \<Longrightarrow> I q \<Longrightarrow> keeps_others (Some (Callback c)) (fst q) (fst (call c m q)) \<and> I (call c m q)"
    and "\<And>l w. I (l, w) \<Longrightarrow> I (l\<lparr>eventfd_count := 0, pending_tasks := []\<rparr>, w)"
    and "loop_inv (fst q)" and "I q"
    and "\<forall>ev \<in> set evs. \<exists>h h0. heap (fst q) (fst ev) = Some h \<and> heap l0 (fst ev) = Some h0 \<and> eh_callback h = eh_callback h0"
    and "distinct (map (\<lambda>ev. eh_callback (the (heap (fst q) (fst ev)))) evs)"
  shows "dispatch_all task call evs q = Some (foldl (run_event task call l0) q evs)"
  using assms(4-7)
proof (induction evs arbitrary: q)
  case Nil
  then show ?case by simp
next
  case (Cons ev evs)
  obtain a m where ev: "ev = (a, m)" by (cases ev)
  obtain h h0 where h: "heap (fst q) a = Some h" "heap l0 a = Some h0" "eh_callback h = eh_callback h0"
    using Cons.prems(3) ev by auto
  let ?q = "run_event task call l0 q (a, m)"
  have step: "dispatch_event task call (a, m) q = Some ?q"
    using dispatch_event_live[OF Cons.prems(1) h(1)] h by (simp add: run_event_def)
  have keep: "keeps_others (eh_callback h) (fst q) (fst ?q) \<and> I ?q"
  proof (cases "eh_callback h")
    case None
    then show ?thesis using h Cons.prems(1,2) by (simp add: run_event_def keeps_others_def)
  next
    case (Some cb)
    then show ?thesis using h assms(2)[OF Cons.prems(1,2)] HandleRead_keeps[of I task q, OF assms(1,3) Cons.prems(1,2)]
      by (cases cb) (simp_all add: run_event_def)
  qed
  have other: "\<exists>h1 h1'. heap (fst q) (fst e) = Some h1 \<and> heap (fst ?q) (fst e) = Some h1' \<and>
      eh_callback h1' = eh_callback h1" if "e \<in> set evs" for e
  proof -
    from that Cons.prems(3) obtain h1 where h1: "heap (fst q) (fst e) = Some h1" by auto
    have "eh_callback h1 \<noteq> eh_callback h" using Cons.prems(4) that h(1) h1 ev by force
    with keep h1 show ?thesis unfolding keeps_others_def by blast
  qed
  have cbs: "map (\<lambda>ev. eh_callback (the (heap (fst ?q) (fst ev)))) evs =
      map (\<lambda>ev. eh_callback (the (heap (fst q) (fst ev)))) evs"
    using other by (intro map_cong refl) fastforce
  have "\<forall>e \<in> set evs. \<exists>h h0. heap (fst ?q) (fst e) = Some h \<and> heap l0 (fst e) = Some h0 \<and> eh_callback h = eh_callback h0"
  proof
    fix e assume e: "e \<in> set evs"
    with Cons.prems(3) obtain h1 h2 where "heap (fst q) (fst e) = Some h1" "heap l0 (fst e) = Some h2" "eh_callback h1 = eh_callback h2"
      by fastforce
    with other[OF e] show "\<exists>h h0. heap (fst ?q) (fst e) = Some h \<and> heap l0 (fst e) = Some h0 \<and> eh_callback h = eh_callback h0" by auto
  qed
  moreover have "distinct (map (\<lambda>ev. eh_callback (the (heap (fst ?q) (fst ev)))) evs)"
    using Cons.prems(4) by (simp only: cbs) simp
  moreover have "loop_inv (fst ?q)" "I ?q" using keep by (simp_all add: keeps_others_def)
  ultimately have "dispatch_all task call evs ?q = Some (foldl (run_event task call l0) ?q evs)"
    using Cons.IH by blast
  with step ev show ?case by simp
qed

text \<open>
  C20. A batch of events is dispatched safely and completely when each callback leaves the other
  descriptors' handlers in place (\<open>I\<close> is whatever the program maintains to ensure that): no freed
  handler is read, and every event of the batch runs the callback registered for its descriptor,
  once, in the order epoll reported them, even when a callback removes its own descriptor.
\<close>
theorem dispatch_complete:
  assumes "loop_inv (fst q)" and "I q"
    and "\<And>t q. loop_inv (fst q) \<Longrightarrow> I q \<Longrightarrow> keeps_others (Some Wakeup_Callback) (fst q) (fst (task t q)) \<and> I (task t q)"
    and "\<And>c m q. loop_inv (fst q) \<Longrightarrow> I q \<Longrightarrow> keeps_others (Some (Callback c)) (fst q) (fst (call c m q)) \<and> I (call c m q)"
    and "\<And>l w. I (l, w) \<Longrightarrow> I (l\<lparr>eventfd_count := 0, pending_tasks := []\<rparr>, w)"
    and "\<forall>ev \<in> set evs. heap (fst q) (fst ev) \<noteq> None"
    and "distinct (map (\<lambda>ev. eh_callback (the (heap (fst q) (fst ev)))) evs)"
  shows "dispatch_all task call evs q = Some (foldl (run_event task call (fst q)) q evs)"
proof -
  have "\<forall>ev \<in> set evs. \<exists>h h0. heap (fst q) (fst ev) = Some h \<and> heap (fst q) (fst ev) = Some h0 \<and> eh_callback h = eh_callback h0"
    using assms(6) by auto
  from dispatch_all_live[where I = I, OF assms(3,4,5,1,2) this assms(7)] show ?thesis .
qed

text \<open>Connection callbacks that remove their own descriptor when the peer hangs up.\<close>

definition close_self :: "nat \<Rightarrow> uint32 \<Rightarrow> (nat, nat, nat list) program \<Rightarrow> (nat, nat, nat list) program" where
  "close_self c m q = (EventLoop_RemoveFd (5 + int c) (fst q), snd q @ [c])"

definition log_task :: "nat \<Rightarrow> (nat, nat, nat list) program \<Rightarrow> (nat, nat, nat list) program" where
  "log_task t q = (fst q, snd q @ [t])"

definition own_fd :: "(nat, nat, nat list) program \<Rightarrow> bool" where
  "own_fd q \<longleftrightarrow> (\<forall>a h. heap (fst q) a = Some h \<longrightarrow>
     (eh_callback h = Some Wakeup_Callback \<and> eh_fd h = 3) \<or>
     (\<exists>c. eh_callback h = Some (Callback c) \<and> eh_fd h = 5 + int c))"

lemma close_self_keeps:
  assumes "loop_inv (fst q)" and "own_fd q"
  shows "keeps_others (Some (Callback c)) (fst q) (fst (close_self c m q)) \<and> own_fd (close_self c m q)"
proof -
  define l' where "l' = EventLoop_RemoveFd (5 + int c) (fst q)"
  have inv: "loop_inv l'" unfolding l'_def by (rule RemoveFd_inv[OF assms(1)])
  from RemoveFd_fields[OF l'_def]
  have heap: "heap l' b = heap (fst q) b \<or>
      (heap l' b = None \<and> (\<exists>h. heap (fst q) b = Some h \<and> eh_fd h = 5 + int c))" for b
    using loop_inv_handlers[OF assms(1), of "5 + int c"] by (elim disjE exE conjE) auto
  have "own_fd (l', snd q @ [c])"
    unfolding own_fd_def
  proof (intro allI impI)
    fix a h assume "heap (fst (l', snd q @ [c])) a = Some h"
    then have "heap (fst q) a = Some h" using heap[of a] by auto
    with assms(2) show "(eh_callback h = Some Wakeup_Callback \<and> eh_fd h = 3) \<or>
        (\<exists>c. eh_callback h = Some (Callback c) \<and> eh_fd h = 5 + int c)" by (simp add: own_fd_def)
  qed
  moreover have "keeps_others (Some (Callback c)) (fst q) l'"
    unfolding keeps_others_def
  proof (intro conjI allI impI inv)
    fix a h assume h: "heap (fst q) a = Some h" "eh_callback h \<noteq> Some (Callback c)"
    then have "eh_fd h \<noteq> 5 + int c" using assms(2) by (fastforce simp: own_fd_def)
    with h(1) heap[of a] show "\<exists>h'. heap l' a = Some h' \<and> eh_fd h' = eh_fd h \<and> eh_callback h' = eh_callback h" by auto
  qed
  ultimately show ?thesis by (simp add: close_self_def l'_def)
qed

lemma log_task_keeps:
  "loop_inv (fst q) \<Longrightarrow> own_fd q \<Longrightarrow> keeps_others cb (fst q) (fst (log_task t q)) \<and> own_fd (log_task t q)"
  by (simp add: keeps_others_def own_fd_def log_task_def)

lemma own_fd_drain: "own_fd (l, w) \<Longrightarrow> own_fd (l\<lparr>eventfd_count := 0, pending_tasks := []\<rparr>, w)"
  by (simp add: own_fd_def)

theorem dispatch_complete_witness:
  "dispatch_all log_task close_self [(1, 1), (2, 0x10)] (two_fds, []) =
     Some (EventLoop_RemoveFd 6 (EventLoop_RemoveFd 5 two_fds), [0, 1])"
proof -
  have own: "own_fd (two_fds, [])" by (auto simp: own_fd_def two_fds_value)
  have "dispatch_all log_task close_self [(1, 1), (2, 0x10)] (two_fds, []) =
      Some (foldl (run_event log_task close_self two_fds) (two_fds, []) [(1, 1), (2, 0x10)])"
  proof (rule dispatch_complete[where q = "(two_fds, [])" and I = own_fd, unfolded fst_conv])
    show "\<forall>ev \<in> set [(1, 1), (2, 0x10)]. heap two_fds (fst ev) \<noteq> None"
      by (simp add: two_fds_fields del: One_nat_def)
    show "distinct (map (\<lambda>ev. eh_callback (the (heap two_fds (fst ev)))) [(1, 1), (2, 0x10)])"
      by (simp add: two_fds_fields del: One_nat_def)
  qed (use two_fds_inv own close_self_keeps log_task_keeps own_fd_drain in simp_all)
  also have "foldl (run_event log_task close_self two_fds) (two_fds, []) [(1, 1), (2, 0x10)] =
      (EventLoop_RemoveFd 6 (EventLoop_RemoveFd 5 two_fds), [0, 1])"
    by (simp add: run_event_def close_self_def two_fds_fields del: One_nat_def)
  finally show ?thesis .
qed

text \<open>
  Without that condition the loop reads freed memory: when a callback removes the descriptor
  of an event that comes later in the same batch, the loop follows that event's raw pointer to the
  handler object, which the removal has deleted.
\<close>
theorem dispatch_use_after_free:
  assumes "loop_inv l" and "loop_handlers l f1 = Some a1" and "loop_handlers l f2 = Some a2" and "f1 \<noteq> f2"
    and "has_poller l" and "eh_callback (the (heap l a1)) = Some (Callback c)"
    and "\<And>m q. call c m q = (EventLoop_RemoveFd f2 (fst q), snd q)"
  shows "dispatch_all task call [(a1, m1), (a2, m2)] (l, w) = None"
proof -
  obtain h1 where h1: "heap l a1 = Some h1" "eh_fd h1 = f1"
    using loop_inv_handlers[OF assms(1,2)] by blast
  have "dispatch_event task call (a1, m1) (l, w) = Some (EventLoop_RemoveFd f2 l, w)"
    using dispatch_event_live[of "(l, w)"] assms(1,6,7) h1 by (simp add: run_event_def)
  moreover have "heap (EventLoop_RemoveFd f2 l) a2 = None"
    using assms(3,5) by (simp add: EventLoop_RemoveFd_def Let_def)
  ultimately show ?thesis by (simp add: dispatch_event_def)
qed

theorem dispatch_use_after_free_witness:
  "dispatch_all log_task (\<lambda>c m q. (EventLoop_RemoveFd 6 (fst q), snd q)) [(1, 1), (2, 1)] (two_fds, []) = None"
  by (rule dispatch_use_after_free[of two_fds 5 1 6 2 0]) (simp_all add: two_fds_fields two_fds_inv del: One_nat_def)

text \<open>
  Tasks that record themselves and queue further tasks (\<open>children\<close>) when they run; the world is the
  log of executed tasks and the sequence of all tasks that were ever queued.
\<close>

definition queue_task :: "'t \<Rightarrow> ('c, 't, 't list \<times> 't list) program \<Rightarrow> ('c, 't, 't list \<times> 't list) program" where
  "queue_task t q = (EventLoop_QueueInLoop t (fst q), fst (snd q), snd (snd q) @ [t])"

definition spawning :: "('t \<Rightarrow> 't list) \<Rightarrow> 't \<Rightarrow> ('c, 't, 't list \<times> 't list) program \<Rightarrow> ('c, 't, 't list \<times> 't list) program" where
  "spawning children t q = foldl (\<lambda>q t. queue_task t q) (fst q, fst (snd q) @ [t], snd (snd q)) (children t)"

datatype 't task_op = Submit 't | Wakeup_Ready

fun task_step ::
    "('t \<Rightarrow> 't list) \<Rightarrow> ('c, 't, 't list \<times> 't list) program \<Rightarrow> 't task_op \<Rightarrow> ('c, 't, 't list \<times> 't list) program" where
  "task_step children q (Submit t) = queue_task t q"
| "task_step children q Wakeup_Ready =
     (if 0 < eventfd_count (fst q) then EventLoop_HandleRead (spawning children) q else q)"

definition tasks_inv :: "'t list \<Rightarrow> ('c, 't, 't list \<times> 't list) program \<Rightarrow> bool" where
  "tasks_inv todo q \<longleftrightarrow> fst (snd q) @ todo @ pending_tasks (fst q) = snd (snd q) \<and>
     (pending_tasks (fst q) \<noteq> [] \<longrightarrow> 0 < eventfd_count (fst q))"

lemma queue_task_inv: "tasks_inv todo q \<Longrightarrow> tasks_inv todo (queue_task t q)"
  by (auto simp: tasks_inv_def queue_task_def EventLoop_QueueInLoop_def EventLoop_WakeUp_def)

lemma queue_tasks_inv: "tasks_inv todo q \<Longrightarrow> tasks_inv todo (foldl (\<lambda>q t. queue_task t q) q ts)"
  by (induction ts arbitrary: q) (simp_all add: queue_task_inv)

lemma spawning_inv: "tasks_inv (t # todo) q \<Longrightarrow> tasks_inv todo (spawning children t q)"
  unfolding spawning_def by (rule queue_tasks_inv) (auto simp: tasks_inv_def)

lemma spawning_all_inv: "tasks_inv ts q \<Longrightarrow> tasks_inv [] (foldl (\<lambda>q t. spawning children t q) q ts)"
  by (induction ts arbitrary: q) (simp_all add: spawning_inv)

lemma HandleRead_tasks: "tasks_inv [] q \<Longrightarrow> tasks_inv [] (EventLoop_HandleRead (spawning children) q)"
  unfolding EventLoop_HandleRead_def by (cases q) (auto simp: tasks_inv_def[of "pending_tasks _"] tasks_inv_def[of "[]" "(_, _)"] intro!: spawning_all_inv)

lemma task_step_inv: "tasks_inv [] q \<Longrightarrow> tasks_inv [] (task_step children q op)"
  by (cases op) (simp_all add: queue_task_inv HandleRead_tasks)


text \<open>
  No task is lost and none overtakes another: whatever mix of submissions (from any thread, also
  by running tasks) and wakeups has happened, the tasks executed so far followed by those pending
  are exactly the tasks queued, in the order of queueing; and while any is pending the wakeup
  descriptor is readable, so the loop comes back for it.
\<close>
theorem queued_tasks_fifo:
  assumes "pending_tasks l = []"
  shows "\<exists>l' done queued. foldl (task_step children) (l, [], []) ops = (l', done, queued) \<and>
    done @ pending_tasks l' = queued \<and> (pending_tasks l' \<noteq> [] \<longrightarrow> 0 < eventfd_count l')"
proof -
  have "tasks_inv [] (foldl (task_step children) q ops)" if "tasks_inv [] q" for q
    using that by (induction ops arbitrary: q) (simp_all add: task_step_inv)
  moreover have "tasks_inv [] (l, [], [])" using assms by (simp add: tasks_inv_def)
  ultimately have "tasks_inv [] (foldl (task_step children) (l, [], []) ops)" by blast
  then show ?thesis by (cases "foldl (task_step children) (l, [], []) ops") (auto simp: tasks_inv_def)
qed

theorem queued_tasks_fifo_witness:
  "\<exists>l' done queued. foldl (task_step (\<lambda>t. if t < 10 then [t + 10] else [])) (EventLoop_new :: (nat, nat) event_loop, [], [])
      [Submit 1, Submit 2, Wakeup_Ready, Submit 3] = (l', done, queued) \<and> done @ pending_tasks l' = queued"
  using queued_tasks_fifo[of "EventLoop_new :: (nat, nat) event_loop" "\<lambda>t. if t < 10 then [t + 10] else []"
      "[Submit 1, Submit 2, Wakeup_Ready, Submit 3]"]
  by (auto simp: EventLoop_new_def)

text \<open>
  A \<open>Stop\<close> that comes before \<open>Run\<close> is lost: \<open>Run\<close> sets the flag again, so that the loop is
  still running after the wakeup that \<open>Stop\<close> left behind.
\<close>
theorem stop_before_run_lost:
  assumes "loop_inv l" and "epoll_set l f = Some (m, a)" and "eh_callback (the (heap l a)) = Some Wakeup_Callback"
    and "has_poller l" and "pending_tasks l = []"
  shows "\<exists>l'. EventLoop_Run task call self [Ready [(f, 1)]] (EventLoop_Stop l, w) = Some (False, l', w) \<and> running l'"
proof -
  let ?l = "(EventLoop_Stop l)\<lparr>thread_id := Some self, running := True\<rparr>"
  obtain h where h: "heap l a = Some h" using assms(1,2) loop_inv_handlers by (fastforce simp: loop_inv_def)
  have inv: "loop_inv ?l" using assms(1) by (simp add: EventLoop_Stop_def EventLoop_WakeUp_def)
  have h': "heap ?l a = Some h" "epoll_set ?l f = Some (m, a)" "pending_tasks ?l = []"
    using h assms(2,5) by (simp_all add: EventLoop_Stop_def EventLoop_WakeUp_def)
  have "dispatch_event task call (a, ready_mask 1) (?l, w) =
      Some (?l\<lparr>eventfd_count := 0, pending_tasks := []\<rparr>, w)"
    using dispatch_event_live[of "(?l, w)" a h] inv h' h assms(3)
    by (simp add: run_event_def EventLoop_HandleRead_def)
  with h'(2) assms(4) show ?thesis
    by (simp add: EventLoop_Run_def EpollPoller_Poll_def kMaxEvents_def EventLoop_Stop_def EventLoop_WakeUp_def)
qed

theorem stop_before_run_lost_witness:
  "\<exists>l'. EventLoop_Run log_task close_self 7 [Ready [(3, 1)]] (EventLoop_Stop two_fds, []) = Some (False, l', []) \<and> running l'"
  by (rule stop_before_run_lost[OF two_fds_inv, where m = 1 and a = 0]) (simp_all add: two_fds_value)

section \<open>Registration without failures\<close>

text \<open>The callback a descriptor is registered with.\<close>

definition callback_of :: "('c, 't) event_loop \<Rightarrow> int \<Rightarrow> 'c callback option" where
  "callback_of l f =
     (case loop_handlers l f of
        None \<Rightarrow> None
      | Some a \<Rightarrow> (case heap l a of None \<Rightarrow> None | Some h \<Rightarrow> eh_callback h))"

text \<open>A loop in order, with no failure of the poller to come.\<close>

definition loop_ok :: "('c, 't) event_loop \<Rightarrow> bool" where
  "loop_ok l \<longleftrightarrow> loop_inv l \<and> has_poller l \<and> ctl_faults l = [] \<and> dom (epoll_set l) = dom (loop_handlers l)"

lemma AddFd_ok:
  assumes "loop_ok l" and "loop_handlers l f = None"
  shows "\<exists>l'. EventLoop_AddFd f events cb l = (Inr (), l') \<and> loop_ok l' \<and>
    callback_of l' = (callback_of l)(f := cb) \<and> dom (loop_handlers l') = insert f (dom (loop_handlers l)) \<and>
    epoll_set l' = (epoll_set l)(f \<mapsto> (epoll_mask events, next_addr l)) \<and> loop_thrown l' = loop_thrown l"
proof -
  have e: "epoll_set l f = None" using assms by (auto simp: loop_ok_def domIff)
  define l' where "l' = snd (EventLoop_AddFd f events cb l)"
  have a: "EventLoop_AddFd f events cb l = (Inr (), l')"
    "epoll_set l' = (epoll_set l)(f \<mapsto> (epoll_mask events, next_addr l))"
    "loop_handlers l' = (loop_handlers l)(f \<mapsto> next_addr l)"
    "heap l' = (heap l)(next_addr l \<mapsto> \<lparr>eh_fd = f, eh_events = events, eh_callback = cb\<rparr>)"
    "has_poller l'" "ctl_faults l' = []" "loop_thrown l' = loop_thrown l"
    using assms e by (simp_all add: l'_def loop_ok_def EventLoop_AddFd_def poller_defs result_defs Let_def)
  have inv: "loop_inv l'" using AddFd_inv[of l f events cb] assms(1) by (simp add: l'_def loop_ok_def)
  have "loop_handlers l g \<noteq> Some (next_addr l)" for g
    using loop_inv_handlers[of l g "next_addr l"] assms(1) unfolding loop_ok_def loop_inv_def by fastforce
  then have "callback_of l' g = ((callback_of l)(f := cb)) g" for g
    by (auto simp: callback_of_def a(3,4) split: option.splits)
  with a inv assms(1) show ?thesis by (auto simp: loop_ok_def)
qed

end
