(* ===== verification/Reactor.thy ===== *)
theory Reactor
  imports Event_Loop Session "HOL-Library.AList"
begin

text \<open>
  \<open>Reactor\<close> with the \<open>Socket\<close> functions it uses: registration of listening sockets, the accept loop
  with its admission check, the per-connection callback and the datagram callback, running inside
  the event loop.  Connections are objects in a heap, shared by \<open>connections_\<close> and by the
  callbacks that capture them.  What the operations of a connection ask of the loop and of the
  disconnect callback is in the connection's trace and is replayed here.  Results of system calls
  (accepted sockets, reads, datagrams) are scripts of the state; a protocol handler is a parameter,
  a function on its own state and the connection.
\<close>

section \<open>Sockets\<close>

text \<open>Each function with the results of the system calls it makes; the list is the descriptors it closes.\<close>

definition Socket_SetNonBlocking :: "int \<Rightarrow> int \<Rightarrow> unit result" where
  "Socket_SetNonBlocking getfl setfl =
     (if getfl = -1 then Result_Failure kInternal ''fcntl F_GETFL failed''
      else if setfl = -1 then Result_Failure kInternal ''fcntl F_SETFL failed''
      else Result_Success ())"

definition Socket_CreateNonBlocking :: "int \<Rightarrow> int \<Rightarrow> int \<Rightarrow> int \<Rightarrow> int result \<times> int list" where
  "Socket_CreateNonBlocking sock setopt getfl setfl =
     (if sock = -1 then (Result_Failure kInternal ''Failed to create socket'', [])
      else if setopt \<noteq> 0 then (Result_Failure kInternal ''setsockopt failed'', [sock])
      else
        (case Socket_SetNonBlocking getfl setfl of
           Inl e \<Rightarrow> (Inl e, [sock])
         | Inr _ \<Rightarrow> (Result_Success sock, [])))"

text \<open>The option name passed to \<open>setsockopt\<close>: two names combined as if they were flags.\<close>

definition SO_REUSEADDR :: uint32 where "SO_REUSEADDR = 2"
definition SO_REUSEPORT :: uint32 where "SO_REUSEPORT = 15"

definition socket_option :: uint32 where
  "socket_option = SO_REUSEADDR OR SO_REUSEPORT"

text \<open>
  The port an address names: \<open>htons\<close> keeps the low 16 bits of the number.  \<open>Bind\<close> asks for that port on all
  interfaces, and what \<open>bind\<close> returns is given for every port.
\<close>

definition sin_port :: "int \<Rightarrow> uint16" where
  "sin_port port = word_of_int port"

definition Socket_Bind :: "(uint16 \<Rightarrow> int) \<Rightarrow> int \<Rightarrow> unit result" where
  "Socket_Bind bind_result port =
     (if bind_result (sin_port port) < 0 then Result_Failure kConnectionFailed ''Bind failed'' else Result_Success ())"

definition UdpSocket_Bind :: "(uint16 \<Rightarrow> int) \<Rightarrow> int \<Rightarrow> unit result" where
  "UdpSocket_Bind bind_result port =
     (if bind_result (sin_port port) < 0 then Result_Failure kConnectionFailed ''UDP Bind failed'' else Result_Success ())"

definition Socket_Listen :: "int \<Rightarrow> unit result" where
  "Socket_Listen r = (if r < 0 then Result_Failure kInternal ''Listen failed'' else Result_Success ())"

definition Socket_Accept :: "int \<Rightarrow> bool \<Rightarrow> int result" where
  "Socket_Accept r again =
     (if r < 0 then
        (if again then Result_Failure kUnavailable ''No pending connections''
         else Result_Failure kConnectionFailed ''Accept failed'')
      else Result_Success r)"

section \<open>State\<close>

text \<open>A socket \<open>accept4\<close> returns, its peer's address, and what the kernel and OpenSSL will do on it.\<close>

record incoming =
  in_fd :: int
  in_ip :: string
  in_ssl :: bool
  in_handshakes :: "handshake_result list"
  in_reads :: "read_result list"
  in_writes :: "(nat \<times> io_cause) list"

text \<open>What \<open>UdpSocket::RecvFrom\<close> returns: bytes, source address and port; nothing read is no bytes.\<close>

type_synonym datagram = "(bytes \<times> string \<times> int) result"

text \<open>
  The callbacks and tasks the reactor and its connections give to the loop.  Of the kernel's side the
  state has the descriptors closed by the reactor, the port each is bound to, and those listening.
\<close>

datatype reactor_cb = Accept_Cb nat int | Client_Cb nat nat | Udp_Cb nat int
datatype reactor_task = Send_Task nat bytes

record 'w reactor =
  rx_ddos :: "ddos option"
  rx_tls :: "nat option"
  rx_connections :: "(int \<times> nat) list"
  rx_objects :: "nat \<rightharpoonup> connection"
  rx_next :: nat
  rx_pool :: "vec list"
  rx_gauge :: "uint64 option"
  rx_accepts :: "int \<Rightarrow> incoming list"
  rx_reads :: "nat \<Rightarrow> read_result list list"
  rx_datagrams :: "int \<Rightarrow> datagram list"
  rx_closed :: "int list"
  rx_bound :: "int \<rightharpoonup> uint16"
  rx_listening :: "int list"
  rx_world :: 'w

type_synonym 'w rx_program = "(reactor_cb, reactor_task, 'w reactor) program"

text \<open>
  The protocol handlers, by number: \<open>OnConnection\<close>, \<open>OnMessage\<close> and \<open>OnPacket\<close>, the last with the exception
  it may leave with.
\<close>

record 'w handlers =
  on_connection :: "nat \<Rightarrow> 'w \<times> connection \<Rightarrow> 'w \<times> connection"
  on_message :: "nat \<Rightarrow> 'w \<times> connection \<Rightarrow> 'w \<times> connection"
  on_packet :: "nat \<Rightarrow> int \<Rightarrow> bytes \<Rightarrow> string \<Rightarrow> int \<Rightarrow> 'w \<Rightarrow> exn option \<times> 'w"

definition Reactor_new :: "'w \<Rightarrow> 'w reactor" where
  "Reactor_new w =
     \<lparr>rx_ddos = Some (DdosProtection_new ddos_config_default), rx_tls = None, rx_connections = [], rx_objects = Map.empty,
      rx_next = 0, rx_pool = [], rx_gauge = None, rx_accepts = (\<lambda>_. []), rx_reads = (\<lambda>_. []), rx_datagrams = (\<lambda>_. []),
      rx_closed = [], rx_bound = Map.empty, rx_listening = [], rx_world = w\<rparr>"

definition Reactor_SetDdosConfig :: "ddos_config \<Rightarrow> 'w reactor \<Rightarrow> 'w reactor" where
  "Reactor_SetDdosConfig cfg r = r\<lparr>rx_ddos := Some (DdosProtection_new cfg)\<rparr>"

section \<open>Connections inside the loop\<close>

text \<open>The disconnect callback: \<open>size() - 1\<close> wraps at zero, and the key is what \<open>Fd()\<close> returns then.\<close>

definition on_disconnect :: "int \<Rightarrow> 'w reactor \<Rightarrow> 'w reactor" where
  "on_disconnect f r =
     r\<lparr>rx_gauge := Some (of_nat (length (rx_connections r)) - 1), rx_connections := AList.delete f (rx_connections r)\<rparr>"

fun apply_act :: "nat \<Rightarrow> act \<Rightarrow> 'w rx_program \<Rightarrow> 'w rx_program" where
  "apply_act cid (Loop_Modify f m) (l, r) = (snd (EventLoop_ModifyFd f m l), r)"
| "apply_act cid (Loop_Remove f) (l, r) = (EventLoop_RemoveFd f l, r)"
| "apply_act cid (Loop_Queue data) (l, r) = (EventLoop_QueueInLoop (Send_Task cid data) l, r)"
| "apply_act cid (Cb_Disconnect f) (l, r) = (l, on_disconnect f r)"
| "apply_act cid _ (l, r) = (l, r)"

definition apply_acts :: "nat \<Rightarrow> act list \<Rightarrow> 'w rx_program \<Rightarrow> 'w rx_program" where
  "apply_acts cid acts q = foldl (\<lambda>q a. apply_act cid a q) q acts"

definition set_object :: "nat \<Rightarrow> connection \<Rightarrow> 'w reactor \<Rightarrow> 'w reactor" where
  "set_object cid c r = r\<lparr>rx_objects := (rx_objects r)(cid \<mapsto> c)\<rparr>"

text \<open>An operation of a connection object, and one of a handler with a connection.\<close>

definition on_object :: "nat \<Rightarrow> (connection \<Rightarrow> connection) \<Rightarrow> 'w rx_program \<Rightarrow> 'w rx_program" where
  "on_object cid f q =
     (case rx_objects (snd q) cid of
        None \<Rightarrow> q
      | Some c \<Rightarrow>
          (let c' = f c
           in apply_acts cid (drop (length (trace c)) (trace c')) (fst q, set_object cid c' (snd q))))"

definition on_handler :: "nat \<Rightarrow> ('w \<times> connection \<Rightarrow> 'w \<times> connection) \<Rightarrow> 'w rx_program \<Rightarrow> 'w rx_program" where
  "on_handler cid h q =
     (case rx_objects (snd q) cid of
        None \<Rightarrow> q
      | Some c \<Rightarrow>
          (case h (rx_world (snd q), c) of
             (w', c') \<Rightarrow>
               apply_acts cid (drop (length (trace c)) (trace c')) (fst q, set_object cid c' ((snd q)\<lparr>rx_world := w'\<rparr>))))"

definition Connection_IsConnected :: "connection \<Rightarrow> bool" where
  "Connection_IsConnected c \<longleftrightarrow> conn_state c = kConnected"

definition object_connected :: "nat \<Rightarrow> 'w rx_program \<Rightarrow> bool" where
  "object_connected cid q = (case rx_objects (snd q) cid of None \<Rightarrow> False | Some c \<Rightarrow> Connection_IsConnected c)"

definition object_handshaking :: "nat \<Rightarrow> 'w rx_program \<Rightarrow> bool" where
  "object_handshaking cid q = (case rx_objects (snd q) cid of None \<Rightarrow> False | Some c \<Rightarrow> conn_state c = kHandshaking)"

text \<open>What the reads of the next \<open>HandleRead\<close> return.\<close>

definition next_reads :: "nat \<Rightarrow> 'w reactor \<Rightarrow> read_result list \<times> 'w reactor" where
  "next_reads cid r =
     (case rx_reads r cid of [] \<Rightarrow> ([], r) | rs # rest \<Rightarrow> (rs, r\<lparr>rx_reads := (rx_reads r)(cid := rest)\<rparr>))"

text \<open>The callback of a connection, one definition per event bit.\<close>

definition client_readable :: "'w handlers \<Rightarrow> nat \<Rightarrow> nat \<Rightarrow> 'w rx_program \<Rightarrow> 'w rx_program" where
  "client_readable ps hid cid q =
     (case next_reads cid (snd q) of
        (rds, r) \<Rightarrow>
          (let q' = on_object cid (Connection_HandleRead None rds) (fst q, r)
           in if object_connected cid q' then on_handler cid (on_message ps hid) q' else q'))"

definition client_writable :: "nat \<Rightarrow> 'w rx_program \<Rightarrow> 'w rx_program" where
  "client_writable cid q =
     (case (if object_handshaking cid q then next_reads cid (snd q) else ([], snd q)) of
        (rds, r) \<Rightarrow> on_object cid (Connection_HandleWrite False None rds) (fst q, r))"

definition client_event :: "'w handlers \<Rightarrow> nat \<Rightarrow> nat \<Rightarrow> uint32 \<Rightarrow> 'w rx_program \<Rightarrow> 'w rx_program" where
  "client_event ps hid cid events q =
     (let q1 = (if events AND EPOLLIN \<noteq> 0 then client_readable ps hid cid q else q);
          q2 = (if events AND EPOLLOUT \<noteq> 0 then client_writable cid q1 else q1)
      in if events AND (EPOLLHUP OR EPOLLERR) \<noteq> 0 then on_object cid Connection_HandleClose q2 else q2)"

section \<open>Accepting\<close>

definition admit :: "string \<Rightarrow> 'w reactor \<Rightarrow> bool \<times> 'w reactor" where
  "admit ip r =
     (case rx_ddos r of
        None \<Rightarrow> (True, r)
      | Some d \<Rightarrow> (case DdosProtection_AllowConnection ip d of (ok, d') \<Rightarrow> (ok, r\<lparr>rx_ddos := Some d'\<rparr>)))"

text \<open>A new connection object, marked connected; TLS is started when the reactor has a context.\<close>

definition new_object :: "incoming \<Rightarrow> 'w rx_program \<Rightarrow> 'w rx_program" where
  "new_object i q =
     (case q of (l, r) \<Rightarrow>
        (let cid = rx_next r;
             (p1, ib) = Buffer_new (rx_pool r) 1024;
             (p2, ob) = Buffer_new p1 1024;
             c = (Connection_SetConnected (Connection_new (in_fd i) ib ob))
                   \<lparr>wr_script := in_writes i, hs_script := in_handshakes i\<rparr>;
             r1 = set_object cid c (r\<lparr>rx_next := Suc cid, rx_pool := p2\<rparr>)
         in if rx_tls r \<noteq> None \<and> in_ssl i
            then on_object cid (Connection_SetSsl None (in_reads i)) (l, r1) else (l, r1)))"

definition install_connection :: "'w handlers \<Rightarrow> nat \<Rightarrow> incoming \<Rightarrow> nat \<Rightarrow> 'w rx_program \<Rightarrow> 'w rx_program" where
  "install_connection ps hid i cid q =
     (case q of (l, r) \<Rightarrow>
        (let r1 = r\<lparr>rx_connections := AList.update (in_fd i) cid (rx_connections r)\<rparr>;
             q1 = on_object cid (\<lambda>c. c\<lparr>has_disconnect_cb := True\<rparr>) (l, r1);
             q2 = (fst q1, (snd q1)\<lparr>rx_gauge := Some (of_nat (length (rx_connections (snd q1))))\<rparr>);
             q3 = on_handler cid (on_connection ps hid) q2
         in (snd (EventLoop_AddFd (in_fd i) (EPOLLIN OR EPOLLET) (Some (Callback (Client_Cb hid cid))) (fst q3)), snd q3)))"

definition accept_one :: "'w handlers \<Rightarrow> nat \<Rightarrow> incoming \<Rightarrow> 'w rx_program \<Rightarrow> 'w rx_program" where
  "accept_one ps hid i q =
     (case admit (in_ip i) (snd q) of
        (False, r) \<Rightarrow> (fst q, r\<lparr>rx_closed := rx_closed r @ [in_fd i]\<rparr>)
      | (True, r) \<Rightarrow> install_connection ps hid i (rx_next r) (new_object i (fst q, r)))"

definition accept_event :: "'w handlers \<Rightarrow> nat \<Rightarrow> int \<Rightarrow> uint32 \<Rightarrow> 'w rx_program \<Rightarrow> 'w rx_program" where
  "accept_event ps hid server_fd events q =
     (if events AND EPOLLIN \<noteq> 0 then
        foldl (\<lambda>q i. accept_one ps hid i q)
          (fst q, (snd q)\<lparr>rx_accepts := (rx_accepts (snd q))(server_fd := [])\<rparr>) (rx_accepts (snd q) server_fd)
      else q)"

section \<open>Datagrams\<close>

text \<open>An exception of a handler leaves the loop with the datagrams behind it unread, and ends the process.\<close>

fun udp_packets :: "'w handlers \<Rightarrow> nat \<Rightarrow> int \<Rightarrow> datagram list \<Rightarrow> 'w \<Rightarrow> exn option \<times> datagram list \<times> 'w" where
  "udp_packets ps hid f [] w = (None, [], w)"
| "udp_packets ps hid f (d # ds) w =
     (case d of
        Inl _ \<Rightarrow> (None, ds, w)
      | Inr (data, ip, port) \<Rightarrow>
          if data = [] then (None, ds, w)
          else (case on_packet ps hid f data ip port w of
                  (Some e, w') \<Rightarrow> (Some e, ds, w')
                | (None, w') \<Rightarrow> udp_packets ps hid f ds w'))"

definition udp_event :: "'w handlers \<Rightarrow> nat \<Rightarrow> int \<Rightarrow> uint32 \<Rightarrow> 'w rx_program \<Rightarrow> 'w rx_program" where
  "udp_event ps hid f events q =
     (if events AND EPOLLIN \<noteq> 0 then
        (case udp_packets ps hid f (rx_datagrams (snd q) f) (rx_world (snd q)) of
           (e, ds, w) \<Rightarrow>
             ((fst q)\<lparr>loop_thrown := e\<rparr>,
              (snd q)\<lparr>rx_datagrams := (rx_datagrams (snd q))(f := ds), rx_world := w\<rparr>))
      else q)"

section \<open>The reactor's callbacks and registration\<close>

fun reactor_event :: "'w handlers \<Rightarrow> reactor_cb \<Rightarrow> uint32 \<Rightarrow> 'w rx_program \<Rightarrow> 'w rx_program" where
  "reactor_event ps (Accept_Cb hid f) events q = accept_event ps hid f events q"
| "reactor_event ps (Client_Cb hid cid) events q = client_event ps hid cid events q"
| "reactor_event ps (Udp_Cb hid f) events q = udp_event ps hid f events q"

text \<open>After an exception has left the loop the process is gone: no callback and no task runs.\<close>

definition reactor_call :: "'w handlers \<Rightarrow> reactor_cb \<Rightarrow> uint32 \<Rightarrow> 'w rx_program \<Rightarrow> 'w rx_program" where
  "reactor_call ps cb events q = (if loop_thrown (fst q) \<noteq> None then q else reactor_event ps cb events q)"

fun run_task :: "reactor_task \<Rightarrow> 'w rx_program \<Rightarrow> 'w rx_program" where
  "run_task (Send_Task cid data) q =
     (if loop_thrown (fst q) \<noteq> None then q else on_object cid (Connection_Send data) q)"

text \<open>
  \<open>RegisterServer\<close>, given what making the socket returns, \<open>bind\<close> for every port, and \<open>listen\<close>; the
  context replaces the reactor's own.
\<close>

definition close_socket :: "int \<Rightarrow> 'w reactor \<Rightarrow> 'w reactor" where
  "close_socket f r = r\<lparr>rx_closed := rx_closed r @ [f], rx_bound := (rx_bound r)(f := None)\<rparr>"

definition Reactor_RegisterServer ::
    "nat \<Rightarrow> int \<Rightarrow> nat option \<Rightarrow> int result \<Rightarrow> (uint16 \<Rightarrow> int) \<Rightarrow> int \<Rightarrow> 'w rx_program \<Rightarrow> unit result \<times> 'w rx_program" where
  "Reactor_RegisterServer hid port tls sock bind_result listen_result q =
     (case q of (l, r) \<Rightarrow>
        (let r1 = r\<lparr>rx_tls := tls\<rparr>
         in case sock of
              Inl e \<Rightarrow> (Inl e, l, r1)
            | Inr f \<Rightarrow>
                (case Socket_Bind bind_result port of
                   Inl e \<Rightarrow> (Inl e, l, close_socket f r1)
                 | Inr _ \<Rightarrow>
                     (let r2 = r1\<lparr>rx_bound := (rx_bound r1)(f \<mapsto> sin_port port)\<rparr>
                      in case Socket_Listen listen_result of
                           Inl e \<Rightarrow> (Inl e, l, close_socket f r2)
                         | Inr _ \<Rightarrow>
                             (case EventLoop_AddFd f EPOLLIN (Some (Callback (Accept_Cb hid f))) l of
                                (res, l1) \<Rightarrow> (res, l1, r2\<lparr>rx_listening := rx_listening r2 @ [f]\<rparr>))))))"

definition Reactor_RegisterUdpServer ::
    "nat \<Rightarrow> int \<Rightarrow> int result \<Rightarrow> (uint16 \<Rightarrow> int) \<Rightarrow> 'w rx_program \<Rightarrow> unit result \<times> 'w rx_program" where
  "Reactor_RegisterUdpServer hid port sock bind_result q =
     (case q of (l, r) \<Rightarrow>
        (case sock of
           Inl e \<Rightarrow> (Inl e, l, r)
         | Inr f \<Rightarrow>
             (case UdpSocket_Bind bind_result port of
                Inl e \<Rightarrow> (Inl e, l, close_socket f r)
              | Inr _ \<Rightarrow>
                  (case EventLoop_AddFd f (EPOLLIN OR EPOLLET) (Some (Callback (Udp_Cb hid f))) l of
                     (res, l1) \<Rightarrow> (res, l1, r\<lparr>rx_bound := (rx_bound r)(f \<mapsto> sin_port port)\<rparr>)))))"

definition Reactor_Run ::
    "'w handlers \<Rightarrow> nat \<Rightarrow> wait_result list \<Rightarrow> 'w rx_program \<Rightarrow> (bool \<times> 'w rx_program) option" where
  "Reactor_Run ps self rs q = EventLoop_Run run_task (reactor_call ps) self rs q"

definition Reactor_Stop :: "'w rx_program \<Rightarrow> 'w rx_program" where
  "Reactor_Stop q = (EventLoop_Stop (fst q), snd q)"

section \<open>What connection operations ask for\<close>

text \<open>
  A handler that touches its connection only through the connection's operations and by consuming
  its input, as the protocol handlers do.
\<close>

datatype handler_op = Do_Op conn_op | Do_Consume nat

fun handler_step :: "connection \<Rightarrow> handler_op \<Rightarrow> connection" where
  "handler_step c (Do_Op op) = conn_step c op"
| "handler_step c (Do_Consume n) = c\<lparr>input_buffer := Buffer_Retrieve (input_buffer c) n\<rparr>"

definition uses_operations :: "('w \<times> connection \<Rightarrow> 'w \<times> connection) \<Rightarrow> bool" where
  "uses_operations h \<longleftrightarrow> (\<forall>w c. \<exists>ops w'. h (w, c) = (w', foldl handler_step c ops))"

text \<open>
  The requests of a connection with descriptor \<open>f\<close>: they are about \<open>f\<close>, or about no descriptor, and
  the disconnect callback always sees a descriptor already gone.
\<close>

fun own_act :: "int \<Rightarrow> act \<Rightarrow> bool" where
  "own_act f (Loop_Modify g _) = (g = f \<or> g < 0)"
| "own_act f (Loop_Remove g) = (g = f \<or> g < 0)"
| "own_act f (Cb_Disconnect g) = (g < 0)"
| "own_act f _ = True"

definition own_acts :: "int \<Rightarrow> act list \<Rightarrow> connection \<Rightarrow> bool" where
  "own_acts f t c \<longleftrightarrow> (fd c = f \<or> fd c < 0) \<and> (\<exists>acts. trace c = t @ acts \<and> (\<forall>a \<in> set acts. own_act f a))"

lemma own_acts_emit: "own_acts f t c \<Longrightarrow> own_act f a \<Longrightarrow> own_acts f t (emit a c)"
  by (auto simp: own_acts_def emit_def)

lemma own_acts_cong:
  "own_acts f t (c\<lparr>input_buffer := b\<rparr>) = own_acts f t c" "own_acts f t (c\<lparr>output_buffer := b\<rparr>) = own_acts f t c"
  "own_acts f t (c\<lparr>conn_limiter := x\<rparr>) = own_acts f t c" "own_acts f t (c\<lparr>hs_script := y\<rparr>) = own_acts f t c"
  "own_acts f t (c\<lparr>conn_state := s\<rparr>) = own_acts f t c" "own_acts f t (c\<lparr>wr_script := z\<rparr>) = own_acts f t c"
  "own_acts f t (c\<lparr>wire := w\<rparr>) = own_acts f t c" "own_acts f t (c\<lparr>ssl := v\<rparr>) = own_acts f t c"
  "own_acts f t (c\<lparr>has_disconnect_cb := u\<rparr>) = own_acts f t c"
  by (simp_all add: own_acts_def)

lemma own_acts_fd:
  "own_acts f t c \<Longrightarrow> own_acts f t (emit (Loop_Modify (fd c) m) c) \<and> own_acts f t (emit (Loop_Remove (fd c)) c)"
  by (auto simp: own_acts_def emit_def)

lemma own_acts_close: "own_acts f t c \<Longrightarrow> own_acts f t (Connection_HandleClose c)"
proof -
  assume c: "own_acts f t c"
  let ?c1 = "c\<lparr>conn_state := kDisconnected\<rparr>"
  let ?c2 = "if has_loop ?c1 then emit (Loop_Remove (fd ?c1)) ?c1 else ?c1"
  let ?c3 = "if 0 \<le> fd ?c2 then (emit (Sys_Close (fd ?c2)) ?c2)\<lparr>fd := -1\<rparr> else ?c2"
  have "own_acts f t ?c1" using c by (simp add: own_acts_cong)
  then have "own_acts f t ?c2" using own_acts_fd[of f t ?c1] by simp
  then have "own_acts f t (emit (Sys_Close (fd ?c2)) ?c2)" by (intro own_acts_emit) simp_all
  then have "own_acts f t ((emit (Sys_Close (fd ?c2)) ?c2)\<lparr>fd := -1\<rparr>)" by (simp add: own_acts_def)
  with \<open>own_acts f t ?c2\<close> have c3: "own_acts f t ?c3" by simp
  have "fd ?c3 < 0" by (simp add: emit_def)
  with c3 have "own_acts f t (if has_disconnect_cb ?c3 then emit (Cb_Disconnect (fd ?c3)) ?c3 else ?c3)"
    by (simp add: own_acts_emit)
  with c show ?thesis unfolding Connection_HandleClose_def Let_def by simp
qed

lemma own_acts_Write: "own_acts f t c \<Longrightarrow> Connection_Write data c = (n, e, c1) \<Longrightarrow> own_acts f t c1"
  by (auto simp: Connection_Write_def own_acts_cong Let_def split: list.splits)

interpretation own: conn_invariant "own_acts f t" for f t
proof (unfold_locales, goal_cases)
  case (6 c)
  then show ?case by (rule own_acts_close)
next
  case (7 c)
  then show ?case by (auto simp: Connection_HandleError_def Let_def own_acts_close own_acts_emit)
next
  case (8 c n e c1)
  then show ?case using own_acts_Write by (simp add: own_acts_cong)
next
  case (9 c)
  then show ?case using own_acts_fd by blast
next
  case (10 c data)
  let ?c1 = "c\<lparr>output_buffer := Buffer_Append (output_buffer c) data\<rparr>"
  have c1: "own_acts f t ?c1" using 10 by (simp add: own_acts_cong)
  obtain n e c' where w: "Connection_Write data ?c1 = (n, e, c')" by (rule prod_cases3)
  have c': "own_acts f t c'" by (rule own_acts_Write[OF c1 w])
  define c2 where "c2 = (if conn_state ?c1 = kConnected \<and> Buffer_ReadableBytes (output_buffer ?c1) = length data
      then (if 0 < n then c'\<lparr>output_buffer := Buffer_Retrieve (output_buffer c') n\<rparr> else c') else ?c1)"
  have "own_acts f t c2" using c1 c' by (simp add: c2_def own_acts_cong)
  then have "own_acts f t (if 0 < Buffer_ReadableBytes (output_buffer c2)
      then emit (Loop_Modify (fd c2) (EPOLLIN OR EPOLLOUT OR EPOLLET)) c2 else c2)"
    using own_acts_fd by simp
  with 10 show ?case
    using w by (auto simp: Connection_Send_def Let_def c2_def own_acts_emit split: if_splits)
next
  case (11 c)
  then show ?case by (auto simp: Connection_Shutdown_def Let_def own_acts_cong own_acts_emit)
qed (auto simp: own_acts_cong own_acts_emit)

text \<open>Replaying such requests leaves the connection table as it is.\<close>

definition table_kept :: "'w rx_program \<Rightarrow> 'w rx_program \<Rightarrow> bool" where
  "table_kept q q' \<longleftrightarrow> (\<forall>f \<ge> 0. map_of (rx_connections (snd q')) f = map_of (rx_connections (snd q)) f)"

lemma table_kept_refl [simp]: "table_kept q q"
  by (simp add: table_kept_def)

lemma table_kept_trans: "table_kept a b \<Longrightarrow> table_kept b c \<Longrightarrow> table_kept a c"
  by (simp add: table_kept_def)

lemma apply_act_table: "own_act f a \<Longrightarrow> table_kept q (apply_act cid a q)"
  by (cases q; cases a) (auto simp: table_kept_def on_disconnect_def delete_conv')

lemma apply_acts_table: "\<forall>a \<in> set acts. own_act f a \<Longrightarrow> table_kept q (apply_acts cid acts q)"
  unfolding apply_acts_def
proof (induction acts arbitrary: q)
  case (Cons a acts)
  then have "table_kept q (apply_act cid a q)" using apply_act_table[of f a] by simp
  moreover have "table_kept (apply_act cid a q) (foldl (\<lambda>q a. apply_act cid a q) (apply_act cid a q) acts)"
    using Cons by simp
  ultimately show ?case using table_kept_trans by simp blast
qed simp

text \<open>An operation of a connection is one that keeps every invariant of the class.\<close>

definition class_operation :: "(connection \<Rightarrow> connection) \<Rightarrow> bool" where
  "class_operation g \<longleftrightarrow> (\<forall>f t c. own_acts f t c \<longrightarrow> own_acts f t (g c))"

lemma own_acts_start: "own_acts (fd c) (trace c) c"
  by (simp add: own_acts_def)

lemma on_object_table: "class_operation g \<Longrightarrow> table_kept q (on_object cid g q)"
proof -
  assume g: "class_operation g"
  show ?thesis
  proof (cases "rx_objects (snd q) cid")
    case None
    then show ?thesis by (simp add: on_object_def)
  next
    case (Some c)
    from g own_acts_start[of c] obtain acts where
      "trace (g c) = trace c @ acts" "\<forall>a \<in> set acts. own_act (fd c) a"
      unfolding class_operation_def own_acts_def by blast
    with apply_acts_table[of acts "fd c" "(fst q, set_object cid (g c) (snd q))" cid] Some
    show ?thesis by (simp add: on_object_def Let_def table_kept_def set_object_def)
  qed
qed

lemma own_acts_handler: "own_acts f t c \<Longrightarrow> own_acts f t (foldl handler_step c ops)"
proof (induction ops arbitrary: c)
  case (Cons op ops)
  have "own_acts f t (handler_step c op)" using Cons.prems by (cases op) (simp_all add: own.p_step own_acts_cong)
  with Cons show ?case by simp
qed simp

lemma on_handler_table: "uses_operations h \<Longrightarrow> table_kept q (on_handler cid h q)"
proof -
  assume h: "uses_operations h"
  show ?thesis
  proof (cases "rx_objects (snd q) cid")
    case None
    then show ?thesis by (simp add: on_handler_def)
  next
    case (Some c)
    from h obtain ops w' where o: "h (rx_world (snd q), c) = (w', foldl handler_step c ops)"
      unfolding uses_operations_def by blast
    from own_acts_handler[OF own_acts_start[of c], of ops] obtain acts where
      "trace (foldl handler_step c ops) = trace c @ acts" "\<forall>a \<in> set acts. own_act (fd c) a"
      unfolding own_acts_def by blast
    with apply_acts_table[of acts "fd c" "(fst q, set_object cid (foldl handler_step c ops) ((snd q)\<lparr>rx_world := w'\<rparr>))" cid] Some o
    show ?thesis by (simp add: on_handler_def table_kept_def set_object_def)
  qed
qed

lemma class_operations [simp]:
  "class_operation (Connection_HandleRead None rds)" "class_operation (Connection_HandleWrite b None rds)"
  "class_operation Connection_HandleClose" "class_operation (Connection_Send data)"
  by (simp_all add: class_operation_def own.p_read own.p_write own.p_send own.p_close)

lemma table_kept_reads: "table_kept q (fst q, snd (next_reads cid (snd q)))"
  by (simp add: table_kept_def next_reads_def split: list.splits)

lemma next_reads_table:
  "next_reads cid (snd q) = (rds, r) \<Longrightarrow> table_kept q (fst q, r)"
  using table_kept_reads[of q cid] by simp

lemma client_readable_table:
  assumes "uses_operations (on_message ps hid)"
  shows "table_kept q (client_readable ps hid cid q)"
proof -
  obtain rds r where n: "next_reads cid (snd q) = (rds, r)" by fastforce
  let ?r1 = "on_object cid (Connection_HandleRead None rds) (fst q, r)"
  have r1: "table_kept q ?r1"
    using table_kept_trans[OF next_reads_table[OF n] on_object_table] by simp
  show ?thesis
    using n r1 table_kept_trans[OF r1 on_handler_table[OF assms]] by (simp add: client_readable_def Let_def)
qed

lemma client_writable_table: "table_kept q (client_writable cid q)"
proof -
  obtain rds r where n: "(if object_handshaking cid q then next_reads cid (snd q) else ([], snd q)) = (rds, r)" by fastforce
  then have "table_kept q (fst q, r)" using next_reads_table[of cid q] by (auto split: if_splits)
  from table_kept_trans[OF this on_object_table] n show ?thesis by (simp add: client_writable_def)
qed

lemma client_event_table:
  assumes "uses_operations (on_message ps hid)"
  shows "table_kept q (client_event ps hid cid events q)"
proof -
  define q1 where "q1 = (if events AND EPOLLIN \<noteq> 0 then client_readable ps hid cid q else q)"
  define q2 where "q2 = (if events AND EPOLLOUT \<noteq> 0 then client_writable cid q1 else q1)"
  have k: "table_kept q q1" "table_kept q1 q2"
    using client_readable_table[OF assms] by (simp_all add: q1_def q2_def client_writable_table)
  have "table_kept q2 (client_event ps hid cid events q)"
    using on_object_table[of Connection_HandleClose q2 cid]
    by (simp add: client_event_def Let_def q1_def[symmetric] q2_def[symmetric])
  with k show ?thesis using table_kept_trans by metis
qed

section \<open>Properties\<close>

text \<open>
  The table of connections only grows: whatever happens to the connections (data, hang-ups,
  errors, output), no event removes the entry of a descriptor, because the disconnect callback asks
  for the descriptor after \<open>HandleClose\<close> has set it to -1.  The object stays alive until the
  kernel happens to reuse its number.
\<close>
theorem reactor_never_forgets:
  assumes "\<And>hid. uses_operations (on_message ps hid)" and "0 \<le> f"
    and "map_of (rx_connections (snd q)) f = Some cid"
  shows "map_of (rx_connections (snd (foldl (\<lambda>q (hid, c, ev). client_event ps hid c ev q) q evs))) f = Some cid"
proof -
  have "table_kept q (foldl (\<lambda>q (hid, c, ev). client_event ps hid c ev q) q evs)"
  proof (induction evs arbitrary: q)
    case (Cons e evs)
    obtain hid c ev where e: "e = (hid, c, ev)" by (rule prod_cases3)
    from table_kept_trans[OF client_event_table[OF assms(1)] Cons] e show ?case by simp
  qed simp
  with assms(2,3) show ?thesis by (simp add: table_kept_def)
qed

text \<open>A handler that echoes what has arrived, for the witnesses.\<close>

definition echo_message :: "bytes list \<times> connection \<Rightarrow> bytes list \<times> connection" where
  "echo_message q =
     (case q of (w, c) \<Rightarrow>
        (w @ [content (input_buffer c)],
         foldl handler_step c [Do_Consume (Buffer_ReadableBytes (input_buffer c)), Do_Op (Do_Send (content (input_buffer c)))]))"

definition echo_handlers :: "bytes list handlers" where
  "echo_handlers = \<lparr>on_connection = \<lambda>_ q. q, on_message = \<lambda>_. echo_message, on_packet = \<lambda>_ _ _ _ _ w. (None, w)\<rparr>"

lemma echo_uses: "uses_operations (on_message echo_handlers hid)"
  unfolding uses_operations_def echo_handlers_def echo_message_def
  by (clarsimp simp del: foldl.simps foldl_Cons) blast

definition one_client :: "bytes list rx_program" where
  "one_client = (EventLoop_new\<lparr>has_poller := True\<rparr>,
     (Reactor_new [])\<lparr>rx_connections := [(5, 0)], rx_next := 1,
        rx_objects := [0 \<mapsto> fresh_conn\<lparr>conn_state := kConnected, has_disconnect_cb := True\<rparr>],
        rx_reads := (\<lambda>_. [[Rd ''bye'', Rd []]])\<rparr>)"

theorem reactor_never_forgets_witness:
  "map_of (rx_connections (snd (foldl (\<lambda>q (hid, c, ev). client_event echo_handlers hid c ev q) one_client
     [(0, 0, EPOLLIN), (0, 0, EPOLLHUP)]))) 5 = Some 0"
  by (rule reactor_never_forgets[OF echo_uses]) (simp_all add: one_client_def)

text \<open>Requests to the loop change neither the objects nor the handlers' state.\<close>

lemma apply_acts_objects:
  "rx_objects (snd (apply_acts cid acts q)) = rx_objects (snd q) \<and> rx_world (snd (apply_acts cid acts q)) = rx_world (snd q)"
  unfolding apply_acts_def
proof (induction acts arbitrary: q)
  case (Cons a acts)
  have "rx_objects (snd (apply_act cid a q)) = rx_objects (snd q) \<and> rx_world (snd (apply_act cid a q)) = rx_world (snd q)"
    by (cases q; cases a) (auto simp: on_disconnect_def)
  with Cons show ?case by simp
qed simp

lemma on_object_Some:
  assumes "rx_objects (snd q) cid = Some c"
  shows "rx_objects (snd (on_object cid g q)) cid = Some (g c) \<and> rx_world (snd (on_object cid g q)) = rx_world (snd q)"
  using assms by (simp add: on_object_def Let_def set_object_def apply_acts_objects)

definition dead :: "nat \<Rightarrow> 'w rx_program \<Rightarrow> bool" where
  "dead cid q \<longleftrightarrow> (\<exists>c. rx_objects (snd q) cid = Some c \<and> conn_state c = kDisconnected)"

lemma next_reads_objects:
  "next_reads cid r = (rds, r') \<Longrightarrow> rx_objects r' = rx_objects r \<and> rx_world r' = rx_world r"
  by (auto simp: next_reads_def split: list.splits)

lemma on_object_dead:
  assumes "dead cid q" and "\<And>c. conn_state c = kDisconnected \<Longrightarrow> conn_state (g c) = kDisconnected"
  shows "dead cid (on_object cid g q) \<and> rx_world (snd (on_object cid g q)) = rx_world (snd q)"
  using assms on_object_Some unfolding dead_def by fastforce

lemma closed_ops:
  assumes "conn_state c = kDisconnected"
  shows "Connection_HandleRead None rds c = c" "Connection_HandleWrite b None rds c = c" "Connection_HandleClose c = c"
  using assms by (simp_all add: Connection_HandleRead_def Connection_HandleWrite_def Connection_HandleClose_def)

lemma client_event_dead:
  fixes q :: "'w rx_program"
  assumes "dead cid q"
  shows "dead cid (client_event ps hid cid ev q) \<and> rx_world (snd (client_event ps hid cid ev q)) = rx_world (snd q)"
proof -
  have readable: "dead cid (client_readable ps hid cid q) \<and> rx_world (snd (client_readable ps hid cid q)) = rx_world (snd q)"
    if "dead cid q" for q :: "'w rx_program"
  proof -
    obtain rds r where n: "next_reads cid (snd q) = (rds, r)" by fastforce
    let ?q = "on_object cid (Connection_HandleRead None rds) (fst q, r)"
    have "dead cid (fst q, r)" using that next_reads_objects[OF n] by (simp add: dead_def)
    from on_object_dead[OF this, of "Connection_HandleRead None rds"]
    have k: "dead cid ?q" "rx_world (snd ?q) = rx_world (snd q)"
      using next_reads_objects[OF n] by (simp_all add: closed_ops)
    then have "\<not> object_connected cid ?q"
      by (auto simp: dead_def object_connected_def Connection_IsConnected_def)
    with k n show ?thesis by (simp add: client_readable_def Let_def)
  qed
  have writable: "dead cid (client_writable cid q) \<and> rx_world (snd (client_writable cid q)) = rx_world (snd q)"
    if "dead cid q" for q :: "'w rx_program"
  proof -
    obtain rds r where n: "(if object_handshaking cid q then next_reads cid (snd q) else ([], snd q)) = (rds, r)" by fastforce
    then have r: "rx_objects r = rx_objects (snd q) \<and> rx_world r = rx_world (snd q)"
      using next_reads_objects by (auto split: if_splits)
    then have "dead cid (fst q, r)" using that by (simp add: dead_def)
    from on_object_dead[OF this, of "Connection_HandleWrite False None rds"] n r
    show ?thesis by (simp add: client_writable_def closed_ops)
  qed
  have close: "dead cid (on_object cid Connection_HandleClose q) \<and> rx_world (snd (on_object cid Connection_HandleClose q)) = rx_world (snd q)"
    if "dead cid q" for q :: "'w rx_program"
    using on_object_dead[OF that, of Connection_HandleClose] by (simp add: closed_ops)
  define q1 where "q1 = (if ev AND EPOLLIN \<noteq> 0 then client_readable ps hid cid q else q)"
  define q2 where "q2 = (if ev AND EPOLLOUT \<noteq> 0 then client_writable cid q1 else q1)"
  have k1: "dead cid q1" "rx_world (snd q1) = rx_world (snd q)" using assms readable by (simp_all add: q1_def)
  then have k2: "dead cid q2" "rx_world (snd q2) = rx_world (snd q)" using writable by (simp_all add: q2_def)
  have "client_event ps hid cid ev q = (if ev AND (EPOLLHUP OR EPOLLERR) \<noteq> 0 then on_object cid Connection_HandleClose q2 else q2)"
    by (simp add: client_event_def Let_def q1_def q2_def)
  with k2 close[of q2] show ?thesis by simp
qed

lemma read_then_eof:
  assumes "conn_state c = kConnected" and "conn_limiter c = None"
  shows "conn_state (Connection_HandleRead None [Rd d, Rd []] c) = kDisconnected"
  using assms
  by (simp add: Connection_HandleRead_def HandleRead_ready_def CheckRateLimit_def Connection_HandleClose_def emit_def Let_def)

text \<open>
  The last message of a peer that closes is lost: when the bytes and the end of file are both
  there at one readiness event, \<open>HandleRead\<close> closes the connection before \<open>OnMessage\<close> could see
  the bytes, and no later event of the connection delivers them: the handlers' state stays as it is.
\<close>
theorem reactor_loses_last_message:
  assumes "rx_objects (snd q) cid = Some c" and "conn_state c = kConnected" and "conn_limiter c = None"
    and "rx_reads (snd q) cid = [Rd d, Rd []] # rest"
  shows "rx_world (snd (foldl (\<lambda>q ev. client_event ps hid cid ev q) q (EPOLLIN # evs))) = rx_world (snd q)"
proof -
  let ?r = "(snd q)\<lparr>rx_reads := (rx_reads (snd q))(cid := rest)\<rparr>"
  let ?q = "on_object cid (Connection_HandleRead None [Rd d, Rd []]) (fst q, ?r)"
  have n: "next_reads cid (snd q) = ([Rd d, Rd []], ?r)" using assms(4) by (simp add: next_reads_def)
  have k: "rx_objects (snd ?q) cid = Some (Connection_HandleRead None [Rd d, Rd []] c)" "rx_world (snd ?q) = rx_world (snd q)"
    using on_object_Some[of "(fst q, ?r)" cid c] assms(1) by simp_all
  then have d: "dead cid ?q" using read_then_eof[OF assms(2,3)] by (simp add: dead_def)
  then have "\<not> object_connected cid ?q" by (auto simp: dead_def object_connected_def Connection_IsConnected_def)
  then have "client_readable ps hid cid q = ?q" using n by (simp add: client_readable_def Let_def)
  moreover have "EPOLLIN AND EPOLLIN \<noteq> 0" "EPOLLIN AND EPOLLOUT = 0" "EPOLLIN AND (EPOLLHUP OR EPOLLERR) = 0" by code_simp+
  ultimately have first: "client_event ps hid cid EPOLLIN q = ?q" by (simp add: client_event_def Let_def)
  have "rx_world (snd (foldl (\<lambda>q ev. client_event ps hid cid ev q) q' evs)) = rx_world (snd q')" if "dead cid q'" for q'
    using that
  proof (induction evs arbitrary: q')
    case (Cons ev evs)
    from client_event_dead[OF Cons.prems, of ps hid ev] Cons.IH show ?case by simp
  qed simp
  from this[OF d] first k(2) show ?thesis by simp
qed

theorem reactor_loses_last_message_witness:
  "rx_world (snd (foldl (\<lambda>q ev. client_event echo_handlers 0 0 ev q) one_client [EPOLLIN, EPOLLIN, EPOLLHUP])) = []"
proof -
  have "rx_world (snd (foldl (\<lambda>q ev. client_event echo_handlers 0 0 ev q) one_client (EPOLLIN # [EPOLLIN, EPOLLHUP]))) =
      rx_world (snd one_client)"
    by (rule reactor_loses_last_message[where d = "''bye''" and rest = "[]" and
        c = "fresh_conn\<lparr>conn_state := kConnected, has_disconnect_cb := True\<rparr>"])
       (simp_all add: one_client_def fresh_conn_def Connection_new_def)
  then show ?thesis by (simp add: one_client_def Reactor_new_def)
qed

text \<open>What accepting a connection leaves alone.\<close>

definition rx_frame :: "'w rx_program \<Rightarrow> 'w rx_program \<Rightarrow> bool" where
  "rx_frame q q' \<longleftrightarrow> rx_ddos (snd q') = rx_ddos (snd q) \<and> rx_closed (snd q') = rx_closed (snd q) \<and>
     rx_next (snd q') = rx_next (snd q) \<and> rx_tls (snd q') = rx_tls (snd q)"

lemma rx_frame_trans: "rx_frame a b \<Longrightarrow> rx_frame b c \<Longrightarrow> rx_frame a c"
  by (simp add: rx_frame_def)

lemma apply_acts_frame: "rx_frame q (apply_acts cid acts q)"
  unfolding apply_acts_def
proof (induction acts arbitrary: q)
  case Nil
  then show ?case by (simp add: rx_frame_def)
next
  case (Cons a acts)
  have "rx_frame q (apply_act cid a q)" by (cases q; cases a) (auto simp: rx_frame_def on_disconnect_def)
  from rx_frame_trans[OF this Cons] show ?case by simp
qed

lemma on_object_frame: "rx_frame q (on_object cid g q)"
proof (cases "rx_objects (snd q) cid")
  case (Some c)
  have "rx_frame q (fst q, set_object cid (g c) (snd q))" by (simp add: rx_frame_def set_object_def)
  from rx_frame_trans[OF this apply_acts_frame] Some show ?thesis by (simp add: on_object_def Let_def)
qed (simp add: on_object_def rx_frame_def)

lemma on_handler_frame: "rx_frame q (on_handler cid h q)"
proof (cases "rx_objects (snd q) cid")
  case (Some c)
  obtain w' c' where h: "h (rx_world (snd q), c) = (w', c')" by fastforce
  have "rx_frame q (fst q, set_object cid c' ((snd q)\<lparr>rx_world := w'\<rparr>))" by (simp add: rx_frame_def set_object_def)
  from rx_frame_trans[OF this apply_acts_frame] Some h show ?thesis by (simp add: on_handler_def)
qed (simp add: on_handler_def rx_frame_def)

lemma new_object_frame:
  "rx_ddos (snd (new_object i q)) = rx_ddos (snd q) \<and> rx_closed (snd (new_object i q)) = rx_closed (snd q) \<and>
   rx_next (snd (new_object i q)) = Suc (rx_next (snd q))"
proof -
  obtain l r where q: "q = (l, r)" by fastforce
  obtain p1 ib where b1: "Buffer_new (rx_pool r) 1024 = (p1, ib)" by fastforce
  obtain p2 ob where b2: "Buffer_new p1 1024 = (p2, ob)" by fastforce
  define r1 where "r1 = set_object (rx_next r) ((Connection_SetConnected (Connection_new (in_fd i) ib ob))
      \<lparr>wr_script := in_writes i, hs_script := in_handshakes i\<rparr>) (r\<lparr>rx_next := Suc (rx_next r), rx_pool := p2\<rparr>)"
  have "new_object i q = (if rx_tls r \<noteq> None \<and> in_ssl i
      then on_object (rx_next r) (Connection_SetSsl None (in_reads i)) (l, r1) else (l, r1))"
    by (simp add: new_object_def q b1 b2 r1_def Let_def)
  moreover have "rx_frame (l, r1) (on_object (rx_next r) (Connection_SetSsl None (in_reads i)) (l, r1))"
    by (rule on_object_frame)
  ultimately show ?thesis by (auto simp: rx_frame_def r1_def set_object_def q)
qed

lemma install_connection_frame: "rx_frame q (install_connection ps hid i cid q)"
proof -
  obtain l r where q: "q = (l, r)" by fastforce
  let ?q0 = "(l, r\<lparr>rx_connections := AList.update (in_fd i) cid (rx_connections r)\<rparr>)"
  let ?q1 = "on_object cid (\<lambda>c. c\<lparr>has_disconnect_cb := True\<rparr>) ?q0"
  let ?q2 = "(fst ?q1, (snd ?q1)\<lparr>rx_gauge := Some (of_nat (length (rx_connections (snd ?q1))))\<rparr>)"
  let ?q3 = "on_handler cid (on_connection ps hid) ?q2"
  have "rx_frame q ?q0" by (simp add: q rx_frame_def)
  moreover have "rx_frame ?q0 ?q1" by (rule on_object_frame)
  moreover have "rx_frame ?q1 ?q2" by (simp add: rx_frame_def)
  moreover have "rx_frame ?q2 ?q3" by (rule on_handler_frame)
  ultimately have "rx_frame q ?q3" using rx_frame_trans by blast
  then show ?thesis by (simp add: install_connection_def q Let_def rx_frame_def)
qed

lemma accept_one_fields:
  assumes "rx_ddos (snd q) = Some d" and "DdosProtection_AllowConnection (in_ip i) d = (ok, d')"
  shows "rx_ddos (snd (accept_one ps hid i q)) = Some d'"
    and "rx_closed (snd (accept_one ps hid i q)) = rx_closed (snd q) @ (if ok then [] else [in_fd i])"
    and "rx_next (snd (accept_one ps hid i q)) = rx_next (snd q) + (if ok then 1 else 0)"
proof -
  let ?r = "(snd q)\<lparr>rx_ddos := Some d'\<rparr>"
  have a: "admit (in_ip i) (snd q) = (ok, ?r)" using assms by (simp add: admit_def)
  note f = install_connection_frame[of "new_object i (fst q, ?r)" ps hid i "rx_next (snd q)"]
  show "rx_ddos (snd (accept_one ps hid i q)) = Some d'"
    "rx_closed (snd (accept_one ps hid i q)) = rx_closed (snd q) @ (if ok then [] else [in_fd i])"
    "rx_next (snd (accept_one ps hid i q)) = rx_next (snd q) + (if ok then 1 else 0)"
    using a f new_object_frame[of i "(fst q, ?r)"] by (simp_all add: accept_one_def rx_frame_def split: bool.splits)
qed

text \<open>What is closed, and how many connections are made, whatever else the sockets and the handler do.\<close>

lemma accept_verdicts:
  assumes "rx_ddos (snd q) = Some d" and "verdicts = map snd (admit_run d (map in_ip sockets))"
  shows "rx_closed (snd (foldl (\<lambda>q i. accept_one ps hid i q) q sockets)) =
      rx_closed (snd q) @ map (in_fd \<circ> fst) (filter (\<lambda>(_, ok). \<not> ok) (zip sockets verdicts)) \<and>
    rx_next (snd (foldl (\<lambda>q i. accept_one ps hid i q) q sockets)) = rx_next (snd q) + length (filter id verdicts)"
  using assms
proof (induction sockets arbitrary: q d verdicts)
  case Nil
  then show ?case by simp
next
  case (Cons i socks)
  obtain ok d' where a: "DdosProtection_AllowConnection (in_ip i) d = (ok, d')" by fastforce
  note f = accept_one_fields[OF Cons.prems(1) a, of ps hid]
  have v: "verdicts = ok # map snd (admit_run d' (map in_ip socks))" using Cons.prems(2) a by simp
  show ?case using Cons.IH[OF f(1) refl] f(2,3) v by simp
qed

text \<open>An object that is the open, plain connection of a socket.\<close>

definition opened :: "incoming \<Rightarrow> connection \<Rightarrow> bool" where
  "opened i c \<longleftrightarrow> fd c = in_fd i \<and> conn_state c = kConnected \<and> \<not> ssl c \<and> has_disconnect_cb c"

text \<open>The step of an admitted socket: an object, its entry in the table, its registration, the handler's call.\<close>

lemma accept_admitted:
  assumes "loop_ok (fst q)" and "loop_handlers (fst q) (in_fd i) = None" and "rx_tls (snd q) = None \<or> \<not> in_ssl i"
    and "rx_ddos (snd q) = Some d" and "DdosProtection_AllowConnection (in_ip i) d = (True, d')"
    and "on_connection ps hid = (\<lambda>(w, c). (called w (fd c), c))"
  obtains c l r where "accept_one ps hid i q = (l, r)" and "rx_objects r = (rx_objects (snd q))(rx_next (snd q) \<mapsto> c)"
    and "opened i c" and "rx_connections r = AList.update (in_fd i) (rx_next (snd q)) (rx_connections (snd q))"
    and "rx_world r = called (rx_world (snd q)) (in_fd i)" and "rx_next r = Suc (rx_next (snd q))"
    and "rx_tls r = rx_tls (snd q)" and "rx_ddos r = Some d'" and "loop_ok l"
    and "callback_of l = (callback_of (fst q))(in_fd i \<mapsto> Callback (Client_Cb hid (rx_next (snd q))))"
    and "dom (loop_handlers l) = insert (in_fd i) (dom (loop_handlers (fst q)))"
proof -
  obtain l0 r0 where q: "q = (l0, r0)" by fastforce
  obtain p1 ib where b1: "Buffer_new (rx_pool r0) 1024 = (p1, ib)" by fastforce
  obtain p2 ob where b2: "Buffer_new p1 1024 = (p2, ob)" by fastforce
  let ?c = "(Connection_SetConnected (Connection_new (in_fd i) ib ob))\<lparr>wr_script := in_writes i, hs_script := in_handshakes i\<rparr>"
  let ?r1 = "r0\<lparr>rx_ddos := Some d'\<rparr>"
  have n: "new_object i (l0, ?r1) = (l0, set_object (rx_next r0) ?c (?r1\<lparr>rx_next := Suc (rx_next r0), rx_pool := p2\<rparr>))"
    using assms(3) by (auto simp: q new_object_def b1 b2 Let_def)
  have a: "admit (in_ip i) r0 = (True, ?r1)" using assms(4,5) by (simp add: admit_def q)
  obtain l where l: "EventLoop_AddFd (in_fd i) (EPOLLIN OR EPOLLET) (Some (Callback (Client_Cb hid (rx_next r0)))) l0 = (Inr (), l)"
    "loop_ok l" "callback_of l = (callback_of l0)(in_fd i \<mapsto> Callback (Client_Cb hid (rx_next r0)))"
    "dom (loop_handlers l) = insert (in_fd i) (dom (loop_handlers l0))"
    using AddFd_ok[of l0 "in_fd i" "EPOLLIN OR EPOLLET" "Some (Callback (Client_Cb hid (rx_next r0)))"] assms(1,2)
    by (auto simp: q)
  obtain r where r: "accept_one ps hid i q = (l, r)"
    "r = set_object (rx_next r0) (?c\<lparr>has_disconnect_cb := True\<rparr>)
       (?r1\<lparr>rx_next := Suc (rx_next r0), rx_pool := p2, rx_connections := AList.update (in_fd i) (rx_next r0) (rx_connections r0),
          rx_gauge := Some (of_nat (length (AList.update (in_fd i) (rx_next r0) (rx_connections r0)))),
          rx_world := called (rx_world r0) (in_fd i)\<rparr>)"
    using a n l(1) assms(6)
    by (simp add: q accept_one_def install_connection_def on_object_def on_handler_def set_object_def apply_acts_def Let_def
        Connection_SetConnected_def Connection_new_def)
  show ?thesis
    by (rule that[OF r(1), of "?c\<lparr>has_disconnect_cb := True\<rparr>"])
       (simp_all add: r(2) set_object_def q l opened_def Connection_SetConnected_def Connection_new_def)
qed

lemma accept_refused:
  assumes "rx_ddos (snd q) = Some d" and "DdosProtection_AllowConnection (in_ip i) d = (False, d')"
  shows "accept_one ps hid i q = (fst q, (snd q)\<lparr>rx_ddos := Some d', rx_closed := rx_closed (snd q) @ [in_fd i]\<rparr>)"
  using assms by (simp add: accept_one_def admit_def)

text \<open>The sockets that are let in, in order, and what the accept loop leaves for them.\<close>

definition let_in :: "incoming list \<Rightarrow> bool list \<Rightarrow> incoming list" where
  "let_in sockets verdicts = map fst (filter snd (zip sockets verdicts))"

lemma let_in_Cons: "let_in (i # socks) (ok # vs) = (if ok then i # let_in socks vs else let_in socks vs)"
  by (simp add: let_in_def)

lemma let_in_subset: "i \<in> set (let_in sockets verdicts) \<Longrightarrow> i \<in> set sockets"
  by (auto simp: let_in_def dest: set_zip_leftD)

lemma accept_loop_installs:
  assumes "rx_ddos (snd q) = Some d" and "verdicts = map snd (admit_run d (map in_ip sockets))"
    and "loop_ok (fst q)" and "distinct (map in_fd sockets)" and "\<forall>i \<in> set sockets. loop_handlers (fst q) (in_fd i) = None"
    and "rx_tls (snd q) = None \<or> (\<forall>i \<in> set sockets. \<not> in_ssl i)"
    and "on_connection ps hid = (\<lambda>(w, c). (called w (fd c), c))"
    and "q' = foldl (\<lambda>q i. accept_one ps hid i q) q sockets" and "ins = let_in sockets verdicts" and "n = rx_next (snd q)"
  shows "(\<forall>k < length ins. (\<exists>c. rx_objects (snd q') (n + k) = Some c \<and> opened (ins ! k) c) \<and>
        map_of (rx_connections (snd q')) (in_fd (ins ! k)) = Some (n + k) \<and>
        callback_of (fst q') (in_fd (ins ! k)) = Some (Callback (Client_Cb hid (n + k)))) \<and>
    (\<forall>cid < n. rx_objects (snd q') cid = rx_objects (snd q) cid) \<and>
    (\<forall>f. f \<notin> in_fd ` set ins \<longrightarrow> map_of (rx_connections (snd q')) f = map_of (rx_connections (snd q)) f \<and>
        callback_of (fst q') f = callback_of (fst q) f) \<and>
    rx_world (snd q') = foldl called (rx_world (snd q)) (map in_fd ins) \<and> loop_ok (fst q')"
  using assms
proof (induction sockets arbitrary: q d verdicts ins n)
  case Nil
  then show ?case by (simp add: let_in_def)
next
  case (Cons i socks)
  obtain ok d' where a: "DdosProtection_AllowConnection (in_ip i) d = (ok, d')" by fastforce
  let ?vs = "map snd (admit_run d' (map in_ip socks))"
  have v: "verdicts = ok # ?vs" using Cons.prems(2) a by simp
  show ?case
  proof (cases ok)
    case False
    let ?q = "(fst q, (snd q)\<lparr>rx_ddos := Some d', rx_closed := rx_closed (snd q) @ [in_fd i]\<rparr>)"
    have "accept_one ps hid i q = ?q" using accept_refused[of q d i d' ps hid] Cons.prems(1) a False by simp
    then have q': "q' = foldl (\<lambda>q i. accept_one ps hid i q) ?q socks" using Cons.prems(8) by simp
    have ins: "ins = let_in socks ?vs" using Cons.prems(9) v False by (simp add: let_in_Cons)
    have "rx_ddos (snd ?q) = Some d'" "loop_ok (fst ?q)" "distinct (map in_fd socks)" "n = rx_next (snd ?q)"
      "\<forall>i \<in> set socks. loop_handlers (fst ?q) (in_fd i) = None" "rx_tls (snd ?q) = None \<or> (\<forall>i \<in> set socks. \<not> in_ssl i)"
      using Cons.prems(3-6,10) by auto
    from Cons.IH[OF this(1) refl this(2,3,5,6) Cons.prems(7) q' ins this(4)] show ?thesis by (simp only: snd_conv fst_conv) simp
  next
    case True
    have new: "loop_handlers (fst q) (in_fd i) = None" "rx_tls (snd q) = None \<or> \<not> in_ssl i" using Cons.prems(5,6) by auto
    have yes: "DdosProtection_AllowConnection (in_ip i) d = (True, d')" using a True by simp
    obtain c l r where
      1: "accept_one ps hid i q = (l, r)" "rx_objects r = (rx_objects (snd q))(n \<mapsto> c)" "opened i c"
        "rx_connections r = AList.update (in_fd i) n (rx_connections (snd q))"
        "rx_world r = called (rx_world (snd q)) (in_fd i)" "rx_next r = Suc n" "rx_tls r = rx_tls (snd q)" "rx_ddos r = Some d'"
        "loop_ok l" "callback_of l = (callback_of (fst q))(in_fd i \<mapsto> Callback (Client_Cb hid n))"
        "dom (loop_handlers l) = insert (in_fd i) (dom (loop_handlers (fst q)))"
      by (rule accept_admitted[OF Cons.prems(3) new Cons.prems(1) yes Cons.prems(7), folded Cons.prems(10)])
    let ?ins = "let_in socks ?vs"
    have ins: "ins = i # ?ins" using Cons.prems(9) v True by (simp add: let_in_Cons)
    have other: "in_fd i \<notin> in_fd ` set ?ins" using Cons.prems(4) let_in_subset[of _ socks ?vs] by auto
    have free: "\<forall>j \<in> set socks. loop_handlers l (in_fd j) = None"
    proof
      fix j assume j: "j \<in> set socks"
      then have "in_fd j \<noteq> in_fd i" "in_fd j \<notin> dom (loop_handlers (fst q))" using Cons.prems(4,5) by (auto simp: image_iff domIff)
      then show "loop_handlers l (in_fd j) = None" using 1(11) by (metis domIff insert_iff)
    qed
    have more: "distinct (map in_fd socks)" "rx_tls r = None \<or> (\<forall>i \<in> set socks. \<not> in_ssl i)"
      "q' = foldl (\<lambda>q i. accept_one ps hid i q) (l, r) socks" using Cons.prems(4,6,8) 1(1,7) by auto
    note IH = Cons.IH[of "(l, r)", unfolded fst_conv snd_conv,
        OF 1(8) refl 1(9) more(1) free more(2) Cons.prems(7) more(3) refl 1(6)[symmetric]]
    have "(\<exists>c. rx_objects (snd q') (n + k) = Some c \<and> opened (ins ! k) c) \<and>
        map_of (rx_connections (snd q')) (in_fd (ins ! k)) = Some (n + k) \<and>
        callback_of (fst q') (in_fd (ins ! k)) = Some (Callback (Client_Cb hid (n + k)))" if "k < length ins" for k
    proof (cases k)
      case 0
      with IH other 1(2,3,4,10) show ?thesis by (simp add: ins update_conv')
    next
      case (Suc k')
      with that ins have "k' < length ?ins" by simp
      with IH Suc show ?thesis by (simp add: ins)
    qed
    with IH 1(2,4,5,10) show ?thesis by (auto simp: ins update_conv')
  qed
qed


definition socket_from :: "string \<Rightarrow> int \<Rightarrow> incoming" where
  "socket_from ip f = \<lparr>in_fd = f, in_ip = ip, in_ssl = False, in_handshakes = [], in_reads = [], in_writes = []\<rparr>"


text \<open>Without a TLS context in the reactor an admitted socket becomes a plain connection.\<close>

lemma accept_plain:
  assumes "rx_tls (snd q) = None" and "admit (in_ip i) (snd q) = (True, r)" and "on_connection ps hid = (\<lambda>x. x)"
  shows "\<exists>c. rx_objects (snd (accept_one ps hid i q)) (rx_next r) = Some c \<and> \<not> ssl c \<and> conn_state c = kConnected"
proof -
  have tls: "rx_tls r = None" using assms(1,2) by (auto simp: admit_def split: option.splits prod.splits)
  obtain p1 ib where bu1: "Buffer_new (rx_pool r) 1024 = (p1, ib)" by fastforce
  obtain p2 ob where bu2: "Buffer_new p1 1024 = (p2, ob)" by fastforce
  let ?c = "(Connection_SetConnected (Connection_new (in_fd i) ib ob))\<lparr>wr_script := in_writes i, hs_script := in_handshakes i\<rparr>"
  have n: "new_object i (fst q, r) = (fst q, set_object (rx_next r) ?c (r\<lparr>rx_next := Suc (rx_next r), rx_pool := p2\<rparr>))"
    using tls by (simp add: new_object_def bu1 bu2 Let_def)
  show ?thesis
    using assms(2,3) n
    by (auto simp: accept_one_def install_connection_def on_object_def on_handler_def set_object_def apply_acts_def
        Let_def Connection_SetConnected_def Connection_new_def)
qed

text \<open>
  One TLS context for all ports: registering a second server without TLS turns TLS off for the
  first one too, since the accept callbacks read the reactor's context, not the one their server was
  registered with: a socket accepted for the first server becomes a plain connection.
\<close>
theorem second_server_disables_tls:
  assumes "Reactor_RegisterServer h1 p1 (Some t) sock1 b1 l1 q = (res1, q1)"
    and "Reactor_RegisterServer h2 p2 None sock2 b2 l2 q1 = (res2, q2)"
    and "admit (in_ip i) (snd q2) = (True, r)" and "on_connection ps h1 = (\<lambda>x. x)"
  shows "\<exists>c. rx_objects (snd (accept_one ps h1 i q2)) (rx_next r) = Some c \<and> \<not> ssl c \<and> conn_state c = kConnected"
proof (rule accept_plain[OF _ assms(3,4)])
  show "rx_tls (snd q2) = None"
    using assms(2) by (auto simp: Reactor_RegisterServer_def close_socket_def Let_def split: prod.splits sum.splits)
qed

theorem second_server_disables_tls_witness:
  "\<exists>c. rx_objects (snd (accept_one echo_handlers 0 (socket_from ''a'' 9)
      (snd (Reactor_RegisterServer 1 443 None (Inr 4) (\<lambda>_. 0) 0
        (snd (Reactor_RegisterServer 0 80 (Some 0) (Inr 3) (\<lambda>_. 0) 0 (EventLoop_new, Reactor_new []))))))) 0 = Some c \<and> \<not> ssl c"
proof -
  obtain res1 q1 where r1: "Reactor_RegisterServer 0 80 (Some 0) (Inr 3) (\<lambda>_. 0) 0 (EventLoop_new, Reactor_new ([] :: bytes list)) = (res1, q1)"
    by (meson surj_pair)
  obtain res2 q2 where r2: "Reactor_RegisterServer 1 443 None (Inr 4) (\<lambda>_. 0) 0 q1 = (res2, q2)" by (meson surj_pair)
  have "rx_ddos (snd q1) = rx_ddos (Reactor_new ([] :: bytes list))" "rx_next (snd q1) = 0" using r1
    by (auto simp: Reactor_RegisterServer_def Reactor_new_def close_socket_def Let_def split: prod.splits sum.splits)
  then have "rx_ddos (snd q2) = rx_ddos (Reactor_new ([] :: bytes list))" "rx_next (snd q2) = 0" using r2
    by (auto simp: Reactor_RegisterServer_def close_socket_def Let_def split: prod.splits sum.splits)
  then have "\<exists>r. admit (in_ip (socket_from ''a'' 9)) (snd q2) = (True, r) \<and> rx_next r = 0"
    by (simp add: admit_def Reactor_new_def socket_from_def DdosProtection_AllowConnection_def DdosProtection_new_def
        conn_count_def ddos_config_default_def)
  then obtain r where "admit (in_ip (socket_from ''a'' 9)) (snd q2) = (True, r)" "rx_next r = 0" by blast
  from second_server_disables_tls[OF r1 r2 this(1), of echo_handlers] this(2) r1 r2
  show ?thesis by (auto simp: echo_handlers_def)
qed

end
