(* ===== verification/Datagram.thy ===== *)
theory Datagram
  imports Reactor
begin

text \<open>
  The datagram side: \<open>UdpSocket\<close>, \<open>EchoUdpHandler\<close> with its \<open>UdpStreamContext\<close>, and the reactor's
  datagram callback at work on them; and the QUIC handler and client, which simulate QUIC packets
  over a connection.  What the kernel does (\<open>recvfrom\<close>, \<open>sendto\<close>) is a script; a packet that was
  sent is recorded with the socket and the address it went to.  The addresses come from
  \<open>inet_ntop\<close>, so that \<open>inet_pton\<close> accepts them.
\<close>

section \<open>UdpSocket\<close>

definition UdpSocket_CreateNonBlocking :: "int \<Rightarrow> int result" where
  "UdpSocket_CreateNonBlocking sock =
     (if sock = -1 then Result_Failure kInternal ''Failed to create UDP socket'' else Result_Success sock)"

text \<open>\<open>valid\<close> says whether \<open>inet_pton\<close> accepts the address, \<open>sent\<close> is what \<open>sendto\<close> returns.\<close>

definition UdpSocket_SendTo :: "bool \<Rightarrow> int \<Rightarrow> bool \<Rightarrow> int result" where
  "UdpSocket_SendTo valid sent again =
     (if \<not> valid then Result_Failure kConfigError ''Invalid IP address''
      else if sent < 0 then
        (if again then Result_Success 0 else Result_Failure kInternal ''UDP sendto failed'')
      else Result_Success sent)"

text \<open>A call of \<open>recvfrom\<close>: a datagram with the address and port it came from, or a failure.\<close>

datatype recvfrom = Got bytes string uint16 | Got_Nothing | Recv_Failed

fun UdpSocket_RecvFrom :: "nat \<Rightarrow> recvfrom \<Rightarrow> datagram" where
  "UdpSocket_RecvFrom len (Got d ip port) = Result_Success (take len d, ip, int (unat port))"
| "UdpSocket_RecvFrom len Got_Nothing = Result_Success ([], [], 0)"
| "UdpSocket_RecvFrom len Recv_Failed = Result_Failure kInternal ''UDP recvfrom failed''"

section \<open>The handler\<close>

record packet =
  pk_fd :: int
  pk_ip :: string
  pk_port :: uint16
  pk_data :: bytes

record 's udp_world =
  uw_app :: 's
  uw_sent :: "packet list"

definition udp_send :: "int \<Rightarrow> string \<Rightarrow> int \<Rightarrow> bytes \<Rightarrow> packet list \<Rightarrow> packet list" where
  "udp_send f ip port d ps = ps @ [\<lparr>pk_fd = f, pk_ip = ip, pk_port = word_of_int port, pk_data = d\<rparr>]"

fun UdpStreamContext :: "proto \<Rightarrow> int \<Rightarrow> string \<Rightarrow> int \<Rightarrow> ctx_op \<Rightarrow> packet list \<Rightarrow> packet list" where
  "UdpStreamContext pb f ip port (Ctx_Write_Envelope msg) ps = udp_send f ip port (pb_serialize pb msg) ps"
| "UdpStreamContext pb f ip port (Ctx_Write d) ps = udp_send f ip port d ps"
| "UdpStreamContext pb f ip port Ctx_Close ps = ps"

text \<open>The request made of a packet: an envelope, or raw bytes put into one.\<close>

definition udp_request :: "proto \<Rightarrow> bytes \<Rightarrow> envelope" where
  "udp_request pb d =
     (case pb_parse pb d of
        (True, req) \<Rightarrow> req
      | (False, req) \<Rightarrow> upd_header (\<lambda>h. h\<lparr>message_type := ''udp.packet''\<rparr>) (set_data d req))"

text \<open>
  \<open>OnPacket\<close>: an exception of the raw handler leaves it, one of the stream handler is dropped
  together with the response.
\<close>

definition EchoUdpHandler_OnPacket ::
    "proto \<Rightarrow> 's raw_handler option \<Rightarrow> 's stream_handler option \<Rightarrow> int \<Rightarrow> bytes \<Rightarrow> string \<Rightarrow> int \<Rightarrow> 's udp_world \<Rightarrow>
       exn option \<times> 's udp_world" where
  "EchoUdpHandler_OnPacket pb rh sh f d ip port w =
     (let ctx = UdpStreamContext pb f ip port
      in case rh of
           Some h \<Rightarrow>
             (case h (uw_app w) d of
                (s, ops, r) \<Rightarrow>
                  (case r of Inl e \<Rightarrow> Some e | Inr _ \<Rightarrow> None, w\<lparr>uw_app := s, uw_sent := fold ctx ops (uw_sent w)\<rparr>))
         | None \<Rightarrow>
             (case sh of
                Some h \<Rightarrow>
                  (case h (uw_app w) (udp_request pb d) envelope_empty of
                     (s, ops, r) \<Rightarrow>
                       (let sent = fold ctx ops (uw_sent w)
                        in (None,
                            w\<lparr>uw_app := s,
                              uw_sent :=
                                (case r of
                                   Inl _ \<Rightarrow> sent
                                 | Inr resp \<Rightarrow>
                                     if env_payload resp \<noteq> None then ctx (Ctx_Write_Envelope resp) sent else sent)\<rparr>)))
              | None \<Rightarrow> (None, w\<lparr>uw_sent := udp_send f ip port d (uw_sent w)\<rparr>)))"

section \<open>QUIC\<close>

definition quic_ack :: bytes where "quic_ack = ''QUIC-ACK: ''"

definition Quic_OnMessage :: "'s session \<Rightarrow> 's session" where
  "Quic_OnMessage st =
     (if Buffer_ReadableBytes (in_buf st) < 9 then st
      else
        (let data = take (Buffer_ReadableBytes (in_buf st)) (Buffer_Peek (in_buf st));
             st1 = map_input Buffer_RetrieveAll st;
             payload = drop 9 data
         in if u8 (data ! 0) = 0x01 then map_conn (Connection_Send (quic_ack @ payload)) st1 else st1))"

definition quic_packet :: "bytes \<Rightarrow> bytes" where
  "quic_packet payload = chr8 0x01 # replicate 8 (chr8 0) @ payload"

definition QuicClient_Send :: "proto \<Rightarrow> envelope \<Rightarrow> connection \<Rightarrow> connection" where
  "QuicClient_Send pb e c = Connection_Send (quic_packet (pb_serialize pb e)) c"

definition QuicClient_OnDataReceived :: "'s message_handler option \<Rightarrow> 's session \<Rightarrow> 's session" where
  "QuicClient_OnDataReceived mh st =
     (if 0 < Buffer_ReadableBytes (in_buf st) then
        (let data = take (Buffer_ReadableBytes (in_buf st)) (Buffer_Peek (in_buf st));
             st1 = map_input Buffer_RetrieveAll st
         in case mh of
              Some g \<Rightarrow> st1\<lparr>app := g (app st1) (set_data data envelope_empty)\<rparr>
            | None \<Rightarrow> st1)
      else st)"

section \<open>Every datagram is answered\<close>

text \<open>The handler in the reactor: an exception of the raw handler goes through to the loop.\<close>

definition udp_handlers :: "proto \<Rightarrow> 's raw_handler option \<Rightarrow> 's stream_handler option \<Rightarrow> 's udp_world handlers" where
  "udp_handlers pb rh sh =
     \<lparr>on_connection = (\<lambda>_ x. x), on_message = (\<lambda>_ x. x),
      on_packet = (\<lambda>_ f d ip port w. EchoUdpHandler_OnPacket pb rh sh f d ip port w)\<rparr>"

text \<open>What ends the loop of the datagram callback: a failure or a datagram without bytes.\<close>

definition ends_loop :: "datagram \<Rightarrow> bool" where
  "ends_loop d = (case d of Inl _ \<Rightarrow> True | Inr (data, _, _) \<Rightarrow> data = [])"

text \<open>All the datagrams that have bytes, one after the other, up to the first exception.\<close>

primrec serve_all :: "'w handlers \<Rightarrow> nat \<Rightarrow> int \<Rightarrow> datagram list \<Rightarrow> 'w \<Rightarrow> exn option \<times> 'w" where
  "serve_all ps hid f [] w = (None, w)"
| "serve_all ps hid f (d # ds) w =
     (if ends_loop d then serve_all ps hid f ds w
      else
        (case d of
           Inl _ \<Rightarrow> serve_all ps hid f ds w
         | Inr (data, ip, port) \<Rightarrow>
             (case on_packet ps hid f data ip port w of
                (Some e, w') \<Rightarrow> (Some e, w')
              | (None, w') \<Rightarrow> serve_all ps hid f ds w')))"

lemma udp_packets_progress:
  assumes "udp_packets ps hid f ds w = (e, ds', w')"
  shows "(e \<noteq> None \<longrightarrow> serve_all ps hid f ds w = (e, w')) \<and>
    (e = None \<longrightarrow> serve_all ps hid f ds' w' = serve_all ps hid f ds w \<and>
       length (filter ends_loop ds') = length (filter ends_loop ds) - 1 \<and> (filter ends_loop ds = [] \<longrightarrow> ds' = []))"
  using assms
proof (induction ds arbitrary: w)
  case (Cons d ds)
  then show ?case by (auto simp: ends_loop_def split: sum.splits if_splits prod.splits option.splits)
qed simp

lemma thrown_idle: "loop_thrown (fst q) \<noteq> None \<Longrightarrow> (reactor_call ps cb events ^^ m) q = q"
  by (induction m) (simp_all add: reactor_call_def)

lemma udp_call_step:
  assumes "events AND EPOLLIN \<noteq> 0" and "loop_thrown (fst q) = None"
    and "udp_packets ps hid f (rx_datagrams (snd q) f) (rx_world (snd q)) = (e, ds, w)"
  shows "loop_thrown (fst (reactor_call ps (Udp_Cb hid f) events q)) = e"
    and "rx_datagrams (snd (reactor_call ps (Udp_Cb hid f) events q)) f = ds"
    and "rx_world (snd (reactor_call ps (Udp_Cb hid f) events q)) = w"
  using assms by (simp_all add: reactor_call_def udp_event_def)

lemma udp_calls_idle:
  assumes "rx_datagrams (snd q) f = []" and "loop_thrown (fst q) = None" and "events AND EPOLLIN \<noteq> 0"
  shows "rx_datagrams (snd ((reactor_call ps (Udp_Cb hid f) events ^^ m) q)) f = [] \<and>
    rx_world (snd ((reactor_call ps (Udp_Cb hid f) events ^^ m) q)) = rx_world (snd q) \<and>
    loop_thrown (fst ((reactor_call ps (Udp_Cb hid f) events ^^ m) q)) = None"
  using assms(1,2)
proof (induction m arbitrary: q)
  case 0
  then show ?case by simp
next
  case (Suc m)
  have "udp_packets ps hid f (rx_datagrams (snd q) f) (rx_world (snd q)) = (None, [], rx_world (snd q))"
    using Suc.prems(1) by simp
  note s = udp_call_step[OF assms(3) Suc.prems(2) this]
  from Suc.IH[OF s(2,1)] s(3) show ?case by (simp add: funpow_Suc_right del: funpow.simps)
qed

lemma udp_calls_serve:
  assumes "events AND EPOLLIN \<noteq> 0" and "loop_thrown (fst q) = None"
    and "length (filter ends_loop (rx_datagrams (snd q) f)) < n"
    and "q' = (reactor_call ps (Udp_Cb hid f) events ^^ n) q"
  shows "(loop_thrown (fst q'), rx_world (snd q')) = serve_all ps hid f (rx_datagrams (snd q) f) (rx_world (snd q)) \<and>
    (loop_thrown (fst q') = None \<longrightarrow> rx_datagrams (snd q') f = [])"
  using assms(2-)
proof (induction n arbitrary: q)
  case 0
  then show ?case by simp
next
  case (Suc n)
  let ?q = "reactor_call ps (Udp_Cb hid f) events q"
  obtain e ds w where p: "udp_packets ps hid f (rx_datagrams (snd q) f) (rx_world (snd q)) = (e, ds, w)" by (rule prod_cases3)
  note s = udp_call_step[OF assms(1) Suc.prems(1) p] and g = udp_packets_progress[OF p]
  have q': "q' = (reactor_call ps (Udp_Cb hid f) events ^^ n) ?q"
    using Suc.prems(3) by (simp add: funpow_Suc_right del: funpow.simps)
  show ?case
  proof (cases e)
    case (Some x)
    then have "q' = ?q" using q' s(1) thrown_idle[of ?q] by simp
    with Some s g show ?thesis by simp
  next
    case None
    show ?thesis
    proof (cases "filter ends_loop (rx_datagrams (snd q) f) = []")
      case True
      with g None have "ds = []" by blast
      with udp_calls_idle[where q = ?q and f = f and m = n and ps = ps and hid = hid, OF _ _ assms(1)] s g None q'
      show ?thesis by simp
    next
      case False
      with g s None Suc.prems(2) have "length (filter ends_loop (rx_datagrams (snd ?q) f)) < n"
        by (cases "filter ends_loop (rx_datagrams (snd q) f)") auto
      from Suc.IH[OF _ this q'] s g None show ?thesis by simp
    qed
  qed
qed

definition kUdpBuffer :: nat where "kUdpBuffer = 65536"

definition empty_receive :: "recvfrom \<Rightarrow> bool" where
  "empty_receive d = (case d of Got data _ _ \<Rightarrow> data = [] | _ \<Rightarrow> True)"

lemma ends_loop_RecvFrom: "ends_loop (UdpSocket_RecvFrom kUdpBuffer d) = empty_receive d"
  by (cases d) (simp_all add: ends_loop_def empty_receive_def kUdpBuffer_def result_defs)

text \<open>
  The calls of \<open>OnPacket\<close> a sequence of receptions leads to: one for each datagram with bytes, with its
  bytes and its sender, up to the first that throws.
\<close>

fun answers :: "proto \<Rightarrow> 's raw_handler option \<Rightarrow> 's stream_handler option \<Rightarrow> int \<Rightarrow> recvfrom list \<Rightarrow> 's udp_world \<Rightarrow>
    exn option \<times> 's udp_world" where
  "answers pb rh sh f [] w = (None, w)"
| "answers pb rh sh f (Got data ip port # rs) w =
     (if data = [] then answers pb rh sh f rs w
      else (case EchoUdpHandler_OnPacket pb rh sh f data ip (int (unat port)) w of
              (Some e, w') \<Rightarrow> (Some e, w')
            | (None, w') \<Rightarrow> answers pb rh sh f rs w'))"
| "answers pb rh sh f (_ # rs) w = answers pb rh sh f rs w"

lemma serve_RecvFrom:
  assumes "\<forall>d ip port. Got d ip port \<in> set rs \<longrightarrow> length d \<le> 65507"
  shows "serve_all (udp_handlers pb rh sh) hid f (map (UdpSocket_RecvFrom kUdpBuffer) rs) w = answers pb rh sh f rs w"
  using assms
proof (induction rs arbitrary: w)
  case (Cons d rs)
  then have "\<forall>d ip port. Got d ip port \<in> set rs \<longrightarrow> length d \<le> 65507" by simp
  note IH = Cons.IH[OF this]
  show ?case
  proof (cases d)
    case (Got data ip port)
    then have "length data \<le> 65507" using Cons.prems by simp
    with Got IH show ?thesis by (simp add: ends_loop_def udp_handlers_def kUdpBuffer_def result_defs split: prod.split option.split)
  qed (use IH in \<open>simp_all add: ends_loop_def result_defs\<close>)
qed simp

lemma answers_no_throw:
  "(\<And>h a d e. rh = Some h \<Longrightarrow> snd (snd (h a d)) \<noteq> Inl e) \<Longrightarrow> fst (answers pb rh sh f rs w) = None"
proof (induction pb rh sh f rs w rule: answers.induct)
  case (2 pb rh sh f data ip port rs w)
  have "fst (EchoUdpHandler_OnPacket pb rh sh f data ip (int (unat port)) w) = None"
  proof (cases rh)
    case None
    then show ?thesis by (simp add: EchoUdpHandler_OnPacket_def Let_def split: option.split prod.split)
  next
    case (Some h)
    obtain a ops r where h: "h (uw_app w) data = (a, ops, r)" by (rule prod_cases3)
    have "r \<noteq> Inl e" for e using 2(3)[OF Some, of "uw_app w" data e] h by simp
    then obtain u where "r = Inr u" by (cases r) blast+
    with h Some show ?thesis by (simp add: EchoUdpHandler_OnPacket_def Let_def)
  qed
  with 2 show ?case by (auto split: prod.split option.split)
qed simp_all

text \<open>The echo a packet gets.\<close>

fun echo_packet :: "int \<Rightarrow> recvfrom \<Rightarrow> packet list" where
  "echo_packet f (Got data ip port) = (if data = [] then [] else [\<lparr>pk_fd = f, pk_ip = ip, pk_port = port, pk_data = data\<rparr>])"
| "echo_packet f _ = []"

lemma answers_echo:
  "uw_sent (snd (answers pb None None f rs w)) = uw_sent w @ concat (map (echo_packet f) rs)"
proof (induction rs arbitrary: w)
  case (Cons d rs)
  then show ?case by (cases d) (simp_all add: EchoUdpHandler_OnPacket_def udp_send_def)
qed simp

text \<open>
  C36. The UDP server answers every datagram, up to an exception of the raw handler, which nothing
  catches.  Whatever datagrams (of at most 65507 bytes, the most UDP carries) and failures are waiting
  on the socket, the readiness events that level-triggered epoll delivers while any is left hand
  each non-empty one to the handler once, in the order of arrival, with its sender; the first
  exception ends the loop, and the process with it, and no later datagram is served.  Without a raw
  handler, or with one that never throws, all are served; without handlers each is sent back as it is to the
  address and port it came from.  An empty datagram ends the callback's loop, so each costs one
  more event.
\<close>
theorem udp_serves_every_datagram:
  assumes "rx_datagrams (snd q) f = map (UdpSocket_RecvFrom kUdpBuffer) rs" and "loop_thrown (fst q) = None"
    and "\<forall>d ip port. Got d ip port \<in> set rs \<longrightarrow> length d \<le> 65507"
    and "events AND EPOLLIN \<noteq> 0" and "length (filter empty_receive rs) < n"
    and "q' = (reactor_call (udp_handlers pb rh sh) (Udp_Cb hid f) events ^^ n) q"
  shows "(loop_thrown (fst q'), rx_world (snd q')) = answers pb rh sh f rs (rx_world (snd q)) \<and>
    (loop_thrown (fst q') = None \<longrightarrow> rx_datagrams (snd q') f = []) \<and>
    ((\<forall>h a d e. rh = Some h \<longrightarrow> snd (snd (h a d)) \<noteq> Inl e) \<longrightarrow> loop_thrown (fst q') = None) \<and>
    (rh = None \<and> sh = None \<longrightarrow>
       uw_sent (rx_world (snd q')) = uw_sent (rx_world (snd q)) @ concat (map (echo_packet f) rs))"
proof -
  have "filter ends_loop (map (UdpSocket_RecvFrom kUdpBuffer) rs) = map (UdpSocket_RecvFrom kUdpBuffer) (filter empty_receive rs)"
    by (induction rs) (simp_all add: ends_loop_RecvFrom)
  then have "length (filter ends_loop (rx_datagrams (snd q) f)) < n" using assms(1,5) by simp
  from udp_calls_serve[OF assms(4,2) this assms(6)]
  have s: "(loop_thrown (fst q'), rx_world (snd q')) = answers pb rh sh f rs (rx_world (snd q))"
    and d: "loop_thrown (fst q') = None \<longrightarrow> rx_datagrams (snd q') f = []"
    using assms(1) serve_RecvFrom[OF assms(3)] by simp_all
  then have e: "loop_thrown (fst q') = fst (answers pb rh sh f rs (rx_world (snd q)))"
    and w: "rx_world (snd q') = snd (answers pb rh sh f rs (rx_world (snd q)))" by (metis fst_conv, metis snd_conv)
  have "(\<forall>h a d e. rh = Some h \<longrightarrow> snd (snd (h a d)) \<noteq> Inl e) \<longrightarrow> loop_thrown (fst q') = None"
    using answers_no_throw[of rh pb sh f rs "rx_world (snd q)"] unfolding e by blast
  with s d w show ?thesis by (simp add: answers_echo)
qed

definition udp_start :: "int \<Rightarrow> 's \<Rightarrow> recvfrom list \<Rightarrow> 's udp_world rx_program" where
  "udp_start f a rs =
     (EventLoop_new,
      (Reactor_new \<lparr>uw_app = a, uw_sent = []\<rparr>)\<lparr>rx_datagrams := (\<lambda>_. [])(f := map (UdpSocket_RecvFrom kUdpBuffer) rs)\<rparr>)"

text \<open>A raw handler that sends every packet back and throws on ``x'': the datagrams before it are echoed.\<close>

definition picky_handler :: "unit raw_handler" where
  "picky_handler a d = (a, [Ctx_Write d], if d = ''x'' then Inl (Runtime_Error ''bad packet'') else Inr ())"

lemma udp_serves_every_datagram_witness:
  "let rs = [Got ''a'' ''10.0.0.1'' 5000, Got [] ''10.0.0.2'' 1, Got ''b'' ''10.0.0.3'' 6000];
       q1 = (reactor_call (udp_handlers pb_data_only None None) (Udp_Cb 0 4) EPOLLIN ^^ 2) (udp_start 4 () rs);
       q2 = (reactor_call (udp_handlers pb_data_only (Some picky_handler) None) (Udp_Cb 0 4) EPOLLIN ^^ 2)
         (udp_start 4 () (rs @ [Got ''x'' ''10.0.0.1'' 5000, Got ''c'' ''10.0.0.1'' 5000]))
   in map pk_data (uw_sent (rx_world (snd q1))) = [''a'', ''b''] \<and> loop_thrown (fst q1) = None \<and>
      map pk_data (uw_sent (rx_world (snd q2))) = [''a'', ''b'', ''x''] \<and> loop_thrown (fst q2) = Some (Runtime_Error ''bad packet'')"
proof -
  let ?rs = "[Got ''a'' ''10.0.0.1'' 5000, Got [] ''10.0.0.2'' 1, Got ''b'' ''10.0.0.3'' 6000]"
  let ?rs' = "?rs @ [Got ''x'' ''10.0.0.1'' 5000, Got ''c'' ''10.0.0.1'' 5000]"
  have start: "rx_datagrams (snd (udp_start 4 () rs)) 4 = map (UdpSocket_RecvFrom kUdpBuffer) rs"
    "loop_thrown (fst (udp_start 4 () rs)) = None" "rx_world (snd (udp_start 4 () rs)) = \<lparr>uw_app = (), uw_sent = []\<rparr>" for rs
    by (simp_all add: udp_start_def EventLoop_new_def Reactor_new_def)
  have size: "\<forall>d ip port. Got d ip port \<in> set ?rs \<longrightarrow> length d \<le> 65507" "\<forall>d ip port. Got d ip port \<in> set ?rs' \<longrightarrow> length d \<le> 65507"
    by auto
  have ev: "(EPOLLIN :: uint32) AND EPOLLIN \<noteq> 0" by (simp add: EPOLLIN_def)
  have n: "length (filter empty_receive ?rs) < 2" "length (filter empty_receive ?rs') < 2" by (simp_all add: empty_receive_def)
  have a: "map pk_data (uw_sent (snd (answers pb_data_only None None 4 ?rs \<lparr>uw_app = (), uw_sent = []\<rparr>))) = [''a'', ''b'']"
    "fst (answers pb_data_only None None 4 ?rs \<lparr>uw_app = (), uw_sent = []\<rparr>) = None"
    by (simp_all add: EchoUdpHandler_OnPacket_def udp_send_def)
  have b: "map pk_data (uw_sent (snd (answers pb_data_only (Some picky_handler) None 4 ?rs' \<lparr>uw_app = (), uw_sent = []\<rparr>))) = [''a'', ''b'', ''x'']"
    "fst (answers pb_data_only (Some picky_handler) None 4 ?rs' \<lparr>uw_app = (), uw_sent = []\<rparr>) = Some (Runtime_Error ''bad packet'')"
    by (simp_all add: EchoUdpHandler_OnPacket_def udp_send_def picky_handler_def)
  note t1 = udp_serves_every_datagram[OF start(1,2) size(1) ev n(1) refl, of pb_data_only None None 0, unfolded start(3), THEN conjunct1]
  note t2 = udp_serves_every_datagram[OF start(1,2) size(2) ev n(2) refl, of pb_data_only "Some picky_handler" None 0, unfolded start(3), THEN conjunct1]
  show ?thesis unfolding Let_def
    using a b arg_cong[OF t1, of fst] arg_cong[OF t1, of snd] arg_cong[OF t2, of fst] arg_cong[OF t2, of snd]
    by (simp only: fst_conv snd_conv)
qed

section \<open>QUIC packets\<close>

lemma session_retrieve_all:
  assumes "session_inv st"
  shows "session_inv (map_input Buffer_RetrieveAll st)" and "pending (map_input Buffer_RetrieveAll st) = []"
    and "visible (map_input Buffer_RetrieveAll st) = visible st"
  using assms
  by (auto simp: session_inv_def pending_def visible_def map_input_def map_conn_def conn_inv_def buffer_invs stream_def)

lemma whole_input:
  "session_inv st \<Longrightarrow> take (Buffer_ReadableBytes (in_buf st)) (Buffer_Peek (in_buf st)) = pending st"
  by (simp add: pending_readable pending_Peek)

lemma Quic_OnMessage_serves:
  assumes "session_inv st" and "9 \<le> length (pending st)"
  shows "session_inv (Quic_OnMessage st) \<and> pending (Quic_OnMessage st) = [] \<and>
    visible (Quic_OnMessage st) =
      (app st, rate_limiter st,
       stream (conn st) @ (if u8 (pending st ! 0) = 0x01 then quic_ack @ drop 9 (pending st) else []))"
proof -
  let ?st = "map_input Buffer_RetrieveAll st"
  note r = session_retrieve_all[OF assms(1)]
  let ?d = "quic_ack @ drop 9 (pending st)"
  have o: "session_inv (map_conn (Connection_Send ?d) ?st)" "pending (map_conn (Connection_Send ?d) ?st) = []"
    "visible (map_conn (Connection_Send ?d) ?st) = (app ?st, rate_limiter ?st, stream (conn ?st) @ ?d)"
    using session_outputs[OF r(1) Send_outputs[of ?d], of "app ?st"] r(2) by (simp_all add: map_conn_def)
  have v: "app ?st = app st" "rate_limiter ?st = rate_limiter st" "stream (conn ?st) = stream (conn st)"
    using r(3) by (simp_all add: visible_def)
  have "visible st = (app st, rate_limiter st, stream (conn st))" by (simp add: visible_def)
  then show ?thesis
    using assms o r v whole_input[OF assms(1)] pending_readable[OF assms(1)]
    by (simp add: Quic_OnMessage_def Let_def not_less)
qed

lemma QuicClient_receives:
  assumes "session_inv st" and "pending st \<noteq> []"
  shows "session_inv (QuicClient_OnDataReceived (Some g) st) \<and> pending (QuicClient_OnDataReceived (Some g) st) = [] \<and>
    app (QuicClient_OnDataReceived (Some g) st) = g (app st) (data_message (pending st))"
proof -
  note r = session_retrieve_all[OF assms(1)]
  have v: "app (map_input Buffer_RetrieveAll st) = app st" using r(3) by (simp add: visible_def)
  show ?thesis
    using assms r v whole_input[OF assms(1)] pending_readable[OF assms(1)]
    by (simp add: QuicClient_OnDataReceived_def data_message_def session_inv_def pending_def)
qed

lemma length_quic_packet [simp]: "length (quic_packet p) = 9 + length p"
  by (simp add: quic_packet_def)

lemma quic_packet_parts: "drop 9 (quic_packet p @ r) = p @ r" "u8 ((quic_packet p @ r) ! 0) = 0x01"
  by (simp_all add: quic_packet_def)

text \<open>
  QUIC end to end: an envelope the client sends makes the server, when the packet arrives
  whole, answer with the acknowledgement text and the serialised envelope, and that answer reaches the
  client's handler as the payload of a message; both inputs are consumed.
\<close>
theorem quic_echo:
  assumes "conn_inv c" and "in_loop_thread c"
    and "session_inv srv" and "pending srv = []" and "session_inv cl" and "pending cl = []"
    and "srv' = Quic_OnMessage (receive (drop (length (stream c)) (stream (QuicClient_Send pb e c))) srv)"
    and "cl' = QuicClient_OnDataReceived (Some g) (receive (drop (length (stream (conn srv))) (stream (conn srv'))) cl)"
  shows "pending srv' = [] \<and> app srv' = app srv \<and> pending cl' = [] \<and>
    app cl' = g (app cl) (data_message (''QUIC-ACK: '' @ pb_serialize pb e))"
proof -
  let ?p = "pb_serialize pb e"
  have "stream (QuicClient_Send pb e c) = stream c @ quic_packet ?p"
    using Send_outputs[of "quic_packet ?p" c] assms(1,2) by (simp add: QuicClient_Send_def outputs_def extends_def)
  then have d: "drop (length (stream c)) (stream (QuicClient_Send pb e c)) = quic_packet ?p" by simp
  note r = session_receive[OF assms(3), of "quic_packet ?p"]
  have srv: "pending srv' = []" "visible srv' = (app srv, rate_limiter srv, stream (conn srv) @ quic_ack @ ?p)"
    using Quic_OnMessage_serves[of "receive (quic_packet ?p) srv"] r assms(4,7) d quic_packet_parts[of ?p "[]"]
    by (auto simp: visible_def)
  then have a: "drop (length (stream (conn srv))) (stream (conn srv')) = quic_ack @ ?p" by (simp add: visible_def)
  note rc = session_receive[OF assms(5), of "quic_ack @ ?p"]
  have "pending cl' = []" "app cl' = g (app cl) (data_message (quic_ack @ ?p))"
    using QuicClient_receives[of "receive (quic_ack @ ?p) cl" g] rc assms(6,8) a
    by (auto simp: visible_def quic_ack_def)
  with srv show ?thesis by (simp add: visible_def quic_ack_def)
qed

lemma quic_echo_witness:
  "app (QuicClient_OnDataReceived (Some (\<lambda>s e. s @ [get_data e]))
      (receive (drop (length (stream (conn (fresh_session ()))))
          (stream (conn (Quic_OnMessage (receive (drop (length (stream fresh_conn))
             (stream (QuicClient_Send pb_data_only (data_message ''hi'') fresh_conn))) (fresh_session ()))))))
        (fresh_session []))) = [''QUIC-ACK: hi'']"
  using quic_echo[of fresh_conn "fresh_session ()" "fresh_session []" _ pb_data_only "data_message ''hi''" _
      "\<lambda>s e. s @ [get_data e]"]
  by simp

text \<open>
  The packets carry no length, so reads are taken for packets: when two packets arrive in one
  read the server answers once, the second packet's header in the middle of the text; and when a
  packet is cut after its header, the rest is answered not at all (unless it happens to begin with
  the type byte itself).
\<close>
theorem quic_reads_are_packets:
  assumes "session_inv st" and "pending st = []" and "9 \<le> length b" and "u8 (b ! 0) \<noteq> 0x01"
  shows "stream (conn (Quic_OnMessage (receive (quic_packet p1 @ quic_packet p2) st))) =
      stream (conn st) @ ''QUIC-ACK: '' @ p1 @ quic_packet p2 \<and>
    stream (conn (Quic_OnMessage (receive b (Quic_OnMessage (receive (quic_packet a) st))))) =
      stream (conn st) @ ''QUIC-ACK: '' @ a"
proof -
  have read: "session_inv (Quic_OnMessage (receive d s)) \<and> pending (Quic_OnMessage (receive d s)) = [] \<and>
      stream (conn (Quic_OnMessage (receive d s))) =
        stream (conn s) @ (if u8 (d ! 0) = 0x01 then quic_ack @ drop 9 d else [])"
    if s: "session_inv s" "pending s = []" "9 \<le> length d" for d s
    using session_receive[OF s(1), of d] Quic_OnMessage_serves[of "receive d s"] s(2,3) by (auto simp: visible_def)
  have "stream (conn (Quic_OnMessage (receive (quic_packet p1 @ quic_packet p2) st))) =
      stream (conn st) @ quic_ack @ p1 @ quic_packet p2"
    using read[OF assms(1,2), of "quic_packet p1 @ quic_packet p2"] quic_packet_parts(1)[of p1 "[]"]
    by (simp add: quic_packet_parts(2)[simplified])
  moreover have q: "session_inv (Quic_OnMessage (receive (quic_packet a) st))"
    "pending (Quic_OnMessage (receive (quic_packet a) st)) = []"
    "stream (conn (Quic_OnMessage (receive (quic_packet a) st))) = stream (conn st) @ quic_ack @ a"
    using read[OF assms(1,2), of "quic_packet a"] quic_packet_parts[of a "[]"] by simp_all
  moreover have "stream (conn (Quic_OnMessage (receive b (Quic_OnMessage (receive (quic_packet a) st))))) =
      stream (conn (Quic_OnMessage (receive (quic_packet a) st)))"
    using read[OF q(1,2) assms(3)] assms(4) by simp
  ultimately show ?thesis by (simp add: quic_ack_def)
qed

lemma quic_reads_are_packets_witness:
  "stream (conn (Quic_OnMessage (receive (quic_packet ''a'' @ quic_packet ''b'') (fresh_session ())))) =
     ''QUIC-ACK: '' @ ''a'' @ quic_packet ''b''"
proof -
  have "u8 (CHR ''x'') \<noteq> 0x01" by code_simp
  then show ?thesis
    using quic_reads_are_packets[of "fresh_session ()" "replicate 9 (CHR ''x'')" "''a''" "''b''" "[]"]
    by (simp add: fresh_session_def fresh_session_facts[unfolded fresh_session_def])
qed

end
