(* ===== verification/Tls.thy ===== *)
theory Tls
  imports Buffer
begin

text \<open>
  \<open>security::TlsContext\<close>.  OpenSSL is a parameter, the record \<open>openssl\<close>: whether the \<open>n\<close>-th
  \<open>SSL_CTX_new\<close> succeeds and what loading a file into a context returns.  A context carries what the
  code sets on it; the references the object holds on contexts are counted, so that a leak or a
  double free would show.  An \<open>SSL\<close> object is the context it was made from.
\<close>

section \<open>OpenSSL contexts\<close>

datatype SslMode = kServer | kClient

record ssl_ctx =
  sc_id :: nat
  sc_method :: SslMode
  sc_min_version :: nat
  sc_chain :: "string option"
  sc_key :: "string option"

definition TLS1_2_VERSION :: nat where "TLS1_2_VERSION = 0x0303"

record openssl =
  os_new :: "nat \<Rightarrow> bool"
  os_chain_file :: "string \<Rightarrow> int"
  os_key_file :: "ssl_ctx \<Rightarrow> string \<Rightarrow> int"
  os_check :: "ssl_ctx \<Rightarrow> bool"

record TlsContext =
  tls_ctx :: "ssl_ctx option"
  tls_mode :: SslMode
  tls_made :: nat
  tls_refs :: "nat list"

definition TlsContext_new :: TlsContext where
  "TlsContext_new = \<lparr>tls_ctx = None, tls_mode = kServer, tls_made = 0, tls_refs = []\<rparr>"

definition SSL_CTX_new :: "openssl \<Rightarrow> SslMode \<Rightarrow> TlsContext \<Rightarrow> ssl_ctx option \<times> TlsContext" where
  "SSL_CTX_new os method t =
     (let i = tls_made t; t1 = t\<lparr>tls_made := Suc i\<rparr>
      in if os_new os i
         then (Some \<lparr>sc_id = i, sc_method = method, sc_min_version = 0, sc_chain = None, sc_key = None\<rparr>,
               t1\<lparr>tls_refs := i # tls_refs t1\<rparr>)
         else (None, t1))"

definition SSL_CTX_free :: "ssl_ctx \<Rightarrow> TlsContext \<Rightarrow> TlsContext" where
  "SSL_CTX_free c t = t\<lparr>tls_refs := remove1 (sc_id c) (tls_refs t)\<rparr>"

text \<open>
  Loading a certificate chain and a key into a context and checking that they match; the messages
  are those of the three failures.
\<close>

definition load_pair :: "openssl \<Rightarrow> string \<Rightarrow> string \<Rightarrow> string \<times> string \<times> string \<Rightarrow> ssl_ctx \<Rightarrow> unit result \<times> ssl_ctx" where
  "load_pair os cert key msgs c =
     (case msgs of (no_cert, no_key, mismatch) \<Rightarrow>
        if os_chain_file os cert \<le> 0 then (Result_Failure kConfigError no_cert, c)
        else
          (let c1 = c\<lparr>sc_chain := Some cert\<rparr>
           in if os_key_file os c1 key \<le> 0 then (Result_Failure kConfigError no_key, c1)
              else
                (let c2 = c1\<lparr>sc_key := Some key\<rparr>
                 in if \<not> os_check os c2 then (Result_Failure kConfigError mismatch, c2)
                    else (Result_Success (), c2))))"

section \<open>TlsContext\<close>

definition TlsContext_Init_mode ::
    "openssl \<Rightarrow> SslMode \<Rightarrow> string \<Rightarrow> string \<Rightarrow> TlsContext \<Rightarrow> unit result \<times> TlsContext" where
  "TlsContext_Init_mode os mode cert key t =
     (let t1 = (case tls_ctx t of Some c \<Rightarrow> (SSL_CTX_free c t)\<lparr>tls_ctx := None\<rparr> | None \<Rightarrow> t);
          (made, t2) = SSL_CTX_new os mode (t1\<lparr>tls_mode := mode\<rparr>)
      in case made of
           None \<Rightarrow> (Result_Failure kInternal ''Failed to create SSL_CTX'', t2)
         | Some c0 \<Rightarrow>
             (let c = c0\<lparr>sc_min_version := TLS1_2_VERSION\<rparr>;
                  (res, c') =
                    (if mode = kServer then
                       (if cert = [] \<or> key = []
                        then (Result_Failure kConfigError ''Server mode requires certificate and key files'', c)
                        else load_pair os cert key
                               (''Failed to load certificate file'', ''Failed to load private key file'',
                                ''Private key does not match certificate'') c)
                     else
                       (if cert \<noteq> [] \<and> key \<noteq> []
                        then load_pair os cert key
                               (''Failed to load client certificate file'', ''Failed to load client private key file'',
                                ''Client private key does not match certificate'') c
                        else (Result_Success (), c)))
              in (res, t2\<lparr>tls_ctx := Some c'\<rparr>)))"

definition TlsContext_Init :: "openssl \<Rightarrow> string \<Rightarrow> string \<Rightarrow> TlsContext \<Rightarrow> unit result \<times> TlsContext" where
  "TlsContext_Init os cert key t = TlsContext_Init_mode os kServer cert key t"

definition TlsContext_ReloadCertificates :: "openssl \<Rightarrow> string \<Rightarrow> string \<Rightarrow> TlsContext \<Rightarrow> unit result \<times> TlsContext" where
  "TlsContext_ReloadCertificates os cert key t =
     (if tls_mode t \<noteq> kServer
      then (Result_Failure kConfigError ''Certificate reload is only supported in server mode'', t)
      else
        (case SSL_CTX_new os kServer t of
           (None, t1) \<Rightarrow> (Result_Failure kInternal ''Failed to create temp SSL_CTX'', t1)
         | (Some c0, t1) \<Rightarrow>
             (case load_pair os cert key
                     (''Failed to load new certificate'', ''Failed to load new private key'', ''New private key mismatch'')
                     (c0\<lparr>sc_min_version := TLS1_2_VERSION\<rparr>) of
                (Inl e, c) \<Rightarrow> (Inl e, SSL_CTX_free c t1)
              | (Inr _, c) \<Rightarrow>
                  (Result_Success (),
                   (case tls_ctx t1 of Some old \<Rightarrow> SSL_CTX_free old t1 | None \<Rightarrow> t1)\<lparr>tls_ctx := Some c\<rparr>))))"

definition TlsContext_CreateSsl :: "(ssl_ctx \<Rightarrow> bool) \<Rightarrow> TlsContext \<Rightarrow> ssl_ctx option" where
  "TlsContext_CreateSsl ssl_new t =
     (case tls_ctx t of None \<Rightarrow> None | Some c \<Rightarrow> if ssl_new c then Some c else None)"

definition TlsContext_delete :: "TlsContext \<Rightarrow> TlsContext" where
  "TlsContext_delete t = (case tls_ctx t of Some c \<Rightarrow> SSL_CTX_free c t | None \<Rightarrow> t)"

lemmas tls_defs = TlsContext_Init_mode_def TlsContext_Init_def TlsContext_ReloadCertificates_def
  SSL_CTX_new_def SSL_CTX_free_def result_defs

section \<open>What the operations keep\<close>

lemma load_pair_keeps:
  assumes "load_pair os cert key msgs c = (res, c')"
  shows "sc_id c' = sc_id c" and "sc_min_version c' = sc_min_version c" and "sc_method c' = sc_method c"
    and "res = Inr () \<longrightarrow> sc_chain c' = Some cert \<and> sc_key c' = Some key \<and> os_check os c'"
  using assms by (auto simp: load_pair_def Let_def result_defs split: prod.splits if_splits)

text \<open>
  The object holds exactly one reference, on its current context, and none without one; the
  context asks for TLS 1.2 at least.
\<close>

definition tls_inv :: "TlsContext \<Rightarrow> bool" where
  "tls_inv t \<longleftrightarrow>
     (case tls_ctx t of
        None \<Rightarrow> tls_refs t = []
      | Some c \<Rightarrow> tls_refs t = [sc_id c] \<and> sc_id c < tls_made t \<and> sc_min_version c = TLS1_2_VERSION)"

datatype tls_op = Tls_Init SslMode string string | Tls_Reload string string

fun tls_step :: "openssl \<Rightarrow> TlsContext \<Rightarrow> tls_op \<Rightarrow> TlsContext" where
  "tls_step os t (Tls_Init mode cert key) = snd (TlsContext_Init_mode os mode cert key t)"
| "tls_step os t (Tls_Reload cert key) = snd (TlsContext_ReloadCertificates os cert key t)"

lemma load_pair_keeps_simps [simp]:
  "sc_id (snd (load_pair os cert key msgs c)) = sc_id c"
  "sc_min_version (snd (load_pair os cert key msgs c)) = sc_min_version c"
  using load_pair_keeps(1,2)[of os cert key msgs c] by (metis prod.collapse)+

lemma TlsContext_Init_inv:
  assumes "tls_inv t"
  shows "tls_inv (snd (TlsContext_Init_mode os mode cert key t))"
  using assms by (cases "tls_ctx t") (simp_all add: tls_inv_def tls_defs Let_def case_prod_beta)

lemma Reload_inv:
  assumes "tls_inv t"
  shows "tls_inv (snd (TlsContext_ReloadCertificates os cert key t))"
proof -
  let ?c = "\<lparr>sc_id = tls_made t, sc_method = kServer, sc_min_version = TLS1_2_VERSION, sc_chain = None, sc_key = None\<rparr>"
  obtain res c where l: "load_pair os cert key
      (''Failed to load new certificate'', ''Failed to load new private key'', ''New private key mismatch'') ?c = (res, c)"
    by fastforce
  have "sc_id c = tls_made t" "sc_min_version c = TLS1_2_VERSION"
    using load_pair_keeps(1,2)[OF l] by simp_all
  with assms l show ?thesis
    by (cases res; cases "tls_ctx t") (simp_all add: tls_inv_def tls_defs Let_def less_Suc_eq)
qed

lemma tls_step_inv: "tls_inv t \<Longrightarrow> tls_inv (tls_step os t op)"
  by (cases op) (simp_all add: TlsContext_Init_inv Reload_inv)

lemma tls_run_inv: "tls_inv t \<Longrightarrow> tls_inv (foldl (tls_step os) t ops)"
  by (induction ops arbitrary: t) (simp_all add: tls_step_inv)

text \<open>
  C27. No context leaks and none is freed twice: whatever sequence of initialisations and reloads a
  program performs and whichever of them OpenSSL fails, the object holds one reference on its current
  context and no other, destroying it leaves none, and every SSL object it hands out is made
  from a context restricted to TLS 1.2 and later.
\<close>
theorem tls_references:
  assumes "t = foldl (tls_step os) TlsContext_new ops"
  shows "tls_refs t = (case tls_ctx t of None \<Rightarrow> [] | Some c \<Rightarrow> [sc_id c]) \<and>
    tls_refs (TlsContext_delete t) = [] \<and>
    (\<forall>s. TlsContext_CreateSsl ssl_new t = Some s \<longrightarrow> sc_min_version s = TLS1_2_VERSION)"
proof -
  have "tls_inv t" using tls_run_inv[of TlsContext_new os ops] assms by (simp add: tls_inv_def TlsContext_new_def)
  then show ?thesis
    by (auto simp: tls_inv_def TlsContext_delete_def SSL_CTX_free_def TlsContext_CreateSsl_def split: option.splits if_splits)
qed

text \<open>An OpenSSL that finds \<open>a.pem\<close> and \<open>a.key\<close> and fails on everything else.\<close>

definition one_pair :: openssl where
  "one_pair = \<lparr>os_new = (\<lambda>_. True), os_chain_file = (\<lambda>f. if f = ''a.pem'' then 1 else 0),
     os_key_file = (\<lambda>_ f. if f = ''a.key'' then 1 else 0), os_check = (\<lambda>_. True)\<rparr>"

lemma tls_references_witness:
  "tls_refs (TlsContext_delete (foldl (tls_step one_pair) TlsContext_new
      [Tls_Init kServer ''a.pem'' ''a.key'', Tls_Reload ''b.pem'' ''b.key'', Tls_Reload ''a.pem'' ''a.key''])) = []"
  using tls_references[OF refl, of one_pair
      "[Tls_Init kServer ''a.pem'' ''a.key'', Tls_Reload ''b.pem'' ''b.key'', Tls_Reload ''a.pem'' ''a.key'']"]
  by blast

text \<open>
  C39. A reload is atomic: if it fails, for whatever reason, new connections keep getting the old
  context; if it succeeds they get one with the new certificate and key, which OpenSSL has found to
  match.
\<close>
theorem tls_reload_atomic:
  assumes "TlsContext_ReloadCertificates os cert key t = (res, t')"
  shows "(case res of
            Inl _ \<Rightarrow> tls_ctx t' = tls_ctx t \<and> TlsContext_CreateSsl ssl_new t' = TlsContext_CreateSsl ssl_new t
          | Inr _ \<Rightarrow> \<exists>c. tls_ctx t' = Some c \<and> sc_chain c = Some cert \<and> sc_key c = Some key \<and> os_check os c)"
  using assms
  by (auto simp: TlsContext_CreateSsl_def tls_defs Let_def dest: load_pair_keeps
      split: option.splits prod.splits if_splits sum.splits)

lemma tls_reload_atomic_witness:
  "\<exists>t c. TlsContext_ReloadCertificates one_pair ''a.pem'' ''a.key'' TlsContext_new = (Inr (), t) \<and>
     tls_ctx t = Some c \<and> sc_chain c = Some ''a.pem''"
proof -
  obtain res t where r: "TlsContext_ReloadCertificates one_pair ''a.pem'' ''a.key'' TlsContext_new = (res, t)" by fastforce
  have "res = Inr ()"
    using r by (simp add: tls_defs one_pair_def TlsContext_new_def load_pair_def Let_def)
  with tls_reload_atomic[OF r, of "\<lambda>_. True"] r show ?thesis by auto
qed

text \<open>
  Initialisation is not atomic: the old context is freed first, and when loading fails a
  context without a certificate stays in place, from which \<open>CreateSsl\<close> goes on making SSL objects.
\<close>
theorem tls_failed_init_leaves_bare_context:
  assumes "os_new os (tls_made t)" and "cert = [] \<or> key = [] \<or> os_chain_file os cert \<le> 0"
  shows "\<exists>e t' s. TlsContext_Init os cert key t = (Inl e, t') \<and> err_code e = kConfigError \<and>
    TlsContext_CreateSsl (\<lambda>_. True) t' = Some s \<and> sc_chain s = None \<and> sc_key s = None"
  using assms
  by (auto simp: TlsContext_CreateSsl_def tls_defs load_pair_def Let_def split: option.splits prod.splits if_splits)

lemma tls_failed_init_leaves_bare_context_witness:
  "\<exists>e t' s. TlsContext_Init one_pair ''b.pem'' ''b.key'' TlsContext_new = (Inl e, t') \<and>
    TlsContext_CreateSsl (\<lambda>_. True) t' = Some s \<and> sc_chain s = None"
  using tls_failed_init_leaves_bare_context[of one_pair TlsContext_new "''b.pem''" "''b.key''"]
  by (auto simp: one_pair_def)

end
