(* ===== verification/Config.thy ===== *)
theory Config
  imports Buffer Complex_Main
begin

text \<open>
  The configuration: the structs of \<open>config/config.h\<close> with their defaults, \<open>ConfigParser\<close>, which
  fills them from a YAML document, and \<open>ConfigHotReload\<close>, which parses the file again when it
  changes.  The YAML library is a parameter, the record \<open>yaml\<close> of the operations the parser uses.
  A statement of the parser that assigns a field is a step, which may throw and then leaves the
  configuration as the statements before it have made it.
\<close>

section \<open>The structs\<close>

record SocketConfig =
  sk_reuseaddr :: bool
  sk_reuseport :: bool
  sk_nodelay :: bool
  sk_keepalive :: bool
  sk_keepalive_idle_sec :: int
  sk_keepalive_interval_sec :: int
  sk_keepalive_count :: int
  sk_rcvbuf :: int
  sk_sndbuf :: int
  sk_backlog :: int

definition SocketConfig_default :: SocketConfig where
  "SocketConfig_default =
     \<lparr>sk_reuseaddr = True, sk_reuseport = True, sk_nodelay = True, sk_keepalive = True, sk_keepalive_idle_sec = 60,
      sk_keepalive_interval_sec = 10, sk_keepalive_count = 3, sk_rcvbuf = 2097152, sk_sndbuf = 2097152,
      sk_backlog = 4096\<rparr>"

record NetworkConfig =
  nc_host :: string
  nc_port :: int
  nc_protocol :: string
  nc_ip_version :: string
  nc_socket :: SocketConfig

definition NetworkConfig_default :: NetworkConfig where
  "NetworkConfig_default =
     \<lparr>nc_host = ''0.0.0.0'', nc_port = 0, nc_protocol = ''tcp'', nc_ip_version = ''dual'',
      nc_socket = SocketConfig_default\<rparr>"

record GrpcStreamingConfig =
  gs_bidirectional :: bool
  gs_server_streaming :: bool
  gs_client_streaming :: bool
  gs_unary :: bool
  gs_max_concurrent_streams :: int
  gs_initial_window_size :: int
  gs_max_frame_size :: int
  gs_keepalive_time_ms :: int
  gs_keepalive_timeout_ms :: int
  gs_keepalive_permit_without_calls :: bool
  gs_max_connection_idle_ms :: int

definition GrpcStreamingConfig_default :: GrpcStreamingConfig where
  "GrpcStreamingConfig_default =
     \<lparr>gs_bidirectional = True, gs_server_streaming = True, gs_client_streaming = True, gs_unary = True,
      gs_max_concurrent_streams = 1000, gs_initial_window_size = 65535, gs_max_frame_size = 16384,
      gs_keepalive_time_ms = 7200000, gs_keepalive_timeout_ms = 20000, gs_keepalive_permit_without_calls = True,
      gs_max_connection_idle_ms = 300000\<rparr>"

record CompressionConfig =
  cp_enabled :: bool
  cp_algorithms :: "string list"
  cp_default_algorithm :: string
  cp_level :: int

definition CompressionConfig_default :: CompressionConfig where
  "CompressionConfig_default = \<lparr>cp_enabled = True, cp_algorithms = [], cp_default_algorithm = [], cp_level = 6\<rparr>"

record Http2Config =
  hh_max_header_list_size :: int
  hh_enable_push :: bool
  hh_initial_connection_window_size :: int

definition Http2Config_default :: Http2Config where
  "Http2Config_default =
     \<lparr>hh_max_header_list_size = 16384, hh_enable_push = False, hh_initial_connection_window_size = 1048576\<rparr>"

record GrpcConfig =
  gc_enabled :: bool
  gc_streaming :: GrpcStreamingConfig
  gc_max_receive_message_size_mb :: int
  gc_max_send_message_size_mb :: int
  gc_max_metadata_size_kb :: int
  gc_compression :: CompressionConfig
  gc_http2 :: Http2Config

definition GrpcConfig_default :: GrpcConfig where
  "GrpcConfig_default =
     \<lparr>gc_enabled = False, gc_streaming = GrpcStreamingConfig_default, gc_max_receive_message_size_mb = 100,
      gc_max_send_message_size_mb = 100, gc_max_metadata_size_kb = 8, gc_compression = CompressionConfig_default,
      gc_http2 = Http2Config_default\<rparr>"

record HttpConfig =
  ht_enabled :: bool
  ht_port :: int
  ht_version :: string

definition HttpConfig_default :: HttpConfig where
  "HttpConfig_default = \<lparr>ht_enabled = False, ht_port = 0, ht_version = ''1.1''\<rparr>"

record WebsocketConfig =
  wc_enabled :: bool
  wc_port :: int

definition WebsocketConfig_default :: WebsocketConfig where
  "WebsocketConfig_default = \<lparr>wc_enabled = False, wc_port = 0\<rparr>"

record TcpUdpConfig =
  tu_enabled :: bool
  tu_port :: int

definition TcpUdpConfig_default :: TcpUdpConfig where
  "TcpUdpConfig_default = \<lparr>tu_enabled = False, tu_port = 0\<rparr>"

record ProtocolsConfig =
  ps_grpc :: GrpcConfig
  ps_http :: HttpConfig
  ps_websocket :: WebsocketConfig
  ps_tcp :: TcpUdpConfig
  ps_udp :: TcpUdpConfig

definition ProtocolsConfig_default :: ProtocolsConfig where
  "ProtocolsConfig_default =
     \<lparr>ps_grpc = GrpcConfig_default, ps_http = HttpConfig_default, ps_websocket = WebsocketConfig_default,
      ps_tcp = TcpUdpConfig_default, ps_udp = TcpUdpConfig_default\<rparr>"

record SslConfig =
  ssl_enabled :: bool
  ssl_min_tls_version :: string
  ssl_max_tls_version :: string
  ssl_cert_file :: string
  ssl_key_file :: string
  ssl_ca_file :: string
  ssl_verify_client :: bool
  ssl_client_cert_required :: bool
  ssl_cipher_suites :: "string list"
  ssl_session_tickets :: bool
  ssl_session_ticket_keys_file :: string
  ssl_session_cache_size :: int
  ssl_session_timeout_sec :: int
  ssl_alpn_protocols :: "string list"

definition SslConfig_default :: SslConfig where
  "SslConfig_default =
     \<lparr>ssl_enabled = False, ssl_min_tls_version = ''1.3'', ssl_max_tls_version = ''1.3'', ssl_cert_file = [],
      ssl_key_file = [], ssl_ca_file = [], ssl_verify_client = False, ssl_client_cert_required = False,
      ssl_cipher_suites = [], ssl_session_tickets = True, ssl_session_ticket_keys_file = [],
      ssl_session_cache_size = 20000, ssl_session_timeout_sec = 86400, ssl_alpn_protocols = []\<rparr>"

record ProtocolConfig =
  pc_name :: string
  pc_type :: string
  pc_mode :: string
  pc_port :: int
  pc_enabled :: bool
  pc_ssl :: SslConfig

definition ProtocolConfig_default :: ProtocolConfig where
  "ProtocolConfig_default =
     \<lparr>pc_name = [], pc_type = [], pc_mode = ''proto'', pc_port = 0, pc_enabled = True, pc_ssl = SslConfig_default\<rparr>"

record MemoryConfig =
  mm_allocator :: string
  mm_enable_memory_pools :: bool
  mm_connection_pool_size :: int
  mm_buffer_pool_size :: int
  mm_enable_huge_pages :: bool
  mm_huge_page_size_mb :: int
  mm_max_memory_per_connection_kb :: int
  mm_max_total_memory_gb :: int

definition MemoryConfig_default :: MemoryConfig where
  "MemoryConfig_default =
     \<lparr>mm_allocator = ''system'', mm_enable_memory_pools = True, mm_connection_pool_size = 10000,
      mm_buffer_pool_size = 10000, mm_enable_huge_pages = False, mm_huge_page_size_mb = 2,
      mm_max_memory_per_connection_kb = 512, mm_max_total_memory_gb = 100\<rparr>"

record CpuConfig =
  cu_enable_cpu_affinity :: bool
  cu_isolated_cores :: "int list"
  cu_enable_simd :: bool

definition CpuConfig_default :: CpuConfig where
  "CpuConfig_default = \<lparr>cu_enable_cpu_affinity = False, cu_isolated_cores = [], cu_enable_simd = True\<rparr>"

record PerformanceConfig =
  pf_max_connections :: int
  pf_max_connections_per_ip :: int
  pf_connection_timeout_ms :: int
  pf_request_timeout_ms :: int
  pf_io_threads :: string
  pf_worker_threads :: string
  pf_thread_affinity :: bool
  pf_enable_numa :: bool
  pf_numa_policy :: string
  pf_event_loop_type :: string
  pf_enable_zero_copy :: bool
  pf_use_sendfile :: bool
  pf_use_splice :: bool
  pf_use_io_uring :: bool
  pf_io_uring_entries :: int
  pf_io_uring_flags :: "string list"
  pf_memory :: MemoryConfig
  pf_cpu :: CpuConfig

definition PerformanceConfig_default :: PerformanceConfig where
  "PerformanceConfig_default =
     \<lparr>pf_max_connections = 1000000, pf_max_connections_per_ip = 1000, pf_connection_timeout_ms = 5000,
      pf_request_timeout_ms = 30000, pf_io_threads = ''auto'', pf_worker_threads = ''auto'',
      pf_thread_affinity = False, pf_enable_numa = False, pf_numa_policy = ''local'',
      pf_event_loop_type = ''auto'', pf_enable_zero_copy = True, pf_use_sendfile = True, pf_use_splice = True,
      pf_use_io_uring = False, pf_io_uring_entries = 2048, pf_io_uring_flags = [],
      pf_memory = MemoryConfig_default, pf_cpu = CpuConfig_default\<rparr>"

record CircuitBreakerConfig =
  cb_enabled :: bool
  cb_failure_threshold_percentage :: int
  cb_success_threshold :: int
  cb_timeout_ms :: int
  cb_min_requests :: int
  cb_rolling_window_ms :: int

definition CircuitBreakerConfig_default :: CircuitBreakerConfig where
  "CircuitBreakerConfig_default =
     \<lparr>cb_enabled = True, cb_failure_threshold_percentage = 50, cb_success_threshold = 10, cb_timeout_ms = 60000,
      cb_min_requests = 20, cb_rolling_window_ms = 10000\<rparr>"

record RateLimiterConfig =
  rl_enabled :: bool
  rl_algorithm :: string
  rl_requests_per_second :: int
  rl_burst_size :: int
  rl_per_ip_enabled :: bool
  rl_per_ip_requests_per_second :: int
  rl_per_ip_burst_size :: int

definition RateLimiterConfig_default :: RateLimiterConfig where
  "RateLimiterConfig_default =
     \<lparr>rl_enabled = True, rl_algorithm = ''token_bucket'', rl_requests_per_second = 10000, rl_burst_size = 1000,
      rl_per_ip_enabled = True, rl_per_ip_requests_per_second = 100, rl_per_ip_burst_size = 10\<rparr>"

record BulkheadConfig =
  bh_enabled :: bool
  bh_max_concurrent_requests :: int
  bh_queue_size :: int
  bh_queue_timeout_ms :: int

definition BulkheadConfig_default :: BulkheadConfig where
  "BulkheadConfig_default =
     \<lparr>bh_enabled = True, bh_max_concurrent_requests = 1000, bh_queue_size = 100, bh_queue_timeout_ms = 5000\<rparr>"

record HealthCheckConfig =
  hk_enabled :: bool
  hk_interval_ms :: int
  hk_timeout_ms :: int
  hk_unhealthy_threshold :: int
  hk_healthy_threshold :: int

definition HealthCheckConfig_default :: HealthCheckConfig where
  "HealthCheckConfig_default =
     \<lparr>hk_enabled = True, hk_interval_ms = 10000, hk_timeout_ms = 3000, hk_unhealthy_threshold = 3,
      hk_healthy_threshold = 2\<rparr>"

record TimeoutConfig =
  to_connection_timeout_ms :: int
  to_request_timeout_ms :: int
  to_idle_timeout_ms :: int

record GracefulShutdownConfig =
  gd_enabled :: bool
  gd_timeout_ms :: int
  gd_drain_connections :: bool

record ResilienceConfig =
  rs_circuit_breaker :: CircuitBreakerConfig
  rs_rate_limiter :: RateLimiterConfig
  rs_bulkhead :: BulkheadConfig
  rs_health_check :: HealthCheckConfig
  rs_timeout :: TimeoutConfig
  rs_graceful_shutdown :: GracefulShutdownConfig

definition ResilienceConfig_default :: ResilienceConfig where
  "ResilienceConfig_default =
     \<lparr>rs_circuit_breaker = CircuitBreakerConfig_default, rs_rate_limiter = RateLimiterConfig_default,
      rs_bulkhead = BulkheadConfig_default, rs_health_check = HealthCheckConfig_default,
      rs_timeout = \<lparr>to_connection_timeout_ms = 5000, to_request_timeout_ms = 30000, to_idle_timeout_ms = 300000\<rparr>,
      rs_graceful_shutdown = \<lparr>gd_enabled = True, gd_timeout_ms = 30000, gd_drain_connections = True\<rparr>\<rparr>"

record MetricsConfig =
  mt_enabled :: bool
  mt_port :: int
  mt_format :: string
  mt_path :: string
  mt_collect_interval_ms :: int
  mt_enable_histograms :: bool
  mt_histogram_buckets :: "real list"
  mt_metrics_list :: "string list"

definition MetricsConfig_default :: MetricsConfig where
  "MetricsConfig_default =
     \<lparr>mt_enabled = True, mt_port = 9090, mt_format = ''prometheus'', mt_path = ''/metrics'',
      mt_collect_interval_ms = 1000, mt_enable_histograms = True, mt_histogram_buckets = [], mt_metrics_list = []\<rparr>"

record LoggingConfig =
  lg_level :: string
  lg_format :: string
  lg_output :: string
  lg_file_path :: string
  lg_compress :: bool

definition LoggingConfig_default :: LoggingConfig where
  "LoggingConfig_default =
     \<lparr>lg_level = ''info'', lg_format = ''text'', lg_output = ''stdout'', lg_file_path = [], lg_compress = False\<rparr>"

record TracingConfig =
  tr_enabled :: bool
  tr_exporter :: string
  tr_endpoint :: string
  tr_sampling_rate :: real

definition TracingConfig_default :: TracingConfig where
  "TracingConfig_default = \<lparr>tr_enabled = False, tr_exporter = [], tr_endpoint = [], tr_sampling_rate = 0.01\<rparr>"

record ProfilingConfig =
  pr_enabled :: bool
  pr_cpu_profile_enabled :: bool
  pr_memory_profile_enabled :: bool

definition ProfilingConfig_default :: ProfilingConfig where
  "ProfilingConfig_default =
     \<lparr>pr_enabled = False, pr_cpu_profile_enabled = False, pr_memory_profile_enabled = False\<rparr>"

record ObservabilityConfig =
  ob_metrics :: MetricsConfig
  ob_logging :: LoggingConfig
  ob_tracing :: TracingConfig
  ob_profiling :: ProfilingConfig

definition ObservabilityConfig_default :: ObservabilityConfig where
  "ObservabilityConfig_default =
     \<lparr>ob_metrics = MetricsConfig_default, ob_logging = LoggingConfig_default, ob_tracing = TracingConfig_default,
      ob_profiling = ProfilingConfig_default\<rparr>"

record ServerConfig =
  sv_mode :: string
  sv_name :: string
  sv_version :: string
  sv_environment :: string
  sv_network :: NetworkConfig
  sv_protocols :: ProtocolsConfig
  sv_protocol_list :: "ProtocolConfig list"
  sv_ssl :: SslConfig
  sv_performance :: PerformanceConfig
  sv_resilience :: ResilienceConfig
  sv_observability :: ObservabilityConfig

definition ServerConfig_default :: ServerConfig where
  "ServerConfig_default =
     \<lparr>sv_mode = ''tcp'', sv_name = [], sv_version = [], sv_environment = ''production'',
      sv_network = NetworkConfig_default, sv_protocols = ProtocolsConfig_default, sv_protocol_list = [],
      sv_ssl = SslConfig_default, sv_performance = PerformanceConfig_default,
      sv_resilience = ResilienceConfig_default, sv_observability = ObservabilityConfig_default\<rparr>"

record ClientConfig =
  cl_mode :: string
  cl_host :: string
  cl_port :: int
  cl_ssl :: SslConfig

definition ClientConfig_default :: ClientConfig where
  "ClientConfig_default = \<lparr>cl_mode = ''tcp'', cl_host = ''127.0.0.1'', cl_port = 80, cl_ssl = SslConfig_default\<rparr>"

section \<open>The parser\<close>

text \<open>
  The operations of the YAML library: \<open>node[key]\<close> (which throws on a scalar, and is absent where
  there is no such key), the items of a sequence, and the conversions \<open>as<T>()\<close>.
\<close>

record 'n yaml =
  y_get :: "'n \<Rightarrow> string \<Rightarrow> exn + 'n option"
  y_items :: "'n \<Rightarrow> 'n list option"
  y_string :: "'n \<Rightarrow> exn + string"
  y_bool :: "'n \<Rightarrow> exn + bool"
  y_int :: "'n \<Rightarrow> exn + int"
  y_long :: "'n \<Rightarrow> exn + int"
  y_double :: "'n \<Rightarrow> exn + real"

type_synonym 'c step = "'c \<Rightarrow> exn option \<times> 'c"

primrec steps :: "'c step list \<Rightarrow> 'c step" where
  "steps [] c = (None, c)"
| "steps (s # ss) c = (case s c of (Some e, c') \<Rightarrow> (Some e, c') | (None, c') \<Rightarrow> steps ss c')"

definition GetSafe :: "'n yaml \<Rightarrow> ('n \<Rightarrow> exn + 'v) \<Rightarrow> 'n \<Rightarrow> string \<Rightarrow> 'v \<Rightarrow> exn + 'v" where
  "GetSafe y as node key d =
     (case y_get y node key of Inl e \<Rightarrow> Inl e | Inr None \<Rightarrow> Inr d | Inr (Some n) \<Rightarrow> as n)"

primrec items :: "('n \<Rightarrow> exn + 'v) \<Rightarrow> 'n list \<Rightarrow> exn + 'v list" where
  "items as [] = Inr []"
| "items as (n # ns) =
     (case as n of Inl e \<Rightarrow> Inl e | Inr v \<Rightarrow> (case items as ns of Inl e \<Rightarrow> Inl e | Inr vs \<Rightarrow> Inr (v # vs)))"

definition GetVector :: "'n yaml \<Rightarrow> ('n \<Rightarrow> exn + 'v) \<Rightarrow> 'n \<Rightarrow> string \<Rightarrow> exn + 'v list" where
  "GetVector y as node key =
     (case y_get y node key of
        Inl e \<Rightarrow> Inl e
      | Inr None \<Rightarrow> Inr []
      | Inr (Some n) \<Rightarrow> (case y_items y n of None \<Rightarrow> Inr [] | Some ns \<Rightarrow> items as ns))"

definition GetStringVector :: "'n yaml \<Rightarrow> 'n \<Rightarrow> string \<Rightarrow> exn + string list" where
  "GetStringVector y node key = GetVector y (y_string y) node key"

definition GetDoubleVector :: "'n yaml \<Rightarrow> 'n \<Rightarrow> string \<Rightarrow> exn + real list" where
  "GetDoubleVector y node key = GetVector y (y_double y) node key"

definition GetIntVector :: "'n yaml \<Rightarrow> 'n \<Rightarrow> string \<Rightarrow> exn + int list" where
  "GetIntVector y node key = GetVector y (y_int y) node key"

text \<open>An assignment of a field, and an \<open>if (node[key])\<close> with the statements of its branch.\<close>

definition assign :: "(('v \<Rightarrow> 'v) \<Rightarrow> 'c \<Rightarrow> 'c) \<Rightarrow> exn + 'v \<Rightarrow> 'c step" where
  "assign upd r c = (case r of Inl e \<Rightarrow> (Some e, c) | Inr v \<Rightarrow> (None, upd (\<lambda>_. v) c))"

definition block :: "'n yaml \<Rightarrow> 'n \<Rightarrow> string \<Rightarrow> ('n \<Rightarrow> 'c step list) \<Rightarrow> 'c step" where
  "block y node key body c =
     (case y_get y node key of
        Inl e \<Rightarrow> (Some e, c) | Inr None \<Rightarrow> (None, c) | Inr (Some n) \<Rightarrow> steps (body n) c)"

definition parse_socket :: "'n yaml \<Rightarrow> 'n \<Rightarrow> ServerConfig step list" where
  "parse_socket y n =
     (let socket = sv_network_update \<circ> nc_socket_update
      in [assign (socket \<circ> sk_reuseaddr_update) (GetSafe y (y_bool y) n ''so_reuseaddr'' True),
          assign (socket \<circ> sk_reuseport_update) (GetSafe y (y_bool y) n ''so_reuseport'' True),
          assign (socket \<circ> sk_nodelay_update) (GetSafe y (y_bool y) n ''tcp_nodelay'' True),
          assign (socket \<circ> sk_keepalive_update) (GetSafe y (y_bool y) n ''tcp_keepalive'' True),
          assign (socket \<circ> sk_rcvbuf_update) (GetSafe y (y_int y) n ''so_rcvbuf'' 2097152),
          assign (socket \<circ> sk_sndbuf_update) (GetSafe y (y_int y) n ''so_sndbuf'' 2097152)])"

definition parse_network :: "'n yaml \<Rightarrow> 'n \<Rightarrow> ServerConfig step list" where
  "parse_network y net =
     [assign (sv_network_update \<circ> nc_host_update) (GetSafe y (y_string y) net ''host'' ''0.0.0.0''),
      assign (sv_network_update \<circ> nc_port_update) (GetSafe y (y_int y) net ''port'' 0),
      assign (sv_network_update \<circ> nc_protocol_update) (GetSafe y (y_string y) net ''protocol'' ''tcp''),
      assign (sv_network_update \<circ> nc_ip_version_update) (GetSafe y (y_string y) net ''ip_version'' ''dual''),
      block y net ''socket'' (parse_socket y)]"

text \<open>One entry of the list of protocols.\<close>

definition parse_protocol :: "'n yaml \<Rightarrow> 'n \<Rightarrow> ProtocolConfig step list" where
  "parse_protocol y proto =
     [assign pc_name_update (GetSafe y (y_string y) proto ''name'' ''default''),
      assign pc_type_update (GetSafe y (y_string y) proto ''type'' ''tcp''),
      assign pc_mode_update (GetSafe y (y_string y) proto ''mode'' ''proto''),
      assign pc_port_update (GetSafe y (y_int y) proto ''port'' 0),
      assign pc_enabled_update (GetSafe y (y_bool y) proto ''enabled'' True),
      block y proto ''ssl'' (\<lambda>s.
        [assign (pc_ssl_update \<circ> ssl_enabled_update) (GetSafe y (y_bool y) s ''enabled'' False),
         assign (pc_ssl_update \<circ> ssl_cert_file_update) (GetSafe y (y_string y) s ''cert_file'' []),
         assign (pc_ssl_update \<circ> ssl_key_file_update) (GetSafe y (y_string y) s ''key_file'' []),
         assign (pc_ssl_update \<circ> ssl_ca_file_update) (GetSafe y (y_string y) s ''ca_file'' [])])]"

definition push_protocol :: "'n yaml \<Rightarrow> 'n \<Rightarrow> ServerConfig step" where
  "push_protocol y proto c =
     (case steps (parse_protocol y proto) ProtocolConfig_default of
        (Some e, _) \<Rightarrow> (Some e, c)
      | (None, pc) \<Rightarrow> (None, c\<lparr>sv_protocol_list := sv_protocol_list c @ [pc]\<rparr>))"

definition parse_grpc :: "'n yaml \<Rightarrow> 'n \<Rightarrow> ServerConfig step list" where
  "parse_grpc y g =
     (let grpc = sv_protocols_update \<circ> ps_grpc_update
      in [assign (grpc \<circ> gc_enabled_update) (GetSafe y (y_bool y) g ''enabled'' False),
          assign (grpc \<circ> gc_max_receive_message_size_mb_update)
            (GetSafe y (y_int y) g ''max_receive_message_size_mb'' 100),
          block y g ''streaming'' (\<lambda>s.
            [assign (grpc \<circ> gc_streaming_update \<circ> gs_bidirectional_update)
               (GetSafe y (y_bool y) s ''bidirectional'' True),
             assign (grpc \<circ> gc_streaming_update \<circ> gs_max_concurrent_streams_update)
               (GetSafe y (y_int y) s ''max_concurrent_streams'' 1000),
             assign (grpc \<circ> gc_streaming_update \<circ> gs_initial_window_size_update)
               (GetSafe y (y_int y) s ''initial_window_size'' 65535)]),
          block y g ''compression'' (\<lambda>z.
            [assign (grpc \<circ> gc_compression_update \<circ> cp_enabled_update)
               (GetSafe y (y_bool y) z ''enabled'' True),
             assign (grpc \<circ> gc_compression_update \<circ> cp_default_algorithm_update)
               (GetSafe y (y_string y) z ''default_algorithm'' ''gzip''),
             assign (grpc \<circ> gc_compression_update \<circ> cp_algorithms_update)
               (GetStringVector y z ''algorithms'')])])"

definition parse_legacy :: "'n yaml \<Rightarrow> 'n \<Rightarrow> ServerConfig step list" where
  "parse_legacy y protos =
     (let p = sv_protocols_update
      in [block y protos ''grpc'' (parse_grpc y),
          block y protos ''http'' (\<lambda>h.
            [assign (p \<circ> ps_http_update \<circ> ht_enabled_update) (GetSafe y (y_bool y) h ''enabled'' False),
             assign (p \<circ> ps_http_update \<circ> ht_port_update) (GetSafe y (y_int y) h ''port'' 0),
             assign (p \<circ> ps_http_update \<circ> ht_version_update) (GetSafe y (y_string y) h ''version'' ''1.1'')]),
          block y protos ''websocket'' (\<lambda>w.
            [assign (p \<circ> ps_websocket_update \<circ> wc_enabled_update) (GetSafe y (y_bool y) w ''enabled'' False),
             assign (p \<circ> ps_websocket_update \<circ> wc_port_update) (GetSafe y (y_int y) w ''port'' 0)]),
          block y protos ''tcp'' (\<lambda>t.
            [assign (p \<circ> ps_tcp_update \<circ> tu_enabled_update) (GetSafe y (y_bool y) t ''enabled'' False),
             assign (p \<circ> ps_tcp_update \<circ> tu_port_update) (GetSafe y (y_int y) t ''port'' 0)]),
          block y protos ''udp'' (\<lambda>u.
            [assign (p \<circ> ps_udp_update \<circ> tu_enabled_update) (GetSafe y (y_bool y) u ''enabled'' False),
             assign (p \<circ> ps_udp_update \<circ> tu_port_update) (GetSafe y (y_int y) u ''port'' 0)])])"

definition parse_protocols :: "'n yaml \<Rightarrow> 'n \<Rightarrow> ServerConfig step list" where
  "parse_protocols y protos =
     (case y_items y protos of Some ps \<Rightarrow> map (push_protocol y) ps | None \<Rightarrow> parse_legacy y protos)"

definition parse_ssl :: "'n yaml \<Rightarrow> 'n \<Rightarrow> ServerConfig step list" where
  "parse_ssl y s =
     [assign (sv_ssl_update \<circ> ssl_enabled_update) (GetSafe y (y_bool y) s ''enabled'' False),
      assign (sv_ssl_update \<circ> ssl_min_tls_version_update) (GetSafe y (y_string y) s ''min_tls_version'' ''1.3''),
      assign (sv_ssl_update \<circ> ssl_cert_file_update) (GetSafe y (y_string y) s ''cert_file'' []),
      assign (sv_ssl_update \<circ> ssl_key_file_update) (GetSafe y (y_string y) s ''key_file'' []),
      assign (sv_ssl_update \<circ> ssl_ca_file_update) (GetSafe y (y_string y) s ''ca_file'' []),
      assign (sv_ssl_update \<circ> ssl_cipher_suites_update) (GetStringVector y s ''cipher_suites''),
      assign (sv_ssl_update \<circ> ssl_alpn_protocols_update) (GetStringVector y s ''alpn_protocols'')]"

definition parse_performance :: "'n yaml \<Rightarrow> 'n \<Rightarrow> ServerConfig step list" where
  "parse_performance y perf =
     (let p = sv_performance_update
      in [assign (p \<circ> pf_max_connections_update) (GetSafe y (y_long y) perf ''max_connections'' 1000000),
          assign (p \<circ> pf_event_loop_type_update) (GetSafe y (y_string y) perf ''event_loop_type'' ''auto''),
          assign (p \<circ> pf_io_threads_update) (GetSafe y (y_string y) perf ''io_threads'' ''auto''),
          block y perf ''memory'' (\<lambda>m.
            [assign (p \<circ> pf_memory_update \<circ> mm_allocator_update) (GetSafe y (y_string y) m ''allocator'' ''system''),
             assign (p \<circ> pf_memory_update \<circ> mm_connection_pool_size_update)
               (GetSafe y (y_int y) m ''connection_pool_size'' 10000)]),
          block y perf ''cpu'' (\<lambda>u.
            [assign (p \<circ> pf_cpu_update \<circ> cu_enable_cpu_affinity_update)
               (GetSafe y (y_bool y) u ''enable_cpu_affinity'' False)])])"

definition parse_resilience :: "'n yaml \<Rightarrow> 'n \<Rightarrow> ServerConfig step list" where
  "parse_resilience y res =
     (let r = sv_resilience_update
      in [block y res ''circuit_breaker'' (\<lambda>b.
            [assign (r \<circ> rs_circuit_breaker_update \<circ> cb_enabled_update) (GetSafe y (y_bool y) b ''enabled'' True),
             assign (r \<circ> rs_circuit_breaker_update \<circ> cb_failure_threshold_percentage_update)
               (GetSafe y (y_int y) b ''failure_threshold_percentage'' 50)]),
          block y res ''rate_limiter'' (\<lambda>l.
            [assign (r \<circ> rs_rate_limiter_update \<circ> rl_enabled_update) (GetSafe y (y_bool y) l ''enabled'' True),
             assign (r \<circ> rs_rate_limiter_update \<circ> rl_requests_per_second_update)
               (GetSafe y (y_int y) l ''requests_per_second'' 1000)])])"

definition parse_observability :: "'n yaml \<Rightarrow> 'n \<Rightarrow> ServerConfig step list" where
  "parse_observability y obs =
     (let b = sv_observability_update
      in [block y obs ''metrics'' (\<lambda>m.
            [assign (b \<circ> ob_metrics_update \<circ> mt_enabled_update) (GetSafe y (y_bool y) m ''enabled'' True),
             assign (b \<circ> ob_metrics_update \<circ> mt_port_update) (GetSafe y (y_int y) m ''port'' 9090),
             assign (b \<circ> ob_metrics_update \<circ> mt_metrics_list_update) (GetStringVector y m ''metrics_list'')]),
          block y obs ''tracing'' (\<lambda>t.
            [assign (b \<circ> ob_tracing_update \<circ> tr_enabled_update) (GetSafe y (y_bool y) t ''enabled'' False),
             assign (b \<circ> ob_tracing_update \<circ> tr_exporter_update) (GetSafe y (y_string y) t ''exporter'' ''jaeger'')]),
          block y obs ''logging'' (\<lambda>l.
            [assign (b \<circ> ob_logging_update \<circ> lg_level_update) (GetSafe y (y_string y) l ''level'' ''info''),
             assign (b \<circ> ob_logging_update \<circ> lg_format_update) (GetSafe y (y_string y) l ''format'' ''text''),
             assign (b \<circ> ob_logging_update \<circ> lg_output_update) (GetSafe y (y_string y) l ''output'' ''stdout''),
             assign (b \<circ> ob_logging_update \<circ> lg_file_path_update) (GetSafe y (y_string y) l ''file_path'' []),
             assign (b \<circ> ob_logging_update \<circ> lg_compress_update) (GetSafe y (y_bool y) l ''compress'' False)])])"

definition parse_server :: "'n yaml \<Rightarrow> 'n \<Rightarrow> ServerConfig step list" where
  "parse_server y server =
     [assign sv_mode_update (GetSafe y (y_string y) server ''mode'' ''tcp''),
      assign sv_name_update (GetSafe y (y_string y) server ''name'' []),
      assign sv_version_update (GetSafe y (y_string y) server ''version'' []),
      assign sv_environment_update (GetSafe y (y_string y) server ''environment'' ''production''),
      block y server ''network'' (parse_network y),
      block y server ''protocols'' (parse_protocols y),
      block y server ''ssl'' (parse_ssl y),
      block y server ''performance'' (parse_performance y),
      block y server ''resilience'' (parse_resilience y),
      block y server ''observability'' (parse_observability y)]"

text \<open>\<open>Parse\<close> of what \<open>LoadFile\<close> returned: an exception is passed on.\<close>

definition ConfigParser_Parse :: "'n yaml \<Rightarrow> exn + 'n \<Rightarrow> exn + ServerConfig" where
  "ConfigParser_Parse y file =
     (case file of
        Inl e \<Rightarrow> Inl e
      | Inr doc \<Rightarrow>
          (case block y doc ''server'' (parse_server y) ServerConfig_default of
             (Some e, _) \<Rightarrow> Inl e
           | (None, c) \<Rightarrow> Inr c))"

text \<open>\<open>ParseClient\<close> swallows every exception and returns what has been assigned until then.\<close>

definition assign_present :: "'n yaml \<Rightarrow> ('n \<Rightarrow> exn + 'v) \<Rightarrow> 'n \<Rightarrow> string \<Rightarrow> (('v \<Rightarrow> 'v) \<Rightarrow> 'c \<Rightarrow> 'c) \<Rightarrow> 'c step" where
  "assign_present y as node key upd c =
     (case y_get y node key of Inl e \<Rightarrow> (Some e, c) | Inr None \<Rightarrow> (None, c) | Inr (Some n) \<Rightarrow> assign upd (as n) c)"

definition parse_client :: "'n yaml \<Rightarrow> 'n \<Rightarrow> ClientConfig step list" where
  "parse_client y n =
     [assign cl_mode_update (GetSafe y (y_string y) n ''mode'' ''tcp''),
      block y n ''connection'' (\<lambda>k.
        [assign_present y (y_string y) k ''host'' cl_host_update,
         assign_present y (y_int y) k ''port'' cl_port_update]),
      block y n ''ssl'' (\<lambda>s.
        [assign (cl_ssl_update \<circ> ssl_enabled_update) (GetSafe y (y_bool y) s ''enabled'' False),
         assign (cl_ssl_update \<circ> ssl_cert_file_update) (GetSafe y (y_string y) s ''cert_file'' []),
         assign (cl_ssl_update \<circ> ssl_key_file_update) (GetSafe y (y_string y) s ''key_file'' []),
         assign (cl_ssl_update \<circ> ssl_ca_file_update) (GetSafe y (y_string y) s ''ca_file'' [])])]"

definition ConfigParser_ParseClient :: "'n yaml \<Rightarrow> exn + 'n \<Rightarrow> ClientConfig" where
  "ConfigParser_ParseClient y file =
     (case file of
        Inl _ \<Rightarrow> ClientConfig_default
      | Inr doc \<Rightarrow> snd (block y doc ''client'' (parse_client y) ClientConfig_default))"

definition ConfigParser_GenerateLoggerConfig :: "LoggingConfig \<Rightarrow> string" where
  "ConfigParser_GenerateLoggerConfig c =
     ''severity='' @ lg_level c @ '';'' @ ''format='' @ lg_format c @ '';'' @
     (if lg_output c = ''file'' \<or> lg_file_path c \<noteq> []
      then ''logfile='' @ lg_file_path c @ '';'' @ ''console=true;'' else ''console=true;'') @
     (if lg_compress c then ''rotation_compress=true;'' else [])"

section \<open>What a parse yields\<close>

text \<open>
  The reference: the value found by following a path of keys through the document, or the
  default where the path ends early.
\<close>

primrec at_path :: "'n yaml \<Rightarrow> ('n \<Rightarrow> exn + 'v) \<Rightarrow> 'v \<Rightarrow> string list \<Rightarrow> 'n \<Rightarrow> exn + 'v" where
  "at_path y as d [] n = as n"
| "at_path y as d (k # ks) n =
     (case y_get y n k of Inl e \<Rightarrow> Inl e | Inr None \<Rightarrow> Inr d | Inr (Some m) \<Rightarrow> at_path y as d ks m)"

definition as_strings :: "'n yaml \<Rightarrow> 'n \<Rightarrow> exn + string list" where
  "as_strings y n = (case y_items y n of None \<Rightarrow> Inr [] | Some ns \<Rightarrow> items (y_string y) ns)"

lemma GetSafe_path: "GetSafe y as n k d = at_path y as d [k] n"
  by (simp add: GetSafe_def split: sum.splits option.splits)

lemma GetStringVector_path: "GetStringVector y n k = at_path y (as_strings y) [] [k] n"
  by (simp add: GetStringVector_def GetVector_def as_strings_def split: sum.splits option.splits)

text \<open>A step that leaves a field alone, and one that gives it the value \<open>r\<close> if nothing throws.\<close>

definition keeps :: "('c \<Rightarrow> 'v) \<Rightarrow> 'c step \<Rightarrow> bool" where
  "keeps g s \<longleftrightarrow> (\<forall>c. g (snd (s c)) = g c)"

definition delivers :: "('c \<Rightarrow> 'v) \<Rightarrow> 'v \<Rightarrow> exn + 'v \<Rightarrow> 'c step \<Rightarrow> bool" where
  "delivers g d r s \<longleftrightarrow> (\<forall>c c'. g c = d \<and> s c = (None, c') \<longrightarrow> r = Inr (g c'))"

named_theorems step_simps \<open>which fields a step of the parser touches\<close>

lemma keeps_assign [step_simps]: "(\<And>f c. g (upd f c) = g c) \<Longrightarrow> keeps g (assign upd r)"
  by (auto simp: keeps_def assign_def split: sum.splits)

lemma keeps_steps: "list_all (keeps g) ss \<Longrightarrow> keeps g (steps ss)"
  unfolding keeps_def
proof (induction ss)
  case Nil
  then show ?case by simp
next
  case (Cons s ss)
  then have "g (snd (s c)) = g c" for c by simp
  with Cons show ?case by (auto split: prod.splits option.splits) (metis snd_conv)+
qed

lemma keeps_block [step_simps]: "(\<And>n. list_all (keeps g) (body n)) \<Longrightarrow> keeps g (block y node k body)"
  using keeps_steps[of g] by (auto simp: keeps_def block_def split: sum.splits option.splits)

lemma keeps_push [step_simps]: "(\<And>f c. g (sv_protocol_list_update f c) = g c) \<Longrightarrow> keeps g (push_protocol y p)"
  by (auto simp: keeps_def push_protocol_def split: prod.splits option.splits)

lemma delivers_assign: "(\<And>v c. g (upd (\<lambda>_. v) c) = v) \<Longrightarrow> delivers g d r (assign upd r)"
  by (auto simp: delivers_def assign_def split: sum.splits)

lemma delivers_block:
  "(\<And>n. delivers g d (at_path y as d ks n) (steps (body n))) \<Longrightarrow>
     delivers g d (at_path y as d (k # ks) node) (block y node k body)"
  by (auto simp: delivers_def block_def split: sum.splits option.splits)

lemma steps_append:
  "steps (ss @ ts) c = (case steps ss c of (Some e, c') \<Rightarrow> (Some e, c') | (None, c') \<Rightarrow> steps ts c')"
  by (induction ss arbitrary: c) (auto split: prod.splits option.splits)

lemma delivers_nth:
  assumes "i < length ss" and "list_all (keeps g) (take i ss)" and "list_all (keeps g) (drop (Suc i) ss)"
    and "delivers g d r (ss ! i)"
  shows "delivers g d r (steps ss)"
proof -
  have "steps ss c = steps (take i ss @ (ss ! i) # drop (Suc i) ss) c" for c
    using assms(1) by (simp add: id_take_nth_drop[symmetric])
  moreover have "g (snd (steps (take i ss) c)) = g c" "g (snd (steps (drop (Suc i) ss) c)) = g c" for c
    using keeps_steps[OF assms(2)] keeps_steps[OF assms(3)] by (simp_all add: keeps_def)
  ultimately show ?thesis
    using assms(4) unfolding delivers_def
    by (auto simp: steps_append split: prod.splits option.splits) (metis snd_conv)+
qed

lemmas parse_part_defs = parse_network_def parse_socket_def parse_ssl_def parse_performance_def parse_resilience_def
  parse_observability_def parse_protocols_def parse_legacy_def parse_grpc_def

lemma keeps_parts [step_simps]:
  "(\<And>f c. g (sv_network_update f c) = g c) \<Longrightarrow> list_all (keeps g) (parse_network y n)"
  "(\<And>f c. g (sv_ssl_update f c) = g c) \<Longrightarrow> list_all (keeps g) (parse_ssl y n)"
  "(\<And>f c. g (sv_performance_update f c) = g c) \<Longrightarrow> list_all (keeps g) (parse_performance y n)"
  "(\<And>f c. g (sv_resilience_update f c) = g c) \<Longrightarrow> list_all (keeps g) (parse_resilience y n)"
  "(\<And>f c. g (sv_observability_update f c) = g c) \<Longrightarrow> list_all (keeps g) (parse_observability y n)"
  by (simp_all add: parse_part_defs step_simps Let_def)

lemma keeps_protocols [step_simps]:
  "(\<And>f c. g (sv_protocols_update f c) = g c) \<Longrightarrow> (\<And>f c. g (sv_protocol_list_update f c) = g c) \<Longrightarrow>
     list_all (keeps g) (parse_protocols y n)"
  by (auto simp: parse_part_defs step_simps Let_def list_all_iff split: option.splits)

lemma parse_delivers:
  assumes "ConfigParser_Parse y (Inr doc) = Inr c"
    and "\<And>n. delivers g d (at_path y as d ks n) (steps (parse_server y n))" and "g ServerConfig_default = d"
  shows "at_path y as d (''server'' # ks) doc = Inr (g c)"
  using delivers_block[OF assms(2), of "''server''" doc] assms(1,3)
  by (auto simp: delivers_def ConfigParser_Parse_def split: prod.splits option.splits)

text \<open>The list of protocols: each entry of the sequence, in order.\<close>

definition as_protocol :: "'n yaml \<Rightarrow> 'n \<Rightarrow> exn + ProtocolConfig" where
  "as_protocol y n =
     (case steps (parse_protocol y n) ProtocolConfig_default of (Some e, _) \<Rightarrow> Inl e | (None, pc) \<Rightarrow> Inr pc)"

definition as_protocols :: "'n yaml \<Rightarrow> 'n \<Rightarrow> exn + ProtocolConfig list" where
  "as_protocols y n = (case y_items y n of None \<Rightarrow> Inr [] | Some ps \<Rightarrow> items (as_protocol y) ps)"

lemma push_all:
  "steps (map (push_protocol y) ps) c = (None, c') \<Longrightarrow>
     \<exists>l. items (as_protocol y) ps = Inr l \<and> sv_protocol_list c' = sv_protocol_list c @ l"
proof (induction ps arbitrary: c)
  case Nil
  then show ?case by simp
next
  case (Cons p ps)
  obtain pc where p: "steps (parse_protocol y p) ProtocolConfig_default = (None, pc)"
    and r: "steps (map (push_protocol y) ps) (c\<lparr>sv_protocol_list := sv_protocol_list c @ [pc]\<rparr>) = (None, c')"
    using Cons.prems by (auto simp: push_protocol_def[of y p] split: prod.splits option.splits)
  from Cons.IH[OF r] p show ?case by (auto simp: as_protocol_def)
qed

lemma delivers_protocols: "delivers sv_protocol_list [] (as_protocols y n) (steps (parse_protocols y n))"
proof (cases "y_items y n")
  case None
  have "keeps sv_protocol_list (steps (parse_legacy y n))"
    by (rule keeps_steps) (simp add: parse_part_defs step_simps Let_def)
  with None show ?thesis
    by (auto simp: delivers_def keeps_def parse_protocols_def as_protocols_def) (metis snd_conv)
next
  case (Some ps)
  then show ?thesis using push_all[of y ps] by (fastforce simp: delivers_def parse_protocols_def as_protocols_def)
qed

lemma parse_server_at:
  "parse_server y n ! 4 = block y n ''network'' (parse_network y)"
  "parse_server y n ! 5 = block y n ''protocols'' (parse_protocols y)"
  "parse_server y n ! 6 = block y n ''ssl'' (parse_ssl y)"
  "parse_server y n ! 7 = block y n ''performance'' (parse_performance y)"
  "parse_server y n ! 8 = block y n ''resilience'' (parse_resilience y)"
  "parse_server y n ! 9 = block y n ''observability'' (parse_observability y)"
  by (simp_all add: parse_server_def)

lemma section_field:
  assumes "ConfigParser_Parse y (Inr doc) = Inr c"
    and "\<And>n. i < length (parse_server y n) \<and> parse_server y n ! i = block y n k (body y)"
    and "\<And>n. list_all (keeps g) (take i (parse_server y n)) \<and> list_all (keeps g) (drop (Suc i) (parse_server y n))"
    and "\<And>n. delivers g d (at_path y as d ks n) (steps (body y n))" and "g ServerConfig_default = d"
  shows "at_path y as d (''server'' # k # ks) doc = Inr (g c)"
proof -
  have "delivers g d (at_path y as d (k # ks) n) (steps (parse_server y n))" for n
    using assms(2,3)[of n] delivers_block[of g d y as ks "body y" k n, OF assms(4)]
    by (intro delivers_nth[where i = i]) simp_all
  from parse_delivers[OF assms(1) this assms(5)] show ?thesis .
qed

lemma section_fields:
  assumes "ConfigParser_Parse y (Inr doc) = Inr c"
  shows "\<lbrakk>\<And>n. delivers (\<lambda>c. hnet (sv_network c)) dnet (at_path y asnet dnet ks n) (steps (parse_network y n)); hnet NetworkConfig_default = dnet\<rbrakk> \<Longrightarrow>
      at_path y asnet dnet (''server'' # ''network'' # ks) doc = Inr (hnet (sv_network c))"
    and "\<lbrakk>\<And>n. delivers (\<lambda>c. hssl (sv_ssl c)) dssl (at_path y asssl dssl ks n) (steps (parse_ssl y n)); hssl SslConfig_default = dssl\<rbrakk> \<Longrightarrow>
      at_path y asssl dssl (''server'' # ''ssl'' # ks) doc = Inr (hssl (sv_ssl c))"
    and "\<lbrakk>\<And>n. delivers (\<lambda>c. hperf (sv_performance c)) dperf (at_path y asperf dperf ks n) (steps (parse_performance y n)); hperf PerformanceConfig_default = dperf\<rbrakk> \<Longrightarrow>
      at_path y asperf dperf (''server'' # ''performance'' # ks) doc = Inr (hperf (sv_performance c))"
    and "\<lbrakk>\<And>n. delivers (\<lambda>c. hres (sv_resilience c)) dres (at_path y asres dres ks n) (steps (parse_resilience y n)); hres ResilienceConfig_default = dres\<rbrakk> \<Longrightarrow>
      at_path y asres dres (''server'' # ''resilience'' # ks) doc = Inr (hres (sv_resilience c))"
    and "\<lbrakk>\<And>n. delivers (\<lambda>c. hobs (sv_observability c)) dobs (at_path y asobs dobs ks n) (steps (parse_observability y n)); hobs ObservabilityConfig_default = dobs\<rbrakk> \<Longrightarrow>
      at_path y asobs dobs (''server'' # ''observability'' # ks) doc = Inr (hobs (sv_observability c))"
  subgoal by (rule section_field[OF assms, where i = 4 and body = parse_network])
      (simp_all add: parse_server_def step_simps ServerConfig_default_def)
  subgoal by (rule section_field[OF assms, where i = 6 and body = parse_ssl])
      (simp_all add: parse_server_def step_simps ServerConfig_default_def)
  subgoal by (rule section_field[OF assms, where i = 7 and body = parse_performance])
      (simp_all add: parse_server_def step_simps ServerConfig_default_def)
  subgoal by (rule section_field[OF assms, where i = 8 and body = parse_resilience])
      (simp_all add: parse_server_def step_simps ServerConfig_default_def)
  subgoal by (rule section_field[OF assms, where i = 9 and body = parse_observability])
      (simp_all add: parse_server_def step_simps ServerConfig_default_def)
  done

lemma field_protocols: "ConfigParser_Parse y (Inr doc) = Inr c \<Longrightarrow>
    at_path y (as_protocols y) [] [''server'', ''protocols''] doc = Inr (sv_protocol_list c)"
  by (rule section_field[where i = 5, where body = parse_protocols])
     (simp_all add: parse_server_def step_simps ServerConfig_default_def delivers_protocols)

lemma field_mode: "ConfigParser_Parse y (Inr doc) = Inr c \<Longrightarrow>
    at_path y (y_string y) ''tcp'' [''server'', ''mode''] doc = Inr (sv_mode c)"
  by (erule parse_delivers, rule delivers_nth[where i = 0])
     (simp_all add: parse_server_def step_simps GetSafe_path delivers_assign ServerConfig_default_def del: at_path.simps)

lemmas part_simps = parse_part_defs Let_def step_simps GetSafe_path GetStringVector_path delivers_assign

lemma network_fields:
  assumes "ConfigParser_Parse y (Inr doc) = Inr c"
  shows "at_path y (y_string y) ''0.0.0.0'' [''server'', ''network'', ''host''] doc = Inr (nc_host (sv_network c))"
    and "at_path y (y_int y) 0 [''server'', ''network'', ''port''] doc = Inr (nc_port (sv_network c))"
    and "at_path y (y_bool y) True [''server'', ''network'', ''socket'', ''tcp_nodelay''] doc =
      Inr (sk_nodelay (nc_socket (sv_network c)))"
  subgoal by (rule section_fields(1)[OF assms, where hnet = nc_host], rule delivers_nth[where i = 0])
      (simp_all add: part_simps NetworkConfig_default_def del: at_path.simps)
  subgoal by (rule section_fields(1)[OF assms, where hnet = nc_port], rule delivers_nth[where i = 1])
      (simp_all add: part_simps NetworkConfig_default_def del: at_path.simps)
  subgoal
    apply (rule section_fields(1)[OF assms, where hnet = "\<lambda>n. sk_nodelay (nc_socket n)"], rule delivers_nth[where i = 4])
        apply (simp_all add: parse_network_def step_simps NetworkConfig_default_def SocketConfig_default_def del: at_path.simps)
    by (rule delivers_block, rule delivers_nth[where i = 2]) (simp_all add: part_simps del: at_path.simps)
  done

lemma ssl_fields:
  assumes "ConfigParser_Parse y (Inr doc) = Inr c"
  shows "at_path y (y_bool y) False [''server'', ''ssl'', ''enabled''] doc = Inr (ssl_enabled (sv_ssl c))"
    and "at_path y (y_string y) [] [''server'', ''ssl'', ''cert_file''] doc = Inr (ssl_cert_file (sv_ssl c))"
    and "at_path y (y_string y) [] [''server'', ''ssl'', ''key_file''] doc = Inr (ssl_key_file (sv_ssl c))"
    and "at_path y (as_strings y) [] [''server'', ''ssl'', ''cipher_suites''] doc = Inr (ssl_cipher_suites (sv_ssl c))"
  subgoal by (rule section_fields(2)[OF assms, where hssl = ssl_enabled], rule delivers_nth[where i = 0])
      (simp_all add: part_simps SslConfig_default_def del: at_path.simps)
  subgoal by (rule section_fields(2)[OF assms, where hssl = ssl_cert_file], rule delivers_nth[where i = 2])
      (simp_all add: part_simps SslConfig_default_def del: at_path.simps)
  subgoal by (rule section_fields(2)[OF assms, where hssl = ssl_key_file], rule delivers_nth[where i = 3])
      (simp_all add: part_simps SslConfig_default_def del: at_path.simps)
  subgoal by (rule section_fields(2)[OF assms, where hssl = ssl_cipher_suites], rule delivers_nth[where i = 5])
      (simp_all add: part_simps SslConfig_default_def del: at_path.simps)
  done

lemma limit_fields:
  assumes "ConfigParser_Parse y (Inr doc) = Inr c"
  shows "at_path y (y_long y) 1000000 [''server'', ''performance'', ''max_connections''] doc =
      Inr (pf_max_connections (sv_performance c))"
    and "at_path y (y_bool y) True [''server'', ''resilience'', ''rate_limiter'', ''enabled''] doc =
      Inr (rl_enabled (rs_rate_limiter (sv_resilience c)))"
    and "at_path y (y_bool y) True [''server'', ''resilience'', ''circuit_breaker'', ''enabled''] doc =
      Inr (cb_enabled (rs_circuit_breaker (sv_resilience c)))"
  subgoal by (rule section_fields(3)[OF assms, where hperf = pf_max_connections], rule delivers_nth[where i = 0])
      (simp_all add: part_simps PerformanceConfig_default_def del: at_path.simps)
  subgoal
    apply (rule section_fields(4)[OF assms, where hres = "\<lambda>r. rl_enabled (rs_rate_limiter r)"], rule delivers_nth[where i = 1])
        apply (simp_all add: parse_resilience_def Let_def step_simps ResilienceConfig_default_def RateLimiterConfig_default_def
          del: at_path.simps)
    by (rule delivers_block, rule delivers_nth[where i = 0]) (simp_all add: part_simps del: at_path.simps)
  subgoal
    apply (rule section_fields(4)[OF assms, where hres = "\<lambda>r. cb_enabled (rs_circuit_breaker r)"], rule delivers_nth[where i = 0])
        apply (simp_all add: parse_resilience_def Let_def step_simps ResilienceConfig_default_def CircuitBreakerConfig_default_def
          del: at_path.simps)
    by (rule delivers_block, rule delivers_nth[where i = 0]) (simp_all add: part_simps del: at_path.simps)
  done

lemma observability_fields:
  assumes "ConfigParser_Parse y (Inr doc) = Inr c"
  shows "at_path y (y_int y) 9090 [''server'', ''observability'', ''metrics'', ''port''] doc =
      Inr (mt_port (ob_metrics (sv_observability c)))"
    and "at_path y (y_string y) ''info'' [''server'', ''observability'', ''logging'', ''level''] doc =
      Inr (lg_level (ob_logging (sv_observability c)))"
    and "at_path y (y_string y) [] [''server'', ''observability'', ''logging'', ''file_path''] doc =
      Inr (lg_file_path (ob_logging (sv_observability c)))"
  subgoal
    apply (rule section_fields(5)[OF assms, where hobs = "\<lambda>b. mt_port (ob_metrics b)"], rule delivers_nth[where i = 0])
        apply (simp_all add: parse_observability_def Let_def step_simps ObservabilityConfig_default_def MetricsConfig_default_def
          del: at_path.simps)
    by (rule delivers_block, rule delivers_nth[where i = 1]) (simp_all add: part_simps del: at_path.simps)
  subgoal
    apply (rule section_fields(5)[OF assms, where hobs = "\<lambda>b. lg_level (ob_logging b)"], rule delivers_nth[where i = 2])
        apply (simp_all add: parse_observability_def Let_def step_simps ObservabilityConfig_default_def LoggingConfig_default_def
          del: at_path.simps)
    by (rule delivers_block, rule delivers_nth[where i = 0]) (simp_all add: part_simps del: at_path.simps)
  subgoal
    apply (rule section_fields(5)[OF assms, where hobs = "\<lambda>b. lg_file_path (ob_logging b)"], rule delivers_nth[where i = 2])
        apply (simp_all add: parse_observability_def Let_def step_simps ObservabilityConfig_default_def LoggingConfig_default_def
          del: at_path.simps)
    by (rule delivers_block, rule delivers_nth[where i = 3]) (simp_all add: part_simps del: at_path.simps)
  done


text \<open>Documents as trees, for the witnesses.\<close>

datatype yaml_tree = Scalar string | Sequence "yaml_tree list" | Mapping "(string \<times> yaml_tree) list"

definition bad :: "exn + 'a" where "bad = Inl (Yaml_Exception ''bad conversion'')"

definition tree_yaml :: "yaml_tree yaml" where
  "tree_yaml =
     \<lparr>y_get = (\<lambda>t k. case t of Scalar _ \<Rightarrow> Inl (Yaml_Exception ''bad subscript'') | Sequence _ \<Rightarrow> Inr None
                       | Mapping m \<Rightarrow> Inr (map_of m k)),
      y_items = (\<lambda>t. case t of Sequence ts \<Rightarrow> Some ts | _ \<Rightarrow> None),
      y_string = (\<lambda>t. case t of Scalar s \<Rightarrow> Inr s | _ \<Rightarrow> bad),
      y_bool = (\<lambda>t. case t of Scalar s \<Rightarrow> if s = ''true'' then Inr True else if s = ''false'' then Inr False else bad | _ \<Rightarrow> bad),
      y_int = (\<lambda>t. case t of Scalar s \<Rightarrow> (case stoi s of Inr i \<Rightarrow> Inr i | Inl _ \<Rightarrow> bad) | _ \<Rightarrow> bad),
      y_long = (\<lambda>t. case t of Scalar s \<Rightarrow> (case stoi s of Inr i \<Rightarrow> Inr i | Inl _ \<Rightarrow> bad) | _ \<Rightarrow> bad),
      y_double = (\<lambda>_. bad)\<rparr>"

definition sample_doc :: yaml_tree where
  "sample_doc = Mapping [(''server'', Mapping [(''mode'', Scalar ''rpc'')])]"

lemma tree_yaml_simps:
  "y_get tree_yaml (Mapping m) k = Inr (map_of m k)" "y_string tree_yaml (Scalar s) = Inr s"
  "y_int tree_yaml (Mapping m) = Inl (Yaml_Exception ''bad conversion'')"
  by (simp_all add: tree_yaml_def bad_def)

lemma sample_parses: "ConfigParser_Parse tree_yaml (Inr sample_doc) = Inr (ServerConfig_default\<lparr>sv_mode := ''rpc''\<rparr>)"
  by (simp add: sample_doc_def ConfigParser_Parse_def parse_server_def block_def GetSafe_def assign_def tree_yaml_simps
      ServerConfig_default_def)


text \<open>
  Settings that no file can change: whatever the document says, the limits per address, the
  burst of the rate limiter, the verification of client certificates, the choice of io_uring and the
  shutdown settings have their defaults in every configuration that parses.
\<close>
theorem config_ignores_limits:
  assumes "ConfigParser_Parse y file = Inr c"
  shows "pf_max_connections_per_ip (sv_performance c) = 1000 \<and> pf_use_io_uring (sv_performance c) = False \<and>
    rl_burst_size (rs_rate_limiter (sv_resilience c)) = 1000 \<and>
    rl_per_ip_requests_per_second (rs_rate_limiter (sv_resilience c)) = 100 \<and>
    ssl_verify_client (sv_ssl c) = False \<and>
    rs_graceful_shutdown (sv_resilience c) = rs_graceful_shutdown ResilienceConfig_default"
proof -
  let ?g = "\<lambda>c. (pf_max_connections_per_ip (sv_performance c), pf_use_io_uring (sv_performance c),
      rl_burst_size (rs_rate_limiter (sv_resilience c)), rl_per_ip_requests_per_second (rs_rate_limiter (sv_resilience c)),
      ssl_verify_client (sv_ssl c), rs_graceful_shutdown (sv_resilience c))"
  obtain doc where doc: "file = Inr doc" using assms by (cases "file") (simp_all add: ConfigParser_Parse_def)
  have "keeps ?g (block y doc ''server'' (parse_server y))"
    by (rule keeps_block)
       (simp add: parse_server_def parse_ssl_def parse_performance_def parse_resilience_def step_simps Let_def)
  then have "?g (snd (block y doc ''server'' (parse_server y) ServerConfig_default)) = ?g ServerConfig_default"
    by (simp add: keeps_def)
  moreover have "snd (block y doc ''server'' (parse_server y) ServerConfig_default) = c"
    using assms doc by (auto simp: ConfigParser_Parse_def split: prod.splits option.splits)
  ultimately show ?thesis
    by (simp add: ServerConfig_default_def PerformanceConfig_default_def ResilienceConfig_default_def
        RateLimiterConfig_default_def SslConfig_default_def)
qed

lemma config_ignores_limits_witness:
  "\<exists>c. ConfigParser_Parse tree_yaml (Inr (Mapping [(''server'', Mapping
      [(''performance'', Mapping [(''max_connections_per_ip'', Scalar ''5'')])])])) = Inr c \<and>
    pf_max_connections_per_ip (sv_performance c) = 1000"
proof -
  let ?d = "Mapping [(''server'', Mapping [(''performance'', Mapping [(''max_connections_per_ip'', Scalar ''5'')])])]"
  have "\<exists>c. ConfigParser_Parse tree_yaml (Inr ?d) = Inr c"
    by (simp add: ConfigParser_Parse_def parse_server_def parse_performance_def Let_def block_def GetSafe_def assign_def
        tree_yaml_simps)
  with config_ignores_limits show ?thesis by blast
qed

text \<open>
  A client's TLS setting is lost with any error before it: if the port of the connection block
  cannot be converted, \<open>ParseClient\<close> silently returns a configuration that has the host but no TLS,
  whatever the \<open>ssl\<close> block says.
\<close>
theorem client_config_error_drops_tls:
  assumes "y_get y doc ''client'' = Inr (Some n)" and "GetSafe y (y_string y) n ''mode'' ''tcp'' = Inr mode"
    and "y_get y n ''connection'' = Inr (Some k)" and "y_get y k ''host'' = Inr (Some h)" and "y_string y h = Inr host"
    and "y_get y k ''port'' = Inr (Some p)" and "y_int y p = Inl e"
  shows "ConfigParser_ParseClient y (Inr doc) = ClientConfig_default\<lparr>cl_mode := mode, cl_host := host\<rparr> \<and>
    \<not> ssl_enabled (cl_ssl (ConfigParser_ParseClient y (Inr doc)))"
  using assms
  by (simp add: ConfigParser_ParseClient_def parse_client_def block_def assign_def assign_present_def
      ClientConfig_default_def SslConfig_default_def)

lemma client_config_error_drops_tls_witness:
  "\<not> ssl_enabled (cl_ssl (ConfigParser_ParseClient tree_yaml (Inr (Mapping [(''client'', Mapping
      [(''connection'', Mapping [(''host'', Scalar ''10.0.0.1''), (''port'', Mapping [])]),
       (''ssl'', Mapping [(''enabled'', Scalar ''true'')])])]))))"
proof -
  let ?k = "Mapping [(''host'', Scalar ''10.0.0.1''), (''port'', Mapping [])]"
  let ?n = "Mapping [(''connection'', ?k), (''ssl'', Mapping [(''enabled'', Scalar ''true'')])]"
  show ?thesis
    using client_config_error_drops_tls[of tree_yaml "Mapping [(''client'', ?n)]" ?n "''tcp''" ?k
        "Scalar ''10.0.0.1''" "''10.0.0.1''" "Mapping []" "Yaml_Exception ''bad conversion''"]
    by (simp add: tree_yaml_simps GetSafe_def ClientConfig_default_def SslConfig_default_def)
qed

section \<open>Hot reload\<close>

text \<open>
  The watcher: its flag, its descriptors, whether it has a thread, and the calls it makes on its
  descriptors.  What a read returns is nothing, or the events in the buffer, each with its mask and what
  loading the file gives at that moment.
\<close>

datatype hr_call = Rm_Watch int int | Close_Fd int

record hot_reload =
  hr_running :: bool
  hr_inotify :: int
  hr_watch :: int
  hr_thread :: bool
  hr_calls :: "hr_call list"

definition ConfigHotReload_new :: hot_reload where
  "ConfigHotReload_new = \<lparr>hr_running = False, hr_inotify = -1, hr_watch = -1, hr_thread = False, hr_calls = []\<rparr>"

definition ConfigHotReload_Start :: "int \<Rightarrow> int \<Rightarrow> hot_reload \<Rightarrow> hot_reload" where
  "ConfigHotReload_Start inotify watch h =
     (if hr_running h then h
      else
        (let h1 = h\<lparr>hr_running := True, hr_inotify := inotify\<rparr>
         in if inotify < 0 then h1 else h1\<lparr>hr_watch := watch, hr_thread := True\<rparr>))"

definition ConfigHotReload_Stop :: "hot_reload \<Rightarrow> hot_reload" where
  "ConfigHotReload_Stop h =
     h\<lparr>hr_running := False, hr_thread := False,
       hr_calls := hr_calls h @ (if 0 \<le> hr_watch h then [Rm_Watch (hr_inotify h) (hr_watch h)] else []) @
         (if 0 \<le> hr_inotify h then [Close_Fd (hr_inotify h)] else [])\<rparr>"

definition IN_MODIFY :: uint32 where "IN_MODIFY = 0x2"
definition IN_CLOSE_WRITE :: uint32 where "IN_CLOSE_WRITE = 0x8"

text \<open>The callback may throw a standard exception, which is logged like one of the parser.\<close>

type_synonym 's reload_callback = "ServerConfig \<Rightarrow> 's \<Rightarrow> exn option \<times> 's"

definition watch_event :: "'n yaml \<Rightarrow> 's reload_callback option \<Rightarrow> uint32 \<times> (exn + 'n) \<Rightarrow> 's \<Rightarrow> 's" where
  "watch_event y cb ev s =
     (if fst ev AND (IN_MODIFY OR IN_CLOSE_WRITE) \<noteq> 0 then
        (case ConfigParser_Parse y (snd ev) of
           Inl _ \<Rightarrow> s
         | Inr c \<Rightarrow> (case cb of None \<Rightarrow> s | Some f \<Rightarrow> snd (f c s)))
      else s)"

text \<open>
  The loop: before each read the flag is tested; \<open>Stop_Flag\<close> is another thread clearing it, an
  empty read sleeps.
\<close>

datatype 'n watch_round = Stop_Flag | Nothing_Read | Events "(uint32 \<times> (exn + 'n)) list"

fun ConfigHotReload_WatchLoop ::
    "'n yaml \<Rightarrow> 's reload_callback option \<Rightarrow> 'n watch_round list \<Rightarrow> bool \<times> 's \<Rightarrow> bool \<times> 's" where
  "ConfigHotReload_WatchLoop y cb [] st = st"
| "ConfigHotReload_WatchLoop y cb (r # rs) (running, s) =
     (if \<not> running then (running, s)
      else
        (case r of
           Stop_Flag \<Rightarrow> ConfigHotReload_WatchLoop y cb rs (False, s)
         | Nothing_Read \<Rightarrow> ConfigHotReload_WatchLoop y cb rs (running, s)
         | Events evs \<Rightarrow> ConfigHotReload_WatchLoop y cb rs (running, foldl (\<lambda>s ev. watch_event y cb ev s) s evs)))"

text \<open>The changes a run of the loop sees: those of the reads before the flag was cleared.\<close>

fun seen :: "'n watch_round list \<Rightarrow> (uint32 \<times> (exn + 'n)) list" where
  "seen [] = []"
| "seen (Stop_Flag # rs) = []"
| "seen (Nothing_Read # rs) = seen rs"
| "seen (Events evs # rs) = evs @ seen rs"

definition changes :: "(uint32 \<times> (exn + 'n)) list \<Rightarrow> (exn + 'n) list" where
  "changes evs = map snd (filter (\<lambda>ev. fst ev AND (IN_MODIFY OR IN_CLOSE_WRITE) \<noteq> 0) evs)"

definition parsed_configs :: "'n yaml \<Rightarrow> (exn + 'n) list \<Rightarrow> ServerConfig list" where
  "parsed_configs y files = concat (map (\<lambda>f. case ConfigParser_Parse y f of Inl _ \<Rightarrow> [] | Inr c \<Rightarrow> [c]) files)"

lemma watch_events_fold:
  "foldl (\<lambda>s ev. watch_event y (Some f) ev s) s evs = foldl (\<lambda>s c. snd (f c s)) s (parsed_configs y (changes evs))"
  by (induction evs arbitrary: s)
     (simp_all add: watch_event_def changes_def parsed_configs_def split: sum.splits)

lemma WatchLoop_stopped: "ConfigHotReload_WatchLoop y cb rs (False, s) = (False, s)"
  by (cases rs) simp_all

text \<open>
  Hot reload hands over every valid version and survives the others: over any run of the loop,
  the callback is called exactly with the configurations of the changes that parse, in the order of the
  changes, whatever it throws itself; a version that does not parse is skipped.
\<close>
theorem hot_reload_delivers:
  "snd (ConfigHotReload_WatchLoop y (Some f) rs (True, s)) =
    foldl (\<lambda>s c. snd (f c s)) s (parsed_configs y (changes (seen rs)))"
proof (induction rs arbitrary: s)
  case Nil
  then show ?case by (simp add: changes_def parsed_configs_def)
next
  case (Cons r rs)
  show ?case
  proof (cases r)
    case Stop_Flag
    then show ?thesis by (simp add: WatchLoop_stopped changes_def parsed_configs_def)
  next
    case Nothing_Read
    with Cons.IH show ?thesis by simp
  next
    case (Events evs)
    with Cons.IH[of "foldl (\<lambda>s ev. watch_event y (Some f) ev s) s evs"] show ?thesis
      by (simp add: watch_events_fold) (simp add: changes_def parsed_configs_def)
  qed
qed

text \<open>
  Stopping a watcher twice, which destroying it after \<open>Stop\<close> does, closes its descriptor twice:
  the numbers are never reset, so the second close hits whatever the process has opened since.  And a
  watcher whose \<open>inotify\<close> could not be made never tries again.
\<close>
theorem hot_reload_double_close:
  assumes "h = ConfigHotReload_Stop (ConfigHotReload_Stop (ConfigHotReload_Start i w ConfigHotReload_new))"
  shows "(0 \<le> i \<and> 0 \<le> w \<longrightarrow> hr_calls h = [Rm_Watch i w, Close_Fd i, Rm_Watch i w, Close_Fd i]) \<and>
    (i < 0 \<longrightarrow> \<not> hr_thread (ConfigHotReload_Start i' w' (ConfigHotReload_Start i w ConfigHotReload_new)))"
  using assms by (simp add: ConfigHotReload_Stop_def ConfigHotReload_Start_def ConfigHotReload_new_def Let_def)

lemma hot_reload_double_close_witness:
  "hr_calls (ConfigHotReload_Stop (ConfigHotReload_Stop (ConfigHotReload_Start 7 1 ConfigHotReload_new))) =
     [Rm_Watch 7 1, Close_Fd 7, Rm_Watch 7 1, Close_Fd 7]"
  using hot_reload_double_close[OF refl, of 7 1] by simp

end
