(* ===== verification/Server.thy ===== *)
theory Server
  imports Datagram Tls Config
begin

text \<open>
  \<open>core::Server\<close> and the protocol factories: how a configuration becomes listening sockets with
  handlers, and what start, stop and reload do.  The handlers themselves are in the protocol
  theories; here a handler is the description of how it was set up, and its number is its place in
  the list of handlers the server has made.  What the socket calls and the poller return is a script
  of the server; TLS contexts are numbered in the order they are made.
\<close>

section \<open>The factories\<close>

datatype handler_kind = Tcp_Handler | Http_Handler | Grpc_Handler | Websocket_Handler | Rpc_Handler | Quic_Handler | Udp_Handler

definition ProtocolFactory_Create :: "string \<Rightarrow> exn + handler_kind" where
  "ProtocolFactory_Create mode =
     (if mode = ''tcp'' then Inr Tcp_Handler
      else if mode = ''http'' then Inr Http_Handler
      else if mode = ''grpc'' then Inr Grpc_Handler
      else if mode = ''websocket'' then Inr Websocket_Handler
      else if mode = ''rpc'' then Inr Rpc_Handler
      else if mode = ''quic'' then Inr Quic_Handler
      else if mode = ''udp'' then Inl (Runtime_Error ''UDP is not a stream protocol. Use CreateUdpHandler.'')
      else Inl (Runtime_Error (''Unknown protocol mode: '' @ mode)))"

datatype client_kind = Tcp_Client | Http_Client | Grpc_Client | Websocket_Client | Rpc_Client | Quic_Client

definition ClientProtocolFactory_Create :: "string \<Rightarrow> client_kind" where
  "ClientProtocolFactory_Create mode =
     (if mode = ''http'' then Http_Client
      else if mode = ''websocket'' then Websocket_Client
      else if mode = ''grpc'' then Grpc_Client
      else if mode = ''quic'' then Quic_Client
      else if mode = ''rpc'' then Rpc_Client
      else Tcp_Client)"

section \<open>State\<close>

text \<open>
  A handler as it is set up: whether it has the application's handlers, and the rate and the capacity its
  token bucket is made with.  Of the socket calls of a registration: the new socket, what \<open>bind\<close> returns for
  each port, and what \<open>listen\<close> returns.
\<close>

record handler_setup =
  hd_kind :: handler_kind
  hd_stream :: bool
  hd_raw :: bool
  hd_bucket :: "(int \<times> int) option"

type_synonym socket_results = "int result \<times> (uint16 \<Rightarrow> int) \<times> int"

record 'w server =
  srv_config :: ServerConfig
  srv_has_stream :: bool
  srv_has_raw :: bool
  srv_reactor :: "'w rx_program option"
  srv_handlers :: "handler_setup list"
  srv_tls :: "TlsContext list"
  srv_sockets :: "socket_results list"
  srv_running :: bool
  srv_thread :: bool

definition Server_new :: "ServerConfig \<Rightarrow> 'w server" where
  "Server_new config =
     \<lparr>srv_config = config, srv_has_stream = False, srv_has_raw = False, srv_reactor = None, srv_handlers = [],
      srv_tls = [], srv_sockets = [], srv_running = False, srv_thread = False\<rparr>"

definition Server_RegisterStreamHandler :: "bool \<Rightarrow> 'w server \<Rightarrow> 'w server" where
  "Server_RegisterStreamHandler present s = s\<lparr>srv_has_stream := present\<rparr>"

definition Server_RegisterRawHandler :: "bool \<Rightarrow> 'w server \<Rightarrow> 'w server" where
  "Server_RegisterRawHandler present s = s\<lparr>srv_has_raw := present\<rparr>"

text \<open>What an \<open>Init\<close> step does: an exception, and the server as it then is.\<close>

type_synonym 'w server_step = "'w server \<Rightarrow> exn option \<times> 'w server"

definition throw_msg :: "string \<Rightarrow> 'w server \<Rightarrow> exn option \<times> 'w server" where
  "throw_msg msg s = (Some (Runtime_Error msg), s)"

definition next_sockets :: "'w server \<Rightarrow> socket_results \<times> 'w server" where
  "next_sockets s =
     (case srv_sockets s of
        [] \<Rightarrow> ((Result_Failure kInternal ''Failed to create socket'', \<lambda>_. -1, -1), s)
      | r # rs \<Rightarrow> (r, s\<lparr>srv_sockets := rs\<rparr>))"

text \<open>A fresh TLS context, its number, and the failure of its initialisation.\<close>

definition make_tls :: "openssl \<Rightarrow> SslConfig \<Rightarrow> 'w server \<Rightarrow> unit result \<times> nat \<times> 'w server" where
  "make_tls os cfg s =
     (case TlsContext_Init os (ssl_cert_file cfg) (ssl_key_file cfg) TlsContext_new of
        (res, t) \<Rightarrow> (res, length (srv_tls s), s\<lparr>srv_tls := srv_tls s @ [t]\<rparr>))"

definition rate_bucket :: "ServerConfig \<Rightarrow> (int \<times> int) option" where
  "rate_bucket cfg =
     (let rl = rs_rate_limiter (sv_resilience cfg)
      in if rl_enabled rl then Some (rl_requests_per_second rl, rl_burst_size rl) else None)"

section \<open>Registering protocols\<close>

text \<open>A handler is added and registered with the reactor at a port; the results of its socket calls come next.\<close>

definition register_stream :: "string \<Rightarrow> int \<Rightarrow> handler_setup \<Rightarrow> nat option \<Rightarrow> 'w server_step" where
  "register_stream prefix port h tls s =
     (case srv_reactor s of
        None \<Rightarrow> (None, s)
      | Some q \<Rightarrow>
          (case next_sockets s of
             ((sock, bound, listening), s1) \<Rightarrow>
               (let hid = length (srv_handlers s1); s2 = s1\<lparr>srv_handlers := srv_handlers s1 @ [h]\<rparr>
                in case Reactor_RegisterServer hid port tls sock bound listening q of
                     (Inl e, q') \<Rightarrow> throw_msg (prefix @ err_message e) (s2\<lparr>srv_reactor := Some q'\<rparr>)
                   | (Inr _, q') \<Rightarrow> (None, s2\<lparr>srv_reactor := Some q'\<rparr>))))"

definition register_udp :: "string \<Rightarrow> int \<Rightarrow> handler_setup \<Rightarrow> 'w server_step" where
  "register_udp prefix port h s =
     (case srv_reactor s of
        None \<Rightarrow> (None, s)
      | Some q \<Rightarrow>
          (case next_sockets s of
             ((sock, bound, _), s1) \<Rightarrow>
               (let hid = length (srv_handlers s1); s2 = s1\<lparr>srv_handlers := srv_handlers s1 @ [h]\<rparr>
                in case Reactor_RegisterUdpServer hid port sock bound q of
                     (Inl e, q') \<Rightarrow> throw_msg (prefix @ err_message e) (s2\<lparr>srv_reactor := Some q'\<rparr>)
                   | (Inr _, q') \<Rightarrow> (None, s2\<lparr>srv_reactor := Some q'\<rparr>))))"

text \<open>One entry of the list of protocols.\<close>

definition listen_protocol :: "ProtocolConfig \<Rightarrow> nat option \<Rightarrow> 'w server_step" where
  "listen_protocol pc tls s =
     (if pc_type pc = ''udp'' then
        register_udp ''UDP Register Failed: '' (pc_port pc)
          \<lparr>hd_kind = Udp_Handler, hd_stream = (pc_mode pc \<noteq> ''raw'' \<and> srv_has_stream s),
           hd_raw = (pc_mode pc = ''raw'' \<and> srv_has_raw s), hd_bucket = None\<rparr> s
      else
        (case ProtocolFactory_Create (pc_type pc) of
           Inl e \<Rightarrow> (Some e, s)
         | Inr k \<Rightarrow>
             register_stream ''Server Register Failed: '' (pc_port pc)
               \<lparr>hd_kind = k, hd_stream = (pc_mode pc \<noteq> ''raw'' \<and> srv_has_stream s),
                hd_raw = (pc_mode pc = ''raw'' \<and> srv_has_raw s), hd_bucket = rate_bucket (srv_config s)\<rparr> tls s))"

definition register_protocol :: "openssl \<Rightarrow> ProtocolConfig \<Rightarrow> 'w server_step" where
  "register_protocol os pc s =
     (if \<not> pc_enabled pc then (None, s)
      else if ssl_enabled (pc_ssl pc) then
        (case make_tls os (pc_ssl pc) s of
           (Inl e, _, s1) \<Rightarrow> throw_msg (''Failed to init TLS for '' @ pc_name pc @ '': '' @ err_message e) s1
         | (Inr _, i, s1) \<Rightarrow> listen_protocol pc (Some i) s1)
      else listen_protocol pc None s)"

text \<open>Without a list: the legacy mode and port, and the server's own TLS context.\<close>

definition register_legacy :: "nat option \<Rightarrow> 'w server_step" where
  "register_legacy tls s =
     (let mode = sv_mode (srv_config s)
      in if mode = ''udp'' then
           register_udp [] (nc_port (sv_network (srv_config s))) \<lparr>hd_kind = Udp_Handler, hd_stream = srv_has_stream s, hd_raw = False, hd_bucket = None\<rparr> s
         else
           (case ProtocolFactory_Create mode of
              Inl e \<Rightarrow> (Some e, s)
            | Inr k \<Rightarrow>
                register_stream [] (nc_port (sv_network (srv_config s)))
                  \<lparr>hd_kind = k, hd_stream = srv_has_stream s, hd_raw = False, hd_bucket = rate_bucket (srv_config s)\<rparr>
                  tls s))"

section \<open>Init, Start and Stop\<close>

definition ddos_of :: "int \<Rightarrow> RateLimiterConfig \<Rightarrow> ddos_config" where
  "ddos_of max_conn rl =
     (let cfg = ddos_config_default\<lparr>max_conn_per_ip := max_conn\<rparr>
      in if rl_per_ip_enabled rl then cfg\<lparr>rate_limit_per_ip := rl_per_ip_requests_per_second rl\<rparr> else cfg)"

text \<open>
  \<open>Init\<close>, given what making the poller and \<open>eventfd\<close> return and the state the handlers start
  with.  Asking for io_uring makes no difference, because the loop falls back to epoll.
\<close>

definition Server_Init :: "openssl \<Rightarrow> string option \<Rightarrow> int \<Rightarrow> 'w \<Rightarrow> 'w server_step" where
  "Server_Init os poller_error efd w s =
     (case EventLoop_Init poller_error efd EventLoop_new of
        (Inl e, _) \<Rightarrow> throw_msg (''Failed to init event loop: '' @ err_message e) s
      | (Inr _, l) \<Rightarrow>
          (let cfg = srv_config s;
               r = Reactor_SetDdosConfig (ddos_of 1000 (rs_rate_limiter (sv_resilience cfg))) (Reactor_new w);
               s1 = s\<lparr>srv_reactor := Some (l, r)\<rparr>;
               (res, tls, s2) =
                 (if ssl_enabled (sv_ssl cfg)
                  then (case make_tls os (sv_ssl cfg) s1 of (res, i, s') \<Rightarrow> (res, Some i, s'))
                  else (Inr (), None, s1))
           in case res of
                Inl e \<Rightarrow> throw_msg (''Failed to init TLS: '' @ err_message e) s2
              | Inr _ \<Rightarrow>
                  if sv_protocol_list cfg \<noteq> [] then steps (map (register_protocol os) (sv_protocol_list cfg)) s2
                  else register_legacy tls s2))"

definition Server_Start :: "openssl \<Rightarrow> string option \<Rightarrow> int \<Rightarrow> 'w \<Rightarrow> 'w server \<Rightarrow> bool \<times> 'w server" where
  "Server_Start os poller_error efd w s =
     (if srv_running s then (True, s)
      else
        (case Server_Init os poller_error efd w s of
           (Some _, s') \<Rightarrow> (False, s')
         | (None, s') \<Rightarrow> (True, s'\<lparr>srv_running := True, srv_thread := True\<rparr>)))"

definition Server_Stop :: "'w server \<Rightarrow> 'w server" where
  "Server_Stop s =
     (if \<not> srv_running s then s
      else s\<lparr>srv_running := False, srv_reactor := map_option Reactor_Stop (srv_reactor s), srv_thread := False\<rparr>)"

definition Server_Wait :: "'w server \<Rightarrow> 'w server" where
  "Server_Wait s = s\<lparr>srv_thread := False\<rparr>"

text \<open>\<open>ReloadConfig\<close>: the limits are those of the new configuration, the counts start again.\<close>

definition Server_ReloadConfig :: "openssl \<Rightarrow> ServerConfig \<Rightarrow> 'w server \<Rightarrow> 'w server" where
  "Server_ReloadConfig os cfg s =
     (case srv_reactor s of
        None \<Rightarrow> s
      | Some (l, r) \<Rightarrow>
          (let new_ddos = (if rl_per_ip_enabled (rs_rate_limiter (sv_resilience cfg))
                           then ddos_config_default
                             \<lparr>rate_limit_per_ip := rl_per_ip_requests_per_second (rs_rate_limiter (sv_resilience cfg))\<rparr>
                           else ddos_config_default);
               s1 = s\<lparr>srv_reactor := Some (l, Reactor_SetDdosConfig new_ddos r)\<rparr>
           in if ssl_enabled (sv_ssl cfg) then
                (case rx_tls r of
                   None \<Rightarrow> s1
                 | Some i \<Rightarrow>
                     s1\<lparr>srv_tls := (srv_tls s1)[i := snd (TlsContext_ReloadCertificates os
                            (ssl_cert_file (sv_ssl cfg)) (ssl_key_file (sv_ssl cfg)) (srv_tls s1 ! i))]\<rparr>)
              else s1))"

section \<open>What a started server listens on\<close>

text \<open>
  What an entry of the list should get, written out: the kind of handler its type names, the
  application's handler its mode asks for, the token bucket, and the callback of its socket.
\<close>

definition protocol_types :: "(string \<times> handler_kind) list" where
  "protocol_types =
     [(''tcp'', Tcp_Handler), (''http'', Http_Handler), (''grpc'', Grpc_Handler), (''websocket'', Websocket_Handler),
      (''rpc'', Rpc_Handler), (''quic'', Quic_Handler), (''udp'', Udp_Handler)]"

definition set_up_for :: "'w server \<Rightarrow> ProtocolConfig \<Rightarrow> handler_setup \<Rightarrow> bool" where
  "set_up_for s pc h \<longleftrightarrow>
     (pc_type pc, hd_kind h) \<in> set protocol_types \<and>
     hd_stream h = (srv_has_stream s \<and> pc_mode pc \<noteq> ''raw'') \<and> hd_raw h = (srv_has_raw s \<and> pc_mode pc = ''raw'') \<and>
     hd_bucket h =
       (if pc_type pc \<noteq> ''udp'' \<and> rl_enabled (rs_rate_limiter (sv_resilience (srv_config s)))
        then Some (rl_requests_per_second (rs_rate_limiter (sv_resilience (srv_config s))),
                   rl_burst_size (rs_rate_limiter (sv_resilience (srv_config s))))
        else None)"

definition listener :: "ProtocolConfig \<Rightarrow> nat \<Rightarrow> int \<Rightarrow> reactor_cb" where
  "listener pc hid f = (if pc_type pc = ''udp'' then Udp_Cb hid f else Accept_Cb hid f)"

text \<open>An entry whose type is known, whose certificates load and whose port can be bound.\<close>

definition entry_ok :: "openssl \<Rightarrow> (uint16 \<Rightarrow> int) \<Rightarrow> ProtocolConfig \<Rightarrow> bool" where
  "entry_ok os bound pc \<longleftrightarrow> pc_type pc \<in> fst ` set protocol_types \<and> 0 \<le> bound (word_of_int (pc_port pc)) \<and>
     (ssl_enabled (pc_ssl pc) \<longrightarrow>
        fst (TlsContext_Init os (ssl_cert_file (pc_ssl pc)) (ssl_key_file (pc_ssl pc)) TlsContext_new) = Inr ())"

lemma Create_by_type:
  assumes "pc_type pc \<in> fst ` set protocol_types" and "pc_type pc \<noteq> ''udp''"
  obtains k where "ProtocolFactory_Create (pc_type pc) = Inr k" and "(pc_type pc, k) \<in> set protocol_types"
  using assms by (auto simp: protocol_types_def ProtocolFactory_Create_def)

lemma register_protocol_ok:
  assumes "pc_enabled pc" and "entry_ok os bound pc" and "srv_reactor s = Some (l, r)" and "loop_ok l"
    and "loop_handlers l f = None" and "srv_sockets s = (Inr f, bound, 0) # rest"
  shows "\<exists>l' r' tls h. register_protocol os pc s =
      (None, s\<lparr>srv_reactor := Some (l', r'), srv_handlers := srv_handlers s @ [h], srv_sockets := rest, srv_tls := tls\<rparr>) \<and>
    set_up_for s pc h \<and> rx_bound r' = (rx_bound r)(f \<mapsto> word_of_int (pc_port pc)) \<and>
    rx_listening r' = rx_listening r @ (if pc_type pc = ''udp'' then [] else [f]) \<and>
    loop_ok l' \<and> callback_of l' = (callback_of l)(f := Some (Callback (listener pc (length (srv_handlers s)) f))) \<and>
    dom (loop_handlers l') = insert f (dom (loop_handlers l))"
proof -
  let ?hid = "length (srv_handlers s)"
  have bind: "Socket_Bind bound (pc_port pc) = Inr ()" "UdpSocket_Bind bound (pc_port pc) = Inr ()"
    "sin_port (pc_port pc) = word_of_int (pc_port pc)"
    using assms(2) by (simp_all add: entry_ok_def Socket_Bind_def UdpSocket_Bind_def sin_port_def result_defs)
  have L: "\<exists>l' r' h. listen_protocol pc tls s' =
      (None, s\<lparr>srv_reactor := Some (l', r'), srv_handlers := srv_handlers s @ [h], srv_sockets := rest, srv_tls := ts\<rparr>) \<and>
      set_up_for s pc h \<and> rx_bound r' = (rx_bound r)(f \<mapsto> word_of_int (pc_port pc)) \<and>
      rx_listening r' = rx_listening r @ (if pc_type pc = ''udp'' then [] else [f]) \<and>
      loop_ok l' \<and> callback_of l' = (callback_of l)(f := Some (Callback (listener pc ?hid f))) \<and>
      dom (loop_handlers l') = insert f (dom (loop_handlers l))"
    if s': "s' = s\<lparr>srv_tls := ts\<rparr>" for tls ts s'
  proof (cases "pc_type pc = ''udp''")
    case True
    obtain l' where a: "EventLoop_AddFd f (EPOLLIN OR EPOLLET) (Some (Callback (Udp_Cb ?hid f))) l = (Inr (), l')" "loop_ok l'"
      "callback_of l' = (callback_of l)(f := Some (Callback (Udp_Cb ?hid f)))" "dom (loop_handlers l') = insert f (dom (loop_handlers l))"
      using AddFd_ok[OF assms(4,5)] by blast
    let ?h = "\<lparr>hd_kind = Udp_Handler, hd_stream = (pc_mode pc \<noteq> ''raw'' \<and> srv_has_stream s),
           hd_raw = (pc_mode pc = ''raw'' \<and> srv_has_raw s), hd_bucket = None\<rparr>"
    have "listen_protocol pc tls s' =
      (None, s\<lparr>srv_reactor := Some (l', r\<lparr>rx_bound := (rx_bound r)(f \<mapsto> word_of_int (pc_port pc))\<rparr>),
               srv_handlers := srv_handlers s @ [?h], srv_sockets := rest, srv_tls := ts\<rparr>)"
      using True a(1) assms(3,6) s'
      by (simp add: listen_protocol_def register_udp_def next_sockets_def Reactor_RegisterUdpServer_def bind Let_def)
    moreover have "set_up_for s pc ?h" using True by (auto simp: set_up_for_def protocol_types_def)
    ultimately show ?thesis using a True
      by (intro exI[of _ l'] exI[of _ "r\<lparr>rx_bound := (rx_bound r)(f \<mapsto> word_of_int (pc_port pc))\<rparr>"] exI[of _ ?h])
         (simp add: listener_def)
  next
    case False
    then obtain k where k: "ProtocolFactory_Create (pc_type pc) = Inr k" "(pc_type pc, k) \<in> set protocol_types"
      using assms(2) Create_by_type by (auto simp: entry_ok_def)
    obtain l' where a: "EventLoop_AddFd f EPOLLIN (Some (Callback (Accept_Cb ?hid f))) l = (Inr (), l')" "loop_ok l'"
      "callback_of l' = (callback_of l)(f := Some (Callback (Accept_Cb ?hid f)))" "dom (loop_handlers l') = insert f (dom (loop_handlers l))"
      using AddFd_ok[OF assms(4,5)] by blast
    let ?h = "\<lparr>hd_kind = k, hd_stream = (pc_mode pc \<noteq> ''raw'' \<and> srv_has_stream s),
                hd_raw = (pc_mode pc = ''raw'' \<and> srv_has_raw s), hd_bucket = rate_bucket (srv_config s)\<rparr>"
    have "listen_protocol pc tls s' =
      (None, s\<lparr>srv_reactor := Some (l', r\<lparr>rx_tls := tls, rx_bound := (rx_bound r)(f \<mapsto> word_of_int (pc_port pc)),
                 rx_listening := rx_listening r @ [f]\<rparr>),
               srv_handlers := srv_handlers s @ [?h], srv_sockets := rest, srv_tls := ts\<rparr>)"
      using False k(1) a(1) assms(3,6) s'
      by (simp add: listen_protocol_def register_stream_def next_sockets_def Reactor_RegisterServer_def bind Socket_Listen_def
          result_defs Let_def)
    moreover have "set_up_for s pc ?h" using False k(2) by (auto simp: set_up_for_def rate_bucket_def Let_def)
    ultimately show ?thesis using a False
      by (intro exI[of _ l'] exI[of _ "r\<lparr>rx_tls := tls, rx_bound := (rx_bound r)(f \<mapsto> word_of_int (pc_port pc)),
                 rx_listening := rx_listening r @ [f]\<rparr>"] exI[of _ ?h])
         (simp add: listener_def)
  qed
  show ?thesis
  proof (cases "ssl_enabled (pc_ssl pc)")
    case False
    have "register_protocol os pc s = listen_protocol pc None s" using assms(1) False by (simp add: register_protocol_def)
    moreover have "s = s\<lparr>srv_tls := srv_tls s\<rparr>" by simp
    ultimately show ?thesis using L[of s "srv_tls s" None] by metis
  next
    case True
    obtain t where t: "TlsContext_Init os (ssl_cert_file (pc_ssl pc)) (ssl_key_file (pc_ssl pc)) TlsContext_new = (Inr (), t)"
      using True assms(2) by (auto simp: entry_ok_def) (metis prod.collapse)
    then have "register_protocol os pc s = listen_protocol pc (Some (length (srv_tls s))) (s\<lparr>srv_tls := srv_tls s @ [t]\<rparr>)"
      using assms(1) True by (simp add: register_protocol_def make_tls_def)
    then show ?thesis using L[OF refl, of "Some (length (srv_tls s))" "srv_tls s @ [t]"] by metis
  qed
qed

text \<open>An entry is served: by its own handler, at its port, called when its socket is ready.\<close>

definition entry_served :: "'w server \<Rightarrow> ProtocolConfig \<Rightarrow> int \<Rightarrow> nat \<Rightarrow> handler_setup \<Rightarrow> 'w rx_program \<Rightarrow> bool" where
  "entry_served s pc f hid h q \<longleftrightarrow>
     set_up_for s pc h \<and> rx_bound (snd q) f = Some (word_of_int (pc_port pc)) \<and>
     (pc_type pc = ''udp'' \<or> f \<in> set (rx_listening (snd q))) \<and>
     callback_of (fst q) f = Some (Callback (if pc_type pc = ''udp'' then Udp_Cb hid f else Accept_Cb hid f))"

lemma register_all_ok:
  fixes s :: "'w server"
  assumes "\<forall>pc \<in> set pcs. pc_enabled pc \<longrightarrow> entry_ok os bound pc" and "srv_reactor s = Some (l, r)" and "loop_ok l"
    and "distinct fds" and "\<forall>f \<in> set fds. loop_handlers l f = None" and "length fds = length (filter pc_enabled pcs)"
    and "srv_sockets s = map (\<lambda>f. (Inr f, bound, 0)) fds @ rest"
  shows "\<exists>l' r' s' hs. steps (map (register_protocol os) pcs) s = (None, s') \<and> srv_reactor s' = Some (l', r') \<and> loop_ok l' \<and>
    srv_handlers s' = srv_handlers s @ hs \<and> length hs = length fds \<and> srv_running s' = srv_running s \<and>
    (\<forall>i < length fds. entry_served s (filter pc_enabled pcs ! i) (fds ! i) (length (srv_handlers s) + i) (hs ! i) (l', r')) \<and>
    (\<forall>g. g \<notin> set fds \<longrightarrow> callback_of l' g = callback_of l g \<and> rx_bound r' g = rx_bound r g) \<and>
    set (rx_listening r) \<subseteq> set (rx_listening r')"
  using assms
proof (induction pcs arbitrary: s l r fds)
  case Nil
  then show ?case by simp
next
  case (Cons pc pcs)
  show ?case
  proof (cases "pc_enabled pc")
    case False
    with Cons.IH[of s l r fds] Cons.prems show ?thesis by (simp add: register_protocol_def)
  next
    case True
    then obtain f fs where fds: "fds = f # fs" using Cons.prems(6) by (cases fds) auto
    have ok: "entry_ok os bound pc" and socks: "srv_sockets s = (Inr f, bound, 0) # map (\<lambda>f. (Inr f, bound, 0)) fs @ rest"
      and f: "loop_handlers l f = None" using Cons.prems True fds by auto
    obtain l1 r1 tls h where 1: "register_protocol os pc s =
        (None, s\<lparr>srv_reactor := Some (l1, r1), srv_handlers := srv_handlers s @ [h],
                 srv_sockets := map (\<lambda>f. (Inr f, bound, 0)) fs @ rest, srv_tls := tls\<rparr>)" "loop_ok l1"
      "callback_of l1 = (callback_of l)(f := Some (Callback (listener pc (length (srv_handlers s)) f)))"
      "dom (loop_handlers l1) = insert f (dom (loop_handlers l))"
      "set_up_for s pc h" "rx_bound r1 = (rx_bound r)(f \<mapsto> word_of_int (pc_port pc))"
      "rx_listening r1 = rx_listening r @ (if pc_type pc = ''udp'' then [] else [f])"
      using register_protocol_ok[OF True ok Cons.prems(2,3) f socks] by blast
    let ?s = "s\<lparr>srv_reactor := Some (l1, r1), srv_handlers := srv_handlers s @ [h],
                 srv_sockets := map (\<lambda>f. (Inr f, bound, 0)) fs @ rest, srv_tls := tls\<rparr>"
    have "\<forall>g \<in> set fs. loop_handlers l1 g = None" using Cons.prems(4,5) fds 1(4) by (auto simp: domIff)
    then obtain l' r' s' hs where 2: "steps (map (register_protocol os) pcs) ?s = (None, s')" "srv_reactor s' = Some (l', r')"
      "loop_ok l'" "srv_handlers s' = srv_handlers ?s @ hs" "length hs = length fs" "srv_running s' = srv_running ?s"
      "\<forall>i < length fs. entry_served ?s (filter pc_enabled pcs ! i) (fs ! i) (length (srv_handlers ?s) + i) (hs ! i) (l', r')"
      "\<forall>g. g \<notin> set fs \<longrightarrow> callback_of l' g = callback_of l1 g \<and> rx_bound r' g = rx_bound r1 g"
      "set (rx_listening r1) \<subseteq> set (rx_listening r')"
      using Cons.IH[of ?s l1 r1 fs] Cons.prems True fds 1(2) by auto
    have same: "entry_served ?s = entry_served s"
      by (intro ext) (simp add: entry_served_def set_up_for_def)
    have "entry_served s (filter pc_enabled (pc # pcs) ! i) (fds ! i) (length (srv_handlers s) + i) ((h # hs) ! i) (l', r')"
      if "i < length fds" for i
    proof (cases i)
      case 0
      have "f \<notin> set fs" using Cons.prems(4) fds by simp
      with 0 2(8,9) 1(3,5,6,7) True fds show ?thesis by (auto simp: entry_served_def listener_def split: if_splits)
    next
      case (Suc i')
      with that 2(7) True fds same show ?thesis by simp
    qed
    moreover have "callback_of l' g = callback_of l g \<and> rx_bound r' g = rx_bound r g" if "g \<notin> set fds" for g
      using that 2(8) 1(3,6) fds by auto
    ultimately show ?thesis using 1(1,7) 2 True fds
      by (intro exI[of _ l'] exI[of _ r'] exI[of _ s'] exI[of _ "h # hs"]) auto
  qed
qed

text \<open>The part of \<open>Init\<close> before the protocols: the loop, the reactor and the server's own context.\<close>

lemma Init_protocols:
  fixes s :: "'w server"
  assumes "0 \<le> efd" and "sv_protocol_list (srv_config s) \<noteq> []"
    and "ssl_enabled (sv_ssl (srv_config s)) \<longrightarrow> fst (TlsContext_Init os (ssl_cert_file (sv_ssl (srv_config s)))
           (ssl_key_file (sv_ssl (srv_config s))) TlsContext_new) = Inr ()"
  shows "\<exists>l r ts. Server_Init os None efd w s =
      steps (map (register_protocol os) (sv_protocol_list (srv_config s))) (s\<lparr>srv_reactor := Some (l, r), srv_tls := ts\<rparr>) \<and>
    loop_ok l \<and> callback_of l efd = Some Wakeup_Callback \<and> dom (loop_handlers l) = {efd}"
proof -
  let ?cfg = "srv_config s"
  let ?l0 = "EventLoop_new\<lparr>has_poller := True, wakeup_fd := efd\<rparr> :: (reactor_cb, reactor_task) event_loop"
  have "loop_ok ?l0" "loop_handlers ?l0 efd = None"
    using loop_inv_new by (auto simp: loop_ok_def loop_inv_def EventLoop_new_def)
  from AddFd_ok[OF this] obtain l where l: "EventLoop_AddFd efd EPOLLIN (Some Wakeup_Callback) ?l0 = (Inr (), l)" "loop_ok l"
    "callback_of l = (callback_of ?l0)(efd := Some Wakeup_Callback)" "dom (loop_handlers l) = insert efd (dom (loop_handlers ?l0))" by blast
  have "?l0 = EventLoop_new\<lparr>has_poller := True, epoll_set := Map.empty, wakeup_fd := efd\<rparr>" by (simp add: EventLoop_new_def)
  then have init: "EventLoop_Init None efd EventLoop_new = (Inr (), l)"
    using l(1) assms(1) by (simp add: EventLoop_Init_def result_defs Let_def)
  define r where "r = Reactor_SetDdosConfig (ddos_of 1000 (rs_rate_limiter (sv_resilience ?cfg))) (Reactor_new w)"
  have "\<exists>ts. Server_Init os None efd w s =
      steps (map (register_protocol os) (sv_protocol_list ?cfg)) (s\<lparr>srv_reactor := Some (l, r), srv_tls := ts\<rparr>)"
  proof (cases "ssl_enabled (sv_ssl ?cfg)")
    case False
    then have "Server_Init os None efd w s =
        steps (map (register_protocol os) (sv_protocol_list ?cfg)) (s\<lparr>srv_reactor := Some (l, r), srv_tls := srv_tls s\<rparr>)"
      using assms(2) by (simp add: Server_Init_def init r_def Let_def)
    then show ?thesis ..
  next
    case True
    then obtain t where "TlsContext_Init os (ssl_cert_file (sv_ssl ?cfg)) (ssl_key_file (sv_ssl ?cfg)) TlsContext_new = (Inr (), t)"
      using assms(3) by (metis prod.collapse)
    with True assms(2) have "Server_Init os None efd w s =
        steps (map (register_protocol os) (sv_protocol_list ?cfg)) (s\<lparr>srv_reactor := Some (l, r), srv_tls := srv_tls s @ [t]\<rparr>)"
      by (simp add: Server_Init_def init r_def make_tls_def Let_def)
    then show ?thesis ..
  qed
  moreover have "callback_of l efd = Some Wakeup_Callback" "dom (loop_handlers l) = {efd}"
    using l(3,4) by (simp_all add: EventLoop_new_def)
  ultimately show ?thesis using l(2) by blast
qed

text \<open>
  C12. Starting a server serves what the configuration lists.  If every enabled entry has a known
  type, certificates that load and a port that can be bound, the loop can be made and the sockets are new, then
  \<open>Start\<close> returns true and each enabled entry of the list, in order, has its own socket, bound to the
  entry's port, listening for connections unless it is for datagrams, and registered with a callback that leads to
  a handler of the entry's type, set up with the application handler its mode asks for and, for stream
  protocols when the limiter is enabled, a token bucket of the configured rate and burst; disabled
  entries have none.
\<close>
theorem server_start_listens:
  fixes s :: "'w server"
  assumes "\<not> srv_running s" and "srv_handlers s = []" and "pcs = filter pc_enabled (sv_protocol_list (srv_config s))"
    and "pcs \<noteq> []" and "\<forall>pc \<in> set pcs. entry_ok os bound pc"
    and "ssl_enabled (sv_ssl (srv_config s)) \<longrightarrow> fst (TlsContext_Init os (ssl_cert_file (sv_ssl (srv_config s)))
           (ssl_key_file (sv_ssl (srv_config s))) TlsContext_new) = Inr ()"
    and "srv_sockets s = map (\<lambda>f. (Inr f, bound, 0)) fds" and "length fds = length pcs"
    and "distinct (efd # fds)" and "0 \<le> efd"
  defines "rl \<equiv> rs_rate_limiter (sv_resilience (srv_config s))"
  shows "\<exists>s' l r. Server_Start os None efd w s = (True, s') \<and> srv_running s' \<and> srv_reactor s' = Some (l, r) \<and>
    length (srv_handlers s') = length pcs \<and>
    (\<forall>i < length pcs. let pc = pcs ! i; f = fds ! i; h = srv_handlers s' ! i in
       rx_bound r f = Some (word_of_int (pc_port pc)) \<and>
       (if pc_type pc = ''udp'' then callback_of l f = Some (Callback (Udp_Cb i f))
        else f \<in> set (rx_listening r) \<and> callback_of l f = Some (Callback (Accept_Cb i f))) \<and>
       (pc_type pc, hd_kind h) \<in>
         {(''tcp'', Tcp_Handler), (''http'', Http_Handler), (''grpc'', Grpc_Handler), (''websocket'', Websocket_Handler),
          (''rpc'', Rpc_Handler), (''quic'', Quic_Handler), (''udp'', Udp_Handler)} \<and>
       hd_stream h = (srv_has_stream s \<and> pc_mode pc \<noteq> ''raw'') \<and> hd_raw h = (srv_has_raw s \<and> pc_mode pc = ''raw'') \<and>
       hd_bucket h =
         (if pc_type pc \<noteq> ''udp'' \<and> rl_enabled rl then Some (rl_requests_per_second rl, rl_burst_size rl) else None)) \<and>
    callback_of l efd = Some Wakeup_Callback"
proof -
  let ?cfg = "srv_config s"
  have pl: "sv_protocol_list ?cfg \<noteq> []" using assms(3,4) by auto
  obtain l r ts where I: "Server_Init os None efd w s =
      steps (map (register_protocol os) (sv_protocol_list ?cfg)) (s\<lparr>srv_reactor := Some (l, r), srv_tls := ts\<rparr>)"
    "loop_ok l" "callback_of l efd = Some Wakeup_Callback" "dom (loop_handlers l) = {efd}"
    using Init_protocols[OF assms(10) pl assms(6)] by blast
  let ?s = "s\<lparr>srv_reactor := Some (l, r), srv_tls := ts\<rparr>"
  have "\<forall>f \<in> set fds. loop_handlers l f = None" using I(4) assms(9) by (auto simp: domIff[symmetric])
  then obtain l' r' s' hs where 2: "steps (map (register_protocol os) (sv_protocol_list ?cfg)) ?s = (None, s')"
    "srv_reactor s' = Some (l', r')" "srv_handlers s' = srv_handlers ?s @ hs" "length hs = length fds"
    "\<forall>i < length fds. entry_served ?s (pcs ! i) (fds ! i) (length (srv_handlers ?s) + i) (hs ! i) (l', r')"
    "\<forall>g. g \<notin> set fds \<longrightarrow> callback_of l' g = callback_of l g \<and> rx_bound r' g = rx_bound r g"
    using register_all_ok[of "sv_protocol_list ?cfg" os bound ?s l r fds "[]"] assms(3,5,7,8,9) I(2) by auto
  have served: "entry_served s (pcs ! i) (fds ! i) i (srv_handlers s' ! i) (l', r')" if "i < length pcs" for i
    using 2(3,5) that assms(2,8) by (auto simp: entry_served_def set_up_for_def)
  let ?s' = "s'\<lparr>srv_running := True, srv_thread := True\<rparr>"
  have "Server_Start os None efd w s = (True, ?s')" using I(1) 2(1) assms(1) by (simp add: Server_Start_def)
  moreover have "callback_of l' efd = Some Wakeup_Callback" using 2(6) I(3) assms(9) by simp
  ultimately show ?thesis
    using 2(2,3,4) assms(2,8) served
    by (intro exI[of _ ?s'] exI[of _ l'] exI[of _ r'])
       (auto simp: entry_served_def set_up_for_def protocol_types_def rl_def Let_def)
qed

definition sample_server :: "unit server" where
  "sample_server =
     (Server_new (ServerConfig_default\<lparr>sv_protocol_list :=
        [ProtocolConfig_default\<lparr>pc_type := ''rpc'', pc_port := 9000\<rparr>, ProtocolConfig_default\<lparr>pc_type := ''http'', pc_enabled := False\<rparr>,
         ProtocolConfig_default\<lparr>pc_type := ''udp'', pc_port := 9001\<rparr>]\<rparr>))
       \<lparr>srv_sockets := map (\<lambda>f. (Inr f, \<lambda>_. 0, 0)) [4, 5]\<rparr>"

lemmas sample_defs = sample_server_def Server_new_def ServerConfig_default_def ProtocolConfig_default_def SslConfig_default_def

lemma server_start_listens_witness:
  "\<exists>s' l r. Server_Start one_pair None 3 () sample_server = (True, s') \<and> srv_reactor s' = Some (l, r) \<and>
     callback_of l 4 = Some (Callback (Accept_Cb 0 4)) \<and> callback_of l 5 = Some (Callback (Udp_Cb 1 5)) \<and>
     rx_bound r 4 = Some 9000 \<and> rx_bound r 5 = Some 9001 \<and> hd_kind (srv_handlers s' ! 0) = Rpc_Handler"
proof -
  let ?pcs = "[ProtocolConfig_default\<lparr>pc_type := ''rpc'', pc_port := 9000\<rparr>, ProtocolConfig_default\<lparr>pc_type := ''udp'', pc_port := 9001\<rparr>]"
  have "?pcs = filter pc_enabled (sv_protocol_list (srv_config sample_server))" by (simp add: sample_defs)
  moreover have "\<forall>pc \<in> set ?pcs. entry_ok one_pair (\<lambda>_. 0) pc"
    by (simp add: entry_ok_def protocol_types_def sample_defs)
  ultimately show ?thesis
    using server_start_listens[of sample_server ?pcs one_pair "\<lambda>_. 0" "[4, 5]" 3 "()"]
    by (auto simp: sample_defs less_Suc_eq Let_def)
qed

text \<open>What a registration does to the reactor's TLS context.\<close>

lemma RegisterServer_tls: "Reactor_RegisterServer hid port tls sock bound listening q = (res, q') \<Longrightarrow> rx_tls (snd q') = tls \<and> rx_ddos (snd q') = rx_ddos (snd q)"
  by (auto simp: Reactor_RegisterServer_def close_socket_def Let_def split: prod.splits sum.splits)

lemma RegisterUdpServer_tls: "Reactor_RegisterUdpServer hid port sock bound q = (res, q') \<Longrightarrow>
     rx_tls (snd q') = rx_tls (snd q) \<and> rx_ddos (snd q') = rx_ddos (snd q)"
  by (auto simp: Reactor_RegisterUdpServer_def close_socket_def Let_def split: prod.splits sum.splits)

lemma register_stream_tls:
  assumes "register_stream prefix port h tls s = (None, s')" and "srv_reactor s = Some q"
  shows "\<exists>q'. srv_reactor s' = Some q' \<and> rx_ddos (snd q') = rx_ddos (snd q) \<and> rx_tls (snd q') = tls"
  using assms by (auto simp: register_stream_def throw_msg_def Let_def dest: RegisterServer_tls split: prod.splits sum.splits)

lemma register_udp_tls:
  assumes "register_udp prefix port h s = (None, s')" and "srv_reactor s = Some q"
  shows "\<exists>q'. srv_reactor s' = Some q' \<and> rx_ddos (snd q') = rx_ddos (snd q) \<and> rx_tls (snd q') = rx_tls (snd q)"
  using assms by (auto simp: register_udp_def throw_msg_def Let_def dest: RegisterUdpServer_tls split: prod.splits sum.splits)

lemma listen_protocol_tls:
  assumes "listen_protocol pc tls s = (None, s')" and "srv_reactor s = Some q"
  shows "\<exists>q'. srv_reactor s' = Some q' \<and> rx_ddos (snd q') = rx_ddos (snd q) \<and> rx_tls (snd q') = (if pc_type pc = ''udp'' then rx_tls (snd q) else tls)"
  using assms
  by (auto simp: listen_protocol_def dest: register_udp_tls register_stream_tls split: if_splits sum.splits)

lemma register_protocol_tls:
  assumes "register_protocol os pc s = (None, s')" and "srv_reactor s = Some q"
  shows "\<exists>q'. srv_reactor s' = Some q' \<and> rx_ddos (snd q') = rx_ddos (snd q) \<and>
    (\<not> pc_enabled pc \<or> pc_type pc = ''udp'' \<longrightarrow> rx_tls (snd q') = rx_tls (snd q)) \<and>
    (pc_enabled pc \<and> pc_type pc \<noteq> ''udp'' \<and> \<not> ssl_enabled (pc_ssl pc) \<longrightarrow> rx_tls (snd q') = None)"
proof (cases "pc_enabled pc")
  case False
  with assms show ?thesis by (simp add: register_protocol_def)
next
  case True
  then obtain tls s1 where "listen_protocol pc tls s1 = (None, s')" "srv_reactor s1 = Some q"
    "\<not> ssl_enabled (pc_ssl pc) \<longrightarrow> tls = None"
    using assms by (auto simp: register_protocol_def make_tls_def throw_msg_def split: if_splits prod.splits sum.splits)
  from listen_protocol_tls[OF this(1,2)] this(3) True show ?thesis by auto
qed

lemma register_all_tls:
  assumes "steps (map (register_protocol os) pcs) s = (None, s')" and "srv_reactor s = Some q"
  shows "\<exists>q'. srv_reactor s' = Some q' \<and> rx_ddos (snd q') = rx_ddos (snd q) \<and>
    ((\<forall>p \<in> set pcs. \<not> pc_enabled p \<or> pc_type p = ''udp'') \<longrightarrow> rx_tls (snd q') = rx_tls (snd q))"
  using assms
proof (induction pcs arbitrary: s q)
  case Nil
  then show ?case by simp
next
  case (Cons pc pcs)
  obtain s1 where s1: "register_protocol os pc s = (None, s1)" "steps (map (register_protocol os) pcs) s1 = (None, s')"
    using Cons.prems(1) by (auto split: prod.splits option.splits)
  from register_protocol_tls[OF s1(1) Cons.prems(2)] obtain q1 where q1: "srv_reactor s1 = Some q1"
    "rx_ddos (snd q1) = rx_ddos (snd q)" "\<not> pc_enabled pc \<or> pc_type pc = ''udp'' \<longrightarrow> rx_tls (snd q1) = rx_tls (snd q)" by blast
  from Cons.IH[OF s1(2) q1(1)] q1(2,3) show ?case by auto
qed

text \<open>
  One TLS setting for all ports: after a start, sockets accepted on any port are plain whenever
  the last enabled stream protocol of the list has no TLS, although earlier entries (and the server's
  own \<open>ssl\<close> block) ask for it; the accept callbacks read the context that was registered last.
\<close>
theorem server_last_protocol_decides_tls:
  assumes "Server_Start os poller_error efd w s = (True, s')" and "\<not> srv_running s"
    and "sv_protocol_list (srv_config s) = before @ pc # after"
    and "pc_enabled pc" and "pc_type pc \<noteq> ''udp''" and "\<not> ssl_enabled (pc_ssl pc)"
    and "\<forall>p \<in> set after. \<not> pc_enabled p \<or> pc_type p = ''udp''"
  shows "\<exists>l r. srv_reactor s' = Some (l, r) \<and> rx_tls r = None \<and>
    (\<forall>ps hid i r'. admit (in_ip i) r = (True, r') \<and> on_connection ps hid = (\<lambda>x. x) \<longrightarrow>
       (\<exists>c. rx_objects (snd (accept_one ps hid i (l, r))) (rx_next r') = Some c \<and> \<not> ssl c))"
proof -
  obtain s0 s'' where I: "Server_Init os poller_error efd w s = (None, s'')" and s'': "srv_reactor s' = srv_reactor s''"
    using assms(1,2) by (auto simp: Server_Start_def split: prod.splits option.splits)
  from I obtain s1 q where r: "steps (map (register_protocol os) (before @ pc # after)) s1 = (None, s'')" "srv_reactor s1 = Some q"
    using assms(3)
    by (auto simp: Server_Init_def make_tls_def throw_msg_def Let_def split: prod.splits sum.splits if_splits)
  then obtain s2 s3 where 2: "steps (map (register_protocol os) before) s1 = (None, s2)" "register_protocol os pc s2 = (None, s3)"
    "steps (map (register_protocol os) after) s3 = (None, s'')"
    by (auto simp: steps_append split: prod.splits option.splits)
  obtain q2 where q2: "srv_reactor s2 = Some q2" using register_all_tls[OF 2(1) r(2)] by blast
  obtain q3 where q3: "srv_reactor s3 = Some q3" "rx_tls (snd q3) = None"
    using register_protocol_tls[OF 2(2) q2] assms(4-6) by blast
  obtain l r where q4: "srv_reactor s'' = Some (l, r)" "rx_tls r = None"
    using register_all_tls[OF 2(3) q3(1)] assms(7) q3(2) by (metis prod.collapse)
  then show ?thesis using s'' accept_plain[of "(l, r)"] by fastforce
qed

definition tls_server :: "unit server" where
  "tls_server =
     (Server_new (ServerConfig_default\<lparr>sv_protocol_list :=
        [ProtocolConfig_default\<lparr>pc_type := ''rpc'',
           pc_ssl := SslConfig_default\<lparr>ssl_enabled := True, ssl_cert_file := ''a.pem'', ssl_key_file := ''a.key''\<rparr>\<rparr>,
         ProtocolConfig_default\<lparr>pc_type := ''http''\<rparr>]\<rparr>))
       \<lparr>srv_sockets := map (\<lambda>f. (Inr f, \<lambda>_. 0, 0)) [4, 5]\<rparr>"

lemma tls_server_starts: "\<exists>s'. Server_Start one_pair None 3 () tls_server = (True, s')"
proof -
  let ?pcs = "sv_protocol_list (srv_config tls_server)"
  have p: "?pcs \<noteq> []" "\<not> ssl_enabled (sv_ssl (srv_config tls_server))" by (simp_all add: tls_server_def sample_defs)
  from Init_protocols[of 3 tls_server one_pair "()"] p obtain l r ts where I: "Server_Init one_pair None 3 () tls_server =
      steps (map (register_protocol one_pair) ?pcs) (tls_server\<lparr>srv_reactor := Some (l, r), srv_tls := ts\<rparr>)"
    "loop_ok l" "dom (loop_handlers l) = {3}" by auto
  have "\<forall>pc \<in> set ?pcs. entry_ok one_pair (\<lambda>_. 0) pc"
    by (simp add: tls_server_def sample_defs entry_ok_def protocol_types_def tls_defs one_pair_def
        TlsContext_new_def load_pair_def Let_def)
  moreover have "\<forall>f \<in> set [4, 5]. loop_handlers l f = None"
    using I(3) domIff[of 4 "loop_handlers l"] domIff[of 5 "loop_handlers l"] by simp
  ultimately obtain s' where "Server_Init one_pair None 3 () tls_server = (None, s')"
    using register_all_ok[of ?pcs one_pair "\<lambda>_. 0" "tls_server\<lparr>srv_reactor := Some (l, r), srv_tls := ts\<rparr>" l r "[4, 5]" "[]"] I(1,2)
    by (auto simp: tls_server_def sample_defs)
  then show ?thesis by (simp add: Server_Start_def tls_server_def sample_defs)
qed

lemma server_last_protocol_decides_tls_witness:
  "\<exists>s' l r. Server_Start one_pair None 3 () tls_server = (True, s') \<and> srv_reactor s' = Some (l, r) \<and> rx_tls r = None"
proof -
  obtain s' where "Server_Start one_pair None 3 () tls_server = (True, s')" using tls_server_starts by blast
  from server_last_protocol_decides_tls[OF this, of "[hd (sv_protocol_list (srv_config tls_server))]"
      "ProtocolConfig_default\<lparr>pc_type := ''http''\<rparr>" "[]"] this
  show ?thesis by (auto simp: tls_server_def sample_defs)
qed

text \<open>
  The limits of a started server and of a reloaded one: a started server admits 1000
  connections of an address; after \<open>ReloadConfig\<close>, even with the configuration it started with, it admits 100
  more of every address, whatever it had admitted before: the limit of \<open>Init\<close> is forgotten and the counts
  start again.
\<close>
theorem server_reload_resets_limits:
  assumes "Server_Start os poller_error efd w s = (True, s')" and "\<not> srv_running s"
    and "sv_protocol_list (srv_config s) \<noteq> []"
  shows "\<exists>l r d. srv_reactor s' = Some (l, r) \<and> rx_ddos r = Some d \<and>
      int (count_list (admit_run d ips) (ip, True)) = min (int (count_list ips ip)) 1000 \<and>
    (\<forall>r2. \<exists>r' d'. srv_reactor (Server_ReloadConfig os (srv_config s) (s'\<lparr>srv_reactor := Some (l, r2)\<rparr>)) = Some (l, r') \<and>
      rx_ddos r' = Some d' \<and> int (count_list (admit_run d' ips) (ip, True)) = min (int (count_list ips ip)) 100)"
proof -
  obtain s'' where I: "Server_Init os poller_error efd w s = (None, s'')" and s'': "srv_reactor s' = srv_reactor s''"
    using assms(1,2) by (auto simp: Server_Start_def split: prod.splits option.splits)
  let ?ddos = "DdosProtection_new (ddos_of 1000 (rs_rate_limiter (sv_resilience (srv_config s))))"
  from I obtain s1 q where r: "steps (map (register_protocol os) (sv_protocol_list (srv_config s))) s1 = (None, s'')"
    "srv_reactor s1 = Some q" "rx_ddos (snd q) = Some ?ddos"
    using assms(3)
    by (auto simp: Server_Init_def make_tls_def throw_msg_def Reactor_SetDdosConfig_def Let_def
        split: prod.splits sum.splits if_splits)
  then obtain l r where q': "srv_reactor s'' = Some (l, r)" "rx_ddos r = Some ?ddos"
    using register_all_tls[OF r(1,2)] by (metis prod.collapse)
  have count: "int (count_list (admit_run (DdosProtection_new cfg) ips) (ip, True)) =
      min (int (count_list ips ip)) (max 0 (max_conn_per_ip cfg))" for cfg
    using conn_run_count[of "DdosProtection_new cfg" ips ip] by (simp add: DdosProtection_new_def conn_count_def)
  have "\<exists>r' cfg. srv_reactor (Server_ReloadConfig os (srv_config s) (s'\<lparr>srv_reactor := Some (l, r2)\<rparr>)) = Some (l, r') \<and>
      rx_ddos r' = Some (DdosProtection_new cfg) \<and> max_conn_per_ip cfg = 100" for r2
    by (auto simp: Server_ReloadConfig_def Reactor_SetDdosConfig_def ddos_config_default_def Let_def split: option.splits)
  then show ?thesis
    using q' s'' count[of "ddos_of 1000 (rs_rate_limiter (sv_resilience (srv_config s)))"] count
    by (auto simp: ddos_of_def Let_def) (metis max_def zero_le_numeral)+
qed

lemma server_reload_resets_limits_witness:
  "\<exists>s' l r d. Server_Start one_pair None 3 () tls_server = (True, s') \<and> srv_reactor s' = Some (l, r) \<and> rx_ddos r = Some d \<and>
     count_list (admit_run d [''10.0.0.1'', ''10.0.0.1'']) (''10.0.0.1'', True) = 2"
proof -
  obtain s' where "Server_Start one_pair None 3 () tls_server = (True, s')" using tls_server_starts by blast
  from server_reload_resets_limits[OF this, of "[''10.0.0.1'', ''10.0.0.1'']" "''10.0.0.1''"] this
  show ?thesis by (auto simp: tls_server_def sample_defs)
qed

end
