(* ===== verification/Client.thy ===== *)
theory Client
  imports Server Grpc Websocket Http Rpc Tcp
begin

text \<open>
  \<open>core::Client\<close> and \<open>NetworkLib\<close>.  A client has one connection, its own event loop on a second
  thread, and a protocol object chosen by the mode.  What the caller's thread asks of the connection
  goes through the loop's queue; \<open>Connect\<close> waits until the connect callback has set its promise, which
  the loop thread's events decide.  The results of the socket calls, of OpenSSL and the events are
  scripts and arguments; the debug log the source writes is left out.
\<close>

section \<open>The protocol objects\<close>

text \<open>
  \<open>IClientProtocol\<close>, by kind: what connecting sends, and \<open>Send\<close>, which threads the counter of the RPC
  client through.
\<close>

fun protocol_OnConnect :: "client_kind \<Rightarrow> connection \<Rightarrow> connection" where
  "protocol_OnConnect Websocket_Client c = WsClient_OnConnect c"
| "protocol_OnConnect Grpc_Client c = GrpcClient_OnConnect c"
| "protocol_OnConnect _ c = c"

record client_env =
  ce_pb :: proto
  ce_entries :: "(string \<rightharpoonup> string) \<Rightarrow> (string \<times> string) list"

fun protocol_Send :: "client_env \<Rightarrow> client_kind \<Rightarrow> envelope \<Rightarrow> uint64 \<times> connection \<Rightarrow> uint64 \<times> connection" where
  "protocol_Send env Tcp_Client e (n, c) = (n, TcpClient_Send (ce_pb env) e c)"
| "protocol_Send env Http_Client e (n, c) = (n, HttpClient_Send (ce_entries env) e c)"
| "protocol_Send env Grpc_Client e (n, c) = (n, GrpcClient_Send (ce_pb env) e c)"
| "protocol_Send env Websocket_Client e (n, c) = (n, WsClient_Send e c)"
| "protocol_Send env Rpc_Client e (n, c) = RpcClient_Send (ce_pb env) e (n, c)"
| "protocol_Send env Quic_Client e (n, c) = (n, QuicClient_Send (ce_pb env) e c)"

section \<open>State\<close>

datatype client_cb = Conn_Cb

record client =
  cn_config :: ClientConfig
  cn_loop :: "(client_cb, bytes) event_loop"
  cn_conn :: connection
  cn_protocol :: "client_kind option"
  cn_rpc_id :: uint64
  cn_tls :: "TlsContext option"
  cn_thread :: bool

text \<open>The constructor: a failure of the loop is only logged.\<close>

definition Client_new :: "ClientConfig \<Rightarrow> string option \<Rightarrow> int \<Rightarrow> int \<Rightarrow> buffer \<Rightarrow> buffer \<Rightarrow> client" where
  "Client_new cfg poller_error efd sock ib ob =
     \<lparr>cn_config = cfg, cn_loop = snd (EventLoop_Init poller_error efd EventLoop_new), cn_conn = Connection_new sock ib ob,
      cn_protocol = None, cn_rpc_id = 1, cn_tls = None, cn_thread = False\<rparr>"

definition client_socket_type :: "ClientConfig \<Rightarrow> string" where
  "client_socket_type cfg = (if cl_mode cfg = ''udp'' \<or> cl_mode cfg = ''quic'' then ''SOCK_DGRAM'' else ''SOCK_STREAM'')"

text \<open>What an operation of the connection asks of the loop.\<close>

fun client_act :: "act \<Rightarrow> (client_cb, bytes) event_loop \<Rightarrow> (client_cb, bytes) event_loop" where
  "client_act (Loop_Queue d) l = EventLoop_QueueInLoop d l"
| "client_act (Loop_Modify f m) l = snd (EventLoop_ModifyFd f m l)"
| "client_act (Loop_Remove f) l = EventLoop_RemoveFd f l"
| "client_act _ l = l"

text \<open>An operation of the connection, on the loop's thread or on the caller's.\<close>

definition conn_call :: "bool \<Rightarrow> (uint64 \<times> connection \<Rightarrow> uint64 \<times> connection) \<Rightarrow> client \<Rightarrow> client" where
  "conn_call on_loop g cn =
     (let c0 = (cn_conn cn)\<lparr>in_loop_thread := on_loop\<rparr>;
          (n, c1) = g (cn_rpc_id cn, c0)
      in cn\<lparr>cn_rpc_id := n, cn_conn := c1\<lparr>in_loop_thread := True\<rparr>,
            cn_loop := fold client_act (drop (length (trace c0)) (trace c1)) (cn_loop cn)\<rparr>)"

definition on_conn :: "(connection \<Rightarrow> connection) \<Rightarrow> uint64 \<times> connection \<Rightarrow> uint64 \<times> connection" where
  "on_conn g nc = (fst nc, g (snd nc))"

section \<open>Sending\<close>

definition Client_Send_raw :: "bytes \<Rightarrow> client \<Rightarrow> bool \<times> client" where
  "Client_Send_raw data cn =
     (if \<not> Connection_IsConnected (cn_conn cn) then (False, cn)
      else (True, conn_call False (on_conn (Connection_Send data)) cn))"

definition Client_Send :: "client_env \<Rightarrow> envelope \<Rightarrow> client \<Rightarrow> bool \<times> client" where
  "Client_Send env e cn =
     (if \<not> Connection_IsConnected (cn_conn cn) then (False, cn)
      else
        (case cn_protocol cn of
           None \<Rightarrow> (False, cn)
         | Some k \<Rightarrow> (True, conn_call False (protocol_Send env k e) cn)))"

text \<open>The loop's wakeup callback, which runs the queued sends.\<close>

definition client_task :: "bytes \<Rightarrow> (client_cb, bytes, client) program \<Rightarrow> (client_cb, bytes, client) program" where
  "client_task data q =
     (let cn = conn_call True (on_conn (Connection_Send data)) ((snd q)\<lparr>cn_loop := fst q\<rparr>) in (cn_loop cn, cn))"

definition Client_run_tasks :: "client \<Rightarrow> client" where
  "Client_run_tasks cn =
     (case EventLoop_HandleRead client_task (cn_loop cn, cn) of (l, cn') \<Rightarrow> cn'\<lparr>cn_loop := l\<rparr>)"

section \<open>Connecting\<close>

text \<open>
  What happens on the loop's thread: the wakeup, or an event of the connection with what
  \<open>getsockopt\<close> and the reads return.  \<open>cb\<close> is what the message callback does to the connection.
\<close>

datatype loop_event = Wakeup | Conn_Event uint32 bool "read_result list" "read_result list"

definition client_callback ::
    "(connection \<Rightarrow> connection) option \<Rightarrow> uint32 \<Rightarrow> bool \<Rightarrow> read_result list \<Rightarrow> read_result list \<Rightarrow> client \<Rightarrow> client" where
  "client_callback cb events so_error rds wrds cn =
     (let cn1 = (if events AND EPOLLIN \<noteq> 0 then conn_call True (on_conn (Connection_HandleRead cb rds)) cn else cn);
          cn2 = (if events AND EPOLLOUT \<noteq> 0 then conn_call True (on_conn (Connection_HandleWrite so_error cb wrds)) cn1 else cn1)
      in if events AND (EPOLLERR OR EPOLLHUP) \<noteq> 0 then conn_call True (on_conn Connection_HandleError) cn2 else cn2)"

fun client_step :: "(connection \<Rightarrow> connection) option \<Rightarrow> loop_event \<Rightarrow> client \<Rightarrow> client" where
  "client_step cb Wakeup cn = Client_run_tasks cn"
| "client_step cb (Conn_Event m so_error rds wrds) cn = client_callback cb m so_error rds wrds cn"

text \<open>The promise: the value of the first call of the connect callback, if there has been one.\<close>

definition promised :: "connection \<Rightarrow> bool option" where
  "promised c = (case filter is_connect (trace c) of Cb_Connect b # _ \<Rightarrow> Some b | _ \<Rightarrow> None)"

text \<open>\<open>future.get()\<close>: \<open>None\<close> when the events end before the promise is set, and the call still waits.\<close>

fun await :: "(connection \<Rightarrow> connection) option \<Rightarrow> loop_event list \<Rightarrow> client \<Rightarrow> bool option \<times> client" where
  "await cb evs cn =
     (case promised (cn_conn cn) of
        Some b \<Rightarrow> (Some b, cn)
      | None \<Rightarrow> (case evs of [] \<Rightarrow> (None, cn) | ev # evs' \<Rightarrow> await cb evs' (client_step cb ev cn)))"

text \<open>The part of \<open>Connect\<close> that makes the protocol object and lets it send its handshake.\<close>

definition start_protocol :: "client \<Rightarrow> client" where
  "start_protocol cn =
     (let k = ClientProtocolFactory_Create (cl_mode (cn_config cn))
      in conn_call False (on_conn (protocol_OnConnect k)) (cn\<lparr>cn_protocol := Some k\<rparr>))"

text \<open>The TLS part: the handshake is started at once, before the socket is connected.\<close>

definition start_tls :: "openssl \<Rightarrow> (connection \<Rightarrow> connection) option \<Rightarrow> read_result list \<Rightarrow> client \<Rightarrow> bool \<times> client" where
  "start_tls os cb rds cn =
     (let s = cl_ssl (cn_config cn)
      in if ssl_enabled s then
           (case TlsContext_Init_mode os kClient (ssl_cert_file s) (ssl_key_file s) TlsContext_new of
              (Inl _, t) \<Rightarrow> (False, cn\<lparr>cn_tls := Some t\<rparr>)
            | (Inr _, t) \<Rightarrow> (True, conn_call False (on_conn (Connection_SetSsl cb rds)) (cn\<lparr>cn_tls := Some t\<rparr>)))
         else (True, cn))"

text \<open>
  \<open>Connect\<close>: \<open>valid\<close> is \<open>inet_pton\<close>'s verdict on the host, \<open>res f\<close> what \<open>connect\<close> on descriptor \<open>f\<close> returns.
\<close>

definition Client_Connect ::
    "openssl \<Rightarrow> bool \<Rightarrow> (int \<Rightarrow> connect_result) \<Rightarrow> (connection \<Rightarrow> connection) option \<Rightarrow> read_result list \<Rightarrow> loop_event list \<Rightarrow>
       client \<Rightarrow> bool option \<times> client" where
  "Client_Connect os valid res cb rds evs cn =
     (let cn1 = start_protocol (cn\<lparr>cn_conn := (cn_conn cn)\<lparr>has_connect_cb := True\<rparr>, cn_thread := True\<rparr>)
      in case start_tls os cb rds cn1 of
           (False, cn2) \<Rightarrow> (Some False, cn2)
         | (True, cn2) \<Rightarrow>
             (let cn3 = cn2\<lparr>cn_loop := snd (EventLoop_AddFd (fd (cn_conn cn2)) (EPOLLIN OR EPOLLOUT)
                                (Some (Callback Conn_Cb)) (cn_loop cn2))\<rparr>
              in case Connection_Connect valid (res (fd (cn_conn cn3))) (cn_conn cn3) of
                   (Inl _, c) \<Rightarrow> (Some False, cn3\<lparr>cn_conn := c\<rparr>)
                 | (Inr _, c) \<Rightarrow> await cb evs (cn3\<lparr>cn_conn := c\<rparr>)))"

definition Client_Disconnect :: "client \<Rightarrow> client" where
  "Client_Disconnect cn =
     (let cn1 = conn_call False (on_conn Connection_ForceClose) cn
      in cn1\<lparr>cn_loop := EventLoop_Stop (cn_loop cn1), cn_thread := False\<rparr>)"

text \<open>The message callback: raw mode hands over everything there is, else the protocol reads.\<close>

definition Client_on_message ::
    "ClientConfig \<Rightarrow> ('s \<Rightarrow> bytes \<Rightarrow> 's) option \<Rightarrow> ('s session \<Rightarrow> 's session) option \<Rightarrow> 's session \<Rightarrow> 's session" where
  "Client_on_message cfg raw protocol st =
     (case raw of
        Some f \<Rightarrow>
          if cl_mode cfg = ''raw'' then
            (if 0 < Buffer_ReadableBytes (in_buf st) then
               (let data = take (Buffer_ReadableBytes (in_buf st)) (Buffer_Peek (in_buf st));
                    st1 = map_input Buffer_RetrieveAll st
                in st1\<lparr>app := f (app st1) data\<rparr>)
             else st)
          else (case protocol of Some p \<Rightarrow> p st | None \<Rightarrow> st)
      | None \<Rightarrow> (case protocol of Some p \<Rightarrow> p st | None \<Rightarrow> st))"

section \<open>NetworkLib\<close>

definition NetworkLib_CreateServer :: "'n yaml \<Rightarrow> exn + 'n \<Rightarrow> exn + (string option \<times> 'w server)" where
  "NetworkLib_CreateServer y file =
     (case ConfigParser_Parse y file of
        Inl e \<Rightarrow> Inl e
      | Inr c \<Rightarrow>
          Inr (if lg_level (ob_logging (sv_observability c)) \<noteq> []
               then Some (ConfigParser_GenerateLoggerConfig (ob_logging (sv_observability c))) else None,
               Server_new c))"

definition NetworkLib_CreateClient :: "'n yaml \<Rightarrow> exn + 'n \<Rightarrow> string option \<Rightarrow> int \<Rightarrow> int \<Rightarrow> buffer \<Rightarrow> buffer \<Rightarrow> client" where
  "NetworkLib_CreateClient y file poller_error efd sock ib ob =
     Client_new (ConfigParser_ParseClient y file) poller_error efd sock ib ob"

section \<open>The caller's thread\<close>

text \<open>Off the loop's thread a send is a queued task, and a protocol's \<open>Send\<close> is a list of sends.\<close>

fun handshake_sends :: "client_kind \<Rightarrow> bytes list" where
  "handshake_sends Websocket_Client = [ws_upgrade_request]"
| "handshake_sends Grpc_Client = [kClientPreface, h2_settings 0]"
| "handshake_sends _ = []"

definition grpc_sends :: "proto \<Rightarrow> envelope \<Rightarrow> bytes list" where
  "grpc_sends pb e =
     (let block = HpackEncoder_Encode (GrpcClient_headers e); grpc = GrpcCodec_Encode (pb_serialize pb e) False
      in [client_frame_header (length block) 1 0x4, map chr8 block, client_frame_header (length grpc) 0 0x1, grpc])"

fun protocol_sends :: "client_env \<Rightarrow> client_kind \<Rightarrow> uint64 \<Rightarrow> envelope \<Rightarrow> uint64 \<times> bytes list" where
  "protocol_sends env Tcp_Client n e = (n, [length_frame (pb_serialize (ce_pb env) e)])"
| "protocol_sends env Http_Client n e = (n, [http_request (ce_entries env) e])"
| "protocol_sends env Grpc_Client n e = (n, grpc_sends (ce_pb env) e)"
| "protocol_sends env Websocket_Client n e = (n, [ws_client_frame (get_data e)])"
| "protocol_sends env Rpc_Client n e =
     (case Rpc_stamp n e of (msg, n') \<Rightarrow> (n', [length_frame (pb_serialize (ce_pb env) msg)]))"
| "protocol_sends env Quic_Client n e = (n, [quic_packet (pb_serialize (ce_pb env) e)])"

lemma protocol_OnConnect_sends: "protocol_OnConnect k c = fold Connection_Send (handshake_sends k) c"
  by (cases k) (simp_all add: WsClient_OnConnect_def GrpcClient_OnConnect_def)

lemma protocol_Send_sends:
  "protocol_Send env k e (n, c) =
     (fst (protocol_sends env k n e), fold Connection_Send (snd (protocol_sends env k n e)) c)"
  by (cases k)
     (simp_all add: TcpClient_Send_def HttpClient_Send_def GrpcClient_Send_def WsClient_Send_def RpcClient_Send_def
       QuicClient_Send_def grpc_sends_def Let_def split: prod.splits)

lemma queued_sends:
  "fold Connection_Send ds (c\<lparr>in_loop_thread := False\<rparr>) =
     c\<lparr>in_loop_thread := False, trace := trace c @ map Loop_Queue ds\<rparr>"
proof (induction ds arbitrary: c)
  case Nil
  then show ?case by simp
next
  case (Cons d ds)
  have "Connection_Send d (c\<lparr>in_loop_thread := False\<rparr>) = c\<lparr>trace := trace c @ [Loop_Queue d], in_loop_thread := False\<rparr>"
    by (simp add: Connection_Send_def emit_def)
  with Cons.IH[of "c\<lparr>trace := trace c @ [Loop_Queue d]\<rparr>"] show ?case by simp
qed

lemma conn_call_sends:
  assumes "\<And>n c. g (n, c) = (f n, fold Connection_Send (ds n) c)"
  shows "conn_call False g cn =
    cn\<lparr>cn_rpc_id := f (cn_rpc_id cn),
      cn_conn := (cn_conn cn)\<lparr>in_loop_thread := True, trace := trace (cn_conn cn) @ map Loop_Queue (ds (cn_rpc_id cn))\<rparr>,
      cn_loop := fold EventLoop_QueueInLoop (ds (cn_rpc_id cn)) (cn_loop cn)\<rparr>"
proof -
  have "(\<lambda>d. client_act (Loop_Queue d)) = EventLoop_QueueInLoop" by (rule ext)+ simp
  then show ?thesis by (simp add: conn_call_def assms queued_sends fold_map comp_def)
qed

lemma pending_queued: "pending_tasks (fold EventLoop_QueueInLoop ds l) = pending_tasks l @ ds"
  by (induction ds arbitrary: l) (simp_all add: EventLoop_QueueInLoop_def EventLoop_WakeUp_def)

lemma start_protocol_eq:
  "start_protocol cn =
     (let k = ClientProtocolFactory_Create (cl_mode (cn_config cn))
      in cn\<lparr>cn_protocol := Some k,
            cn_conn := (cn_conn cn)\<lparr>in_loop_thread := True, trace := trace (cn_conn cn) @ map Loop_Queue (handshake_sends k)\<rparr>,
            cn_loop := fold EventLoop_QueueInLoop (handshake_sends k) (cn_loop cn)\<rparr>)"
  unfolding start_protocol_def Let_def
  by (subst conn_call_sends[where f = "\<lambda>n. n" and ds = "\<lambda>_. handshake_sends (ClientProtocolFactory_Create (cl_mode (cn_config cn)))"])
     (simp_all add: on_conn_def protocol_OnConnect_sends)

section \<open>The outcome of Connect\<close>

lemma promised_simps [simp]:
  "filter is_connect (map Loop_Queue ds) = []"
  "promised (c\<lparr>in_loop_thread := b\<rparr>) = promised c" "promised (c\<lparr>conn_state := st\<rparr>) = promised c"
  by (induction ds) (simp_all add: promised_def)

lemma no_connect_promised: "filter is_connect (trace c) = [] \<Longrightarrow> promised c = None"
  by (simp add: promised_def)

lemma await_set: "filter is_connect (trace (cn_conn cn)) = [Cb_Connect b] \<Longrightarrow> fst (await cb evs cn) = Some b"
  by (cases evs) (simp_all add: promised_def)

lemma await_pending:
  "promised (cn_conn cn) = None \<Longrightarrow> await cb [] cn = (None, cn)"
  "promised (cn_conn cn) = None \<Longrightarrow> await cb (ev # evs) cn = await cb evs (client_step cb ev cn)"
  by simp_all

declare await.simps [simp del]

text \<open>An error event of a pending attempt reports failure.\<close>

lemma error_reports:
  assumes "conn_state c = kConnecting" and "has_connect_cb c" and "filter is_connect (trace c) = []"
  shows "reported [Cb_Connect False] (Connection_HandleError c)"
  using assms by (simp add: reported_def Connection_HandleError_def Connection_HandleClose_def emit_def Let_def)

lemma conn_call_conn: "cn_conn (conn_call True (on_conn g) cn) = (g ((cn_conn cn)\<lparr>in_loop_thread := True\<rparr>))\<lparr>in_loop_thread := True\<rparr>"
  by (simp add: conn_call_def on_conn_def Let_def)

lemma reported_thread [simp]: "reported marks (c\<lparr>in_loop_thread := b\<rparr>) = reported marks c"
  by (simp add: reported_def)

text \<open>
  What the reads of one \<open>HandleRead\<close> say of a pending attempt, and what a sequence of events says: the
  wakeups say nothing, a failed read or an error event means failure, a writable socket means what
  \<open>SO_ERROR\<close> says.  A read that finds the end of file closes the connection without a report, and then
  nothing reports any more.
\<close>

datatype attempt = Pending | Failed | Lost

fun reads_say :: "read_result list \<Rightarrow> attempt" where
  "reads_say [] = Pending"
| "reads_say (Rd d # rs) = (if d = [] then Lost else reads_say rs)"
| "reads_say (Rd_Fail e # rs) = (if e = EAGAIN \<or> e = EWOULDBLOCK then Pending else Failed)"

fun events_say :: "loop_event list \<Rightarrow> bool option" where
  "events_say [] = None"
| "events_say (Wakeup # evs) = events_say evs"
| "events_say (Conn_Event m so_error rds wrds # evs) =
     (case (if m AND EPOLLIN \<noteq> 0 then reads_say rds else Pending) of
        Failed \<Rightarrow> Some False
      | Lost \<Rightarrow> None
      | Pending \<Rightarrow>
          if m AND EPOLLOUT \<noteq> 0 then Some (\<not> so_error)
          else if m AND (EPOLLERR OR EPOLLHUP) \<noteq> 0 then Some False
          else events_say evs)"

definition attempting :: "connection \<Rightarrow> bool" where
  "attempting c \<longleftrightarrow> conn_state c = kConnecting \<and> has_connect_cb c \<and> filter is_connect (trace c) = [] \<and>
     \<not> ssl c \<and> conn_limiter c = None"

definition gone :: "connection \<Rightarrow> bool" where
  "gone c \<longleftrightarrow> conn_state c = kDisconnected \<and> filter is_connect (trace c) = []"

definition says :: "attempt \<Rightarrow> connection \<Rightarrow> bool" where
  "says a c = (case a of Pending \<Rightarrow> attempting c | Failed \<Rightarrow> reported [Cb_Connect False] c | Lost \<Rightarrow> gone c)"

lemma thread_simps [simp]:
  "attempting (c\<lparr>in_loop_thread := b\<rparr>) = attempting c" "gone (c\<lparr>in_loop_thread := b\<rparr>) = gone c"
  "attempting (c\<lparr>input_buffer := ib\<rparr>) = attempting c"
  by (simp_all add: attempting_def gone_def)

lemma attempting_Send: "attempting c \<Longrightarrow> attempting (Connection_Send d c)"
  by (simp add: attempting_def Connection_Send_def emit_def Let_def)

lemma gone_ops:
  assumes "gone c"
  shows "gone (Connection_HandleRead cb rds c)" "gone (Connection_HandleWrite b cb rds c)" "gone (Connection_HandleError c)"
    "gone (Connection_Send d c)"
  using assms
  by (simp_all add: gone_def Connection_HandleRead_def Connection_HandleWrite_def Connection_HandleError_def
      Connection_HandleClose_def Connection_Send_def emit_def Let_def)

definition stays_open :: "(connection \<Rightarrow> callback_op list) \<Rightarrow> bool" where
  "stays_open ops \<longleftrightarrow> (\<forall>c. Use_Close \<notin> set (ops c))"

lemma attempting_callback:
  assumes "uses_connection cb ops" and "stays_open ops" and "attempting c"
  shows "attempting (case cb of None \<Rightarrow> c | Some f \<Rightarrow> f c)"
proof (cases cb)
  case (Some f)
  then have f: "f c = foldl callback_step c (ops c)" using assms(1) by (simp add: uses_connection_def)
  have "attempting (foldl callback_step c l)" if "Use_Close \<notin> set l" "attempting c" for c l
    using that
  proof (induction l arbitrary: c)
    case (Cons op l)
    then have "attempting (callback_step c op)" by (cases op) (auto simp: attempting_Send)
    with Cons show ?case by simp
  qed simp
  with assms(2,3) Some f show ?thesis by (simp add: stays_open_def)
qed (use assms in simp)

lemma read_loop_says:
  assumes "uses_connection cb ops" and "stays_open ops" and "attempting c"
  shows "says (reads_say rds) (read_loop cb rds c)"
  using assms(3)
proof (induction rds arbitrary: c)
  case Nil
  then show ?case by (simp add: says_def)
next
  case (Cons r rds)
  have st: "conn_state c = kConnecting" "\<not> ssl c" "has_connect_cb c" "filter is_connect (trace c) = []"
    using Cons.prems by (simp_all add: attempting_def)
  show ?case
  proof (cases r)
    case (Rd d)
    let ?c1 = "c\<lparr>input_buffer := Buffer_Append (input_buffer c) d\<rparr>"
    have "attempting (case cb of None \<Rightarrow> ?c1 | Some f \<Rightarrow> f ?c1)"
      by (rule attempting_callback[OF assms(1,2)]) (simp add: Cons.prems)
    note more = Cons.IH[OF this]
    show ?thesis
    proof (cases "d = []")
      case True
      with Rd st show ?thesis by (simp add: says_def gone_def Connection_HandleClose_def emit_def Let_def)
    next
      case False
      with Rd st more show ?thesis by (simp add: Let_def)
    qed
  next
    case (Rd_Fail e)
    with Cons.prems st error_reports[OF st(1,3,4)] show ?thesis by (simp add: says_def would_block_def)
  qed
qed

lemma HandleRead_says:
  assumes "uses_connection cb ops" and "stays_open ops" and "attempting c"
  shows "says (reads_say rds) (Connection_HandleRead cb rds c)"
proof -
  have same: "c\<lparr>conn_limiter := None\<rparr> = c" using assms(3) by (cases c) (simp add: attempting_def)
  have "Connection_HandleRead cb rds c = read_loop cb rds (c\<lparr>conn_limiter := None\<rparr>)"
    using assms(3) by (simp add: attempting_def Connection_HandleRead_def HandleRead_ready_def CheckRateLimit_def)
  then have "Connection_HandleRead cb rds c = read_loop cb rds c" by (simp only: same)
  with read_loop_says[OF assms] show ?thesis by simp
qed

text \<open>One event of the connection, and the wakeup, at each stage of an attempt.\<close>

lemma reported_callback:
  assumes "uses_connection cb ops" and "reported marks (cn_conn cn)"
  shows "reported marks (cn_conn (client_callback cb m so_error rds wrds cn))"
  using assms by (simp add: client_callback_def conn_call_conn rep.p_read_cb rep.p_write_cb rep.p_error Let_def)

lemma gone_callback: "gone (cn_conn cn) \<Longrightarrow> gone (cn_conn (client_callback cb m so_error rds wrds cn))"
  by (simp add: client_callback_def conn_call_conn gone_ops Let_def)

lemma client_callback_says:
  assumes "uses_connection cb ops" and "stays_open ops" and "attempting (cn_conn cn)"
    and cn': "cn' = client_callback cb m so_error rds wrds cn"
  shows "case (if m AND EPOLLIN \<noteq> 0 then reads_say rds else Pending) of
      Failed \<Rightarrow> reported [Cb_Connect False] (cn_conn cn')
    | Lost \<Rightarrow> gone (cn_conn cn')
    | Pending \<Rightarrow>
        if m AND EPOLLOUT \<noteq> 0 then reported [Cb_Connect (\<not> so_error)] (cn_conn cn')
        else if m AND (EPOLLERR OR EPOLLHUP) \<noteq> 0 then reported [Cb_Connect False] (cn_conn cn')
        else attempting (cn_conn cn')"
proof -
  define a where "a = (if m AND EPOLLIN \<noteq> 0 then reads_say rds else Pending)"
  define cn1 where "cn1 = (if m AND EPOLLIN \<noteq> 0 then conn_call True (on_conn (Connection_HandleRead cb rds)) cn else cn)"
  have 1: "says a (cn_conn cn1)"
    using HandleRead_says[OF assms(1,2), of "(cn_conn cn)\<lparr>in_loop_thread := True\<rparr>" rds] assms(3)
    by (auto simp: a_def cn1_def conn_call_conn says_def split: attempt.splits)
  have rest: "cn' = (let cn2 = (if m AND EPOLLOUT \<noteq> 0 then conn_call True (on_conn (Connection_HandleWrite so_error cb wrds)) cn1 else cn1)
      in if m AND (EPOLLERR OR EPOLLHUP) \<noteq> 0 then conn_call True (on_conn Connection_HandleError) cn2 else cn2)"
    by (simp add: cn' client_callback_def cn1_def Let_def)
  show ?thesis
  proof (cases a)
    case Failed
    with 1 show ?thesis unfolding a_def[symmetric] rest
      by (simp add: says_def conn_call_conn rep.p_write_cb[OF assms(1)] rep.p_error Let_def)
  next
    case Lost
    with 1 show ?thesis unfolding a_def[symmetric] rest by (simp add: says_def conn_call_conn gone_ops Let_def)
  next
    case Pending
    then have at: "attempting (cn_conn cn1)" using 1 by (simp add: says_def)
    let ?c = "(cn_conn cn1)\<lparr>in_loop_thread := True\<rparr>"
    have w: "reported [Cb_Connect (\<not> so_error)] (Connection_HandleWrite so_error cb wrds ?c)"
      by (rule first_write_reports) (use at in \<open>simp_all add: attempting_def\<close>)
    have e: "reported [Cb_Connect False] (Connection_HandleError ?c)"
      by (rule error_reports) (use at in \<open>simp_all add: attempting_def\<close>)
    show ?thesis using Pending at w e unfolding a_def[symmetric] rest
      by (simp add: conn_call_conn rep.p_error Let_def)
  qed
qed

lemma run_tasks_keep:
  assumes "\<And>c b. P (c\<lparr>in_loop_thread := b\<rparr>) = P c" and "\<And>c d. P c \<Longrightarrow> P (Connection_Send d c)" and "P (cn_conn cn)"
  shows "P (cn_conn (Client_run_tasks cn))"
proof -
  have "P (cn_conn (snd (foldl (\<lambda>q t. client_task t q) (l, cn) ts)))" if "P (cn_conn cn)" for l cn ts
    using that
  proof (induction ts arbitrary: l cn)
    case (Cons d ts)
    have "P (cn_conn (snd (client_task d (l, cn))))"
      using Cons.prems assms(1,2) by (simp add: client_task_def conn_call_conn Let_def)
    with Cons.IH[of "snd (client_task d (l, cn))" "fst (client_task d (l, cn))"] show ?case by simp
  qed simp
  from this[OF assms(3)] show ?thesis
    by (simp add: Client_run_tasks_def EventLoop_HandleRead_def split: prod.split) (metis snd_conv)
qed

lemma await_gone: "gone (cn_conn cn) \<Longrightarrow> fst (await cb evs cn) = None"
proof (induction evs arbitrary: cn)
  case (Cons ev evs)
  then have "promised (cn_conn cn) = None" by (simp add: gone_def no_connect_promised)
  moreover have "gone (cn_conn (client_step cb ev cn))"
    using Cons.prems gone_callback run_tasks_keep[of gone cn] gone_ops(4) by (cases ev) simp_all
  ultimately show ?case using Cons.IH by (simp add: await_pending)
qed (simp add: gone_def no_connect_promised await_pending)

lemma await_attempt:
  assumes "uses_connection cb ops" and "stays_open ops" and "attempting (cn_conn cn)"
  shows "fst (await cb evs cn) = events_say evs"
  using assms(3)
proof (induction evs arbitrary: cn)
  case Nil
  then show ?case by (simp add: attempting_def no_connect_promised await_pending)
next
  case (Cons ev evs)
  then have p: "promised (cn_conn cn) = None" by (simp add: attempting_def no_connect_promised)
  show ?case
  proof (cases ev)
    case Wakeup
    have "attempting (cn_conn (Client_run_tasks cn))"
      by (rule run_tasks_keep[of attempting]) (simp_all add: attempting_Send Cons.prems)
    with Cons.IH p Wakeup show ?thesis by (simp add: await_pending)
  next
    case (Conn_Event m so_error rds wrds)
    let ?cn = "client_callback cb m so_error rds wrds cn"
    have s: "fst (await cb (ev # evs) cn) = fst (await cb evs ?cn)" using p Conn_Event by (simp add: await_pending)
    have rep: "fst (await cb evs ?cn) = Some b" if "reported [Cb_Connect b] (cn_conn ?cn)" for b
      using that by (intro await_set) (simp add: reported_def)
    show ?thesis
      using client_callback_says[OF assms(1,2) Cons.prems refl, of m so_error rds wrds] rep Cons.IH[of ?cn] await_gone[of ?cn]
      unfolding s by (auto simp: Conn_Event split: attempt.splits if_splits)
  qed
qed

text \<open>
  C26. What \<open>Connect\<close> of a client without TLS returns: false when the address is invalid or
  \<open>connect\<close> fails at once, true when it succeeds at once; and when the attempt is pending, what the events of
  the loop's thread say, in order.  Wakeups, with the sends a protocol has queued, decide nothing.  The
  first event of the connection that finds a read error, or else finds the socket writable, or else
  carries an error, decides: true only if the socket is writable, no read has failed and \<open>SO_ERROR\<close> is
  zero.  Until such an event comes the call does not return; and when a read meets the end of file first, it
  never does.  The message callback may read and send but does not close.
\<close>
theorem client_connect_outcome:
  assumes "\<not> ssl_enabled (cl_ssl (cn_config cn))" and "filter is_connect (trace (cn_conn cn)) = []"
    and "\<not> ssl (cn_conn cn)" and "conn_limiter (cn_conn cn) = None" and "f = fd (cn_conn cn)"
    and "uses_connection cb ops" and "\<forall>c. Use_Close \<notin> set (ops c)"
  shows "fst (Client_Connect os valid res cb rds evs cn) =
    (if \<not> valid then Some False
     else (case res f of Conn_Err \<Rightarrow> Some False | Conn_Ok \<Rightarrow> Some True | Conn_InProgress \<Rightarrow> events_say evs))"
proof -
  define cn1 where "cn1 = start_protocol (cn\<lparr>cn_conn := (cn_conn cn)\<lparr>has_connect_cb := True\<rparr>, cn_thread := True\<rparr>)"
  define cn3 where "cn3 = cn1\<lparr>cn_loop := snd (EventLoop_AddFd (fd (cn_conn cn1)) (EPOLLIN OR EPOLLOUT)
      (Some (Callback Conn_Cb)) (cn_loop cn1))\<rparr>"
  have c: "fd (cn_conn cn3) = f" "has_connect_cb (cn_conn cn3)" "filter is_connect (trace (cn_conn cn3)) = []"
    "cn_config cn1 = cn_config cn" "\<not> ssl (cn_conn cn3)" "conn_limiter (cn_conn cn3) = None"
    using assms(2-5) by (simp_all add: cn3_def cn1_def start_protocol_eq Let_def)
  have tls: "start_tls os cb rds cn1 = (True, cn1)" using assms(1) c(4) by (simp add: start_tls_def)
  have C: "Client_Connect os valid res cb rds evs cn =
      (case Connection_Connect valid (res f) (cn_conn cn3) of
         (Inl _, c) \<Rightarrow> (Some False, cn3\<lparr>cn_conn := c\<rparr>)
       | (Inr _, c) \<Rightarrow> await cb evs (cn3\<lparr>cn_conn := c\<rparr>))"
    using c(1) unfolding cn3_def by (simp add: Client_Connect_def Let_def cn1_def[symmetric] tls)
  have "attempting ((cn_conn cn3)\<lparr>conn_state := kConnecting\<rparr>)" using c by (simp add: attempting_def)
  then have pending: "fst (await cb evs (cn3\<lparr>cn_conn := (cn_conn cn3)\<lparr>conn_state := kConnecting\<rparr>\<rparr>)) = events_say evs"
    using await_attempt[OF assms(6), of "cn3\<lparr>cn_conn := (cn_conn cn3)\<lparr>conn_state := kConnecting\<rparr>\<rparr>" evs] assms(7)
    by (simp add: stays_open_def)
  have now: "fst (await cb evs (cn3\<lparr>cn_conn := emit (Cb_Connect True) ((cn_conn cn3)\<lparr>conn_state := kConnected\<rparr>)\<rparr>)) = Some True"
    by (rule await_set) (simp add: c(3) emit_def)
  show ?thesis
  proof (cases "valid")
    case True
    then show ?thesis unfolding C using pending now c(2)
      by (cases "res f") (simp_all add: Connection_Connect_def result_defs Let_def)
  next
    case False
    then show ?thesis unfolding C by (simp add: Connection_Connect_def result_defs)
  qed
qed

definition sample_client :: "string \<Rightarrow> client" where
  "sample_client mode =
     Client_new (ClientConfig_default\<lparr>cl_mode := mode\<rparr>) None 3 4 (snd (Buffer_new [] 8)) (snd (Buffer_new [] 8))"

text \<open>
  A connection that comes up after the wakeup for the websocket handshake, one that is refused
  (Linux reports all four bits and the read fails), and one that the server closes at once.
\<close>

lemma client_connect_outcome_witness:
  "fst (Client_Connect one_pair True (\<lambda>_. Conn_InProgress) None [] [Wakeup, Conn_Event EPOLLOUT False [] []] (sample_client ''websocket'')) = Some True \<and>
   fst (Client_Connect one_pair True (\<lambda>_. Conn_InProgress) None []
     [Conn_Event (EPOLLIN OR EPOLLOUT OR EPOLLERR OR EPOLLHUP) True [Rd_Fail IO_Other] []] (sample_client ''tcp'')) = Some False \<and>
   fst (Client_Connect one_pair True (\<lambda>_. Conn_InProgress) None []
     [Conn_Event (EPOLLIN OR EPOLLOUT) False [Rd []] [], Conn_Event EPOLLOUT False [] []] (sample_client ''tcp'')) = None"
proof -
  have "\<not> ssl_enabled (cl_ssl (cn_config (sample_client m)))" "filter is_connect (trace (cn_conn (sample_client m))) = []"
    "\<not> ssl (cn_conn (sample_client m))" "conn_limiter (cn_conn (sample_client m)) = None" for m
    by (simp_all add: sample_client_def Client_new_def ClientConfig_default_def SslConfig_default_def Connection_new_def)
  note t = client_connect_outcome[OF this refl uses_None(1), of one_pair True "\<lambda>_. Conn_InProgress" "[]"]
  have "(EPOLLOUT :: uint32) AND EPOLLIN = 0" "(EPOLLOUT :: uint32) AND EPOLLOUT \<noteq> 0"
    "(EPOLLIN OR EPOLLOUT OR EPOLLERR OR EPOLLHUP :: uint32) AND EPOLLIN \<noteq> 0"
    "(EPOLLIN OR EPOLLOUT :: uint32) AND EPOLLIN \<noteq> 0" by code_simp+
  then show ?thesis by (simp add: t)
qed

text \<open>
  A TLS client never connects.  \<open>Connect\<close> starts the handshake before the socket is connected; when
  OpenSSL reports the error of writing to an unconnected socket, the connection closes its descriptor, and
  the \<open>connect\<close> that follows is called on descriptor -1 and fails: \<open>Connect\<close> returns false, whatever
  the server and the network do.
\<close>
theorem client_tls_never_connects:
  assumes "ssl_enabled (cl_ssl (cn_config cn))"
    and "hs_script (cn_conn cn) = Hs_Fail # hs" and "conn_state (cn_conn cn) = kDisconnected" and "0 \<le> fd (cn_conn cn)"
    and "res (-1) = Conn_Err"
  shows "fst (Client_Connect os valid res cb rds evs cn) = Some False"
proof -
  define cn1 where "cn1 = start_protocol (cn\<lparr>cn_conn := (cn_conn cn)\<lparr>has_connect_cb := True\<rparr>, cn_thread := True\<rparr>)"
  have c: "hs_script (cn_conn cn1) = Hs_Fail # hs" "cn_config cn1 = cn_config cn" "0 \<le> fd (cn_conn cn1)"
    using assms by (simp_all add: cn1_def start_protocol_eq Let_def)
  obtain ok cn2 where t: "start_tls os cb rds cn1 = (ok, cn2)" by fastforce
  show ?thesis
  proof (cases ok)
    case False
    with t show ?thesis by (simp add: Client_Connect_def cn1_def[symmetric] Let_def)
  next
    case True
    let ?c = "(cn_conn cn1)\<lparr>in_loop_thread := False\<rparr>"
    obtain t' where "cn2 = conn_call False (on_conn (Connection_SetSsl cb rds)) (cn1\<lparr>cn_tls := Some t'\<rparr>)"
      using t True assms(1) c(2) by (auto simp: start_tls_def Let_def split: prod.splits sum.splits)
    then have "fd (cn_conn cn2) = fd (Connection_SetSsl cb rds ?c)"
      by (simp add: conn_call_def on_conn_def Let_def)
    also have "\<dots> = -1"
      using c(1,3) by (simp add: Connection_SetSsl_def Connection_HandleHandshake_def Connection_HandleError_def
          Connection_HandleClose_def emit_def Let_def)
    finally have "fd (cn_conn cn2) = -1" .
    with t True assms(5) show ?thesis
      by (simp add: Client_Connect_def cn1_def[symmetric] Connection_Connect_def result_defs Let_def)
  qed
qed

lemma client_tls_never_connects_witness:
  "fst (Client_Connect one_pair True (\<lambda>f. if f < 0 then Conn_Err else Conn_Ok) None [] []
     ((sample_client ''tcp'')\<lparr>cn_config := ClientConfig_default\<lparr>cl_ssl := SslConfig_default\<lparr>ssl_enabled := True\<rparr>\<rparr>,
        cn_conn := (cn_conn (sample_client ''tcp''))\<lparr>hs_script := [Hs_Fail]\<rparr>\<rparr>)) = Some False"
  by (rule client_tls_never_connects[where hs = "[]"])
     (simp_all add: sample_client_def Client_new_def Connection_new_def)

section \<open>What the client puts on the wire\<close>

text \<open>On the loop's thread an operation of the connection queues nothing.\<close>

definition quiet :: "act list \<Rightarrow> connection \<Rightarrow> bool" where
  "quiet t c \<longleftrightarrow> in_loop_thread c \<and> (\<exists>acts. trace c = t @ acts \<and> (\<forall>d. Loop_Queue d \<notin> set acts))"

lemma quiet_start: "in_loop_thread c \<Longrightarrow> quiet (trace c) c"
  by (simp add: quiet_def)

interpretation quiet: conn_invariant "quiet t" for t
  by unfold_locales (auto simp: quiet_def conn_ops split: if_splits list.splits prod.splits)

lemma client_act_pending: "(\<forall>d. a \<noteq> Loop_Queue d) \<Longrightarrow> pending_tasks (client_act a l) = pending_tasks l"
  by (cases a)
     (auto simp: EventLoop_ModifyFd_def EventLoop_RemoveFd_def poller_defs Let_def split: option.splits list.splits)

lemma client_acts_pending: "\<forall>d. Loop_Queue d \<notin> set acts \<Longrightarrow> pending_tasks (fold client_act acts l) = pending_tasks l"
proof (induction acts arbitrary: l)
  case Nil
  then show ?case by simp
next
  case (Cons a acts)
  then have "\<forall>d. a \<noteq> Loop_Queue d" by auto
  with Cons client_act_pending[of a l] show ?case by simp
qed

definition client_ready :: "client \<Rightarrow> bool" where
  "client_ready cn \<longleftrightarrow> conn_inv (cn_conn cn) \<and> in_loop_thread (cn_conn cn)"

lemma loop_call:
  assumes "client_ready cn" and "\<And>c. conn_inv c \<Longrightarrow> in_loop_thread c \<Longrightarrow> extends_by S c (g c)"
    and "\<And>c t. quiet t c \<Longrightarrow> quiet t (g c)"
  shows "client_ready (conn_call True (on_conn g) cn)"
    and "\<exists>xs. stream (cn_conn (conn_call True (on_conn g) cn)) = stream (cn_conn cn) @ concat xs \<and> set xs \<subseteq> S"
    and "pending_tasks (cn_loop (conn_call True (on_conn g) cn)) = pending_tasks (cn_loop cn)"
    and "cn_protocol (conn_call True (on_conn g) cn) = cn_protocol cn"
    and "cn_rpc_id (conn_call True (on_conn g) cn) = cn_rpc_id cn"
proof -
  let ?c = "(cn_conn cn)\<lparr>in_loop_thread := True\<rparr>"
  have c: "?c = cn_conn cn" using assms(1) by (simp add: client_ready_def)
  have e: "extends_by S ?c (g ?c)" and "quiet (trace ?c) (g ?c)"
    unfolding c using assms quiet_start[of "cn_conn cn"] by (simp_all add: client_ready_def)
  then obtain acts where "trace (g ?c) = trace ?c @ acts" "\<forall>d. Loop_Queue d \<notin> set acts" by (auto simp: quiet_def)
  then show "pending_tasks (cn_loop (conn_call True (on_conn g) cn)) = pending_tasks (cn_loop cn)"
    using client_acts_pending[of acts] by (simp add: conn_call_def on_conn_def Let_def)
  show "client_ready (conn_call True (on_conn g) cn)"
    "\<exists>xs. stream (cn_conn (conn_call True (on_conn g) cn)) = stream (cn_conn cn) @ concat xs \<and> set xs \<subseteq> S"
    unfolding client_ready_def conn_call_conn c using e[unfolded c] assms(1)
    by (auto simp: client_ready_def extends_by_def extends_def conn_inv_def stream_def)
qed (simp_all add: conn_call_def on_conn_def Let_def)

lemma loop_send:
  assumes "client_ready cn"
  shows "client_ready (conn_call True (on_conn (Connection_Send d)) cn)"
    and "stream (cn_conn (conn_call True (on_conn (Connection_Send d)) cn)) = stream (cn_conn cn) @ d"
    and "pending_tasks (cn_loop (conn_call True (on_conn (Connection_Send d)) cn)) = pending_tasks (cn_loop cn)"
proof -
  have c: "(cn_conn cn)\<lparr>in_loop_thread := True\<rparr> = cn_conn cn" using assms by (simp add: client_ready_def)
  have "extends_by {d} c (Connection_Send d c)" if "conn_inv c" "in_loop_thread c" for c
    using Send_extends[OF that] by (auto intro: extends_by_send)
  note s = loop_call[OF assms this quiet.p_send]
  show "client_ready (conn_call True (on_conn (Connection_Send d)) cn)" by (rule s(1))
  show "pending_tasks (cn_loop (conn_call True (on_conn (Connection_Send d)) cn)) = pending_tasks (cn_loop cn)" by (rule s(3))
  show "stream (cn_conn (conn_call True (on_conn (Connection_Send d)) cn)) = stream (cn_conn cn) @ d"
    unfolding conn_call_conn c using Send_extends[of "cn_conn cn" d] assms
    by (simp add: client_ready_def extends_def stream_def)
qed

text \<open>Running the queued sends moves them, in order, to the output stream.\<close>

lemma run_tasks_foldl:
  assumes "client_ready cn"
  shows "\<exists>l' cn'. foldl (\<lambda>q t. client_task t q) (l, cn) ts = (l', cn') \<and> client_ready cn' \<and>
    stream (cn_conn cn') = stream (cn_conn cn) @ concat ts \<and> pending_tasks l' = pending_tasks l"
  using assms
proof (induction ts arbitrary: l cn)
  case Nil
  then show ?case by simp
next
  case (Cons d ts)
  let ?cn = "conn_call True (on_conn (Connection_Send d)) (cn\<lparr>cn_loop := l\<rparr>)"
  have r: "client_ready (cn\<lparr>cn_loop := l\<rparr>)" using Cons.prems by (simp add: client_ready_def)
  note s = loop_send[OF r, of d]
  from Cons.IH[OF s(1), of "cn_loop ?cn"] s(2,3) show ?case by (simp add: client_task_def Let_def)
qed

lemma Client_run_tasks_out:
  assumes "client_ready cn"
  shows "client_ready (Client_run_tasks cn)" and "pending_tasks (cn_loop (Client_run_tasks cn)) = []"
    and "stream (cn_conn (Client_run_tasks cn)) = stream (cn_conn cn) @ concat (pending_tasks (cn_loop cn))"
  using run_tasks_foldl[OF assms, of "(cn_loop cn)\<lparr>eventfd_count := 0, pending_tasks := []\<rparr>" "pending_tasks (cn_loop cn)"]
  by (auto simp: Client_run_tasks_def EventLoop_HandleRead_def client_ready_def)

text \<open>A call on the loop's thread that puts some of the strings \<open>S\<close> out and leaves the queue alone.\<close>

definition puts_out :: "bytes set \<Rightarrow> client \<Rightarrow> client \<Rightarrow> bool" where
  "puts_out S cn cn' \<longleftrightarrow> client_ready cn' \<and> pending_tasks (cn_loop cn') = pending_tasks (cn_loop cn) \<and>
     (\<exists>xs. stream (cn_conn cn') = stream (cn_conn cn) @ concat xs \<and> set xs \<subseteq> S)"

lemma puts_out_refl: "client_ready cn \<Longrightarrow> puts_out S cn cn"
  unfolding puts_out_def by (intro conjI exI[of _ "[]"]) simp_all

lemma puts_out_trans: "puts_out S a b \<Longrightarrow> puts_out S b c \<Longrightarrow> puts_out S a c"
  unfolding puts_out_def by (metis append_assoc concat_append set_append Un_least)

lemma client_callback_out:
  assumes "client_ready cn" and cb: "uses_connection cb ops"
  shows "puts_out (callback_sends ops) cn (client_callback cb m so_error rds wrds cn)"
proof -
  let ?S = "callback_sends ops"
  have may: "may_send ?S c" if "conn_inv c" "in_loop_thread c" for c using that by (simp add: may_send_def)
  have call: "puts_out ?S cn (conn_call True (on_conn g) cn)"
    if "client_ready cn" "\<And>c. conn_inv c \<Longrightarrow> in_loop_thread c \<Longrightarrow> extends_by ?S c (g c)" "\<And>c t. quiet t c \<Longrightarrow> quiet t (g c)" for cn g
    using loop_call[OF that] by (simp add: puts_out_def)
  define cn1 where "cn1 = (if m AND EPOLLIN \<noteq> 0 then conn_call True (on_conn (Connection_HandleRead cb rds)) cn else cn)"
  define cn2 where "cn2 = (if m AND EPOLLOUT \<noteq> 0 then conn_call True (on_conn (Connection_HandleWrite so_error cb wrds)) cn1 else cn1)"
  have 1: "puts_out ?S cn cn1" unfolding cn1_def
    using assms(1) call[OF assms(1) HandleRead_extends_cb[OF cb may] quiet.p_read_cb[OF cb]] puts_out_refl by simp
  then have r1: "client_ready cn1" by (simp add: puts_out_def)
  have 2: "puts_out ?S cn1 cn2" unfolding cn2_def
    using r1 call[OF r1 HandleWrite_extends_cb[OF cb may] quiet.p_write_cb[OF cb]] puts_out_refl by simp
  then have r2: "client_ready cn2" by (simp add: puts_out_def)
  have "puts_out ?S cn2 (client_callback cb m so_error rds wrds cn)"
    using r2 call[OF r2 extends_by_none[OF HandleError_extends] quiet.p_error] puts_out_refl
    by (simp add: client_callback_def cn1_def[symmetric] cn2_def[symmetric] Let_def)
  with 1 2 show ?thesis using puts_out_trans by blast
qed

text \<open>The message callback of a TCP client only consumes input.\<close>

lemma TcpClient_consumes:
  "\<exists>a b. TcpClient_OnDataReceived pb mh st = st\<lparr>app := a, conn := (conn st)\<lparr>input_buffer := b\<rparr>\<rparr> \<and>
    (buffer_inv (in_buf st) \<longrightarrow> buffer_inv b)"
proof (induction pb mh st rule: TcpClient_OnDataReceived.induct)
  case (1 pb mh st)
  let ?l = "ntohl_at (Buffer_Peek (in_buf st))"
  let ?b = "Buffer_Retrieve (Buffer_Retrieve (in_buf st) 4) (unat ?l)"
  show ?case
  proof (cases "4 \<le> Buffer_ReadableBytes (in_buf st) \<and> \<not> kTcpMaxFrame < unat ?l \<and>
      unat (4 + ?l) \<le> Buffer_ReadableBytes (in_buf st)")
    case more: True
    let ?st1 = "map_input (\<lambda>b. Buffer_Retrieve b 4) st"
    let ?data = "take (unat ?l) (Buffer_Peek (in_buf ?st1))"
    let ?st2 = "map_input (\<lambda>b. Buffer_Retrieve b (unat ?l)) ?st1"
    define st3 where "st3 = (case pb_parse pb ?data of
        (True, msg) \<Rightarrow> (case mh of Some f \<Rightarrow> ?st2\<lparr>app := f (app ?st2) msg\<rparr> | None \<Rightarrow> ?st2)
      | (False, _) \<Rightarrow> ?st2)"
    have step: "TcpClient_OnDataReceived pb mh st = TcpClient_OnDataReceived pb mh st3"
      using more by (subst TcpClient_OnDataReceived.simps) (simp add: Let_def st3_def)
    have st3: "\<exists>a. st3 = st\<lparr>app := a, conn := (conn st)\<lparr>input_buffer := ?b\<rparr>\<rparr>"
      by (cases st) (auto simp: st3_def map_input_def map_conn_def split: prod.splits bool.splits option.splits)
    have "\<exists>a b. TcpClient_OnDataReceived pb mh st3 = st3\<lparr>app := a, conn := (conn st3)\<lparr>input_buffer := b\<rparr>\<rparr> \<and>
        (buffer_inv (in_buf st3) \<longrightarrow> buffer_inv b)"
      by (rule "1.IH") (use more st3_def in auto)
    with st3 step show ?thesis by (fastforce simp: buffer_invs)
  next
    case False
    have "\<exists>b. TcpClient_OnDataReceived pb mh st = st\<lparr>conn := (conn st)\<lparr>input_buffer := b\<rparr>\<rparr> \<and> (buffer_inv (in_buf st) \<longrightarrow> buffer_inv b)"
      using False
      by (subst TcpClient_OnDataReceived.simps)
         (auto simp: Let_def map_input_def map_conn_def buffer_invs intro: exI[of _ "in_buf st"])
    then show ?thesis by (cases st) fastforce
  qed
qed

definition tcp_message_callback :: "proto \<Rightarrow> 's message_handler option \<Rightarrow> 's \<Rightarrow> connection \<Rightarrow> connection" where
  "tcp_message_callback pb mh a c = conn (TcpClient_OnDataReceived pb mh \<lparr>app = a, rate_limiter = None, conn = c\<rparr>)"

definition tcp_message_uses :: "proto \<Rightarrow> 's message_handler option \<Rightarrow> 's \<Rightarrow> connection \<Rightarrow> callback_op list" where
  "tcp_message_uses pb mh a c = [Use_Input (input_buffer (tcp_message_callback pb mh a c))]"

lemma tcp_message_callback_uses:
  "uses_connection (Some (tcp_message_callback pb mh a)) (tcp_message_uses pb mh a)"
  "callback_sends (tcp_message_uses pb mh a) = {}"
proof -
  have "\<exists>b. tcp_message_callback pb mh a c = c\<lparr>input_buffer := b\<rparr> \<and> (buffer_inv (input_buffer c) \<longrightarrow> buffer_inv b)" for c
    using TcpClient_consumes[of pb mh "\<lparr>app = a, rate_limiter = None, conn = c\<rparr>"] by (auto simp: tcp_message_callback_def)
  then show "uses_connection (Some (tcp_message_callback pb mh a)) (tcp_message_uses pb mh a)"
    unfolding uses_connection_def tcp_message_uses_def conn_inv_def by (clarsimp, metis connection.select_convs(1) connection.simps connection.surjective)
qed (simp add: callback_sends_def tcp_message_uses_def)

text \<open>The message callback of a gRPC client reads, and may acknowledge settings.\<close>

lemma GrpcClient_uses:
  "\<exists>a l. GrpcClient_OnDataReceived pb mh st = st\<lparr>app := a, conn := foldl callback_step (conn st) l\<rparr> \<and>
    (\<forall>d. Use_Send d \<in> set l \<longrightarrow> d = h2_settings 1) \<and> Use_Close \<notin> set l \<and>
    (buffer_inv (in_buf st) \<longrightarrow> (\<forall>b. Use_Input b \<in> set l \<longrightarrow> buffer_inv b))"
proof (induction pb mh st rule: GrpcClient_OnDataReceived.induct)
  case (1 pb mh st)
  let ?p = "Buffer_Peek (in_buf st)"
  let ?hdr = "read_frame_header ?p"
  let ?n = "unat (9 + fh_length ?hdr)"
  let ?st1 = "GrpcClient_frame pb mh (fh_type ?hdr) (fh_flags ?hdr) (take (unat (fh_length ?hdr)) (drop 9 ?p)) st"
  let ?st2 = "map_input (\<lambda>b. Buffer_Retrieve b ?n) ?st1"
  show ?case
  proof (cases "9 \<le> Buffer_ReadableBytes (in_buf st) \<and> ?n \<le> Buffer_ReadableBytes (in_buf st)")
    case True
    have step: "GrpcClient_OnDataReceived pb mh st = GrpcClient_OnDataReceived pb mh ?st2"
      using True by (subst GrpcClient_OnDataReceived.simps) (simp add: Let_def)
    obtain a0 l0 where f: "?st1 = st\<lparr>app := a0, conn := foldl callback_step (conn st) l0\<rparr>"
        "\<forall>op \<in> set l0. op = Use_Send (h2_settings 1)"
    proof -
      have "\<exists>a l. ?st1 = st\<lparr>app := a, conn := foldl callback_step (conn st) l\<rparr> \<and> (l = [] \<or> l = [Use_Send (h2_settings 1)])"
        by (cases st) (auto simp: GrpcClient_frame_def map_conn_def split: prod.splits bool.splits option.splits
          intro: exI[of _ "[]"] exI[of _ "[Use_Send (h2_settings 1)]"])
      with that show thesis by force
    qed
    let ?b = "Buffer_Retrieve (in_buf st) ?n"
    let ?l1 = "l0 @ [Use_Input ?b]"
    have st2: "?st2 = st\<lparr>app := a0, conn := foldl callback_step (conn st) ?l1\<rparr>"
    proof -
      have "in_buf ?st1 = in_buf st" by simp
      then have "input_buffer (foldl callback_step (conn st) l0) = in_buf st" unfolding f(1) by simp
      then show ?thesis unfolding f(1) by (simp add: map_input_def map_conn_def)
    qed
    have "\<exists>a l. GrpcClient_OnDataReceived pb mh ?st2 = ?st2\<lparr>app := a, conn := foldl callback_step (conn ?st2) l\<rparr> \<and>
        (\<forall>d. Use_Send d \<in> set l \<longrightarrow> d = h2_settings 1) \<and> Use_Close \<notin> set l \<and>
        (buffer_inv (in_buf ?st2) \<longrightarrow> (\<forall>b. Use_Input b \<in> set l \<longrightarrow> buffer_inv b))"
      by (rule "1.IH") (use True in simp_all)
    then obtain a l where i: "GrpcClient_OnDataReceived pb mh ?st2 = ?st2\<lparr>app := a, conn := foldl callback_step (conn ?st2) l\<rparr>"
        "\<forall>d. Use_Send d \<in> set l \<longrightarrow> d = h2_settings 1" "Use_Close \<notin> set l"
        "buffer_inv ?b \<longrightarrow> (\<forall>b. Use_Input b \<in> set l \<longrightarrow> buffer_inv b)" by (auto simp: in_buf_map_input)
    have "GrpcClient_OnDataReceived pb mh st = st\<lparr>app := a, conn := foldl callback_step (conn st) (?l1 @ l)\<rparr>"
      unfolding step i(1) unfolding st2 by simp
    moreover have "\<forall>d. Use_Send d \<in> set (?l1 @ l) \<longrightarrow> d = h2_settings 1" "Use_Close \<notin> set (?l1 @ l)" using f(2) i(2,3) by auto
    moreover have "buffer_inv (in_buf st) \<longrightarrow> (\<forall>b. Use_Input b \<in> set (?l1 @ l) \<longrightarrow> buffer_inv b)"
    proof (intro impI allI)
      fix b assume inv: "buffer_inv (in_buf st)" and b: "Use_Input b \<in> set (?l1 @ l)"
      have "buffer_inv ?b" using inv by (simp add: buffer_invs)
      moreover have "Use_Input b \<notin> set l0" using f(2) by (metis callback_op.distinct(1))
      then have "b = ?b \<or> Use_Input b \<in> set l" using b by auto
      ultimately show "buffer_inv b" using i(4) by blast
    qed
    ultimately show ?thesis by blast
  next
    case False
    then have "GrpcClient_OnDataReceived pb mh st = st\<lparr>app := app st, conn := foldl callback_step (conn st) []\<rparr>"
      by (subst GrpcClient_OnDataReceived.simps) (auto simp: Let_def)
    then show ?thesis by (intro exI[of _ "app st"] exI[of _ "[]"]) simp
  qed
qed

definition grpc_message_callback :: "proto \<Rightarrow> 's message_handler option \<Rightarrow> 's \<Rightarrow> connection \<Rightarrow> connection" where
  "grpc_message_callback pb mh a c = conn (GrpcClient_OnDataReceived pb mh \<lparr>app = a, rate_limiter = None, conn = c\<rparr>)"

lemma grpc_message_callback_uses:
  "\<exists>ops. uses_connection (Some (grpc_message_callback pb mh a)) ops \<and> callback_sends ops \<subseteq> {h2_settings 1}"
proof -
  have "\<exists>l. grpc_message_callback pb mh a c = foldl callback_step c l \<and> (\<forall>d. Use_Send d \<in> set l \<longrightarrow> d = h2_settings 1) \<and>
      (buffer_inv (input_buffer c) \<longrightarrow> (\<forall>b. Use_Input b \<in> set l \<longrightarrow> buffer_inv b))" for c
    using GrpcClient_uses[of pb mh "\<lparr>app = a, rate_limiter = None, conn = c\<rparr>"] by (auto simp: grpc_message_callback_def)
  then obtain ops where ops: "\<forall>c. grpc_message_callback pb mh a c = foldl callback_step c (ops c) \<and>
      (\<forall>d. Use_Send d \<in> set (ops c) \<longrightarrow> d = h2_settings 1) \<and>
      (buffer_inv (input_buffer c) \<longrightarrow> (\<forall>b. Use_Input b \<in> set (ops c) \<longrightarrow> buffer_inv b))" by metis
  have "uses_connection (Some (grpc_message_callback pb mh a)) ops"
    unfolding uses_connection_def conn_inv_def option.inject using ops by blast
  moreover have "callback_sends ops \<subseteq> {h2_settings 1}" unfolding callback_sends_def using ops by blast
  ultimately show ?thesis by blast
qed

text \<open>
  What the caller's thread and the loop's thread do, in any order.  A call that sends is refused or
  accepted at once; when it is accepted, the pieces its protocol sends are queued one by one, and
  anything may happen on the loop's thread in between.  The caller does one thing at a time.  The state
  has the pieces still to queue, and all pieces accepted so far.
\<close>

datatype client_op =
    Cl_Send_Raw bytes | Cl_Send envelope | Cl_Piece | Cl_Connect bool connect_result | Cl_Loop loop_event

type_synonym client_run = "client \<times> bytes list \<times> bytes list"

fun client_do :: "client_env \<Rightarrow> (connection \<Rightarrow> connection) option \<Rightarrow> client_run \<Rightarrow> client_op \<Rightarrow> client_run" where
  "client_do env cb (cn, [], sent) (Cl_Send_Raw d) =
     (if Connection_IsConnected (cn_conn cn) then (cn, [d], sent @ [d]) else (cn, [], sent))"
| "client_do env cb (cn, [], sent) (Cl_Send e) =
     (if Connection_IsConnected (cn_conn cn) then
        (case cn_protocol cn of
           None \<Rightarrow> (cn, [], sent)
         | Some k \<Rightarrow>
             (case protocol_sends env k (cn_rpc_id cn) e of (n, ds) \<Rightarrow> (cn\<lparr>cn_rpc_id := n\<rparr>, ds, sent @ ds)))
      else (cn, [], sent))"
| "client_do env cb (cn, [], sent) (Cl_Connect valid res) =
     (cn\<lparr>cn_conn := snd (Connection_Connect valid res (cn_conn cn))\<rparr>, [], sent)"
| "client_do env cb (cn, d # ds, sent) Cl_Piece = (conn_call False (on_conn (Connection_Send d)) cn, ds, sent)"
| "client_do env cb (cn, ds, sent) (Cl_Loop ev) = (client_step cb ev cn, ds, sent)"
| "client_do env cb q _ = q"

text \<open>Nothing in between, and the steps are \<open>Send\<close>.\<close>

lemma caller_sends:
  assumes "\<And>n c. g (n, c) = (n, fold Connection_Send ds c)"
  shows "conn_call False g cn =
    cn\<lparr>cn_conn := (cn_conn cn)\<lparr>in_loop_thread := True, trace := trace (cn_conn cn) @ map Loop_Queue ds\<rparr>,
      cn_loop := fold EventLoop_QueueInLoop ds (cn_loop cn)\<rparr>"
  using conn_call_sends[of g "\<lambda>n. n" "\<lambda>_. ds" cn] assms by simp

lemma queue_pieces:
  assumes "in_loop_thread (cn_conn cn)"
  shows "foldl (client_do env cb) (cn, ds, sent) (replicate (length ds) Cl_Piece) =
    (cn\<lparr>cn_conn := (cn_conn cn)\<lparr>trace := trace (cn_conn cn) @ map Loop_Queue ds\<rparr>,
        cn_loop := fold EventLoop_QueueInLoop ds (cn_loop cn)\<rparr>, [], sent)"
  using assms
proof (induction ds arbitrary: cn)
  case (Cons d ds)
  have "conn_call False (on_conn (Connection_Send d)) cn =
      cn\<lparr>cn_conn := (cn_conn cn)\<lparr>trace := trace (cn_conn cn) @ [Loop_Queue d]\<rparr>, cn_loop := EventLoop_QueueInLoop d (cn_loop cn)\<rparr>"
    using caller_sends[of "on_conn (Connection_Send d)" "[d]" cn] Cons.prems by (simp add: on_conn_def)
  with Cons show ?case by simp
qed simp

lemma Client_Send_pieces:
  assumes "in_loop_thread (cn_conn cn)" and "Client_Send env e cn = (True, cn')"
  shows "\<exists>ds. foldl (client_do env cb) (cn, [], sent) (Cl_Send e # replicate (length ds) Cl_Piece) = (cn', [], sent @ ds)"
proof -
  obtain k where k: "cn_protocol cn = Some k" "Connection_IsConnected (cn_conn cn)" "cn' = conn_call False (protocol_Send env k e) cn"
    using assms(2) by (auto simp: Client_Send_def split: if_splits option.splits)
  obtain n ds where ds: "protocol_sends env k (cn_rpc_id cn) e = (n, ds)" by fastforce
  have "foldl (client_do env cb) (cn, [], sent) (Cl_Send e # replicate (length ds) Cl_Piece) = (cn', [], sent @ ds)"
    using k ds queue_pieces[of "cn\<lparr>cn_rpc_id := n\<rparr>" env cb ds "sent @ ds"] assms(1)
      conn_call_sends[of "protocol_Send env k e" "\<lambda>n. fst (protocol_sends env k n e)" "\<lambda>n. snd (protocol_sends env k n e)" cn,
        OF protocol_Send_sends]
    by simp
  then show ?thesis by blast
qed

lemma start_protocol_pieces:
  assumes "in_loop_thread (cn_conn cn)" and "k = ClientProtocolFactory_Create (cl_mode (cn_config cn))"
  shows "foldl (client_do env cb) (cn\<lparr>cn_protocol := Some k\<rparr>, handshake_sends k, [])
      (replicate (length (handshake_sends k)) Cl_Piece) = (start_protocol cn, [], [])"
  using queue_pieces[of "cn\<lparr>cn_protocol := Some k\<rparr>" env cb "handshake_sends k" "[]"] assms
  by (cases cn) (simp add: start_protocol_eq Let_def)

text \<open>The output so far: an interleaving of the caller's pieces with what the callback has sent, piece by piece.\<close>

lemma shuffles_more: "cs \<in> shuffles xs ys \<Longrightarrow> cs @ zs \<in> shuffles (xs @ zs) ys"
proof (induction xs ys arbitrary: cs rule: shuffles.induct)
  case (1 ys)
  have "ys @ zs \<in> shuffles zs ys" by (induction ys) (auto simp: Cons_in_shuffles_rightI intro: Nil_in_shufflesI)
  then show ?case using 1 by simp
next
  case (3 x xs y ys)
  then show ?case by (auto intro: Cons_in_shuffles_leftI Cons_in_shuffles_rightI)
qed auto

definition output_ok :: "bytes set \<Rightarrow> bytes list \<Rightarrow> client_run \<Rightarrow> bool" where
  "output_ok S start q \<longleftrightarrow>
     (case q of (cn, ds, sent) \<Rightarrow>
        client_ready cn \<and>
        (\<exists>out cs xs. stream (cn_conn cn) = concat cs \<and> cs \<in> shuffles out xs \<and> set xs \<subseteq> S \<and>
           start @ sent = out @ pending_tasks (cn_loop cn) @ ds))"

lemma output_okI:
  assumes "client_ready cn" and "cs \<in> shuffles out xs" and "set xs \<subseteq> S"
    and "stream (cn_conn cn) = concat cs" and "start @ sent = out @ pending_tasks (cn_loop cn) @ ds"
  shows "output_ok S start (cn, ds, sent)"
  using assms unfolding output_ok_def by blast

lemma output_ok_do:
  assumes "output_ok (callback_sends ops) start q" and cb: "uses_connection cb ops"
  shows "output_ok (callback_sends ops) start (client_do env cb q op)"
proof -
  obtain cn ds sent where q: "q = (cn, ds, sent)" by (rule prod_cases3)
  obtain out cs xs where o: "client_ready cn" "stream (cn_conn cn) = concat cs" "cs \<in> shuffles out xs"
    "set xs \<subseteq> callback_sends ops" "start @ sent = out @ pending_tasks (cn_loop cn) @ ds"
    using assms(1) by (auto simp: output_ok_def q)
  have accept: "output_ok (callback_sends ops) start (cn\<lparr>cn_rpc_id := n\<rparr>, ds', sent @ ds')" if "ds = []" for n ds'
    by (rule output_okI[OF _ o(3,4)]) (use o that in \<open>simp_all add: client_ready_def\<close>)
  have same: "cn = cn\<lparr>cn_rpc_id := cn_rpc_id cn\<rparr>" by simp
  show ?thesis
  proof (cases op)
    case (Cl_Send_Raw d)
    then show ?thesis using assms(1) accept[of "cn_rpc_id cn" "[d]"] by (cases ds) (auto simp: q)
  next
    case (Cl_Send e)
    then show ?thesis using assms(1) accept by (cases ds) (auto simp: q split: option.split prod.split)
  next
    case (Cl_Connect valid res)
    have "stream (snd (Connection_Connect valid res c)) = stream c \<and> client_ready (cn\<lparr>cn_conn := snd (Connection_Connect valid res c)\<rparr>) =
        client_ready (cn\<lparr>cn_conn := c\<rparr>)" for c
      by (cases res) (auto simp: Connection_Connect_def emit_def stream_def client_ready_def conn_inv_def Let_def)
    with o show ?thesis using assms(1) Cl_Connect by (cases ds) (auto simp: q output_ok_def)
  next
    case Cl_Piece
    show ?thesis
    proof (cases ds)
      case Nil
      then show ?thesis using assms(1) Cl_Piece by (simp add: q)
    next
      case (Cons d ds')
      have "conn_call False (on_conn (Connection_Send d)) cn =
          cn\<lparr>cn_conn := (cn_conn cn)\<lparr>in_loop_thread := True, trace := trace (cn_conn cn) @ [Loop_Queue d]\<rparr>,
             cn_loop := EventLoop_QueueInLoop d (cn_loop cn)\<rparr>"
        using caller_sends[of "on_conn (Connection_Send d)" "[d]" cn] by (simp add: on_conn_def)
      then have "client_do env cb q op = (cn\<lparr>cn_conn := (cn_conn cn)\<lparr>in_loop_thread := True, trace := trace (cn_conn cn) @ [Loop_Queue d]\<rparr>,
             cn_loop := EventLoop_QueueInLoop d (cn_loop cn)\<rparr>, ds', sent)" using Cl_Piece Cons by (simp add: q)
      moreover have "output_ok (callback_sends ops) start \<dots>"
        by (rule output_okI[OF _ o(3,4)])
           (use o Cons pending_queued[of "[d]" "cn_loop cn"] in \<open>simp_all add: client_ready_def conn_inv_def stream_def\<close>)
      ultimately show ?thesis by simp
    qed
  next
    case (Cl_Loop ev)
    have step: "client_do env cb q op = (client_step cb ev cn, ds, sent)" using Cl_Loop q by (cases ds) simp_all
    show ?thesis
    proof (cases ev)
      case Wakeup
      note t = Client_run_tasks_out[OF o(1)]
      have "cs @ pending_tasks (cn_loop cn) \<in> shuffles (out @ pending_tasks (cn_loop cn)) xs" by (rule shuffles_more[OF o(3)])
      from output_okI[OF _ this o(4), of "Client_run_tasks cn"] t o(2,5) show ?thesis unfolding step by (simp add: Wakeup)
    next
      case (Conn_Event m so_error rds wrds)
      obtain zs where z: "client_ready (client_step cb ev cn)" "pending_tasks (cn_loop (client_step cb ev cn)) = pending_tasks (cn_loop cn)"
        "stream (cn_conn (client_step cb ev cn)) = stream (cn_conn cn) @ concat zs" "set zs \<subseteq> callback_sends ops"
        using client_callback_out[OF o(1) cb, of m so_error rds wrds] Conn_Event by (auto simp: puts_out_def)
      have "cs @ zs \<in> shuffles out (xs @ zs)" using shuffles_more[of cs xs out zs] o(3) by (simp add: shuffles_commutes)
      from output_okI[OF z(1) this] z o(2,4,5) show ?thesis unfolding step by simp
    qed
  qed
qed

text \<open>
  The calls as the scenarios make them, one \<open>Send\<close> a step: what has gone to the connection or to its
  queue, with a callback that sends nothing.
\<close>

definition consumes :: "(connection \<Rightarrow> connection) option \<Rightarrow> bool" where
  "consumes cb \<longleftrightarrow> (\<exists>ops. uses_connection cb ops \<and> callback_sends ops = {})"

lemma consumes_None [simp]: "consumes None"
  unfolding consumes_def using uses_None by blast

definition client_out :: "client \<Rightarrow> bytes" where
  "client_out cn = stream (cn_conn cn) @ concat (pending_tasks (cn_loop cn))"

lemma caller_sends_out:
  assumes "client_ready cn" and "\<And>n c. g (n, c) = (f n, fold Connection_Send (ds n) c)"
  shows "client_ready (conn_call False g cn) \<and>
    client_out (conn_call False g cn) = client_out cn @ concat (ds (cn_rpc_id cn))"
  using assms(1)
  by (simp add: conn_call_sends[OF assms(2)] client_ready_def client_out_def pending_queued conn_inv_def stream_def)

lemma conn_call_protocol [simp]: "cn_protocol (conn_call b g cn) = cn_protocol cn"
  by (simp add: conn_call_def Let_def split: prod.split)

lemma client_step_protocol: "cn_protocol (client_step cb ev cn) = cn_protocol cn"
proof (cases ev)
  case Wakeup
  have "cn_protocol (snd (foldl (\<lambda>q t. client_task t q) (l, cn) ts)) = cn_protocol cn" for l cn ts
  proof (induction ts arbitrary: l cn)
    case (Cons d ts)
    show ?case using Cons.IH[of "fst (client_task d (l, cn))" "snd (client_task d (l, cn))"] by (simp add: client_task_def Let_def)
  qed simp
  then show ?thesis
    by (simp add: Wakeup Client_run_tasks_def EventLoop_HandleRead_def split: prod.split) (metis snd_conv)
qed (simp add: client_callback_def Let_def)

lemma client_step_out:
  assumes "client_ready cn" and "consumes cb"
  shows "client_ready (client_step cb ev cn) \<and> client_out (client_step cb ev cn) = client_out cn"
proof (cases ev)
  case Wakeup
  with Client_run_tasks_out[OF assms(1)] show ?thesis by (simp add: client_out_def)
next
  case (Conn_Event m so_error rds wrds)
  obtain ops where "uses_connection cb ops" "callback_sends ops = {}" using assms(2) by (auto simp: consumes_def)
  with client_callback_out[OF assms(1), of cb ops m so_error rds wrds] Conn_Event show ?thesis
    by (auto simp: puts_out_def client_out_def)
qed

text \<open>
  C13. What a client puts on the wire, from the moment it has its protocol object: an interleaving, piece by
  piece, of two sequences, what the caller's thread sends and what the message callback sends on
  the loop's thread (the settings acknowledgement of gRPC, or the answers of a handler).  The caller's
  sequence is the handshake of the protocol and then everything accepted for sending, in the order accepted; no
  piece is lost, doubled, split or overtaken by a later one of the caller, whatever happens on the loop's
  thread between the calls and between the pieces of one call (four for gRPC); what is not yet in the output
  stream is queued in the loop or still to be queued by the call in progress.  When the callback sends nothing,
  the output is exactly the caller's sequence.  The callback may read, send and close.
\<close>
theorem client_output_order:
  assumes "client_ready cn" and "stream (cn_conn cn) = []" and "pending_tasks (cn_loop cn) = []"
    and "k = ClientProtocolFactory_Create (cl_mode (cn_config cn))" and "uses_connection cb ops"
    and "foldl (client_do env cb) (cn\<lparr>cn_protocol := Some k\<rparr>, handshake_sends k, []) acts = (cn', left, sent)"
  shows "\<exists>cs xs. stream (cn_conn cn') @ concat (pending_tasks (cn_loop cn')) @ concat left = concat cs \<and>
      cs \<in> shuffles (handshake_sends k @ sent) xs \<and> set xs \<subseteq> callback_sends ops \<and>
      (callback_sends ops = {} \<longrightarrow> cs = handshake_sends k @ sent)"
proof -
  let ?h = "handshake_sends k" and ?S = "callback_sends ops"
  have "output_ok ?S ?h (cn\<lparr>cn_protocol := Some k\<rparr>, ?h, [])"
    using assms(1-3) by (auto simp: output_ok_def client_ready_def intro!: exI[of _ "[]"])
  moreover have "output_ok ?S ?h q \<Longrightarrow> output_ok ?S ?h (foldl (client_do env cb) q acts)" for q
    by (induction acts arbitrary: q) (simp_all add: output_ok_do[OF _ assms(5)])
  ultimately have "output_ok ?S ?h (cn', left, sent)" using assms(6) by metis
  then obtain out cs xs where o: "stream (cn_conn cn') = concat cs" "cs \<in> shuffles out xs" "set xs \<subseteq> ?S"
    "?h @ sent = out @ pending_tasks (cn_loop cn') @ left" by (auto simp: output_ok_def)
  have "cs @ pending_tasks (cn_loop cn') @ left \<in> shuffles (?h @ sent) xs" using shuffles_more[OF o(2)] o(4) by simp
  moreover have "?S = {} \<longrightarrow> cs @ pending_tasks (cn_loop cn') @ left = ?h @ sent" using o by auto
  ultimately show ?thesis using o(1,3)
    by (intro exI[of _ "cs @ pending_tasks (cn_loop cn') @ left"] exI[of _ xs]) simp
qed

text \<open>A gRPC client sends a message and the loop answers a read between its pieces; two pieces are still to be queued.\<close>

lemma client_output_order_witness:
  "\<exists>cn' left sent cs xs.
    foldl (client_do \<lparr>ce_pb = pb_data_only, ce_entries = \<lambda>_. []\<rparr> (Some (grpc_message_callback pb_data_only None ())))
      ((sample_client ''grpc'')\<lparr>cn_protocol := Some Grpc_Client\<rparr>, handshake_sends Grpc_Client, [])
      [Cl_Piece, Cl_Piece, Cl_Connect True Conn_Ok, Cl_Send (set_data ''m'' envelope_empty), Cl_Piece,
       Cl_Loop (Conn_Event EPOLLIN False [Rd (h2_settings 0)] []), Cl_Piece, Cl_Loop Wakeup] = (cn', left, sent) \<and>
    sent = grpc_sends pb_data_only (set_data ''m'' envelope_empty) \<and> length sent = 4 \<and>
    stream (cn_conn cn') @ concat (pending_tasks (cn_loop cn')) @ concat left = concat cs \<and>
    cs \<in> shuffles (handshake_sends Grpc_Client @ sent) xs \<and> set xs \<subseteq> {h2_settings 1}"
proof -
  let ?env = "\<lparr>ce_pb = pb_data_only, ce_entries = \<lambda>_. []\<rparr>" and ?cb = "Some (grpc_message_callback pb_data_only None ())"
  let ?acts = "[Cl_Piece, Cl_Piece, Cl_Connect True Conn_Ok, Cl_Send (set_data ''m'' envelope_empty), Cl_Piece,
       Cl_Loop (Conn_Event EPOLLIN False [Rd (h2_settings 0)] []), Cl_Piece, Cl_Loop Wakeup]"
  let ?q = "((sample_client ''grpc'')\<lparr>cn_protocol := Some Grpc_Client\<rparr>, handshake_sends Grpc_Client, [])"
  obtain cn' left sent where r: "foldl (client_do ?env ?cb) ?q ?acts = (cn', left, sent)" by (rule prod_cases3)
  have "snd (snd (foldl (client_do ?env ?cb) ?q ?acts)) = grpc_sends pb_data_only (set_data ''m'' envelope_empty)"
    by (simp add: sample_client_def Client_new_def Connection_new_def conn_call_def on_conn_def Connection_Send_def Connection_Connect_def
       Connection_IsConnected_def emit_def grpc_sends_def result_defs Let_def)
  then have sent: "sent = grpc_sends pb_data_only (set_data ''m'' envelope_empty)" "length sent = 4" using r by (simp_all add: grpc_sends_def Let_def)
  have p: "pending_tasks (cn_loop (sample_client ''grpc'')) = []"
    by (simp add: sample_client_def Client_new_def EventLoop_Init_def EventLoop_AddFd_def poller_defs EventLoop_new_def Let_def)
  have c: "client_ready (sample_client ''grpc'')" "stream (cn_conn (sample_client ''grpc'')) = []"
    using Buffer_new_inv[of "[]" 8]
    by (simp_all add: sample_client_def Client_new_def Connection_new_def conn_inv_def stream_def client_ready_def)
  have k: "Grpc_Client = ClientProtocolFactory_Create (cl_mode (cn_config (sample_client ''grpc'')))"
    by (simp add: sample_client_def Client_new_def ClientProtocolFactory_Create_def ClientConfig_default_def)
  obtain ops where ops: "uses_connection ?cb ops" "callback_sends ops \<subseteq> {h2_settings 1}" using grpc_message_callback_uses[of pb_data_only None "()"] by blast
  from client_output_order[OF c p k ops(1) r] obtain cs xs where
    "stream (cn_conn cn') @ concat (pending_tasks (cn_loop cn')) @ concat left = concat cs"
    "cs \<in> shuffles (handshake_sends Grpc_Client @ sent) xs" "set xs \<subseteq> callback_sends ops" by blast
  then have "stream (cn_conn cn') @ concat (pending_tasks (cn_loop cn')) @ concat left = concat cs \<and>
      cs \<in> shuffles (handshake_sends Grpc_Client @ sent) xs \<and> set xs \<subseteq> {h2_settings 1}"
    using subset_trans[OF _ ops(2)] by simp
  with r sent show ?thesis by blast
qed

end
