(* ===== verification/Log_Config.thy ===== *)
theory Log_Config
  imports Config
begin

text \<open>
  The configuration of the logger library (\<open>lib_logger/src/log_config.cc\<close>,
  \<open>include/logger/log_common.h\<close>): severity levels, the struct \<open>LoggerConfig\<close> with its defaults,
  and \<open>ParseConfig\<close>, which reads a text of the form \<open>key=value;key=value\<close>.  The network library
  produces such a text with \<open>ConfigParser::GenerateLoggerConfig\<close>.
\<close>

section \<open>Levels and settings\<close>

datatype LogLevel = Lv_Trace | Lv_Debug | Lv_Info | Lv_Warn | Lv_Error | Lv_Fatal | Lv_Critical

primrec level_num :: "LogLevel \<Rightarrow> nat" where
  "level_num Lv_Trace = 0"
| "level_num Lv_Debug = 1"
| "level_num Lv_Info = 2"
| "level_num Lv_Warn = 3"
| "level_num Lv_Error = 4"
| "level_num Lv_Fatal = 5"
| "level_num Lv_Critical = 6"

text \<open>The comparison of the enumeration.\<close>

instantiation LogLevel :: linorder
begin

definition less_eq_LogLevel :: "LogLevel \<Rightarrow> LogLevel \<Rightarrow> bool" where
  "less_eq_LogLevel a b \<longleftrightarrow> level_num a \<le> level_num b"

definition less_LogLevel :: "LogLevel \<Rightarrow> LogLevel \<Rightarrow> bool" where
  "less_LogLevel a b \<longleftrightarrow> level_num a < level_num b"

instance
proof
  fix a b :: LogLevel
  show "a \<le> b \<Longrightarrow> b \<le> a \<Longrightarrow> a = b"
    by (cases a; cases b) (simp_all add: less_eq_LogLevel_def)
qed (auto simp: less_eq_LogLevel_def less_LogLevel_def)

end

record LoggerConfig =
  lo_app_name :: string
  lo_thread_name :: string
  lo_console_enabled :: bool
  lo_file_enabled :: bool
  lo_file_path :: string
  lo_syslog_enabled :: bool
  lo_kafka_enabled :: bool
  lo_kafka_broker :: string
  lo_kafka_topic :: string
  lo_kafka_partition :: int
  lo_kafka_compression :: string
  lo_syslog_facility :: string
  lo_syslog_server :: string
  lo_rotation_size :: uint64
  lo_rotation_time :: string
  lo_max_backups :: int
  lo_rotation_compress :: bool
  lo_severity :: LogLevel
  lo_format :: string
  lo_timestamp_precision :: string
  lo_include_metadata :: bool
  lo_include_caller :: bool
  lo_async :: bool
  lo_async_queue_size :: uint64
  lo_flush_interval :: int
  lo_buffer_size :: uint64
  lo_batch_size :: uint64
  lo_overflow_policy :: string

definition LoggerConfig_default :: LoggerConfig where
  "LoggerConfig_default =
     \<lparr>lo_app_name = [], lo_thread_name = [], lo_console_enabled = True, lo_file_enabled = False, lo_file_path = [],
      lo_syslog_enabled = False, lo_kafka_enabled = False, lo_kafka_broker = [], lo_kafka_topic = [],
      lo_kafka_partition = -1, lo_kafka_compression = ''none'', lo_syslog_facility = ''LOCAL0'', lo_syslog_server = [],
      lo_rotation_size = 100 * 1024 * 1024, lo_rotation_time = ''24h'', lo_max_backups = 10, lo_rotation_compress = False,
      lo_severity = Lv_Info, lo_format = ''text'', lo_timestamp_precision = ''microsecond'', lo_include_metadata = True,
      lo_include_caller = True, lo_async = True, lo_async_queue_size = 100000, lo_flush_interval = 1000,
      lo_buffer_size = 4096, lo_batch_size = 100, lo_overflow_policy = ''discard_newest''\<rparr>"

section \<open>The parser\<close>

text \<open>\<open>toupper\<close> of the C locale.\<close>

definition to_upper :: "char \<Rightarrow> char" where
  "to_upper c = (if 97 \<le> (of_char c :: nat) \<and> (of_char c :: nat) \<le> 122 then char_of (of_char c - 32 :: nat) else c)"

definition StringToLogLevel :: "string \<Rightarrow> LogLevel" where
  "StringToLogLevel level =
     (let s = map to_upper level
      in if s = ''TRACE'' then Lv_Trace
         else if s = ''DEBUG'' then Lv_Debug
         else if s = ''INFO'' then Lv_Info
         else if s = ''WARN'' then Lv_Warn
         else if s = ''ERROR'' then Lv_Error
         else if s = ''FATAL'' then Lv_Fatal
         else if s = ''CRITICAL'' then Lv_Critical
         else Lv_Info)"

definition split_text :: "string \<Rightarrow> char \<Rightarrow> string list" where
  "split_text s delimiter = getlines delimiter s"

definition butlast2 :: "string \<Rightarrow> string" where
  "butlast2 s = take (length s - 2) s"

definition ParseBytes :: "string \<Rightarrow> uint64" where
  "ParseBytes s =
     (let suffix = map to_upper (drop (length s - 2) s);
          mn = (if length s > 2
                then if suffix = ''KB'' then (1024, butlast2 s)
                     else if suffix = ''MB'' then (1024 * 1024, butlast2 s)
                     else if suffix = ''GB'' then (1024 * 1024 * 1024, butlast2 s)
                     else if last s = CHR ''B'' then (1, butlast s)
                     else (1, s)
                else (1, s))
      in case stoull (snd mn) of Inr n \<Rightarrow> n * fst mn | Inl _ \<Rightarrow> 100 * 1024 * 1024)"

text \<open>
  \<open>s.back()\<close> of an empty string is undefined, and so is a product outside \<open>long long\<close>: no value.
\<close>

definition times_unit :: "int \<Rightarrow> int \<Rightarrow> int option" where
  "times_unit n mult = (if - (2 ^ 63) \<le> n * mult \<and> n * mult < 2 ^ 63 then Some (n * mult) else None)"

definition ParseDuration :: "string \<Rightarrow> int option" where
  "ParseDuration s =
     (let value = (\<lambda>num mult. case stoll num of Inr n \<Rightarrow> times_unit n mult | Inl _ \<Rightarrow> Some 1000)
      in if length s > 2 \<and> drop (length s - 2) s = ''ms'' then value (butlast2 s) 1
         else if s = [] then None
         else if last s = CHR ''s'' then value (butlast s) 1000
         else value s 1)"

text \<open>\<open>try { field = std::stoi(value); } catch(...) {}\<close>\<close>

definition assigned :: "exn + 'v \<Rightarrow> 'v \<Rightarrow> 'v" where
  "assigned r old = (case r of Inr v \<Rightarrow> v | Inl _ \<Rightarrow> old)"

definition apply_setting :: "string \<Rightarrow> string \<Rightarrow> LoggerConfig \<Rightarrow> LoggerConfig option" where
  "apply_setting key v c =
     (if key = ''appname'' then Some (c\<lparr>lo_app_name := v\<rparr>)
      else if key = ''thread_name'' then Some (c\<lparr>lo_thread_name := v\<rparr>)
      else if key = ''console'' then Some (c\<lparr>lo_console_enabled := v = ''true''\<rparr>)
      else if key = ''logfile'' then Some (c\<lparr>lo_file_enabled := True, lo_file_path := v\<rparr>)
      else if key = ''syslog'' then Some (c\<lparr>lo_syslog_enabled := v = ''true''\<rparr>)
      else if key = ''kafka'' then Some (c\<lparr>lo_kafka_enabled := v = ''true''\<rparr>)
      else if key = ''kafka_broker'' then Some (c\<lparr>lo_kafka_broker := v\<rparr>)
      else if key = ''kafka_topic'' then Some (c\<lparr>lo_kafka_topic := v\<rparr>)
      else if key = ''kafka_partition'' then Some (c\<lparr>lo_kafka_partition := assigned (stoi v) (lo_kafka_partition c)\<rparr>)
      else if key = ''kafka_compression'' then Some (c\<lparr>lo_kafka_compression := v\<rparr>)
      else if key = ''syslog_facility'' then Some (c\<lparr>lo_syslog_facility := v\<rparr>)
      else if key = ''syslog_server'' then Some (c\<lparr>lo_syslog_server := v\<rparr>)
      else if key = ''rotation_size'' then Some (c\<lparr>lo_rotation_size := ParseBytes v\<rparr>)
      else if key = ''rotation_time'' then Some (c\<lparr>lo_rotation_time := v\<rparr>)
      else if key = ''max_backups'' then Some (c\<lparr>lo_max_backups := assigned (stoi v) (lo_max_backups c)\<rparr>)
      else if key = ''rotation_compress'' then Some (c\<lparr>lo_rotation_compress := v = ''true''\<rparr>)
      else if key = ''severity'' then Some (c\<lparr>lo_severity := StringToLogLevel v\<rparr>)
      else if key = ''format'' then Some (c\<lparr>lo_format := v\<rparr>)
      else if key = ''timestamp_precision'' then Some (c\<lparr>lo_timestamp_precision := v\<rparr>)
      else if key = ''include_metadata'' then Some (c\<lparr>lo_include_metadata := v = ''true''\<rparr>)
      else if key = ''include_caller'' then Some (c\<lparr>lo_include_caller := v = ''true''\<rparr>)
      else if key = ''async'' then Some (c\<lparr>lo_async := v = ''true''\<rparr>)
      else if key = ''async_queue_size'' then Some (c\<lparr>lo_async_queue_size := assigned (stoull v) (lo_async_queue_size c)\<rparr>)
      else if key = ''flush_interval'' then map_option (\<lambda>d. c\<lparr>lo_flush_interval := d\<rparr>) (ParseDuration v)
      else if key = ''buffer_size'' then Some (c\<lparr>lo_buffer_size := assigned (stoull v) (lo_buffer_size c)\<rparr>)
      else if key = ''batch_size'' then Some (c\<lparr>lo_batch_size := assigned (stoull v) (lo_batch_size c)\<rparr>)
      else if key = ''overflow_policy'' then Some (c\<lparr>lo_overflow_policy := v\<rparr>)
      else Some c)"

definition apply_pair :: "string \<Rightarrow> LoggerConfig \<Rightarrow> LoggerConfig option" where
  "apply_pair pair c = (case split_text pair (CHR ''='') of [key, v] \<Rightarrow> apply_setting key v c | _ \<Rightarrow> Some c)"

primrec apply_pairs :: "string list \<Rightarrow> LoggerConfig \<Rightarrow> LoggerConfig option" where
  "apply_pairs [] c = Some c"
| "apply_pairs (p # ps) c = Option.bind (apply_pair p c) (apply_pairs ps)"

text \<open>A null pointer gives the defaults; a C string ends at its first NUL.\<close>

definition ParseConfig :: "string option \<Rightarrow> LoggerConfig option" where
  "ParseConfig config_string =
     (case config_string of
        None \<Rightarrow> Some LoggerConfig_default
      | Some s \<Rightarrow> apply_pairs (split_text (takeWhile (\<lambda>ch. ch \<noteq> CHR 0x00) s) (CHR '';'')) LoggerConfig_default)"

section \<open>What a text configures\<close>

lemma getlines_Nil_iff [simp]: "getlines d s = [] \<longleftrightarrow> s = []"
  by (cases s) (simp_all add: Let_def)

lemma getlines_last_empty: "getlines d s = [k, []] \<longleftrightarrow> d \<notin> set k \<and> s = k @ [d, d]"
proof
  assume lines: "getlines d s = [k, []]"
  then obtain c t where s: "s = c # t" by (cases s) auto
  define tok where "tok = takeWhile (\<lambda>x. x \<noteq> d) s"
  define rest where "rest = drop (Suc (length tok)) s"
  have k: "tok = k" and r: "getlines d rest = [[]]"
    using lines s by (auto simp: tok_def rest_def Let_def)
  have "d \<notin> set k" using k by (auto simp: tok_def dest: set_takeWhileD)
  moreover have "rest \<noteq> []" using r by auto
  then have s_eq: "s = k @ d # rest"
  proof -
    have "length tok < length s" using \<open>rest \<noteq> []\<close> by (simp add: rest_def)
    then have "s ! length tok = d" using nth_length_takeWhile[of "\<lambda>x. x \<noteq> d" s] by (simp add: tok_def)
    moreover have "take (length tok) s = tok" by (simp add: tok_def takeWhile_eq_take[symmetric])
    ultimately show ?thesis using \<open>length tok < length s\<close> k by (metis id_take_nth_drop rest_def)
  qed
  obtain c' t' where rest: "rest = c' # t'" using \<open>rest \<noteq> []\<close> by (cases rest) auto
  with r have "c' = d" "t' = []" by (auto simp: Let_def split: if_splits)
  ultimately show "d \<notin> set k \<and> s = k @ [d, d]" using s_eq rest by simp
next
  assume "d \<notin> set k \<and> s = k @ [d, d]"
  then show "getlines d s = [k, []]" using getlines_step[of d k "[d]"] by (simp add: Let_def)
qed

text \<open>A text made of settings, and what it does: an empty value leaves the field as it was.\<close>

definition setting_text :: "string \<times> string \<Rightarrow> string" where
  "setting_text kv = fst kv @ ''='' @ snd kv"

definition settings_text :: "(string \<times> string) list \<Rightarrow> string" where
  "settings_text kvs = concat (map (\<lambda>kv. setting_text kv @ '';'') kvs)"

primrec apply_settings :: "(string \<times> string) list \<Rightarrow> LoggerConfig \<Rightarrow> LoggerConfig option" where
  "apply_settings [] c = Some c"
| "apply_settings (kv # kvs) c =
     (if snd kv = [] then apply_settings kvs c else Option.bind (apply_setting (fst kv) (snd kv) c) (apply_settings kvs))"

definition clean :: "string \<Rightarrow> bool" where
  "clean s \<longleftrightarrow> CHR '';'' \<notin> set s \<and> CHR ''='' \<notin> set s \<and> CHR 0x00 \<notin> set s"

lemma apply_pair_setting:
  assumes "clean (fst kv)" and "clean (snd kv)"
  shows "apply_pair (setting_text kv) c = (if snd kv = [] then Some c else apply_setting (fst kv) (snd kv) c)"
  using assms getlines_step[of "CHR ''=''" "fst kv" "snd kv"] getlines_no_delim[of "CHR ''=''" "snd kv"]
  by (simp add: apply_pair_def split_text_def setting_text_def clean_def)

lemma split_settings:
  assumes "\<forall>kv \<in> set kvs. clean (fst kv) \<and> clean (snd kv)"
  shows "split_text (settings_text kvs) (CHR '';'') = map setting_text kvs"
  using assms
proof (induction kvs)
  case Nil
  then show ?case by (simp add: split_text_def settings_text_def)
next
  case (Cons kv kvs)
  then have "CHR '';'' \<notin> set (setting_text kv)" by (simp add: setting_text_def clean_def)
  from getlines_step[OF this, of "settings_text kvs"] Cons show ?case
    by (simp add: split_text_def settings_text_def)
qed

lemma settings_no_nul:
  assumes "\<forall>kv \<in> set kvs. clean (fst kv) \<and> clean (snd kv)"
  shows "takeWhile (\<lambda>ch. ch \<noteq> CHR 0x00) (settings_text kvs) = settings_text kvs"
  using assms by (auto simp: takeWhile_eq_all_conv settings_text_def setting_text_def clean_def)

lemma parse_settings:
  assumes "\<forall>kv \<in> set kvs. clean (fst kv) \<and> clean (snd kv)"
  shows "ParseConfig (Some (settings_text kvs)) = apply_settings kvs LoggerConfig_default"
proof -
  have "apply_pairs (map setting_text kvs) c = apply_settings kvs c" for c
    using assms
  proof (induction kvs arbitrary: c)
    case (Cons kv kvs)
    then have "\<And>c. apply_pairs (map setting_text kvs) c = apply_settings kvs c" by simp
    then have "apply_pairs (map setting_text kvs) = apply_settings kvs" by blast
    with Cons.prems show ?case by (simp add: apply_pair_setting)
  qed simp
  then show ?thesis by (simp only: ParseConfig_def option.case split_settings[OF assms] settings_no_nul[OF assms])
qed

lemma generated_settings:
  "ConfigParser_GenerateLoggerConfig c = settings_text
     ([(''severity'', lg_level c), (''format'', lg_format c)] @
      (if lg_output c = ''file'' \<or> lg_file_path c \<noteq> [] then [(''logfile'', lg_file_path c)] else []) @
      [(''console'', ''true'')] @ (if lg_compress c then [(''rotation_compress'', ''true'')] else []))"
  by (simp add: ConfigParser_GenerateLoggerConfig_def settings_text_def setting_text_def)

lemma setting_simps:
  "apply_setting ''severity'' v k = Some (k\<lparr>lo_severity := StringToLogLevel v\<rparr>)"
  "apply_setting ''format'' v k = Some (k\<lparr>lo_format := v\<rparr>)"
  "apply_setting ''logfile'' v k = Some (k\<lparr>lo_file_enabled := True, lo_file_path := v\<rparr>)"
  "apply_setting ''console'' v k = Some (k\<lparr>lo_console_enabled := v = ''true''\<rparr>)"
  "apply_setting ''rotation_compress'' v k = Some (k\<lparr>lo_rotation_compress := v = ''true''\<rparr>)"
  by (simp_all add: apply_setting_def)



text \<open>
  A duration has no value when the text is empty, or when it counts seconds and their
  milliseconds leave \<open>long long\<close>.
\<close>

lemma stoll_range: "stoll s = Inr n \<Longrightarrow> times_unit n 1 = Some n"
  by (auto simp: stoll_def stoi_range_def times_unit_def Let_def split: option.splits prod.splits if_splits)

lemma ParseDuration_None:
  "ParseDuration v = None \<longleftrightarrow>
     v = [] \<or> \<not> (2 < length v \<and> drop (length v - 2) v = ''ms'') \<and> last v = CHR ''s'' \<and>
              (\<exists>n. stoll (butlast v) = Inr n \<and> times_unit n 1000 = None)"
proof -
  have one: "(case stoll s of Inr n \<Rightarrow> times_unit n 1 | Inl _ \<Rightarrow> Some 1000) \<noteq> None" for s
    using stoll_range[of s] by (auto split: sum.split)
  have thousand: "(case stoll s of Inr n \<Rightarrow> times_unit n 1000 | Inl _ \<Rightarrow> Some 1000) = None \<longleftrightarrow>
      (\<exists>n. stoll s = Inr n \<and> times_unit n 1000 = None)" for s
    by (auto split: sum.split)
  show ?thesis
  proof (cases "v = []")
    case False
    then show ?thesis using one[of "butlast2 v"] one[of v] thousand[of "butlast v"]
      by (simp add: ParseDuration_def Let_def del: not_None_eq)
  qed (simp add: ParseDuration_def Let_def)
qed

text \<open>
  The parser is defined on every text except one that holds a setting \<open>flush_interval=v\<close> with
  such a duration: \<open>flush_interval==\<close> is one, and so is \<open>flush_interval=9223372036854776s\<close>.
\<close>

theorem logger_config_undefined:
  "ParseConfig (Some s) = None \<longleftrightarrow>
     (\<exists>p \<in> set (split_text (takeWhile (\<lambda>ch. ch \<noteq> CHR 0x00) s) (CHR '';'')).
        \<exists>v. split_text p (CHR ''='') = [''flush_interval'', v] \<and> ParseDuration v = None)"
proof -
  have setting: "apply_setting k v c = None \<longleftrightarrow> k = ''flush_interval'' \<and> ParseDuration v = None" for k v c
    by (simp add: apply_setting_def)
  have pair: "apply_pair p c = None \<longleftrightarrow>
      (\<exists>v. split_text p (CHR ''='') = [''flush_interval'', v] \<and> ParseDuration v = None)" for p c
    by (auto simp: apply_pair_def setting split: list.split)
  have "apply_pairs ps c = None \<longleftrightarrow>
      (\<exists>p \<in> set ps. \<exists>v. split_text p (CHR ''='') = [''flush_interval'', v] \<and> ParseDuration v = None)" for ps c
  proof (induction ps arbitrary: c)
    case (Cons p ps)
    then show ?case using pair[of p c] by (cases "apply_pair p c") auto
  qed simp
  then show ?thesis by (simp add: ParseConfig_def)
qed

lemma empty_flush_interval_undefined: "ParseConfig (Some ''flush_interval=='') = None"
proof -
  have "split_text ''flush_interval=='' (CHR ''='') = [''flush_interval'', []]"
    by (simp add: split_text_def getlines_last_empty)
  moreover have "split_text ''flush_interval=='' (CHR '';'') = [''flush_interval=='']" by code_simp
  ultimately show ?thesis by (simp add: logger_config_undefined ParseDuration_None)
qed

lemma long_flush_interval_undefined:
  assumes "n < 2 ^ 63" and "2 ^ 63 \<le> n * 1000"
  shows "ParseDuration (dec_str n @ ''s'') = None"
proof -
  obtain c where c: "c \<in> set (dec_str n)" "drop (length (dec_str n @ ''s'') - 2) (dec_str n @ ''s'') = [c, CHR ''s'']"
    using dec_str_digits[of n] by (cases "dec_str n" rule: rev_cases) auto
  moreover have "c \<noteq> CHR ''m''" using c(1) dec_str_digits[of n] by (auto simp: is_digit_def)
  moreover have "stoll (dec_str n) = Inr (int n)"
    using assms(1) by (simp add: stoll_def stoi_range_def strtol_dec_str)
  moreover have "times_unit (int n) 1000 = None"
    using assms(2) by (auto simp: times_unit_def)
  ultimately show ?thesis by (auto simp: ParseDuration_None)
qed

text \<open>A size is its number times its unit, modulo \<open>2^64\<close>; the unit may be in lower case.\<close>

lemma strtol_digits:
  assumes "rest = [] \<or> \<not> is_digit (hd rest)"
  shows "strtol (dec_str n @ rest) = Some (False, n)"
proof -
  obtain c t where ct: "dec_str n = c # t" using dec_str_digits[of n] by (cases "dec_str n") auto
  have "is_digit c" using dec_str_digits[of n] ct by auto
  moreover have "takeWhile is_digit (t @ rest) = t"
    using dec_str_digits[of n] ct assms by (cases rest) (auto simp: takeWhile_append)
  ultimately show ?thesis
    using digit_not_space[of c] digits_val_dec_str[of n] ct
    by (simp add: strtol_def Let_def del: takeWhile_eq_all_conv)
qed

lemma stoull_digits:
  "n < 2 ^ 64 \<Longrightarrow> rest = [] \<or> \<not> is_digit (hd rest) \<Longrightarrow> stoull (dec_str n @ rest) = Inr (of_nat n)"
  by (simp add: stoull_def strtol_digits)

lemma length_dec_str: "0 < length (dec_str n)"
  using dec_str_digits[of n] by simp

lemma digit_to_upper: "is_digit d \<Longrightarrow> to_upper d = d \<and> d \<noteq> CHR ''K'' \<and> d \<noteq> CHR ''M'' \<and> d \<noteq> CHR ''G'' \<and> d \<noteq> CHR ''B''"
  by (auto simp: is_digit_def to_upper_def)

lemma ParseBytes_unit:
  assumes "n < 2 ^ 64" and "length u = 2"
    and "(map to_upper u, m) \<in> {(''KB'', 1024), (''MB'', 1024 * 1024), (''GB'', 1024 * 1024 * 1024)}"
  shows "ParseBytes (dec_str n @ u) = of_nat n * m"
  using assms length_dec_str[of n] stoull_digits[of n "[]"]
  by (auto simp: ParseBytes_def Let_def butlast2_def)

lemma ParseBytes_digit_first:
  assumes "length s > 2" and "is_digit (s ! (length s - 2))"
  shows "ParseBytes s =
    (case stoull (if last s = CHR ''B'' then butlast s else s) of Inr n \<Rightarrow> n | Inl _ \<Rightarrow> 100 * 1024 * 1024)"
proof -
  have "drop (length s - 2) s = s ! (length s - 2) # drop (Suc (length s - 2)) s"
    using assms(1) by (intro Cons_nth_drop_Suc[symmetric]) simp
  with digit_to_upper[OF assms(2)] assms(1) show ?thesis
    by (auto simp: ParseBytes_def Let_def split: sum.split)
qed

lemma ParseBytes_number: "n < 2 ^ 64 \<Longrightarrow> ParseBytes (dec_str n) = of_nat n"
proof (cases "length (dec_str n) > 2")
  case True
  then have "is_digit (dec_str n ! (length (dec_str n) - 2))" and "is_digit (last (dec_str n))"
    using dec_str_digits[of n] by (auto simp: subset_iff last_conv_nth)
  moreover assume "n < 2 ^ 64"
  ultimately show ?thesis
    using digit_to_upper[of "last (dec_str n)"] ParseBytes_digit_first[OF True] stoull_digits[of n "[]"] by simp
next
  case False
  moreover assume "n < 2 ^ 64"
  ultimately show ?thesis using stoull_digits[of n "[]"] by (simp add: ParseBytes_def Let_def)
qed

lemma ParseBytes_bytes: "n < 2 ^ 64 \<Longrightarrow> ParseBytes (dec_str n @ ''B'') = of_nat n"
proof (cases "length (dec_str n) > 1")
  case True
  then have "length (dec_str n @ ''B'') > 2" by simp
  moreover have "is_digit ((dec_str n @ ''B'') ! (length (dec_str n @ ''B'') - 2))"
    using dec_str_digits[of n] True by (auto simp: subset_iff nth_append)
  moreover assume "n < 2 ^ 64"
  ultimately show ?thesis using ParseBytes_digit_first[of "dec_str n @ ''B''"] stoull_digits[of n "[]"] by simp
next
  case False
  then have "\<not> length (dec_str n @ ''B'') > 2" by simp
  moreover assume "n < 2 ^ 64"
  ultimately show ?thesis using stoull_digits[of n "''B''"] by (simp add: ParseBytes_def Let_def is_digit_def)
qed

theorem rotation_size_units:
  assumes "n < 2 ^ 64"
  shows "ParseBytes (dec_str n @ ''KB'') = of_nat n * 1024 \<and>
    ParseBytes (dec_str n @ ''mb'') = of_nat n * 1048576 \<and>
    ParseBytes (dec_str n @ ''GB'') = of_nat n * 1073741824 \<and>
    ParseBytes (dec_str n @ ''B'') = of_nat n \<and> ParseBytes (dec_str n) = of_nat n"
proof (intro conjI)
  show "ParseBytes (dec_str n @ ''KB'') = of_nat n * 1024"
    by (rule ParseBytes_unit[OF assms]) (simp_all add: to_upper_def)
  show "ParseBytes (dec_str n @ ''mb'') = of_nat n * 1048576"
  proof -
    have "map to_upper ''mb'' = ''MB''" by code_simp
    then show ?thesis using ParseBytes_unit[OF assms, of "''mb''" "1024 * 1024"] by simp
  qed
  show "ParseBytes (dec_str n @ ''GB'') = of_nat n * 1073741824"
    by (rule ParseBytes_unit[OF assms]) (simp_all add: to_upper_def)
qed (rule ParseBytes_bytes[OF assms] ParseBytes_number[OF assms])+

lemma rotation_size_units_witness:
  "ParseBytes (dec_str 100 @ ''mb'') = 104857600"
  using rotation_size_units[of 100] by simp

text \<open>
  A file path with an equals sign makes three tokens of its setting, which the parser drops
  without a report: the logger then writes no file.
\<close>

theorem logger_path_with_equals_dropped:
  assumes "clean a" and "clean b" and "b \<noteq> []"
  shows "ParseConfig (Some (ConfigParser_GenerateLoggerConfig
           \<lparr>lg_level = ''info'', lg_format = ''text'', lg_output = ''file'', lg_file_path = a @ ''='' @ b, lg_compress = False\<rparr>)) =
         Some LoggerConfig_default"
proof -
  let ?file = "''logfile='' @ a @ ''='' @ b"
  have tail: "getlines (CHR '';'') (?file @ '';'' @ ''console=true;'') = [?file, ''console=true'']"
  proof -
    have "getlines (CHR '';'') ''console=true;'' = [''console=true'']" by code_simp
    with getlines_step[of "CHR '';''" ?file "''console=true;''"] assms show ?thesis by (simp add: clean_def)
  qed
  have "getlines (CHR '';'') (''severity=info;format=text;'' @ ?file @ '';console=true;'') =
      [''severity=info'', ''format=text'', ?file, ''console=true'']"
    using getlines_step[of "CHR '';''" "''severity=info''" "''format=text;'' @ ?file @ '';console=true;''"]
      getlines_step[of "CHR '';''" "''format=text''" "?file @ '';console=true;''"] tail by simp
  moreover have "takeWhile (\<lambda>ch. ch \<noteq> CHR 0x00) (''severity=info;format=text;'' @ ?file @ '';console=true;'') =
      ''severity=info;format=text;'' @ ?file @ '';console=true;''"
    using assms by (auto simp: clean_def takeWhile_eq_all_conv)
  moreover have "apply_pair ?file k = Some k" for k
  proof -
    have "getlines (CHR ''='') ?file = ''logfile'' # a # getlines (CHR ''='') b"
      using getlines_step[of "CHR ''=''" "''logfile''" "a @ ''='' @ b"] getlines_step[of "CHR ''=''" a b] assms
      by (simp add: clean_def)
    moreover obtain t ts where "getlines (CHR ''='') b = t # ts" using assms(3) by (meson getlines_Nil_iff neq_Nil_conv)
    ultimately show ?thesis by (simp add: apply_pair_def split_text_def)
  qed
  moreover have "apply_pair (k @ ''='' @ v) c = apply_setting k v c" if "clean k" "clean v" "v \<noteq> []" for k v c
    using apply_pair_setting[of "(k, v)" c] that by (simp add: setting_text_def)
  note this[of "''severity''" "''info''"] this[of "''format''" "''text''"] this[of "''console''" "''true''"]
  moreover have "StringToLogLevel ''info'' = Lv_Info" by code_simp
  ultimately show ?thesis
    by (simp add: ParseConfig_def split_text_def ConfigParser_GenerateLoggerConfig_def setting_simps clean_def
        LoggerConfig_default_def)
qed

lemma logger_path_with_equals_dropped_witness:
  "ParseConfig (Some (ConfigParser_GenerateLoggerConfig
     \<lparr>lg_level = ''info'', lg_format = ''text'', lg_output = ''file'', lg_file_path = ''/var/log/day=1'', lg_compress = False\<rparr>)) =
   Some LoggerConfig_default"
  using logger_path_with_equals_dropped[of "''/var/log/day''" "''1''"] by (simp add: clean_def)

end
