(* ===== verification/Log_Sinks.thy ===== *)
theory Log_Sinks
  imports Log_Config "HOL-Library.Signed_Division" "HOL-Library.Sublist"
begin

text \<open>
  What the logger does with one entry (\<open>lib_logger/src/log_formatter.cc\<close>, \<open>sinks/*.cc\<close>): the text
  or JSON line, and the console, file, syslog and Kafka sinks.  The calendar, the text of a thread
  id and \<open>nlohmann::json::dump\<close> are parameters; \<open>dump\<close> throws on text that is not UTF-8, and so do the
  calls that use it, up to the worker that catches it.  The disk is a map from paths to contents with the
  answers of the file system; what a stream has written counts as contents of its file.
\<close>

section \<open>Formatting\<close>

record LogEntry =
  le_timestamp :: int
  le_level :: LogLevel
  le_message :: string
  le_file :: string
  le_line :: int
  le_function :: string
  le_thread_id :: nat
  le_thread_name :: string
  le_process_id :: int
  le_hostname :: string
  le_app_name :: string
  le_sequence :: uint64

datatype json_value = J_String string | J_Int int

text \<open>
  \<open>put_time\<close> of the local time of a time stamp in nanoseconds, thread ids as text, and \<open>dump\<close>: no value
  stands for its exception, which by default it throws for a string that is not UTF-8.
\<close>

record log_env =
  ev_text_time :: "int \<Rightarrow> string"
  ev_iso_time :: "int \<Rightarrow> string"
  ev_tid :: "nat \<Rightarrow> string"
  ev_dump :: "(string \<rightharpoonup> json_value) \<Rightarrow> string option"

primrec LevelToString :: "LogLevel \<Rightarrow> string" where
  "LevelToString Lv_Trace = ''TRACE''"
| "LevelToString Lv_Debug = ''DEBUG''"
| "LevelToString Lv_Info = ''INFO''"
| "LevelToString Lv_Warn = ''WARN''"
| "LevelToString Lv_Error = ''ERROR''"
| "LevelToString Lv_Fatal = ''FATAL''"
| "LevelToString Lv_Critical = ''CRITICAL''"

text \<open>\<open>setfill('0')\<close> and \<open>setw\<close>.\<close>

definition zero_padded :: "nat \<Rightarrow> string \<Rightarrow> string" where
  "zero_padded w s = replicate (w - length s) CHR ''0'' @ s"

definition micros :: "int \<Rightarrow> int" where
  "micros t = (t sdiv 1000) smod 1000000"

definition millis :: "int \<Rightarrow> int" where
  "millis t = (t sdiv 1000000) smod 1000"

text \<open>The part of a path after its last slash or backslash.\<close>

definition base_name :: "string \<Rightarrow> string" where
  "base_name path = rev (takeWhile (\<lambda>c. c \<noteq> CHR ''/'' \<and> c \<noteq> CHR 0x5C) (rev path))"

definition bracketed :: "string \<Rightarrow> string" where
  "bracketed s = ''['' @ s @ ''] ''"

definition FormatText :: "log_env \<Rightarrow> LogEntry \<Rightarrow> LoggerConfig \<Rightarrow> string" where
  "FormatText env e config =
     bracketed (ev_text_time env (le_timestamp e) @
       (if lo_timestamp_precision config = ''microsecond'' then ''.'' @ zero_padded 6 (dec_int (micros (le_timestamp e)))
        else if lo_timestamp_precision config = ''millisecond'' then ''.'' @ zero_padded 3 (dec_int (millis (le_timestamp e)))
        else [])) @
     bracketed (LevelToString (le_level e)) @
     (if lo_include_metadata config
      then bracketed (dec_int (le_process_id e) @ '':'' @ ev_tid env (le_thread_id e)) @
        (if le_thread_name e \<noteq> [] then bracketed (le_thread_name e) else [])
      else []) @
     (if lo_include_caller config \<and> le_file e \<noteq> []
      then bracketed (base_name (le_file e) @ '':'' @ dec_int (le_line e) @ '':'' @ le_function e) else []) @
     (if le_app_name e \<noteq> [] then bracketed (le_app_name e) else []) @
     le_message e"

definition json_unless :: "bool \<Rightarrow> string \<Rightarrow> json_value \<Rightarrow> (string \<rightharpoonup> json_value) \<Rightarrow> (string \<rightharpoonup> json_value)" where
  "json_unless absent k v j = (if absent then j else j(k \<mapsto> v))"

definition FormatJson :: "log_env \<Rightarrow> LogEntry \<Rightarrow> LoggerConfig \<Rightarrow> string option" where
  "FormatJson env e config =
     (let ts = ev_iso_time env (le_timestamp e) @ ''.'' @ zero_padded 6 (dec_int (micros (le_timestamp e))) @ ''Z'';
          j0 = [''timestamp'' \<mapsto> J_String ts, ''level'' \<mapsto> J_String (LevelToString (le_level e)),
                ''message'' \<mapsto> J_String (le_message e), ''process_id'' \<mapsto> J_Int (le_process_id e),
                ''thread_id'' \<mapsto> J_String (ev_tid env (le_thread_id e))];
          j1 = json_unless (le_thread_name e = []) ''thread_name'' (J_String (le_thread_name e)) j0;
          j2 = json_unless (le_file e = []) ''file'' (J_String (le_file e)) j1;
          j3 = json_unless (le_file e = []) ''line'' (J_Int (le_line e)) j2;
          j4 = json_unless (le_file e = []) ''function'' (J_String (le_function e)) j3;
          j5 = json_unless (le_hostname e = []) ''hostname'' (J_String (le_hostname e)) j4;
          j6 = json_unless (le_app_name e = []) ''app_name'' (J_String (le_app_name e)) j5
      in ev_dump env j6)"

definition LogFormatter_Format :: "log_env \<Rightarrow> LogEntry \<Rightarrow> LoggerConfig \<Rightarrow> string option" where
  "LogFormatter_Format env e config =
     (if lo_format config = ''json'' then FormatJson env e config else Some (FormatText env e config))"

section \<open>The file sink\<close>

text \<open>A disk: its files, and which calls the file system grants.\<close>

record disk =
  dk_files :: "string \<rightharpoonup> bytes"
  dk_can_open :: "string \<Rightarrow> bool"
  dk_can_rename :: "string \<Rightarrow> bool"
  dk_can_remove :: "string \<Rightarrow> bool"

definition disk_exists :: "string \<Rightarrow> disk \<Rightarrow> bool" where
  "disk_exists p d \<longleftrightarrow> dk_files d p \<noteq> None"

definition disk_remove :: "string \<Rightarrow> disk \<Rightarrow> disk option" where
  "disk_remove p d = (if dk_can_remove d p then Some (d\<lparr>dk_files := (dk_files d)(p := None)\<rparr>) else None)"

definition disk_rename :: "string \<Rightarrow> string \<Rightarrow> disk \<Rightarrow> disk option" where
  "disk_rename src dst d =
     (if dk_can_rename d src \<and> disk_exists src d
      then Some (d\<lparr>dk_files := (dk_files d)(src := None, dst := dk_files d src)\<rparr>) else None)"

record file_sink =
  fl_config :: LoggerConfig
  fl_path :: string
  fl_rotation_size :: nat
  fl_max_backups :: int
  fl_open :: bool
  fl_current_size :: nat

text \<open>Opening for appending makes an empty file where there is none.\<close>

definition FileSink_Open :: "file_sink \<times> disk \<Rightarrow> file_sink \<times> disk" where
  "FileSink_Open s =
     (case s of (k, d) \<Rightarrow>
        if dk_can_open d (fl_path k)
        then (let text = (case dk_files d (fl_path k) of None \<Rightarrow> [] | Some b \<Rightarrow> b)
              in (k\<lparr>fl_open := True, fl_current_size := length text\<rparr>,
                  d\<lparr>dk_files := (dk_files d)(fl_path k \<mapsto> text)\<rparr>))
        else (k\<lparr>fl_open := False\<rparr>, d))"

definition FileSink_Close :: "file_sink \<Rightarrow> file_sink" where
  "FileSink_Close k = k\<lparr>fl_open := False\<rparr>"

definition FileSink_new :: "LoggerConfig \<Rightarrow> disk \<Rightarrow> file_sink \<times> disk" where
  "FileSink_new config d =
     FileSink_Open (\<lparr>fl_config = config, fl_path = lo_file_path config, fl_rotation_size = unat (lo_rotation_size config),
        fl_max_backups = lo_max_backups config, fl_open = False, fl_current_size = 0\<rparr>, d)"

definition backup :: "string \<Rightarrow> nat \<Rightarrow> string" where
  "backup path i = path @ ''.'' @ dec_str i"

text \<open>
  The body of the \<open>try\<close> block statement by statement, with \<open>False\<close> when one throws and the rest is
  skipped: the oldest backup goes, backups \<open>i\<close> move to \<open>i + 1\<close> from the oldest down, the file moves
  to \<open>.1\<close>.
\<close>

definition drop_oldest :: "string \<Rightarrow> int \<Rightarrow> disk \<Rightarrow> bool \<times> disk" where
  "drop_oldest path n d =
     (if n > 0 \<and> disk_exists (backup path (nat n)) d
      then (case disk_remove (backup path (nat n)) d of None \<Rightarrow> (False, d) | Some d' \<Rightarrow> (True, d'))
      else (True, d))"

primrec shift_backups :: "string \<Rightarrow> nat \<Rightarrow> disk \<Rightarrow> bool \<times> disk" where
  "shift_backups path 0 d = (True, d)"
| "shift_backups path (Suc i) d =
     (if disk_exists (backup path (Suc i)) d
      then (case disk_rename (backup path (Suc i)) (backup path (Suc (Suc i))) d of
              None \<Rightarrow> (False, d)
            | Some d' \<Rightarrow> shift_backups path i d')
      else shift_backups path i d)"

definition rotate_files :: "string \<Rightarrow> int \<Rightarrow> disk \<Rightarrow> disk" where
  "rotate_files path n d =
     (case drop_oldest path n d of
        (False, d1) \<Rightarrow> d1
      | (True, d1) \<Rightarrow>
          (case shift_backups path (nat (n - 1)) d1 of
             (False, d2) \<Rightarrow> d2
           | (True, d2) \<Rightarrow> (case disk_rename path (backup path 1) d2 of None \<Rightarrow> d2 | Some d3 \<Rightarrow> d3)))"

definition FileSink_Rotate :: "file_sink \<times> disk \<Rightarrow> file_sink \<times> disk" where
  "FileSink_Rotate s =
     (case s of (k, d) \<Rightarrow> FileSink_Open (FileSink_Close k, rotate_files (fl_path k) (fl_max_backups k) d))"

text \<open>
  A stream that is not open takes nothing, but its size is counted.  The result says whether \<open>Write\<close>
  returns; when the formatting throws, the rotation has been done.
\<close>

definition FileSink_Write :: "log_env \<Rightarrow> LogEntry \<Rightarrow> file_sink \<times> disk \<Rightarrow> bool \<times> file_sink \<times> disk" where
  "FileSink_Write env e s =
     (case (if fl_rotation_size (fst s) > 0 \<and> fl_current_size (fst s) \<ge> fl_rotation_size (fst s)
            then FileSink_Rotate s else s) of
        (k, d) \<Rightarrow>
          (case LogFormatter_Format env e (fl_config k) of
             None \<Rightarrow> (False, k, d)
           | Some formatted \<Rightarrow>
               (True, k\<lparr>fl_current_size := fl_current_size k + length formatted + 1\<rparr>,
                if fl_open k
                then d\<lparr>dk_files := (dk_files d)(fl_path k := map_option (\<lambda>b. b @ formatted @ [LF]) (dk_files d (fl_path k)))\<rparr>
                else d)))"

section \<open>All sinks\<close>

datatype syslog_priority = LOG_DEBUG | LOG_INFO | LOG_WARNING | LOG_ERR | LOG_CRIT | LOG_EMERG

text \<open>What the sinks write to: the disk, the console, the system log with its last identification.\<close>

record outside =
  ou_disk :: disk
  ou_console :: string
  ou_ident :: "string option"
  ou_syslog :: "(syslog_priority \<times> string) list"

datatype log_sink = Console_Sink LoggerConfig | File_Sink file_sink | Syslog_Sink LoggerConfig | Kafka_Sink LoggerConfig

definition ConsoleSink_Write :: "log_env \<Rightarrow> LoggerConfig \<Rightarrow> LogEntry \<Rightarrow> outside \<Rightarrow> bool \<times> outside" where
  "ConsoleSink_Write env config e w =
     (case LogFormatter_Format env e config of
        None \<Rightarrow> (False, w)
      | Some formatted \<Rightarrow> (True, w\<lparr>ou_console := ou_console w @ formatted @ [LF]\<rparr>))"

primrec syslog_level :: "LogLevel \<Rightarrow> syslog_priority" where
  "syslog_level Lv_Trace = LOG_DEBUG"
| "syslog_level Lv_Debug = LOG_DEBUG"
| "syslog_level Lv_Info = LOG_INFO"
| "syslog_level Lv_Warn = LOG_WARNING"
| "syslog_level Lv_Error = LOG_ERR"
| "syslog_level Lv_Fatal = LOG_CRIT"
| "syslog_level Lv_Critical = LOG_EMERG"

definition SyslogSink_Write :: "log_env \<Rightarrow> LoggerConfig \<Rightarrow> LogEntry \<Rightarrow> outside \<Rightarrow> bool \<times> outside" where
  "SyslogSink_Write env config e w =
     (case LogFormatter_Format env e config of
        None \<Rightarrow> (False, w)
      | Some formatted \<Rightarrow>
          (True, w\<lparr>ou_syslog := ou_syslog w @ [(syslog_level (le_level e), takeWhile (\<lambda>c. c \<noteq> CHR 0x00) formatted)]\<rparr>))"

text \<open>
  \<open>Write\<close> of any sink: whether it returns, and what it leaves.  The Kafka sink is the stub compiled
  without \<open>ENABLE_KAFKA\<close>, the build's default.
\<close>

primrec LogSink_Write :: "log_env \<Rightarrow> LogEntry \<Rightarrow> outside \<Rightarrow> log_sink \<Rightarrow> bool \<times> log_sink \<times> outside" where
  "LogSink_Write env e w (Console_Sink c) = (case ConsoleSink_Write env c e w of (ok, w') \<Rightarrow> (ok, Console_Sink c, w'))"
| "LogSink_Write env e w (File_Sink k) =
     (case FileSink_Write env e (k, ou_disk w) of (ok, k', d') \<Rightarrow> (ok, File_Sink k', w\<lparr>ou_disk := d'\<rparr>))"
| "LogSink_Write env e w (Syslog_Sink c) = (case SyslogSink_Write env c e w of (ok, w') \<Rightarrow> (ok, Syslog_Sink c, w'))"
| "LogSink_Write env e w (Kafka_Sink c) = (True, Kafka_Sink c, w)"

definition SyslogSink_new :: "LoggerConfig \<Rightarrow> outside \<Rightarrow> log_sink \<times> outside" where
  "SyslogSink_new config w = (Syslog_Sink config, w\<lparr>ou_ident := Some (lo_app_name config)\<rparr>)"

text \<open>A destructor closes the file, or the connection to the system log.\<close>

primrec LogSink_delete :: "outside \<Rightarrow> log_sink \<Rightarrow> outside" where
  "LogSink_delete w (Console_Sink c) = w"
| "LogSink_delete w (File_Sink k) = w"
| "LogSink_delete w (Syslog_Sink c) = w\<lparr>ou_ident := None\<rparr>"
| "LogSink_delete w (Kafka_Sink c) = w"

section \<open>Rotation\<close>

text \<open>
  The line of an entry in a sink, none when its formatting throws, the kept number of backups, and all
  text kept, oldest first.
\<close>

definition log_line :: "log_env \<Rightarrow> LoggerConfig \<Rightarrow> LogEntry \<Rightarrow> string" where
  "log_line env config e = (case LogFormatter_Format env e config of None \<Rightarrow> [] | Some text \<Rightarrow> text @ [LF])"

definition kept :: "int \<Rightarrow> nat" where
  "kept n = max 1 (nat n)"

definition contents :: "disk \<Rightarrow> string \<Rightarrow> bytes" where
  "contents d p = (case dk_files d p of None \<Rightarrow> [] | Some b \<Rightarrow> b)"

definition backups_from :: "disk \<Rightarrow> string \<Rightarrow> nat \<Rightarrow> nat \<Rightarrow> bytes" where
  "backups_from d p k n = concat (map (\<lambda>i. contents d (backup p i)) (rev [Suc k..<Suc n]))"

definition log_history :: "disk \<Rightarrow> string \<Rightarrow> int \<Rightarrow> bytes" where
  "log_history d p n = backups_from d p 0 (kept n) @ contents d p"

definition disk_ok :: "disk \<Rightarrow> bool" where
  "disk_ok d \<longleftrightarrow> (\<forall>p. dk_can_open d p \<and> dk_can_rename d p \<and> dk_can_remove d p)"

lemma dec_str_inject [simp]: "dec_str m = dec_str n \<longleftrightarrow> m = n"
  by (metis digits_val_dec_str)

lemma backup_inject [simp]: "backup p i = backup p j \<longleftrightarrow> i = j"
  by (simp add: backup_def)

lemma backup_neq [simp]: "backup p i \<noteq> p" "p \<noteq> backup p i"
  by (simp_all add: backup_def)

lemma contents_simps [simp]:
  "contents (d\<lparr>dk_files := f\<rparr>) p = (case f p of None \<Rightarrow> [] | Some b \<Rightarrow> b)"
  by (simp add: contents_def)

lemma disk_ok_simps [simp]:
  "disk_ok (d\<lparr>dk_files := f\<rparr>) = disk_ok d"
  by (simp add: disk_ok_def)

lemma absent_contents: "\<not> disk_exists p d \<Longrightarrow> contents d p = []"
  by (simp add: disk_exists_def contents_def)

lemma files_idem: "dk_files d p = v \<Longrightarrow> d\<lparr>dk_files := (dk_files d)(p := v)\<rparr> = d"
  by (simp add: fun_upd_idem)

lemma drop_oldest_ok:
  assumes "disk_ok d"
  obtains d' where "drop_oldest p n d = (True, d')" and "disk_ok d'" and "n > 0 \<Longrightarrow> \<not> disk_exists (backup p (nat n)) d'"
    and "\<And>q. n > 0 \<Longrightarrow> q \<noteq> backup p (nat n) \<Longrightarrow> dk_files d' q = dk_files d q" and "n \<le> 0 \<Longrightarrow> d' = d"
proof
  let ?d = "if n > 0 then d\<lparr>dk_files := (dk_files d)(backup p (nat n) := None)\<rparr> else d"
  show "drop_oldest p n d = (True, ?d)"
    using assms files_idem[of d "backup p (nat n)" None]
    by (cases "dk_files d (backup p (nat n))") (simp_all add: drop_oldest_def disk_remove_def disk_exists_def disk_ok_def)
qed (use assms in \<open>auto simp: disk_exists_def\<close>)

lemma shift_backups_ok:
  assumes "disk_ok d" and "\<not> disk_exists (backup p (Suc i)) d"
  obtains d' where "shift_backups p i d = (True, d')" and "disk_ok d'" and "\<not> disk_exists (backup p 1) d'"
    and "\<And>j. 1 \<le> j \<Longrightarrow> j \<le> i \<Longrightarrow> dk_files d' (backup p (Suc j)) = dk_files d (backup p j)"
    and "\<And>q. q \<notin> backup p ` {1..Suc i} \<Longrightarrow> dk_files d' q = dk_files d q"
  using assms
proof (induction i arbitrary: d thesis)
  case 0
  show ?case by (rule "0.prems"(1)[of d]) (use "0.prems"(2,3) in simp_all)
next
  case (Suc i)
  let ?b = "backup p (Suc i)"
  define d1 where "d1 = d\<lparr>dk_files := (dk_files d)(?b := None, backup p (Suc (Suc i)) := dk_files d ?b)\<rparr>"
  have step: "shift_backups p (Suc i) d = shift_backups p i d1"
  proof (cases "disk_exists ?b d")
    case True
    with Suc.prems(2) show ?thesis by (simp add: disk_rename_def disk_ok_def d1_def)
  next
    case False
    then have "d1 = d"
      using Suc.prems(3) by (auto simp: d1_def disk_exists_def fun_upd_idem)
    with False show ?thesis by simp
  qed
  have "disk_ok d1" and free: "\<not> disk_exists ?b d1" using Suc.prems by (simp_all add: d1_def disk_exists_def)
  then obtain d' where d': "shift_backups p i d1 = (True, d')" "disk_ok d'" "\<not> disk_exists (backup p 1) d'"
    "\<And>j. 1 \<le> j \<Longrightarrow> j \<le> i \<Longrightarrow> dk_files d' (backup p (Suc j)) = dk_files d1 (backup p j)"
    "\<And>q. q \<notin> backup p ` {1..Suc i} \<Longrightarrow> dk_files d' q = dk_files d1 q"
    using Suc.IH[of d1] by blast
  show ?case
  proof (rule Suc.prems(1))
    show "shift_backups p (Suc i) d = (True, d')" using step d' by simp
  next
    fix j assume j: "1 \<le> j" "j \<le> Suc i"
    show "dk_files d' (backup p (Suc j)) = dk_files d (backup p j)"
    proof (cases "j = Suc i")
      case True
      then have "backup p (Suc j) \<notin> backup p ` {1..Suc i}" by auto
      from d'(5)[OF this] True show ?thesis by (simp add: d1_def)
    next
      case False
      with j d'(4)[of j] show ?thesis by (simp add: d1_def)
    qed
  next
    fix q assume q: "q \<notin> backup p ` {1..Suc (Suc i)}"
    then have "q \<notin> backup p ` {1..Suc i}" and "q \<noteq> ?b" and "q \<noteq> backup p (Suc (Suc i))" by auto
    with d'(5) show "dk_files d' q = dk_files d q" by (simp add: d1_def)
  qed (use d' in auto)
qed

text \<open>A rotation drops the oldest backup and makes every other file one older.\<close>

lemma contents_eq: "dk_files d p = dk_files d' q \<Longrightarrow> contents d p = contents d' q"
  by (simp add: contents_def)

lemma kept_pos: "n > 0 \<Longrightarrow> kept n = nat n"
  by (simp add: kept_def)

lemma kept_neg: "n \<le> 0 \<Longrightarrow> kept n = 1"
  by (simp add: kept_def)

lemma rotate_files_ok:
  assumes "disk_ok d" and "dk_files d p \<noteq> None"
  shows "disk_ok (rotate_files p n d)" and "dk_files (rotate_files p n d) p = None"
    and "contents (rotate_files p n d) (backup p 1) = contents d p"
    and "\<And>j. 1 \<le> j \<Longrightarrow> j < kept n \<Longrightarrow> contents (rotate_files p n d) (backup p (Suc j)) = contents d (backup p j)"
proof -
  obtain d1 where d1: "drop_oldest p n d = (True, d1)" "disk_ok d1" "n > 0 \<Longrightarrow> \<not> disk_exists (backup p (nat n)) d1"
    "\<And>q. n > 0 \<Longrightarrow> q \<noteq> backup p (nat n) \<Longrightarrow> dk_files d1 q = dk_files d q" "n \<le> 0 \<Longrightarrow> d1 = d"
    using drop_oldest_ok[OF assms(1), of p n] by blast
  obtain d2 where d2: "shift_backups p (nat (n - 1)) d1 = (True, d2)" "disk_ok d2" "dk_files d2 p = dk_files d p"
    "\<And>j. 1 \<le> j \<Longrightarrow> j < kept n \<Longrightarrow> dk_files d2 (backup p (Suc j)) = dk_files d (backup p j)"
  proof (cases "n > 0")
    case True
    define i where "i = nat (n - 1)"
    have i: "Suc i = nat n" using True by (simp add: i_def)
    then have "\<not> disk_exists (backup p (Suc i)) d1" using d1(3)[OF True] by simp
    then obtain d2 where s: "shift_backups p i d1 = (True, d2)" "disk_ok d2"
      "\<And>j. 1 \<le> j \<Longrightarrow> j \<le> i \<Longrightarrow> dk_files d2 (backup p (Suc j)) = dk_files d1 (backup p j)"
      "\<And>q. q \<notin> backup p ` {1..Suc i} \<Longrightarrow> dk_files d2 q = dk_files d1 q"
      by (rule shift_backups_ok[OF d1(2)]) (rule that)
    have "p \<notin> backup p ` {1..Suc i}" by auto
    then have "dk_files d2 p = dk_files d p" using s(4) d1(4)[OF True, of p] by simp
    moreover have "dk_files d2 (backup p (Suc j)) = dk_files d (backup p j)" if "1 \<le> j" "j < kept n" for j
      using s(3)[of j] d1(4)[OF True, of "backup p j"] that i by (simp add: kept_pos[OF True])
    ultimately show ?thesis using s(1,2) that[of d2] by (simp add: i_def)
  next
    case False
    then have "d1 = d" and "nat (n - 1) = 0" and "kept n = 1" using d1(5) by (simp_all add: kept_neg)
    with assms(1) show ?thesis by (intro that[of d]) simp_all
  qed
  have "rotate_files p n d = d2\<lparr>dk_files := (dk_files d2)(p := None, backup p 1 := dk_files d p)\<rparr>"
    using assms(2) d2 by (simp add: rotate_files_def d1(1) disk_rename_def disk_exists_def disk_ok_def)
  note rotated = this
  show "disk_ok (rotate_files p n d)" "dk_files (rotate_files p n d) p = None" using d2(2) by (simp_all add: rotated)
  show "contents (rotate_files p n d) (backup p 1) = contents d p"
    by (simp add: rotated contents_def)
  show "contents (rotate_files p n d) (backup p (Suc j)) = contents d (backup p j)" if "1 \<le> j" "j < kept n" for j
    using d2(4)[OF that] that by (simp add: rotated contents_def)
qed

text \<open>
  The invariant of a sink: its stream is open on its file and knows its size.  The text kept is what
  is left of the history \<open>H\<close> after the text \<open>D\<close> has been dropped; the newest \<open>k\<close> backups were made
  by the sink and are full, and as long as there is room for the others only they lost text.
\<close>

definition sink_tracks :: "file_sink \<Rightarrow> disk \<Rightarrow> bool" where
  "sink_tracks s d \<longleftrightarrow> disk_ok d \<and> fl_open s \<and>
     (\<exists>b. dk_files d (fl_path s) = Some b \<and> fl_current_size s = length b)"

definition sink_keeps :: "bytes \<Rightarrow> nat \<Rightarrow> file_sink \<Rightarrow> disk \<Rightarrow> nat \<Rightarrow> bytes \<Rightarrow> bool" where
  "sink_keeps H h s d k D \<longleftrightarrow>
     H = D @ log_history d (fl_path s) (fl_max_backups s) \<and>
     (\<forall>i. 1 \<le> i \<and> i \<le> min k (kept (fl_max_backups s)) \<longrightarrow> fl_rotation_size s \<le> length (contents d (backup (fl_path s) i))) \<and>
     (k \<le> kept (fl_max_backups s) \<longrightarrow>
        length D + length (backups_from d (fl_path s) k (kept (fl_max_backups s))) \<le> h)"

lemma backups_from_last:
  "k < n \<Longrightarrow> backups_from d p k n =
     contents d (backup p n) @ concat (map (\<lambda>i. contents d (backup p i)) (rev [Suc k..<n]))"
  by (simp add: backups_from_def)

lemma rev_upt_Suc: "rev [Suc (Suc k)..<Suc n] = map Suc (rev [Suc k..<n])"
  by (simp add: rev_map[symmetric] map_Suc_upt)

lemma backups_from_rotated:
  assumes "disk_ok d" and "dk_files d p \<noteq> None"
  shows "backups_from (rotate_files p n d) p (Suc k) (kept n) =
    concat (map (\<lambda>i. contents d (backup p i)) (rev [Suc k..<kept n]))"
  unfolding backups_from_def rev_upt_Suc map_map
  by (intro arg_cong[where f = concat] map_cong refl) (auto simp: rotate_files_ok(4)[OF assms])

lemma backups_from_first:
  "k < n \<Longrightarrow> backups_from d p k n = backups_from d p (Suc k) n @ contents d (backup p (Suc k))"
  by (cases "n = Suc k") (simp_all add: backups_from_def upt_rec[of "Suc k"])

lemma kept_positive: "0 < kept n"
  by (simp add: kept_def)

lemma log_history_rotated:
  assumes "disk_ok d" and "dk_files d p \<noteq> None"
  shows "log_history d p n = contents d (backup p (kept n)) @ log_history (rotate_files p n d) p n"
proof -
  have "contents (rotate_files p n d) p = []" using rotate_files_ok(2)[OF assms] by (simp add: contents_def)
  moreover have "backups_from (rotate_files p n d) p 0 (kept n) =
      backups_from (rotate_files p n d) p (Suc 0) (kept n) @ contents d p"
    using rotate_files_ok(3)[OF assms, of n] backups_from_first[OF kept_positive, of "rotate_files p n d" p n] by simp
  ultimately show ?thesis
    by (simp add: log_history_def backups_from_last[OF kept_positive] backups_from_rotated[OF assms])
qed

lemma FileSink_Rotate_ok:
  assumes "sink_tracks s d"
  shows "FileSink_Rotate (s, d) =
    (s\<lparr>fl_open := True, fl_current_size := 0\<rparr>,
     (rotate_files (fl_path s) (fl_max_backups s) d)
       \<lparr>dk_files := (dk_files (rotate_files (fl_path s) (fl_max_backups s) d))(fl_path s \<mapsto> [])\<rparr>)"
proof -
  have ok: "disk_ok d" and ex: "dk_files d (fl_path s) \<noteq> None" using assms by (auto simp: sink_tracks_def)
  then have "dk_can_open (rotate_files (fl_path s) (fl_max_backups s) d) (fl_path s)"
    using rotate_files_ok(1)[OF ok ex] by (simp add: disk_ok_def)
  then show ?thesis using rotate_files_ok(2)[OF ok ex]
    by (simp add: FileSink_Rotate_def FileSink_Close_def FileSink_Open_def)
qed

lemma same_contents:
  "(\<And>q. contents d q = contents d' q) \<Longrightarrow> log_history d p n = log_history d' p n \<and> backups_from d p k m = backups_from d' p k m"
  by (simp add: log_history_def backups_from_def)

lemma sink_rotates:
  assumes "sink_tracks s d" and "sink_keeps H h s d k D" and "fl_rotation_size s \<le> fl_current_size s"
    and "FileSink_Rotate (s, d) = (s', d')"
  shows "sink_tracks s' d' \<and> fl_current_size s' = 0 \<and>
    sink_keeps H h s' d' (Suc k) (D @ contents d (backup (fl_path s) (kept (fl_max_backups s))))"
proof -
  let ?p = "fl_path s" and ?n = "fl_max_backups s"
  let ?r = "rotate_files ?p ?n d"
  have ok: "disk_ok d" and ex: "dk_files d ?p \<noteq> None" and size: "fl_current_size s = length (contents d ?p)"
    using assms(1) by (auto simp: sink_tracks_def contents_def)
  note rotated = rotate_files_ok[OF ok ex, where n = ?n]
  have s': "s' = s\<lparr>fl_open := True, fl_current_size := 0\<rparr>" and d': "d' = ?r\<lparr>dk_files := (dk_files ?r)(?p \<mapsto> [])\<rparr>"
    using FileSink_Rotate_ok[OF assms(1)] assms(4) by simp_all
  have same: "contents d' q = contents ?r q" for q
    using rotated(2) by (simp add: d' contents_def)
  note hist = same_contents[of d' ?r, OF same]
  have full: "fl_rotation_size s \<le> length (contents ?r (backup ?p i))" if i: "1 \<le> i" "i \<le> min (Suc k) (kept ?n)" for i
  proof (cases "i = 1")
    case True
    then show ?thesis using rotated(3) assms(3) size by simp
  next
    case False
    then obtain j where j: "i = Suc j" "1 \<le> j" using i by (cases i) auto
    with i rotated(4)[of j] assms(2) show ?thesis by (simp add: sink_keeps_def)
  qed
  have "length (D @ contents d (backup ?p (kept ?n))) + length (backups_from ?r ?p (Suc k) (kept ?n)) \<le> h"
    if "Suc k \<le> kept ?n"
    using that assms(2) backups_from_rotated[OF ok ex, of ?n k] backups_from_last[of k "kept ?n" d ?p]
    by (simp add: sink_keeps_def)
  moreover have "sink_tracks s' d'" using rotated(1) by (simp add: sink_tracks_def s' d')
  ultimately show ?thesis using assms(2) full log_history_rotated[OF ok ex, of ?n]
    by (simp add: sink_keeps_def hist same) (simp add: s')
qed

lemma sink_appends:
  assumes "sink_tracks s d" and "sink_keeps H h s d k D"
    and "d' = d\<lparr>dk_files := (dk_files d)(fl_path s := map_option (\<lambda>b. b @ line) (dk_files d (fl_path s)))\<rparr>"
    and "s' = s\<lparr>fl_current_size := fl_current_size s + length line\<rparr>"
  shows "sink_tracks s' d' \<and> sink_keeps (H @ line) h s' d' k D"
proof -
  have "backups_from d' (fl_path s) i n = backups_from d (fl_path s) i n" for i n
    by (simp add: backups_from_def assms(3)) (simp add: contents_def)
  moreover have "contents d' (backup (fl_path s) i) = contents d (backup (fl_path s) i)" for i
    by (simp add: assms(3)) (simp add: contents_def)
  moreover have "contents d' (fl_path s) = contents d (fl_path s) @ line"
    using assms(1) by (auto simp: assms(3) sink_tracks_def contents_def)
  ultimately show ?thesis using assms(1,2)
    by (auto simp: sink_tracks_def sink_keeps_def log_history_def assms(3,4))
qed

lemma sink_writes:
  assumes "sink_tracks s d" and "sink_keeps H h s d k D" and "FileSink_Write env e (s, d) = (ok, s', d')"
  shows "\<exists>k' D'. sink_tracks s' d' \<and> sink_keeps (H @ log_line env (fl_config s) e) h s' d' k' D' \<and>
     fl_config s' = fl_config s \<and> fl_path s' = fl_path s \<and>
     fl_rotation_size s' = fl_rotation_size s \<and> fl_max_backups s' = fl_max_backups s \<and>
     (fl_rotation_size s > 0 \<longrightarrow> fl_current_size s' < fl_rotation_size s + length (log_line env (fl_config s) e))"
proof -
  let ?rot = "fl_rotation_size s > 0 \<and> fl_current_size s \<ge> fl_rotation_size s"
  obtain s1 d1 where r: "(if ?rot then FileSink_Rotate (s, d) else (s, d)) = (s1, d1)" by fastforce
  have s1: "fl_config s1 = fl_config s \<and> fl_path s1 = fl_path s \<and>
      fl_rotation_size s1 = fl_rotation_size s \<and> fl_max_backups s1 = fl_max_backups s"
    using r FileSink_Rotate_ok[OF assms(1)] by (auto split: if_splits)
  obtain k1 D1 where 1: "sink_tracks s1 d1" "sink_keeps H h s1 d1 k1 D1"
    "fl_rotation_size s > 0 \<Longrightarrow> fl_current_size s1 < fl_rotation_size s"
  proof (cases ?rot)
    case True
    with r sink_rotates[OF assms(1,2)] that show ?thesis by simp blast
  next
    case False
    with r assms(1,2) that show ?thesis by auto
  qed
  have open1: "fl_open s1" using 1(1) by (simp add: sink_tracks_def)
  have "s' = s1\<lparr>fl_current_size := fl_current_size s1 + length (log_line env (fl_config s) e)\<rparr>"
    and "d' = d1\<lparr>dk_files := (dk_files d1)(fl_path s1 := map_option (\<lambda>b. b @ log_line env (fl_config s) e) (dk_files d1 (fl_path s1)))\<rparr>"
    using assms(3) r open1 s1
    by (auto simp: FileSink_Write_def log_line_def option.map_ident split: option.splits)
  with sink_appends[OF 1(1,2) this(2,1)] 1(3) s1 show ?thesis by auto
qed

lemma sink_writes_all:
  assumes "sink_tracks s d" and "sink_keeps H h s d k D"
  shows "\<exists>k' D' s' d'. foldl (\<lambda>q e. snd (FileSink_Write env e q)) (s, d) es = (s', d') \<and> sink_tracks s' d' \<and>
    sink_keeps (H @ concat (map (log_line env (fl_config s)) es)) h s' d' k' D' \<and>
    fl_config s' = fl_config s \<and> fl_path s' = fl_path s \<and>
    fl_rotation_size s' = fl_rotation_size s \<and> fl_max_backups s' = fl_max_backups s \<and>
    (es \<noteq> [] \<and> fl_rotation_size s > 0 \<longrightarrow>
       fl_current_size s' < fl_rotation_size s + length (log_line env (fl_config s) (last es)))"
proof (induction es rule: rev_induct)
  case Nil
  with assms show ?case by auto
next
  case (snoc e es)
  then obtain k1 D1 s1 d1 where 1: "foldl (\<lambda>q e. snd (FileSink_Write env e q)) (s, d) es = (s1, d1)" "sink_tracks s1 d1"
    "sink_keeps (H @ concat (map (log_line env (fl_config s)) es)) h s1 d1 k1 D1"
    "fl_config s1 = fl_config s" "fl_path s1 = fl_path s"
    "fl_rotation_size s1 = fl_rotation_size s" "fl_max_backups s1 = fl_max_backups s" by blast
  obtain ok s' d' where w: "FileSink_Write env e (s1, d1) = (ok, s', d')" by (metis prod_cases3)
  from sink_writes[OF 1(2,3) w] show ?case using 1 w by auto
qed

lemma FileSink_new_ok:
  assumes "disk_ok d" and "FileSink_new config d = (s, d')"
  shows "fl_config s = config \<and> fl_path s = lo_file_path config \<and> fl_rotation_size s = unat (lo_rotation_size config) \<and>
    fl_max_backups s = lo_max_backups config \<and> sink_tracks s d' \<and> (\<forall>q. contents d' q = contents d q)"
proof -
  have s: "s = \<lparr>fl_config = config, fl_path = lo_file_path config, fl_rotation_size = unat (lo_rotation_size config),
      fl_max_backups = lo_max_backups config, fl_open = True, fl_current_size = length (contents d (lo_file_path config))\<rparr>"
    and d': "d' = d\<lparr>dk_files := (dk_files d)(lo_file_path config \<mapsto> contents d (lo_file_path config))\<rparr>"
    using assms by (auto simp: FileSink_new_def FileSink_Open_def disk_ok_def contents_def[symmetric] Let_def)
  have "contents d' q = contents d q" for q
    by (cases "q = lo_file_path config") (simp_all add: d', simp_all add: contents_def)
  then show ?thesis using assms(1) by (simp add: s sink_tracks_def) (simp add: d')
qed

lemma length_full: "(\<forall>i \<in> set is. r \<le> length (f i)) \<Longrightarrow> length is * r \<le> length (concat (map f is))"
  by (induction "is") auto

text \<open>
  C22. The file sink keeps the newest text.  After any number of writes the backups, oldest first, and the
  file hold a suffix of what they held before followed by the lines of the entries, in order (an entry
  whose formatting throws has none).  That suffix
  either has every line written, or is as long as all backups filled to the rotation size.
  \<open>max_backups\<close> below one counts as one.  The file exceeds the rotation size by less than a line.
\<close>

theorem file_sink_keeps_newest:
  assumes "disk_ok d"
    and "(s, d') = foldl (\<lambda>q e. snd (FileSink_Write env e q)) (FileSink_new config d) es"
  defines "p \<equiv> lo_file_path config" and "n \<equiv> lo_max_backups config" and "rot \<equiv> unat (lo_rotation_size config)"
    and "lines \<equiv> concat (map (log_line env config) es)"
  shows "suffix (log_history d' p n) (log_history d p n @ lines) \<and>
    (suffix lines (log_history d' p n) \<or> kept n * rot \<le> length (log_history d' p n)) \<and>
    (es \<noteq> [] \<and> rot > 0 \<longrightarrow> length (contents d' p) < rot + length (log_line env config (last es)))"
proof -
  obtain s0 d0 where new: "FileSink_new config d = (s0, d0)" by fastforce
  have s0: "fl_config s0 = config" "fl_path s0 = p" "fl_rotation_size s0 = rot" "fl_max_backups s0 = n"
    and "sink_tracks s0 d0" and "contents d0 q = contents d q" for q
    using FileSink_new_ok[OF assms(1) new] by (auto simp: p_def n_def rot_def)
  note tracks0 = this(5) and same = this(6)
  let ?H = "log_history d p n" and ?h = "length (backups_from d p 0 (kept n))"
  have "sink_keeps ?H ?h s0 d0 0 []"
    using same_contents[of d0 d, OF same] by (simp add: sink_keeps_def s0)
  from sink_writes_all[OF tracks0 this, of env es] obtain k D s1 d1 where
    "foldl (\<lambda>q e. snd (FileSink_Write env e q)) (s0, d0) es = (s1, d1)" and
    all1: "sink_tracks s1 d1 \<and> sink_keeps (?H @ lines) ?h s1 d1 k D \<and> fl_path s1 = p \<and> fl_rotation_size s1 = rot \<and>
      fl_max_backups s1 = n \<and>
      (es \<noteq> [] \<and> rot > 0 \<longrightarrow> fl_current_size s1 < rot + length (log_line env config (last es)))"
    unfolding s0 lines_def by blast
  then have "s1 = s" "d1 = d'" using assms(2) by (simp_all add: new)
  with all1 have all: "sink_tracks s d'" "sink_keeps (?H @ lines) ?h s d' k D" "fl_path s = p" "fl_rotation_size s = rot" "fl_max_backups s = n"
    and size: "es \<noteq> [] \<and> rot > 0 \<longrightarrow> fl_current_size s < rot + length (log_line env config (last es))"
    by blast+
  from all have split: "?H @ lines = D @ log_history d' p n" and size': "fl_current_size s = length (contents d' p)"
    by (auto simp: sink_keeps_def sink_tracks_def contents_def)
  have "suffix lines (log_history d' p n) \<or> kept n * rot \<le> length (log_history d' p n)"
  proof (cases "k \<le> kept n")
    case True
    with all have "length D \<le> length ?H" by (simp add: sink_keeps_def log_history_def)
    then have "log_history d' p n = drop (length D) ?H @ lines"
      using split by (metis append_eq_conv_conj drop_append diff_is_0_eq drop_0)
    then show ?thesis by (simp add: suffix_def)
  next
    case False
    with all have "\<forall>i. 1 \<le> i \<and> i \<le> kept n \<longrightarrow> rot \<le> length (contents d' (backup p i))"
      by (simp add: sink_keeps_def)
    then have "\<forall>i \<in> set (rev [Suc 0..<Suc (kept n)]). rot \<le> length (contents d' (backup p i))"
      by (simp del: upt_Suc)
    from length_full[OF this] have "kept n * rot \<le> length (backups_from d' p 0 (kept n))"
      by (simp add: backups_from_def del: upt_Suc)
    then show ?thesis by (simp add: log_history_def)
  qed
  with split size size' show ?thesis by (auto simp: suffix_def)
qed

text \<open>A file that rotates at every line, with one backup: two lines are kept.\<close>

definition sample_env :: log_env where
  "sample_env = \<lparr>ev_text_time = \<lambda>_. ''t'', ev_iso_time = \<lambda>_. ''t'', ev_tid = dec_str, ev_dump = \<lambda>_. None\<rparr>"

definition sample_log_config :: LoggerConfig where
  "sample_log_config = LoggerConfig_default
     \<lparr>lo_file_enabled := True, lo_file_path := ''app.log'', lo_rotation_size := 1, lo_max_backups := 1,
      lo_timestamp_precision := [], lo_include_metadata := False, lo_include_caller := False\<rparr>"

definition sample_entry :: "LogLevel \<Rightarrow> string \<Rightarrow> LogEntry" where
  "sample_entry level text =
     \<lparr>le_timestamp = 0, le_level = level, le_message = text, le_file = [], le_line = 0, le_function = [], le_thread_id = 1,
      le_thread_name = [], le_process_id = 1, le_hostname = [], le_app_name = [], le_sequence = 0\<rparr>"

definition empty_disk :: disk where
  "empty_disk = \<lparr>dk_files = \<lambda>_. None, dk_can_open = \<lambda>_. True, dk_can_rename = \<lambda>_. True, dk_can_remove = \<lambda>_. True\<rparr>"

lemma sample_line:
  "log_line sample_env sample_log_config (sample_entry Lv_Info [c]) = ''[t] [INFO] '' @ [c, LF]"
  by (simp add: log_line_def LogFormatter_Format_def FormatText_def sample_log_config_def sample_env_def
      sample_entry_def bracketed_def LoggerConfig_default_def)

lemma file_sink_keeps_newest_witness:
  "(let q = foldl (\<lambda>q e. snd (FileSink_Write sample_env e q)) (FileSink_new sample_log_config empty_disk)
        (map (\<lambda>c. sample_entry Lv_Info [c]) ''abc'')
    in suffix (log_history (snd q) ''app.log'' 1) (concat (map (\<lambda>c. ''[t] [INFO] '' @ [c, LF]) ''abc'')) \<and>
       length (contents (snd q) ''app.log'') < 16)"
proof -
  let ?es = "map (\<lambda>c. sample_entry Lv_Info [c]) ''abc''"
  let ?q = "foldl (\<lambda>q e. snd (FileSink_Write sample_env e q)) (FileSink_new sample_log_config empty_disk) ?es"
  have c: "lo_file_path sample_log_config = ''app.log''" "lo_max_backups sample_log_config = 1" "lo_rotation_size sample_log_config = 1"
    by (simp_all add: sample_log_config_def)
  have ok: "disk_ok empty_disk" by (simp add: disk_ok_def empty_disk_def)
  have "log_history empty_disk ''app.log'' 1 = []"
    by (simp add: log_history_def backups_from_def contents_def empty_disk_def)
  with file_sink_keeps_newest[OF ok surjective_pairing[symmetric], of sample_env sample_log_config ?es]
  show ?thesis unfolding Let_def c by (simp only: map_map comp_def sample_line) (simp add: sample_line)
qed

end
