(* ===== verification/Async_Logger.thy ===== *)
theory Async_Logger
  imports Log_Sinks
begin

text \<open>
  \<open>AsyncLogger\<close> (\<open>lib_logger/src/async_logger.cc\<close>): a bounded queue between the threads that log and a
  worker that hands batches to the sinks.  The threads are interleaved at the points where they
  read \<open>running_\<close>, take the mutex, wait on a condition variable or touch the sinks; each such step
  is a definition and \<open>log_step\<close> puts them together.  A condition variable wakes its waiters when it
  is notified and not otherwise.
\<close>

section \<open>State\<close>

datatype OverflowPolicy = BLOCK | DISCARD_OLDEST | DISCARD_NEWEST

definition kLogBatchSize :: nat where
  "kLogBatchSize = 32"

text \<open>
  Where the worker is: at the loop test, at the wait for entries, with a batch before and after it
  has notified the callers that wait for space, or returned.  Where \<open>Shutdown\<close> is: not called,
  waiting for the worker, with the entries it has drained, or done.
\<close>

datatype worker_pc = At_Test | At_Wait | Collected "LogEntry list" | Notified "LogEntry list" | Returned
datatype shutdown_pc = Not_Called | Joining | Drained "LogEntry list" | Shut_Down

text \<open>
  Where a caller of \<open>Enqueue\<close> (or, with \<open>True\<close>, of \<open>EnqueueWithTimeout\<close>) is: past the test of
  \<open>running_\<close>, asleep on \<open>space_cv_\<close>, or notified and not yet back under the mutex.
\<close>

datatype caller = Checked LogEntry bool | Asleep LogEntry bool | Woken LogEntry bool

record async_logger =
  al_config :: LoggerConfig
  al_sinks :: "log_sink list"
  al_queue :: "LogEntry list"
  al_running :: bool
  al_policy :: OverflowPolicy
  al_dropped :: nat
  al_processed :: nat
  al_worker :: worker_pc
  al_shutdown :: shutdown_pc
  al_callers :: "nat \<Rightarrow> caller option"

definition AsyncLogger_new :: async_logger where
  "AsyncLogger_new =
     \<lparr>al_config = LoggerConfig_default, al_sinks = [], al_queue = [], al_running = False, al_policy = BLOCK, al_dropped = 0,
      al_processed = 0, al_worker = Returned, al_shutdown = Not_Called, al_callers = \<lambda>_. None\<rparr>"

definition al_capacity :: "async_logger \<Rightarrow> nat" where
  "al_capacity l = unat (lo_async_queue_size (al_config l))"

definition AsyncLogger_AddSink :: "log_sink \<Rightarrow> async_logger \<Rightarrow> async_logger" where
  "AsyncLogger_AddSink s l = l\<lparr>al_sinks := al_sinks l @ [s]\<rparr>"

definition AsyncLogger_SetOverflowPolicy :: "OverflowPolicy \<Rightarrow> async_logger \<Rightarrow> async_logger" where
  "AsyncLogger_SetOverflowPolicy p l = l\<lparr>al_policy := p\<rparr>"

definition AsyncLogger_GetQueueSize :: "async_logger \<Rightarrow> nat" where
  "AsyncLogger_GetQueueSize l = length (al_queue l)"

definition overflow_policy :: "LoggerConfig \<Rightarrow> OverflowPolicy" where
  "overflow_policy config =
     (if lo_overflow_policy config = ''block'' then BLOCK
      else if lo_overflow_policy config = ''discard_oldest'' then DISCARD_OLDEST else DISCARD_NEWEST)"

definition add_when :: "bool \<Rightarrow> (outside \<Rightarrow> log_sink \<times> outside) \<Rightarrow> async_logger \<times> outside \<Rightarrow> async_logger \<times> outside" where
  "add_when enabled build q =
     (if enabled then (case build (snd q) of (s, w) \<Rightarrow> (AsyncLogger_AddSink s (fst q), w)) else q)"

definition AsyncLogger_Initialize :: "LoggerConfig \<Rightarrow> async_logger \<times> outside \<Rightarrow> async_logger \<times> outside" where
  "AsyncLogger_Initialize config q0 =
     (let q1 = ((fst q0)\<lparr>al_config := config, al_policy := overflow_policy config\<rparr>, snd q0);
          q2 = add_when (lo_console_enabled config) (\<lambda>w. (Console_Sink config, w)) q1;
          q3 = add_when (lo_file_enabled config \<and> lo_file_path config \<noteq> [])
                 (\<lambda>w. case FileSink_new config (ou_disk w) of (k, d) \<Rightarrow> (File_Sink k, w\<lparr>ou_disk := d\<rparr>)) q2;
          q4 = add_when (lo_syslog_enabled config) (SyslogSink_new config) q3;
          q5 = add_when (lo_kafka_enabled config) (\<lambda>w. (Kafka_Sink config, w)) q4
      in ((fst q5)\<lparr>al_running := True, al_worker := At_Test\<rparr>, snd q5))"

section \<open>Processing a batch\<close>

text \<open>
  Every sink in turn takes all entries of the batch.  An exception of \<open>Write\<close> is caught at the entry, so
  that the next one is written; nothing says that this one is missing, and it counts as processed.
\<close>

primrec write_entries :: "log_env \<Rightarrow> LogEntry list \<Rightarrow> log_sink \<times> outside \<Rightarrow> log_sink \<times> outside" where
  "write_entries env [] q = q"
| "write_entries env (e # es) q =
     (case LogSink_Write env e (snd q) (fst q) of
        (True, s, w) \<Rightarrow> write_entries env es (s, w)
      | (False, s, w) \<Rightarrow> write_entries env es (s, w))"

primrec write_sinks :: "log_env \<Rightarrow> LogEntry list \<Rightarrow> log_sink list \<Rightarrow> outside \<Rightarrow> log_sink list \<times> outside" where
  "write_sinks env es [] w = ([], w)"
| "write_sinks env es (s # ss) w =
     (case write_entries env es (s, w) of
        (s', w1) \<Rightarrow> (case write_sinks env es ss w1 of (ss', w2) \<Rightarrow> (s' # ss', w2)))"

definition AsyncLogger_ProcessBatch :: "log_env \<Rightarrow> LogEntry list \<Rightarrow> async_logger \<times> outside \<Rightarrow> async_logger \<times> outside" where
  "AsyncLogger_ProcessBatch env batch q =
     (case write_sinks env batch (al_sinks (fst q)) (snd q) of
        (ss, w) \<Rightarrow> ((fst q)\<lparr>al_sinks := ss, al_processed := al_processed (fst q) + length batch\<rparr>, w))"

section \<open>Enqueueing\<close>

text \<open>
  What a caller gets under the mutex: its entry is in the queue, it is dropped for lack of space, it
  must wait for space, or the logger has stopped.  No value stands for \<open>pop\<close> on an empty queue.
\<close>

datatype enqueue_result = Accepted | Dropped | Must_Wait | Stopped

definition push_entry :: "LogEntry \<Rightarrow> async_logger \<Rightarrow> async_logger" where
  "push_entry e l = l\<lparr>al_queue := al_queue l @ [e]\<rparr>"

definition AsyncLogger_TryEnqueue :: "LogEntry \<Rightarrow> async_logger \<Rightarrow> (enqueue_result \<times> async_logger) option" where
  "AsyncLogger_TryEnqueue e l =
     (if length (al_queue l) \<ge> al_capacity l
      then (case al_policy l of
              BLOCK \<Rightarrow> Some (if al_running l then Must_Wait else Stopped, l)
            | DISCARD_OLDEST \<Rightarrow>
                (if al_queue l = [] then None
                 else Some (Accepted, push_entry e (l\<lparr>al_queue := tl (al_queue l), al_dropped := al_dropped l + 1\<rparr>)))
            | DISCARD_NEWEST \<Rightarrow> Some (Dropped, l\<lparr>al_dropped := al_dropped l + 1\<rparr>))
      else Some (Accepted, push_entry e l))"

text \<open>A waiting caller back under the mutex tests its predicate; one whose time is up gives up.\<close>

definition resume_wait :: "LogEntry \<Rightarrow> async_logger \<Rightarrow> enqueue_result \<times> async_logger" where
  "resume_wait e l =
     (if length (al_queue l) < al_capacity l \<or> \<not> al_running l
      then (if al_running l then (Accepted, push_entry e l) else (Stopped, l))
      else (Must_Wait, l))"

definition time_out :: "LogEntry \<Rightarrow> async_logger \<Rightarrow> enqueue_result \<times> async_logger" where
  "time_out e l =
     (case resume_wait e l of
        (Must_Wait, _) \<Rightarrow> (Dropped, l\<lparr>al_dropped := al_dropped l + 1\<rparr>)
      | r \<Rightarrow> r)"

text \<open>A caller that is done is no longer in the table.\<close>

definition settle :: "nat \<Rightarrow> LogEntry \<Rightarrow> bool \<Rightarrow> enqueue_result \<times> async_logger \<Rightarrow> enqueue_result \<times> async_logger" where
  "settle i e timed r =
     (fst r, (snd r)\<lparr>al_callers := (al_callers (snd r))(i := if fst r = Must_Wait then Some (Asleep e timed) else None)\<rparr>)"

section \<open>Steps\<close>

datatype log_act =
    Call nat LogEntry bool
  | Lock nat
  | Wake nat
  | Time_Out nat
  | Worker_Step
  | Stop_Call
  | Drain
  | Finish
  | Set_Policy OverflowPolicy

text \<open>What a step makes of entries: it accepts or refuses one, or hands a batch to the sinks.\<close>

datatype log_event = Quiet | Took LogEntry | Refused LogEntry | Handed "LogEntry list"

definition event_of :: "LogEntry \<Rightarrow> enqueue_result \<Rightarrow> log_event" where
  "event_of e r = (case r of Accepted \<Rightarrow> Took e | Dropped \<Rightarrow> Refused e | _ \<Rightarrow> Quiet)"

definition caller_step :: "nat \<Rightarrow> LogEntry \<Rightarrow> bool \<Rightarrow> enqueue_result \<times> async_logger \<Rightarrow> log_event \<times> async_logger" where
  "caller_step i e timed r = (event_of e (fst r), snd (settle i e timed r))"

text \<open>The worker: \<open>wait_for\<close> returns when there are entries, when the logger stops or after 100 ms.\<close>

definition notify_space :: "async_logger \<Rightarrow> async_logger" where
  "notify_space l = l\<lparr>al_callers := \<lambda>i. case al_callers l i of Some (Asleep e t) \<Rightarrow> Some (Woken e t) | c \<Rightarrow> c\<rparr>"

definition worker_step :: "log_env \<Rightarrow> async_logger \<times> outside \<Rightarrow> (log_event \<times> async_logger \<times> outside) option" where
  "worker_step env q =
     (case q of (l, w) \<Rightarrow>
        (case al_worker l of
           At_Test \<Rightarrow> Some (Quiet, l\<lparr>al_worker := if al_running l then At_Wait else Returned\<rparr>, w)
         | At_Wait \<Rightarrow>
             (if \<not> al_running l \<and> al_queue l = [] then Some (Quiet, l\<lparr>al_worker := Returned\<rparr>, w)
              else (let batch = take kLogBatchSize (al_queue l)
                    in Some (Quiet, l\<lparr>al_queue := drop kLogBatchSize (al_queue l),
                                      al_worker := if batch = [] then At_Test else Collected batch\<rparr>, w)))
         | Collected batch \<Rightarrow> Some (Quiet, (notify_space l)\<lparr>al_worker := Notified batch\<rparr>, w)
         | Notified batch \<Rightarrow> Some (Handed batch, AsyncLogger_ProcessBatch env batch (l\<lparr>al_worker := At_Test\<rparr>, w))
         | Returned \<Rightarrow> None))"

text \<open>
  \<open>Shutdown\<close>: the exchange of \<open>running_\<close>, after which \<open>queue_cv_\<close> is notified; the drain once the
  worker has returned; the last batch, and the end of the sinks.
\<close>

definition shutdown_step :: "log_env \<Rightarrow> async_logger \<times> outside \<Rightarrow> (log_event \<times> async_logger \<times> outside) option" where
  "shutdown_step env q =
     (case q of (l, w) \<Rightarrow>
        (case al_shutdown l of
           Joining \<Rightarrow>
             (if al_worker l = Returned then Some (Quiet, l\<lparr>al_queue := [], al_shutdown := Drained (al_queue l)\<rparr>, w) else None)
         | Drained rest \<Rightarrow>
             (case (if rest = [] then (l, w) else AsyncLogger_ProcessBatch env rest (l, w)) of
                (l1, w1) \<Rightarrow> Some (Handed rest, l1\<lparr>al_sinks := [], al_shutdown := Shut_Down\<rparr>, foldl LogSink_delete w1 (al_sinks l1)))
         | _ \<Rightarrow> None))"

definition stop_call :: "async_logger \<Rightarrow> async_logger" where
  "stop_call l = (if al_running l then l\<lparr>al_running := False, al_shutdown := Joining\<rparr> else l)"

definition log_step :: "log_env \<Rightarrow> log_act \<Rightarrow> async_logger \<times> outside \<Rightarrow> (log_event \<times> async_logger \<times> outside) option" where
  "log_step env a q =
     (case q of (l, w) \<Rightarrow>
        (case a of
           Call i e timed \<Rightarrow>
             (if al_callers l i \<noteq> None then None
              else Some (Quiet, (if al_running l then l\<lparr>al_callers := (al_callers l)(i \<mapsto> Checked e timed)\<rparr> else l), w))
         | Lock i \<Rightarrow>
             (case al_callers l i of
                Some (Checked e timed) \<Rightarrow>
                  map_option (\<lambda>r. case caller_step i e timed r of (ev, l') \<Rightarrow> (ev, l', w)) (AsyncLogger_TryEnqueue e l)
              | _ \<Rightarrow> None)
         | Wake i \<Rightarrow>
             (case al_callers l i of
                Some (Woken e timed) \<Rightarrow> (case caller_step i e timed (resume_wait e l) of (ev, l') \<Rightarrow> Some (ev, l', w))
              | _ \<Rightarrow> None)
         | Time_Out i \<Rightarrow>
             (case al_callers l i of
                Some (Asleep e True) \<Rightarrow> (case caller_step i e True (time_out e l) of (ev, l') \<Rightarrow> Some (ev, l', w))
              | _ \<Rightarrow> None)
         | Worker_Step \<Rightarrow> worker_step env (l, w)
         | Stop_Call \<Rightarrow> Some (Quiet, stop_call l, w)
         | Drain \<Rightarrow> (case al_shutdown l of Joining \<Rightarrow> shutdown_step env (l, w) | _ \<Rightarrow> None)
         | Finish \<Rightarrow> (case al_shutdown l of Drained rest \<Rightarrow> shutdown_step env (l, w) | _ \<Rightarrow> None)
         | Set_Policy p \<Rightarrow> Some (Quiet, AsyncLogger_SetOverflowPolicy p l, w)))"

section \<open>Runs\<close>

primrec taken :: "log_event \<Rightarrow> LogEntry list" where
  "taken Quiet = []" | "taken (Took e) = [e]" | "taken (Refused e) = []" | "taken (Handed es) = []"

primrec refused :: "log_event \<Rightarrow> nat" where
  "refused Quiet = 0" | "refused (Took e) = 0" | "refused (Refused e) = 1" | "refused (Handed es) = 0"

primrec handed :: "log_event \<Rightarrow> LogEntry list" where
  "handed Quiet = []" | "handed (Took e) = []" | "handed (Refused e) = []" | "handed (Handed es) = es"

text \<open>
  \<open>log_run env q0 q acc r don\<close>: from \<open>q0\<close> some interleaving of steps leads to \<open>q\<close>; it has accepted the
  entries \<open>acc\<close> in this order, refused \<open>r\<close> for lack of space, and handed \<open>don\<close> to the sinks.
\<close>

inductive log_run :: "log_env \<Rightarrow> async_logger \<times> outside \<Rightarrow> async_logger \<times> outside \<Rightarrow> LogEntry list \<Rightarrow> nat \<Rightarrow> LogEntry list \<Rightarrow> bool"
  for env and q0 where
  run_start: "log_run env q0 q0 [] 0 []"
| run_step: "log_run env q0 q acc r don \<Longrightarrow> log_step env a q = Some (ev, q') \<Longrightarrow>
    log_run env q0 q' (acc @ taken ev) (r + refused ev) (don @ handed ev)"

text \<open>A given schedule of steps, with what it does.\<close>

primrec log_exec :: "log_env \<Rightarrow> log_act list \<Rightarrow> async_logger \<times> outside \<Rightarrow> (log_event list \<times> async_logger \<times> outside) option" where
  "log_exec env [] q = Some ([], q)"
| "log_exec env (a # as) q =
     (case log_step env a q of
        None \<Rightarrow> None
      | Some (ev, q1) \<Rightarrow> (case log_exec env as q1 of None \<Rightarrow> None | Some (evs, q2) \<Rightarrow> Some (ev # evs, q2)))"

lemma log_run_exec:
  assumes "log_run env q0 q acc r don" and "log_exec env as q = Some (evs, q')"
  shows "log_run env q0 q' (acc @ concat (map taken evs)) (r + sum_list (map refused evs)) (don @ concat (map handed evs))"
  using assms
proof (induction as arbitrary: q acc r don evs)
  case (Cons a as)
  from Cons.prems(2) obtain ev q1 evs' where s: "log_step env a q = Some (ev, q1)" "log_exec env as q1 = Some (evs', q')"
    "evs = ev # evs'" by (auto split: option.splits)
  from Cons.IH[OF run_step[OF Cons.prems(1) s(1)] s(2)] s(3) show ?case by (simp add: add.assoc)
qed simp

lemma log_exec_append:
  "log_exec env as q = Some (evs, q1) \<Longrightarrow> log_exec env bs q1 = Some (evs', q2) \<Longrightarrow>
     log_exec env (as @ bs) q = Some (evs @ evs', q2)"
  by (induction as arbitrary: q evs) (auto split: option.splits)

section \<open>Accounting\<close>

text \<open>The entries that are neither queued nor handed to the sinks: a batch, or what a shutdown has drained.\<close>

definition held :: "async_logger \<Rightarrow> LogEntry list" where
  "held l =
     (case al_worker l of Collected b \<Rightarrow> b | Notified b \<Rightarrow> b | _ \<Rightarrow> []) @
     (case al_shutdown l of Drained b \<Rightarrow> b | _ \<Rightarrow> [])"

definition log_inv :: "async_logger \<Rightarrow> LogEntry list \<Rightarrow> nat \<Rightarrow> LogEntry list \<Rightarrow> bool" where
  "log_inv l acc r don \<longleftrightarrow>
     subseq (don @ held l @ al_queue l) acc \<and>
     length acc + r = length don + length (held l) + length (al_queue l) + al_dropped l \<and>
     al_processed l = length don \<and>
     (al_capacity l > 0 \<longrightarrow> length (al_queue l) \<le> al_capacity l) \<and>
     (\<forall>b. al_worker l = Collected b \<or> al_worker l = Notified b \<longrightarrow> length b \<le> kLogBatchSize) \<and>
     (\<forall>b. al_shutdown l = Drained b \<or> al_shutdown l = Shut_Down \<longrightarrow> al_worker l = Returned) \<and>
     (al_running l \<longleftrightarrow> al_shutdown l = Not_Called) \<and>
     (al_running l \<longrightarrow> al_worker l \<noteq> Returned)"

text \<open>A step of a caller touches only the queue, the counters and the table.\<close>

definition only_queue :: "async_logger \<Rightarrow> async_logger \<Rightarrow> bool" where
  "only_queue l l' \<longleftrightarrow> (\<exists>q d c. l' = l\<lparr>al_queue := q, al_dropped := d, al_callers := c\<rparr>)"

lemma only_queueD:
  assumes "only_queue l l'"
  shows "held l' = held l" "al_capacity l' = al_capacity l" "al_worker l' = al_worker l" "al_shutdown l' = al_shutdown l"
    "al_running l' = al_running l" "al_processed l' = al_processed l" "al_policy l' = al_policy l" "al_sinks l' = al_sinks l"
    "al_config l' = al_config l"
  using assms by (auto simp: only_queue_def held_def al_capacity_def)

text \<open>What a caller may do to the queue: append its entry, append it in place of the oldest, or nothing.\<close>

definition entry_change :: "LogEntry \<Rightarrow> async_logger \<Rightarrow> enqueue_result \<Rightarrow> async_logger \<Rightarrow> bool" where
  "entry_change e l res l' \<longleftrightarrow>
     (res = Accepted \<and> al_queue l' = al_queue l @ [e] \<and> al_dropped l' = al_dropped l \<and> length (al_queue l) < al_capacity l) \<or>
     (res = Accepted \<and> al_queue l \<noteq> [] \<and> al_queue l' = tl (al_queue l) @ [e] \<and> al_dropped l' = al_dropped l + 1) \<or>
     (res = Dropped \<and> al_queue l' = al_queue l \<and> al_dropped l' = al_dropped l + 1) \<or>
     (res \<in> {Must_Wait, Stopped} \<and> al_queue l' = al_queue l \<and> al_dropped l' = al_dropped l)"

lemma TryEnqueue_change:
  "AsyncLogger_TryEnqueue e l = Some (res, l') \<Longrightarrow> entry_change e l res l'"
  by (auto simp: AsyncLogger_TryEnqueue_def entry_change_def push_entry_def split: if_splits OverflowPolicy.splits)

lemma resume_change: "resume_wait e l = (res, l') \<Longrightarrow> entry_change e l res l'"
  by (auto simp: resume_wait_def entry_change_def push_entry_def split: if_splits)

lemma time_out_change: "time_out e l = (res, l') \<Longrightarrow> entry_change e l res l'"
  by (auto simp: time_out_def resume_wait_def entry_change_def push_entry_def split: if_splits prod.splits enqueue_result.splits)

lemma subseq_push:
  assumes "subseq (a @ h @ q) acc"
  shows "subseq (a @ h @ q @ [e]) (acc @ [e])"
proof -
  have "subseq ((a @ h @ q) @ [e]) (acc @ [e])"
    by (rule list_emb_append_mono[OF assms subseq_order.order_refl])
  then show ?thesis by (simp only: append_assoc)
qed

lemma subseq_replace: "subseq (a @ h @ q) acc \<Longrightarrow> subseq (a @ h @ tl q @ [e]) (acc @ [e])"
proof -
  assume s: "subseq (a @ h @ q) acc"
  have t: "subseq (tl q) q" by (cases q) auto
  have "subseq (a @ h @ tl q) (a @ h @ q)"
    by (rule list_emb_append_mono[OF subseq_order.order_refl list_emb_append_mono[OF subseq_order.order_refl t]])
  from subseq_push[OF subseq_order.trans[OF this s]] show ?thesis .
qed

lemma entry_change_inv:
  assumes "log_inv l acc r don" and "entry_change e l res l'" and "only_queue l l'"
  shows "log_inv l' (acc @ taken (event_of e res)) (r + refused (event_of e res)) don"
proof -
  note same = only_queueD[OF assms(3)]
  have inv: "subseq (don @ held l @ al_queue l) acc"
    "length acc + r = length don + length (held l) + length (al_queue l) + al_dropped l"
    "al_capacity l > 0 \<longrightarrow> length (al_queue l) \<le> al_capacity l"
    using assms(1) by (auto simp: log_inv_def)
  have "subseq (don @ held l @ al_queue l') (acc @ taken (event_of e res)) \<and>
      length acc + length (taken (event_of e res)) + (r + refused (event_of e res)) =
        length don + length (held l) + length (al_queue l') + al_dropped l' \<and>
      (al_capacity l > 0 \<longrightarrow> length (al_queue l') \<le> al_capacity l)"
    using assms(2) inv unfolding entry_change_def
    by (elim disjE) (auto simp: event_of_def subseq_push subseq_replace)
  with assms(1) show ?thesis unfolding log_inv_def same by simp
qed

lemma only_queue_settled:
  assumes "only_queue l l1"
  shows "only_queue l (l1\<lparr>al_callers := c\<rparr>)"
proof -
  obtain q d ca where "l1 = l\<lparr>al_queue := q, al_dropped := d, al_callers := ca\<rparr>" using assms by (auto simp: only_queue_def)
  then have "l1\<lparr>al_callers := c\<rparr> = l\<lparr>al_queue := q, al_dropped := d, al_callers := c\<rparr>" by simp
  then show ?thesis unfolding only_queue_def by blast
qed

lemma caller_step_inv:
  assumes "log_inv l acc r don" and "entry_change e l (fst p) (snd p)" and "only_queue l (snd p)"
    and "caller_step i e timed p = (ev, l')"
  shows "log_inv l' (acc @ taken ev) (r + refused ev) (don @ handed ev)"
proof -
  have ev: "ev = event_of e (fst p)" and l': "l' = snd (settle i e timed p)"
    using assms(4) by (auto simp: caller_step_def)
  have "handed ev = []" by (simp add: ev event_of_def split: enqueue_result.split)
  moreover have "entry_change e l (fst p) l'"
    using assms(2) by (simp add: l' settle_def entry_change_def)
  moreover have "only_queue l l'" using assms(3) by (simp add: l' settle_def only_queue_settled)
  ultimately show ?thesis using entry_change_inv[OF assms(1), of e "fst p" l'] by (simp add: ev)
qed

lemma queue_ops_only:
  "AsyncLogger_TryEnqueue e l = Some p \<Longrightarrow> only_queue l (snd p)"
  "only_queue l (snd (resume_wait e l))"
  "only_queue l (snd (time_out e l))"
proof -
  have self: "only_queue l l" 
    unfolding only_queue_def by (intro exI[of _ "al_queue l"] exI[of _ "al_dropped l"] exI[of _ "al_callers l"]) simp
  have push: "only_queue l (push_entry e (l\<lparr>al_queue := q, al_dropped := d\<rparr>))" for q d
    unfolding only_queue_def push_entry_def
    by (intro exI[of _ "q @ [e]"] exI[of _ d] exI[of _ "al_callers l"]) simp
  have drop: "only_queue l (l\<lparr>al_dropped := d\<rparr>)" for d
    unfolding only_queue_def by (intro exI[of _ "al_queue l"] exI[of _ d] exI[of _ "al_callers l"]) simp
  have push0: "only_queue l (push_entry e l)" using push[where q = "al_queue l" and d = "al_dropped l"] by simp
  show "AsyncLogger_TryEnqueue e l = Some p \<Longrightarrow> only_queue l (snd p)"
    by (auto simp: AsyncLogger_TryEnqueue_def self push push0 drop split: if_splits OverflowPolicy.splits)
  show r: "only_queue l (snd (resume_wait e l))" by (simp add: resume_wait_def self push0)
  show "only_queue l (snd (time_out e l))" using r
    by (auto simp: time_out_def drop split: prod.split enqueue_result.split)
qed

lemma ProcessBatch_fields:
  assumes "AsyncLogger_ProcessBatch env b (l, w) = (l', w')"
  shows "al_queue l' = al_queue l \<and> al_worker l' = al_worker l \<and> al_shutdown l' = al_shutdown l \<and> al_running l' = al_running l \<and>
    al_dropped l' = al_dropped l \<and> al_processed l' = al_processed l + length b \<and> al_config l' = al_config l \<and>
    al_callers l' = al_callers l \<and> al_policy l' = al_policy l"
  using assms by (auto simp: AsyncLogger_ProcessBatch_def split: prod.splits)

lemma worker_step_inv:
  assumes "log_inv l acc r don" and "worker_step env (l, w) = Some (ev, l', w')"
  shows "log_inv l' (acc @ taken ev) (r + refused ev) (don @ handed ev)"
proof (cases "al_worker l")
  case At_Test
  with assms show ?thesis by (auto simp: worker_step_def log_inv_def held_def al_capacity_def)
next
  case At_Wait
  define b c where bc: "b = take kLogBatchSize (al_queue l)" "c = drop kLogBatchSize (al_queue l)"
  then have q: "al_queue l = b @ c" and len: "length b \<le> kLogBatchSize" by simp_all
  have none: "\<forall>b. al_shutdown l \<noteq> Drained b" and down: "al_shutdown l \<noteq> Shut_Down"
    using assms(1) At_Wait by (auto simp: log_inv_def)
  then have h: "held l = []" using At_Wait by (simp add: held_def split: shutdown_pc.split)
  show ?thesis
  proof (cases "\<not> al_running l \<and> al_queue l = []")
    case True
    with assms At_Wait h none show ?thesis
      by (auto simp: worker_step_def log_inv_def held_def al_capacity_def split: shutdown_pc.splits)
  next
    case False
    with assms(2) At_Wait have ev: "ev = Quiet"
      and l': "l' = l\<lparr>al_queue := c, al_worker := if b = [] then At_Test else Collected b\<rparr>"
      by (auto simp: worker_step_def Let_def bc)
    have "held l' = b" using none by (simp add: l' held_def split: shutdown_pc.split)
    with assms(1) len none down show ?thesis unfolding log_inv_def h q ev
      by (auto simp: l' al_capacity_def)
  qed
next
  case (Collected b)
  with assms show ?thesis by (auto simp: worker_step_def log_inv_def held_def al_capacity_def notify_space_def)
next
  case (Notified b)
  then have "AsyncLogger_ProcessBatch env b (l\<lparr>al_worker := At_Test\<rparr>, w) = (l', w')" and ev: "ev = Handed b"
    using assms(2) by (simp_all add: worker_step_def)
  from ProcessBatch_fields[OF this(1)] assms(1) Notified show ?thesis
    by (auto simp: ev log_inv_def held_def al_capacity_def)
next
  case Returned
  with assms show ?thesis by (simp add: worker_step_def)
qed

lemma shutdown_step_inv:
  assumes "log_inv l acc r don" and "shutdown_step env (l, w) = Some (ev, l', w')"
  shows "log_inv l' (acc @ taken ev) (r + refused ev) (don @ handed ev)"
proof (cases "al_shutdown l")
  case (Drained b)
  obtain l1 w1 where p: "(if b = [] then (l, w) else AsyncLogger_ProcessBatch env b (l, w)) = (l1, w1)" by fastforce
  have "al_worker l = Returned" using assms(1) Drained by (simp add: log_inv_def)
  moreover have "ev = Handed b" "l' = l1\<lparr>al_sinks := [], al_shutdown := Shut_Down\<rparr>"
    using assms(2) Drained p by (simp_all add: shutdown_step_def)
  moreover have "al_queue l1 = al_queue l \<and> al_worker l1 = al_worker l \<and> al_running l1 = al_running l \<and>
      al_dropped l1 = al_dropped l \<and> al_processed l1 = al_processed l + length b \<and> al_config l1 = al_config l"
    using p ProcessBatch_fields[of env b l w l1 w1] by (auto split: if_splits)
  ultimately show ?thesis using assms(1) Drained by (auto simp: log_inv_def held_def al_capacity_def)
qed (use assms in \<open>auto simp: shutdown_step_def log_inv_def held_def al_capacity_def split: if_splits\<close>)

lemma log_step_inv:
  assumes "log_inv (fst q) acc r don" and "log_step env a q = Some (ev, q')"
  shows "log_inv (fst q') (acc @ taken ev) (r + refused ev) (don @ handed ev)"
proof -
  obtain l w l' w' where q: "q = (l, w)" "q' = (l', w')" by (cases q, cases q')
  note inv = assms(1)[unfolded q fst_conv]
  show ?thesis unfolding q fst_conv
  proof (cases a)
    case (Call i e timed)
    with assms(2) inv show "log_inv l' (acc @ taken ev) (r + refused ev) (don @ handed ev)"
      by (auto simp: log_step_def q log_inv_def held_def al_capacity_def split: if_splits)
  next
    case (Lock i)
    with assms(2) obtain e timed p where "AsyncLogger_TryEnqueue e l = Some p" "caller_step i e timed p = (ev, l')"
      by (fastforce simp: log_step_def q caller_step_def split: option.splits caller.splits)
    with caller_step_inv[OF inv] TryEnqueue_change queue_ops_only(1)
    show "log_inv l' (acc @ taken ev) (r + refused ev) (don @ handed ev)" by (metis prod.collapse)
  next
    case (Wake i)
    with assms(2) obtain e timed where "caller_step i e timed (resume_wait e l) = (ev, l')"
      by (auto simp: log_step_def q split: option.splits caller.splits prod.splits)
    with caller_step_inv[OF inv] resume_change queue_ops_only(2)
    show "log_inv l' (acc @ taken ev) (r + refused ev) (don @ handed ev)" by (metis prod.collapse)
  next
    case (Time_Out i)
    with assms(2) obtain e where "caller_step i e True (time_out e l) = (ev, l')"
      by (auto simp: log_step_def q split: option.splits caller.splits prod.splits bool.splits)
    with caller_step_inv[OF inv] time_out_change queue_ops_only(3)
    show "log_inv l' (acc @ taken ev) (r + refused ev) (don @ handed ev)" by (metis prod.collapse)
  next
    case Worker_Step
    with assms(2) worker_step_inv[OF inv] show "log_inv l' (acc @ taken ev) (r + refused ev) (don @ handed ev)"
      by (simp add: log_step_def q)
  next
    case Stop_Call
    with assms(2) inv show "log_inv l' (acc @ taken ev) (r + refused ev) (don @ handed ev)"
      by (auto simp: log_step_def q stop_call_def log_inv_def held_def al_capacity_def split: shutdown_pc.splits)
  next
    case Drain
    with assms(2) shutdown_step_inv[OF inv] show "log_inv l' (acc @ taken ev) (r + refused ev) (don @ handed ev)"
      by (auto simp: log_step_def q split: shutdown_pc.splits)
  next
    case Finish
    with assms(2) shutdown_step_inv[OF inv] show "log_inv l' (acc @ taken ev) (r + refused ev) (don @ handed ev)"
      by (auto simp: log_step_def q split: shutdown_pc.splits)
  next
    case (Set_Policy p)
    with assms(2) inv show "log_inv l' (acc @ taken ev) (r + refused ev) (don @ handed ev)"
      by (auto simp: log_step_def q AsyncLogger_SetOverflowPolicy_def log_inv_def held_def al_capacity_def)
  qed
qed

section \<open>What the sinks receive\<close>

definition file_wanted :: "LoggerConfig \<Rightarrow> bool" where
  "file_wanted config \<longleftrightarrow> lo_file_enabled config \<and> lo_file_path config \<noteq> []"

definition sinks_for :: "LoggerConfig \<Rightarrow> file_sink \<Rightarrow> log_sink list" where
  "sinks_for config k =
     (if lo_console_enabled config then [Console_Sink config] else []) @
     (if file_wanted config then [File_Sink k] else []) @
     (if lo_syslog_enabled config then [Syslog_Sink config] else []) @
     (if lo_kafka_enabled config then [Kafka_Sink config] else [])"

definition syslog_message :: "log_env \<Rightarrow> LoggerConfig \<Rightarrow> LogEntry \<Rightarrow> (syslog_priority \<times> string) list" where
  "syslog_message env config e =
     (case LogFormatter_Format env e config of
        None \<Rightarrow> []
      | Some text \<Rightarrow> [(syslog_level (le_level e), takeWhile (\<lambda>c. c \<noteq> CHR 0x00) text)])"

definition file_writes :: "log_env \<Rightarrow> LogEntry list \<Rightarrow> file_sink \<times> disk \<Rightarrow> file_sink \<times> disk" where
  "file_writes env es q = foldl (\<lambda>q e. snd (FileSink_Write env e q)) q es"

text \<open>The outside after the entries \<open>don\<close>, from the outside \<open>w0\<close> before the logger was initialised.\<close>

definition outside_after :: "log_env \<Rightarrow> LoggerConfig \<Rightarrow> outside \<Rightarrow> LogEntry list \<Rightarrow> file_sink \<Rightarrow> outside \<Rightarrow> bool" where
  "outside_after env config w0 don k w \<longleftrightarrow>
     (if file_wanted config then (k, ou_disk w) = file_writes env don (FileSink_new config (ou_disk w0))
      else ou_disk w = ou_disk w0) \<and>
     ou_console w = ou_console w0 @ (if lo_console_enabled config then concat (map (log_line env config) don) else []) \<and>
     ou_syslog w = ou_syslog w0 @ (if lo_syslog_enabled config then concat (map (syslog_message env config) don) else [])"

lemma write_console:
  "write_entries env es (Console_Sink c, w) =
     (Console_Sink c, w\<lparr>ou_console := ou_console w @ concat (map (log_line env c) es)\<rparr>)"
  by (induction es arbitrary: w) (simp_all add: ConsoleSink_Write_def log_line_def split: option.split)

lemma write_syslog:
  "write_entries env es (Syslog_Sink c, w) =
     (Syslog_Sink c, w\<lparr>ou_syslog := ou_syslog w @ concat (map (syslog_message env c) es)\<rparr>)"
  by (induction es arbitrary: w) (simp_all add: SyslogSink_Write_def syslog_message_def split: option.split)

lemma write_kafka: "write_entries env es (Kafka_Sink c, w) = (Kafka_Sink c, w)"
  by (induction es) simp_all

lemma write_file:
  "file_writes env es (k, ou_disk w) = (k', d') \<Longrightarrow>
     write_entries env es (File_Sink k, w) = (File_Sink k', w\<lparr>ou_disk := d'\<rparr>)"
proof (induction es arbitrary: k w)
  case Nil
  then show ?case by (simp add: file_writes_def)
next
  case (Cons e es)
  obtain ok k1 d1 where 1: "FileSink_Write env e (k, ou_disk w) = (ok, k1, d1)" by (metis prod_cases3)
  with Cons.prems have "file_writes env es (k1, ou_disk (w\<lparr>ou_disk := d1\<rparr>)) = (k', d')"
    by (simp add: file_writes_def)
  from Cons.IH[OF this] 1 show ?case by (cases ok) simp_all
qed

lemma write_sinks_append:
  "write_sinks env es (ss @ ts) w =
     (case write_sinks env es ss w of (ss', w1) \<Rightarrow> (case write_sinks env es ts w1 of (ts', w2) \<Rightarrow> (ss' @ ts', w2)))"
  by (induction ss arbitrary: w) (simp_all split: prod.split)

lemma write_sinks_after:
  assumes "outside_after env config w0 don k w"
  shows "\<exists>k' w'. write_sinks env es (sinks_for config k) w = (sinks_for config k', w') \<and>
    outside_after env config w0 (don @ es) k' w'"
proof -
  define w1 where "w1 = (if lo_console_enabled config
    then w\<lparr>ou_console := ou_console w @ concat (map (log_line env config) es)\<rparr> else w)"
  obtain k' d' where kd: "(if file_wanted config then file_writes env es (k, ou_disk w1) else (k, ou_disk w1)) = (k', d')"
    by fastforce
  define w2 where "w2 = w1\<lparr>ou_disk := d'\<rparr>"
  define w3 where "w3 = (if lo_syslog_enabled config
    then w2\<lparr>ou_syslog := ou_syslog w2 @ concat (map (syslog_message env config) es)\<rparr> else w2)"
  have "write_sinks env es (if lo_console_enabled config then [Console_Sink config] else []) w =
      (if lo_console_enabled config then [Console_Sink config] else [], w1)"
    by (simp add: w1_def write_console)
  moreover have "write_sinks env es (if file_wanted config then [File_Sink k] else []) w1 =
      (if file_wanted config then [File_Sink k'] else [], w2)"
    using kd write_file[of env es k w1] by (auto simp: w2_def)
  moreover have "write_sinks env es (if lo_syslog_enabled config then [Syslog_Sink config] else []) w2 =
      (if lo_syslog_enabled config then [Syslog_Sink config] else [], w3)"
    by (simp add: w3_def write_syslog)
  moreover have "write_sinks env es (if lo_kafka_enabled config then [Kafka_Sink config] else []) w3 =
      (if lo_kafka_enabled config then [Kafka_Sink config] else [], w3)"
    by (simp add: write_kafka)
  ultimately have "write_sinks env es (sinks_for config k) w = (sinks_for config k', w3)"
    unfolding sinks_for_def write_sinks_append by simp
  moreover have "outside_after env config w0 (don @ es) k' w3"
    using assms kd by (auto simp: outside_after_def w3_def w2_def w1_def file_writes_def split: if_splits)
  ultimately show ?thesis by blast
qed

definition sinks_inv :: "log_env \<Rightarrow> LoggerConfig \<Rightarrow> outside \<Rightarrow> async_logger \<times> outside \<Rightarrow> LogEntry list \<Rightarrow> bool" where
  "sinks_inv env config w0 q don \<longleftrightarrow> al_config (fst q) = config \<and>
     (\<exists>k. outside_after env config w0 don k (snd q) \<and> (al_shutdown (fst q) \<noteq> Shut_Down \<longrightarrow> al_sinks (fst q) = sinks_for config k))"

lemma sinks_inv_cong:
  "sinks_inv env config w0 (l, w) don \<Longrightarrow> al_config l' = al_config l \<Longrightarrow> al_sinks l' = al_sinks l \<Longrightarrow>
     al_shutdown l = Shut_Down \<longrightarrow> al_shutdown l' = Shut_Down \<Longrightarrow> sinks_inv env config w0 (l', w) don"
  by (auto simp: sinks_inv_def)

lemma ProcessBatch_sinks:
  assumes "sinks_inv env config w0 (l, w) don" and "al_shutdown l \<noteq> Shut_Down"
    and "AsyncLogger_ProcessBatch env b (l, w) = (l', w')"
  shows "sinks_inv env config w0 (l', w') (don @ b)"
proof -
  obtain k where k: "outside_after env config w0 don k w" "al_sinks l = sinks_for config k" "al_config l = config"
    using assms(1,2) by (auto simp: sinks_inv_def)
  from write_sinks_after[OF k(1), of b] assms(3) k(2,3) show ?thesis
    by (fastforce simp: AsyncLogger_ProcessBatch_def sinks_inv_def)
qed

lemma deleted_outside: "outside_after env config w0 don k (foldl LogSink_delete w ss) = outside_after env config w0 don k w"
proof -
  have "ou_disk (LogSink_delete w s) = ou_disk w \<and> ou_console (LogSink_delete w s) = ou_console w \<and>
      ou_syslog (LogSink_delete w s) = ou_syslog w" for w s
    by (cases s) simp_all
  then have "ou_disk (foldl LogSink_delete w ss) = ou_disk w \<and> ou_console (foldl LogSink_delete w ss) = ou_console w \<and>
      ou_syslog (foldl LogSink_delete w ss) = ou_syslog w"
    by (induction ss arbitrary: w) simp_all
  then show ?thesis by (simp add: outside_after_def)
qed

lemma caller_step_sinks:
  assumes "caller_step i e timed p = (ev, l')" and "only_queue l (snd p)"
  shows "al_config l' = al_config l \<and> al_sinks l' = al_sinks l \<and> al_shutdown l' = al_shutdown l \<and> handed ev = []"
  using assms only_queueD[OF assms(2)]
  by (auto simp: caller_step_def settle_def event_of_def split: enqueue_result.splits)

lemma Initialize_state:
  assumes "AsyncLogger_Initialize config (AsyncLogger_new, w0) = (l, w)"
  shows "log_inv l [] 0 [] \<and> sinks_inv env config w0 (l, w) [] \<and> al_running l \<and> al_queue l = [] \<and> al_worker l = At_Test \<and>
    al_shutdown l = Not_Called \<and> al_callers l = (\<lambda>_. None) \<and> al_policy l = overflow_policy config"
proof -
  obtain k d where kd: "FileSink_new config (ou_disk w0) = (k, d)" by fastforce
  define l0 where "l0 = AsyncLogger_new\<lparr>al_config := config, al_policy := overflow_policy config,
      al_sinks := sinks_for config k, al_running := True, al_worker := At_Test\<rparr>"
  define w1 where "w1 = (if file_wanted config then w0\<lparr>ou_disk := d\<rparr> else w0)"
  have "l = l0" and "w = (if lo_syslog_enabled config then w1\<lparr>ou_ident := Some (lo_app_name config)\<rparr> else w1)"
    using assms kd
    by (auto simp: AsyncLogger_Initialize_def add_when_def AsyncLogger_AddSink_def SyslogSink_new_def sinks_for_def
        file_wanted_def l0_def w1_def AsyncLogger_new_def Let_def split: if_splits)
  then show ?thesis using kd
    by (auto simp: l0_def w1_def AsyncLogger_new_def log_inv_def held_def al_capacity_def sinks_inv_def outside_after_def
        file_writes_def)
qed

lemma worker_step_sinks:
  assumes "sinks_inv env config w0 (l, w) don" and "log_inv l acc r don'" and "worker_step env (l, w) = Some (ev, l', w')"
  shows "sinks_inv env config w0 (l', w') (don @ handed ev)"
proof (cases "al_worker l")
  case (Notified b)
  then have p: "AsyncLogger_ProcessBatch env b (l\<lparr>al_worker := At_Test\<rparr>, w) = (l', w')" and ev: "ev = Handed b"
    using assms(3) by (simp_all add: worker_step_def)
  have "al_shutdown l \<noteq> Shut_Down" using assms(2) Notified by (auto simp: log_inv_def)
  moreover have "sinks_inv env config w0 (l\<lparr>al_worker := At_Test\<rparr>, w) don" by (rule sinks_inv_cong[OF assms(1)]) simp_all
  ultimately show ?thesis using ProcessBatch_sinks[OF _ _ p] by (simp add: ev)
qed (use assms sinks_inv_cong[OF assms(1), of l'] in \<open>auto simp: worker_step_def notify_space_def Let_def split: if_splits\<close>)

lemma shutdown_step_sinks:
  assumes "sinks_inv env config w0 (l, w) don" and "shutdown_step env (l, w) = Some (ev, l', w')"
  shows "sinks_inv env config w0 (l', w') (don @ handed ev)"
proof (cases "al_shutdown l")
  case (Drained b)
  obtain l1 w1 where p: "(if b = [] then (l, w) else AsyncLogger_ProcessBatch env b (l, w)) = (l1, w1)" by fastforce
  then have "sinks_inv env config w0 (l1, w1) (don @ b)"
    using assms(1) Drained ProcessBatch_sinks[OF assms(1), of b l1 w1] by (auto split: if_splits)
  moreover have "ev = Handed b" "l' = l1\<lparr>al_sinks := [], al_shutdown := Shut_Down\<rparr>" "w' = foldl LogSink_delete w1 (al_sinks l1)"
    using assms(2) Drained p by (simp_all add: shutdown_step_def)
  ultimately show ?thesis by (auto simp: sinks_inv_def deleted_outside)
qed (use assms sinks_inv_cong[OF assms(1), of l'] in \<open>auto simp: shutdown_step_def split: if_splits\<close>)

lemma log_step_sinks:
  assumes "sinks_inv env config w0 q don" and "log_inv (fst q) acc r don" and "log_step env a q = Some (ev, q')"
  shows "sinks_inv env config w0 q' (don @ handed ev)"
proof -
  obtain l w l' w' where q: "q = (l, w)" "q' = (l', w')" by (cases q, cases q')
  note inv = assms(1)[unfolded q] and linv = assms(2)[unfolded q fst_conv]
  have caller: ?thesis if "caller_step i e timed p = (ev, l')" and "only_queue l (snd p)" and "w' = w" for i e timed p
    using caller_step_sinks[OF that(1,2)] sinks_inv_cong[OF inv, of l'] that(3) by (simp add: q)
  show ?thesis
  proof (cases a)
    case (Lock i)
    with assms(3) obtain e timed p where p: "AsyncLogger_TryEnqueue e l = Some p" "caller_step i e timed p = (ev, l')" "w' = w"
      by (fastforce simp: log_step_def q caller_step_def split: option.splits caller.splits)
    show ?thesis by (rule caller[OF p(2) queue_ops_only(1)[OF p(1)] p(3)])
  next
    case (Wake i)
    with assms(3) obtain e timed where "caller_step i e timed (resume_wait e l) = (ev, l')" "w' = w"
      by (auto simp: log_step_def q split: option.splits caller.splits prod.splits)
    then show ?thesis by (rule caller[OF _ queue_ops_only(2)])
  next
    case (Time_Out i)
    with assms(3) obtain e where "caller_step i e True (time_out e l) = (ev, l')" "w' = w"
      by (auto simp: log_step_def q split: option.splits caller.splits prod.splits bool.splits)
    then show ?thesis by (rule caller[OF _ queue_ops_only(3)])
  next
    case Worker_Step
    with assms(3) worker_step_sinks[OF inv linv] show ?thesis by (simp add: log_step_def q)
  next
    case Drain
    with assms(3) shutdown_step_sinks[OF inv] show ?thesis by (simp add: log_step_def q split: shutdown_pc.splits)
  next
    case Finish
    with assms(3) shutdown_step_sinks[OF inv] show ?thesis by (simp add: log_step_def q split: shutdown_pc.splits)
  next
    case Stop_Call
    have "al_running l \<Longrightarrow> al_shutdown l = Not_Called" using linv by (simp add: log_inv_def)
    with Stop_Call assms(3) sinks_inv_cong[OF inv, of l'] show ?thesis
      by (auto simp: log_step_def q stop_call_def split: if_splits)
  qed (use assms(3) sinks_inv_cong[OF inv, of l'] in
      \<open>auto simp: log_step_def q AsyncLogger_SetOverflowPolicy_def split: if_splits\<close>)
qed

lemma log_run_inv:
  assumes "log_run env q0 q acc r don" and "AsyncLogger_Initialize config (AsyncLogger_new, w0) = q0"
  shows "log_inv (fst q) acc r don \<and> sinks_inv env config w0 q don"
  using assms(1)
proof (induction rule: log_run.induct)
  case run_start
  from Initialize_state[of config w0 "fst q0" "snd q0"] assms(2) show ?case by simp
next
  case (run_step q acc r don a ev q')
  then show ?case using log_step_inv log_step_sinks by blast
qed

lemma nothing_lost:
  assumes "log_inv l acc r don" and "al_dropped l = 0"
  shows "acc = don @ held l @ al_queue l"
proof -
  have sub: "subseq (don @ held l @ al_queue l) acc" using assms(1) by (simp add: log_inv_def)
  have "length acc = length (don @ held l @ al_queue l)"
    using assms list_emb_length[OF sub] by (simp add: log_inv_def)
  then show ?thesis using sub subseq_same_length by metis
qed

lemma text_lines:
  "lo_format config \<noteq> ''json'' \<Longrightarrow> map (log_line env config) es = map (\<lambda>e. FormatText env e config @ [LF]) es"
  by (simp add: log_line_def LogFormatter_Format_def)

text \<open>
  C11. Whatever the interleaving of the callers, the worker and the shutdown: the entries handed to the
  sinks, then those in a batch, then those queued are the accepted entries in the order they were
  accepted, less the ones the overflow policy discarded; every drop is counted, so with no drop
  none is missing; the queue never exceeds its configured size; every entry handed over counts as
  processed; and the console and the file have received exactly the lines of the entries handed over
  whose formatting returns, in order, which in text format is every entry.
\<close>

theorem async_logger_delivers:
  assumes "log_run env (AsyncLogger_Initialize config (AsyncLogger_new, w0)) (l, w) acc r don"
  shows "subseq (don @ held l @ al_queue l) acc \<and>
    length acc + r = length (don @ held l @ al_queue l) + al_dropped l \<and>
    (al_dropped l = 0 \<longrightarrow> acc = don @ held l @ al_queue l) \<and>
    (0 < lo_async_queue_size config \<longrightarrow> length (al_queue l) \<le> unat (lo_async_queue_size config)) \<and>
    al_processed l = length don \<and>
    (lo_console_enabled config \<longrightarrow> ou_console w = ou_console w0 @ concat (map (log_line env config) don)) \<and>
    (lo_console_enabled config \<and> lo_format config \<noteq> ''json'' \<longrightarrow>
       ou_console w = ou_console w0 @ concat (map (\<lambda>e. FormatText env e config @ [LF]) don)) \<and>
    (file_wanted config \<longrightarrow> ou_disk w = snd (file_writes env don (FileSink_new config (ou_disk w0))))"
proof -
  have inv: "log_inv l acc r don" and sinks: "sinks_inv env config w0 (l, w) don"
    using log_run_inv[OF assms refl] by simp_all
  then obtain k where k: "outside_after env config w0 don k w" and config: "al_config l = config"
    by (auto simp: sinks_inv_def)
  have sub: "subseq (don @ held l @ al_queue l) acc"
    and count: "length acc + r = length (don @ held l @ al_queue l) + al_dropped l"
    using inv by (simp_all add: log_inv_def)
  note nothing_lost[OF inv]
  moreover have "0 < lo_async_queue_size config \<longrightarrow> length (al_queue l) \<le> unat (lo_async_queue_size config)"
    using inv config by (auto simp: log_inv_def al_capacity_def word_less_nat_alt)
  moreover have "ou_disk w = snd (file_writes env don (FileSink_new config (ou_disk w0)))" if "file_wanted config"
    using k that by (simp add: outside_after_def) (metis snd_conv)
  moreover have "al_processed l = length don" using inv by (simp add: log_inv_def)
  ultimately show ?thesis using sub count k by (auto simp: outside_after_def text_lines)
qed

text \<open>One entry through a console logger.\<close>

definition console_config :: "string \<Rightarrow> uint64 \<Rightarrow> LoggerConfig" where
  "console_config policy cap = sample_log_config
     \<lparr>lo_file_enabled := False, lo_overflow_policy := policy, lo_async_queue_size := cap\<rparr>"

definition nothing_outside :: outside where
  "nothing_outside = \<lparr>ou_disk = empty_disk, ou_console = [], ou_ident = None, ou_syslog = []\<rparr>"

definition console_logger :: "string \<Rightarrow> uint64 \<Rightarrow> async_logger \<times> outside" where
  "console_logger policy cap = AsyncLogger_Initialize (console_config policy cap) (AsyncLogger_new, nothing_outside)"

lemma console_logger_value:
  "console_logger policy cap =
     (AsyncLogger_new\<lparr>al_config := console_config policy cap, al_policy := overflow_policy (console_config policy cap),
        al_sinks := [Console_Sink (console_config policy cap)], al_running := True, al_worker := At_Test\<rparr>, nothing_outside)"
  by (simp add: console_logger_def AsyncLogger_Initialize_def add_when_def console_config_def sample_log_config_def
      LoggerConfig_default_def AsyncLogger_AddSink_def AsyncLogger_new_def Let_def)

lemma console_config_simps [simp]:
  "lo_console_enabled (console_config p n)" "\<not> file_wanted (console_config p n)"
  "lo_async_queue_size (console_config p n) = n" "lo_overflow_policy (console_config p n) = p"
  by (simp_all add: console_config_def sample_log_config_def LoggerConfig_default_def file_wanted_def)

lemma console_line:
  "log_line sample_env (console_config p n) (sample_entry Lv_Info [c]) = ''[t] [INFO] '' @ [c, LF]"
  by (simp add: log_line_def LogFormatter_Format_def FormatText_def console_config_def sample_log_config_def sample_env_def
      sample_entry_def bracketed_def LoggerConfig_default_def)

text \<open>What the steps do, for running a schedule.\<close>

lemmas schedule_simps =
  log_step_def AsyncLogger_TryEnqueue_def resume_wait_def caller_step_def settle_def event_of_def push_entry_def worker_step_def
  shutdown_step_def stop_call_def notify_space_def kLogBatchSize_def al_capacity_def AsyncLogger_ProcessBatch_def
  AsyncLogger_new_def overflow_policy_def write_console

lemma async_logger_delivers_witness:
  "\<exists>l w. log_run sample_env (console_logger ''block'' 4) (l, w) [sample_entry Lv_Info ''a''] 0 [sample_entry Lv_Info ''a''] \<and>
     ou_console w = ''[t] [INFO] a'' @ [LF]"
proof -
  let ?as = "[Call 0 (sample_entry Lv_Info ''a'') False, Lock 0, Worker_Step, Worker_Step, Worker_Step, Worker_Step]"
  let ?evs = "[Quiet, Took (sample_entry Lv_Info ''a''), Quiet, Quiet, Quiet, Handed [sample_entry Lv_Info ''a'']]"
  obtain l w where "log_exec sample_env ?as (console_logger ''block'' 4) = Some (?evs, l, w)"
    unfolding console_logger_value by (simp add: schedule_simps)
  from log_run_exec[OF run_start this]
  have run: "log_run sample_env (console_logger ''block'' 4) (l, w) [sample_entry Lv_Info ''a''] 0 [sample_entry Lv_Info ''a'']"
    by simp
  from async_logger_delivers[OF run[unfolded console_logger_def]]
  have "ou_console w = ''[t] [INFO] a'' @ [LF]" by (simp add: console_line nothing_outside_def)
  with run show ?thesis by blast
qed

text \<open>
  In JSON format an entry whose text is not UTF-8 is lost: \<open>dump\<close> throws, the worker swallows the
  exception, and the entry counts as processed and not as dropped.
\<close>

theorem json_entry_lost:
  assumes "FormatJson env e config = None" and "lo_format config = ''json''"
  defines "l \<equiv> AsyncLogger_new\<lparr>al_config := config, al_sinks := [Console_Sink config], al_worker := Notified [e]\<rparr>"
  shows "\<exists>l'. worker_step env (l, w) = Some (Handed [e], l', w) \<and> al_processed l' = 1 \<and> al_dropped l' = 0"
proof -
  have "log_line env config e = []" using assms(1,2) by (simp add: log_line_def LogFormatter_Format_def)
  then show ?thesis
    by (simp add: l_def worker_step_def AsyncLogger_ProcessBatch_def write_console AsyncLogger_new_def del: write_entries.simps)
qed

lemma json_entry_lost_witness:
  "FormatJson sample_env (sample_entry Lv_Info [CHR 0xFF]) (LoggerConfig_default\<lparr>lo_format := ''json''\<rparr>) = None \<and>
   (\<exists>l l'. worker_step sample_env (l, w) = Some (Handed [sample_entry Lv_Info [CHR 0xFF]], l', w) \<and> al_processed l' = 1)"
proof -
  let ?c = "LoggerConfig_default\<lparr>lo_format := ''json''\<rparr>"
  have "FormatJson sample_env (sample_entry Lv_Info [CHR 0xFF]) ?c = None"
    by (simp add: FormatJson_def sample_env_def Let_def)
  moreover from json_entry_lost[OF this, of w] have
    "\<exists>l l'. worker_step sample_env (l, w) = Some (Handed [sample_entry Lv_Info [CHR 0xFF]], l', w) \<and> al_processed l' = 1"
    by simp blast
  ultimately show ?thesis by blast
qed

section \<open>Shutting down\<close>

text \<open>\<open>n\<close> steps of the worker, the drain and the last batch, handing over all that is held or queued.\<close>

definition completes :: "log_env \<Rightarrow> nat \<Rightarrow> async_logger \<times> outside \<Rightarrow> bool" where
  "completes env n q \<longleftrightarrow>
     (\<exists>evs q'. log_exec env (replicate n Worker_Step @ [Drain, Finish]) q = Some (evs, q') \<and>
        al_shutdown (fst q') = Shut_Down \<and> al_queue (fst q') = [] \<and> al_sinks (fst q') = [] \<and>
        concat (map taken evs) = [] \<and> concat (map handed evs) = held (fst q) @ al_queue (fst q))"

lemma completes_step:
  assumes "worker_step env q = Some (ev, q1)" and "completes env n q1" and "taken ev = []"
    and "handed ev @ held (fst q1) @ al_queue (fst q1) = held (fst q) @ al_queue (fst q)"
  shows "completes env (Suc n) q"
proof -
  obtain evs q' where "log_exec env (replicate n Worker_Step @ [Drain, Finish]) q1 = Some (evs, q')"
    "al_shutdown (fst q') = Shut_Down" "al_queue (fst q') = []" "al_sinks (fst q') = []"
    "concat (map taken evs) = []" "concat (map handed evs) = held (fst q1) @ al_queue (fst q1)"
    using assms(2) by (auto simp: completes_def)
  with assms(1,3,4) show ?thesis unfolding completes_def
    by (intro exI[of _ "ev # evs"] exI[of _ q']) (cases q, auto simp: log_step_def)
qed

lemma completes_returned:
  assumes "al_shutdown l = Joining" and "al_worker l = Returned"
  shows "completes env 0 (l, w)"
proof -
  let ?l = "l\<lparr>al_queue := [], al_shutdown := Drained (al_queue l)\<rparr>"
  obtain l1 w1 where p: "(if al_queue l = [] then (?l, w) else AsyncLogger_ProcessBatch env (al_queue l) (?l, w)) = (l1, w1)"
    by fastforce
  then have "al_queue l1 = []" using ProcessBatch_fields[of env "al_queue l" ?l w l1 w1] by (auto split: if_splits)
  with assms p show ?thesis by (auto simp: completes_def log_step_def shutdown_step_def held_def)
qed

definition steps_left :: "async_logger \<Rightarrow> nat" where
  "steps_left l =
     (case al_worker l of Returned \<Rightarrow> 0 | At_Test \<Rightarrow> 1 | Notified _ \<Rightarrow> 2 | Collected _ \<Rightarrow> 3
      | At_Wait \<Rightarrow> if al_queue l = [] then 1 else 4)"

lemma completes_stopped:
  assumes "al_shutdown l = Joining" and "\<not> al_running l"
  shows "completes env (steps_left l) (l, w)"
proof -
  have returned: "completes env 1 (l, w)" if "worker_step env (l, w) = Some (Quiet, l\<lparr>al_worker := Returned\<rparr>, w)"
      and "al_worker l \<in> {At_Test, At_Wait}" and "al_shutdown l = Joining" for l w
    using completes_step[OF that(1) completes_returned] that(2,3) by (auto simp: held_def)
  have test: "completes env 1 (l, w)" if "al_worker l = At_Test" "al_shutdown l = Joining" "\<not> al_running l" for l w
    using that by (intro returned) (simp_all add: worker_step_def)
  have notified: "completes env 2 (l, w)"
    if n: "al_worker l = Notified b" "al_shutdown l = Joining" "\<not> al_running l" for l w b
  proof -
    obtain l1 w1 where p: "AsyncLogger_ProcessBatch env b (l\<lparr>al_worker := At_Test\<rparr>, w) = (l1, w1)" by fastforce
    note f = ProcessBatch_fields[OF p]
    then have "completes env 1 (l1, w1)" using n by (intro test) simp_all
    moreover have "worker_step env (l, w) = Some (Handed b, l1, w1)" using n p by (simp add: worker_step_def)
    ultimately have "completes env (Suc 1) (l, w)"
      using completes_step[of env "(l, w)" "Handed b" "(l1, w1)" 1] n f by (simp add: held_def)
    then show ?thesis by (simp add: numeral_2_eq_2)
  qed
  have collected: "completes env 3 (l, w)"
    if n: "al_worker l = Collected b" "al_shutdown l = Joining" "\<not> al_running l" for l w b
  proof -
    have "completes env 2 ((notify_space l)\<lparr>al_worker := Notified b\<rparr>, w)"
      using n by (intro notified[of _ b]) (simp_all add: notify_space_def)
    with completes_step[of env "(l, w)" Quiet "((notify_space l)\<lparr>al_worker := Notified b\<rparr>, w)" 2] n show ?thesis
      by (simp add: worker_step_def held_def notify_space_def)
  qed
  show ?thesis
  proof (cases "al_worker l")
    case At_Wait
    show ?thesis
    proof (cases "al_queue l = []")
      case True
      with At_Wait assms have "completes env 1 (l, w)" by (intro returned) (simp_all add: worker_step_def)
      with At_Wait True show ?thesis by (simp add: steps_left_def)
    next
      case False
      let ?b = "take kLogBatchSize (al_queue l)"
      let ?l = "l\<lparr>al_queue := drop kLogBatchSize (al_queue l), al_worker := Collected ?b\<rparr>"
      have b: "?b \<noteq> []" using False by (simp add: kLogBatchSize_def)
      have "completes env 3 (?l, w)" using assms by (intro collected[of _ ?b]) simp_all
      moreover have "worker_step env (l, w) = Some (Quiet, ?l, w)" using At_Wait False b by (simp add: worker_step_def Let_def)
      ultimately have "completes env (Suc 3) (l, w)"
        using completes_step[of env "(l, w)" Quiet "(?l, w)" 3] At_Wait assms(1) by (simp add: held_def)
      then show ?thesis using At_Wait False by (simp add: steps_left_def)
    qed
  qed (use assms in \<open>simp_all add: steps_left_def completes_returned test[simplified] notified collected\<close>)
qed

text \<open>
  C31. A shutdown ends: once \<open>Shutdown\<close> has cleared \<open>running_\<close>, at most four steps of the worker bring it
  to its end, and after the drain every entry accepted before has been handed to the sinks, in order,
  less the ones that the overflow policy discarded.
\<close>

theorem logger_shutdown_flushes:
  assumes "log_run env (AsyncLogger_Initialize config (AsyncLogger_new, w0)) (l, w) acc r don"
    and "al_shutdown l = Joining"
  shows "\<exists>n \<le> 4. \<exists>evs l' w'. log_exec env (replicate n Worker_Step @ [Drain, Finish]) (l, w) = Some (evs, l', w') \<and>
    al_shutdown l' = Shut_Down \<and> al_queue l' = [] \<and> al_sinks l' = [] \<and>
    subseq (don @ concat (map handed evs)) acc \<and> (al_dropped l = 0 \<longrightarrow> don @ concat (map handed evs) = acc)"
proof -
  have inv: "log_inv l acc r don" using log_run_inv[OF assms(1) refl] by simp
  then have "\<not> al_running l" using assms(2) by (simp add: log_inv_def)
  have "steps_left l \<le> 4" by (simp add: steps_left_def split: worker_pc.split)
  moreover have "completes env (steps_left l) (l, w)" by (rule completes_stopped[OF assms(2) \<open>\<not> al_running l\<close>])
  then obtain evs l' w' where e: "log_exec env (replicate (steps_left l) Worker_Step @ [Drain, Finish]) (l, w) = Some (evs, l', w')"
    "al_shutdown l' = Shut_Down" "al_queue l' = []" "al_sinks l' = []" "concat (map handed evs) = held l @ al_queue l"
    by (auto simp: completes_def)
  moreover have sub: "subseq (don @ concat (map handed evs)) acc"
    and "length acc + r = length (don @ concat (map handed evs)) + al_dropped l"
    using inv e(5) by (simp_all add: log_inv_def)
  then have "al_dropped l = 0 \<longrightarrow> don @ concat (map handed evs) = acc"
    using subseq_same_length[OF sub] list_emb_length[OF sub] by linarith
  ultimately show ?thesis using sub
    by (intro exI[of _ "steps_left l"] conjI exI[of _ evs] exI[of _ l'] exI[of _ w']) simp_all
qed

lemma logger_shutdown_flushes_witness:
  "\<exists>n \<le> 4. \<exists>evs l' w'.
     log_exec sample_env ([Call 0 (sample_entry Lv_Info ''a'') False, Lock 0, Worker_Step, Stop_Call] @
        replicate n Worker_Step @ [Drain, Finish]) (console_logger ''block'' 4) = Some (evs, l', w') \<and>
     al_shutdown l' = Shut_Down \<and> concat (map handed evs) = [sample_entry Lv_Info ''a'']"
proof -
  let ?a = "sample_entry Lv_Info ''a''"
  let ?as = "[Call 0 ?a False, Lock 0, Worker_Step, Stop_Call]"
  obtain l w where e: "log_exec sample_env ?as (console_logger ''block'' 4) = Some ([Quiet, Took ?a, Quiet, Quiet], l, w)"
    and l: "al_shutdown l = Joining" "al_dropped l = 0"
    unfolding console_logger_value by (simp add: schedule_simps)
  from log_run_exec[OF run_start e]
  have run: "log_run sample_env (console_logger ''block'' 4) (l, w) [?a] 0 []" by simp
  from logger_shutdown_flushes[OF run[unfolded console_logger_def] l(1)] l(2)
  obtain n evs l' w' where n: "n \<le> 4" and r: "log_exec sample_env (replicate n Worker_Step @ [Drain, Finish]) (l, w) = Some (evs, l', w')"
    "al_shutdown l' = Shut_Down" "concat (map handed evs) = [?a]" by auto
  show ?thesis
    using log_exec_append[OF e r(1)] n r(2,3) by (intro exI[of _ n]) auto
qed

text \<open>
  After a shutdown nothing is handed to a sink any more, although a caller that had passed the test of
  \<open>running_\<close> still has its entry accepted; and a caller that sleeps until there is space sleeps for
  ever, since only the worker notifies \<open>space_cv_\<close> and it has returned.
\<close>

definition sleepers_kept :: "async_logger \<Rightarrow> async_logger \<Rightarrow> bool" where
  "sleepers_kept l l' \<longleftrightarrow>
     (\<forall>i e. al_callers l i = Some (Asleep e False) \<longrightarrow> al_callers l' i = Some (Asleep e False))"

definition is_down :: "async_logger \<Rightarrow> bool" where
  "is_down l \<longleftrightarrow> al_shutdown l = Shut_Down \<and> al_worker l = Returned \<and> \<not> al_running l"

lemma queue_ops_callers:
  "AsyncLogger_TryEnqueue e l = Some p \<Longrightarrow> al_callers (snd p) = al_callers l"
  "al_callers (snd (resume_wait e l)) = al_callers l"
  "al_callers (snd (time_out e l)) = al_callers l"
  by (auto simp: AsyncLogger_TryEnqueue_def resume_wait_def time_out_def push_entry_def
      split: if_splits OverflowPolicy.splits prod.split enqueue_result.split)

lemma down_caller:
  assumes "is_down l" and "caller_step i e timed p = (ev, l')" and "only_queue l (snd p)"
    and "al_callers (snd p) = al_callers l" and "\<forall>e. al_callers l i \<noteq> Some (Asleep e False)"
  shows "is_down l' \<and> handed ev = [] \<and> sleepers_kept l l'"
proof -
  have l': "l' = snd (settle i e timed p)" and ev: "ev = event_of e (fst p)"
    using assms(2) by (simp_all add: caller_step_def)
  have "is_down l'" using assms(1) only_queueD[OF assms(3)] by (simp add: is_down_def l' settle_def)
  moreover have "handed ev = []" by (simp add: ev event_of_def split: enqueue_result.split)
  moreover have "sleepers_kept l l'" using assms(4,5) by (auto simp: sleepers_kept_def l' settle_def)
  ultimately show ?thesis by simp
qed

lemma down_step:
  assumes "is_down l" and "log_step env a (l, w) = Some (ev, l', w')"
  shows "is_down l' \<and> w' = w \<and> handed ev = [] \<and> sleepers_kept l l'"
proof (cases a)
  case (Lock i)
  with assms(2) obtain e timed p where p: "AsyncLogger_TryEnqueue e l = Some p" "caller_step i e timed p = (ev, l')" "w' = w"
    "al_callers l i = Some (Checked e timed)"
    by (fastforce simp: log_step_def caller_step_def split: option.splits caller.splits)
  with down_caller[OF assms(1) p(2) queue_ops_only(1)[OF p(1)] queue_ops_callers(1)[OF p(1)]] show ?thesis by simp
next
  case (Wake i)
  with assms(2) obtain e timed where p: "caller_step i e timed (resume_wait e l) = (ev, l')" "w' = w"
    "al_callers l i = Some (Woken e timed)"
    by (auto simp: log_step_def split: option.splits caller.splits prod.splits)
  with down_caller[OF assms(1) p(1) queue_ops_only(2) queue_ops_callers(2)] show ?thesis by simp
next
  case (Time_Out i)
  with assms(2) obtain e where p: "caller_step i e True (time_out e l) = (ev, l')" "w' = w"
    "al_callers l i = Some (Asleep e True)"
    by (auto simp: log_step_def split: option.splits caller.splits prod.splits bool.splits)
  with down_caller[OF assms(1) p(1) queue_ops_only(3) queue_ops_callers(3)] show ?thesis by simp
qed (use assms in \<open>auto simp: log_step_def is_down_def worker_step_def stop_call_def sleepers_kept_def
    AsyncLogger_SetOverflowPolicy_def split: if_splits\<close>)

lemma down_exec:
  assumes "is_down l" and "log_exec env as (l, w) = Some (evs, l', w')"
  shows "is_down l' \<and> w' = w \<and> concat (map handed evs) = [] \<and> sleepers_kept l l'"
  using assms
proof (induction as arbitrary: l w evs)
  case Nil
  then show ?case by (simp add: sleepers_kept_def)
next
  case (Cons a as)
  from Cons.prems(2) obtain ev l1 w1 evs1 where s: "log_step env a (l, w) = Some (ev, l1, w1)"
    "log_exec env as (l1, w1) = Some (evs1, l', w')" "evs = ev # evs1" by (auto split: option.splits)
  with down_step[OF Cons.prems(1) s(1)] Cons.IH[of l1 w1 evs1] show ?case by (auto simp: sleepers_kept_def)
qed

theorem logger_strands_callers:
  assumes "log_run env (AsyncLogger_Initialize config (AsyncLogger_new, w0)) (l, w) acc r don"
    and "al_shutdown l = Shut_Down" and "log_exec env as (l, w) = Some (evs, l', w')"
  shows "w' = w \<and> concat (map handed evs) = [] \<and>
    (\<forall>i e. al_callers l i = Some (Asleep e False) \<longrightarrow> al_callers l' i = Some (Asleep e False))"
proof -
  have "log_inv l acc r don" using log_run_inv[OF assms(1) refl] by simp
  then have "is_down l" using assms(2) by (auto simp: log_inv_def is_down_def)
  from down_exec[OF this assms(3)] show ?thesis by (simp add: sleepers_kept_def)
qed

text \<open>
  A queue of one entry: the second caller sleeps when the logger is shut down, the third has passed
  the test.  The third one's entry is accepted and stays in the queue; the second never wakes.
\<close>

lemma logger_strands_callers_witness:
  "\<exists>l w. (\<exists>evs. log_exec sample_env [Call 0 (sample_entry Lv_Info ''a'') False, Lock 0, Call 1 (sample_entry Lv_Info ''b'') False,
        Call 2 (sample_entry Lv_Info ''c'') False, Lock 1, Stop_Call, Worker_Step, Drain, Finish, Lock 2]
        (console_logger ''block'' 1) = Some (evs, l, w)) \<and>
     al_queue l = [sample_entry Lv_Info ''c''] \<and> al_callers l 1 = Some (Asleep (sample_entry Lv_Info ''b'') False) \<and>
     (\<forall>as evs' l' w'. log_exec sample_env as (l, w) = Some (evs', l', w') \<longrightarrow> w' = w \<and> concat (map handed evs') = [] \<and>
        al_callers l' 1 = Some (Asleep (sample_entry Lv_Info ''b'') False))"
proof -
  let ?e = "\<lambda>c. sample_entry Lv_Info [c]"
  let ?as = "[Call 0 (?e CHR ''a'') False, Lock 0, Call 1 (?e CHR ''b'') False, Call 2 (?e CHR ''c'') False, Lock 1,
      Stop_Call, Worker_Step, Drain, Finish, Lock 2]"
  obtain evs l w where e: "log_exec sample_env ?as (console_logger ''block'' 1) = Some (evs, l, w)"
    and l: "al_shutdown l = Shut_Down" "al_queue l = [?e CHR ''c'']" "al_callers l 1 = Some (Asleep (?e CHR ''b'') False)"
    unfolding console_logger_value by (simp add: schedule_simps)
  from log_run_exec[OF run_start e] obtain acc r don where
    run: "log_run sample_env (console_logger ''block'' 1) (l, w) acc r don" by blast
  have "w' = w \<and> concat (map handed evs') = [] \<and> al_callers l' 1 = Some (Asleep (?e CHR ''b'') False)"
    if "log_exec sample_env as (l, w) = Some (evs', l', w')" for as evs' l' w'
    using logger_strands_callers[OF run[unfolded console_logger_def] l(1) that] l(3) by simp
  with e l(2,3) show ?thesis by blast
qed

text \<open>
  A queue of size zero: the policy \<open>discard_oldest\<close> pops an empty queue, which is undefined, the
  others accept nothing.
\<close>

theorem logger_zero_queue:
  assumes "al_capacity l = 0"
  shows "(AsyncLogger_TryEnqueue e l = None \<longleftrightarrow> al_policy l = DISCARD_OLDEST \<and> al_queue l = []) \<and>
    (al_queue l = [] \<longrightarrow> (\<forall>res l'. AsyncLogger_TryEnqueue e l = Some (res, l') \<longrightarrow> res \<noteq> Accepted))"
  using assms by (auto simp: AsyncLogger_TryEnqueue_def split: OverflowPolicy.splits if_splits)

lemma logger_zero_queue_witness:
  "AsyncLogger_TryEnqueue (sample_entry Lv_Info ''a'') (fst (console_logger ''discard_oldest'' 0)) = None"
proof -
  have "al_capacity (fst (console_logger ''discard_oldest'' 0)) = 0"
    and "al_policy (fst (console_logger ''discard_oldest'' 0)) = DISCARD_OLDEST"
    and "al_queue (fst (console_logger ''discard_oldest'' 0)) = []"
    by (simp_all add: console_logger_value al_capacity_def AsyncLogger_new_def overflow_policy_def)
  with logger_zero_queue show ?thesis by blast
qed

end
