(* ===== verification/Ordered_Map.thy ===== *)
theory Ordered_Map
  imports Prelude "HOL-Library.Char_ord" "HOL-Library.List_Lexorder"
begin

text \<open>
  \<open>std::map\<close> with string keys: pairs in the order of their keys, which is the order in which the
  sources iterate.  The interface the loggers and the metrics rely on is a locale.
\<close>

type_synonym 'v smap = "(string \<times> 'v) list"

fun smap_insert :: "string \<Rightarrow> 'v \<Rightarrow> 'v smap \<Rightarrow> 'v smap" where
  "smap_insert k v [] = [(k, v)]"
| "smap_insert k v ((k', v') # m) =
     (if k = k' then (k, v) # m else if k < k' then (k, v) # (k', v') # m else (k', v') # smap_insert k v m)"

definition smap_inv :: "'v smap \<Rightarrow> bool" where
  "smap_inv m \<longleftrightarrow> sorted_wrt (<) (map fst m)"

locale string_map =
  fixes lookup :: "'m \<Rightarrow> string \<Rightarrow> 'v option" and ins :: "string \<Rightarrow> 'v \<Rightarrow> 'm \<Rightarrow> 'm" and inv :: "'m \<Rightarrow> bool"
  assumes lookup_ins: "lookup (ins k v m) = (lookup m)(k \<mapsto> v)"
    and inv_ins: "inv m \<Longrightarrow> inv (ins k v m)"
begin

text \<open>Replacing the values of keys one after the other.\<close>

lemma inv_updates: "inv m \<Longrightarrow> inv (foldl (\<lambda>m k. ins k (g k (lookup m k)) m) m ks)"
  by (induction ks arbitrary: m) (simp_all add: inv_ins)

lemma lookup_updates:
  "lookup (foldl (\<lambda>m k. ins k (g (lookup m k)) m) m ks) k = ((\<lambda>v. Some (g v)) ^^ count_list ks k) (lookup m k)"
  by (induction ks rule: rev_induct) (auto simp: lookup_ins)

end

lemma map_of_smap_insert [simp]:
  "map_of (smap_insert k v m) = (map_of m)(k \<mapsto> v)"
  by (induction k v m rule: smap_insert.induct) (auto simp: fun_eq_iff)

lemma set_smap_insert: "fst ` set (smap_insert k v m) = insert k (fst ` set m)"
  by (induction k v m rule: smap_insert.induct) auto

lemma smap_insert_set: "set (smap_insert k v m) \<subseteq> insert (k, v) (set m)"
  by (induction k v m rule: smap_insert.induct) auto

lemma smap_insert_not_Nil [simp]: "smap_insert k v m \<noteq> []"
  by (induction k v m rule: smap_insert.induct) auto

lemma smap_inv_insert: "smap_inv m \<Longrightarrow> smap_inv (smap_insert k v m)"
  unfolding smap_inv_def
proof (induction k v m rule: smap_insert.induct)
  case (2 k v k' v' m)
  then show ?case using set_smap_insert[of k v m] by (auto simp: image_iff)
qed simp

interpretation smap: string_map map_of smap_insert smap_inv
  by unfold_locales (simp_all add: smap_inv_insert)

lemma smap_value: "smap_inv m \<Longrightarrow> (k, v) \<in> set m \<Longrightarrow> map_of m k = Some v"
proof -
  assume "smap_inv m" and mem: "(k, v) \<in> set m"
  then have "distinct (map fst m)" by (simp add: smap_inv_def strict_sorted_iff)
  with mem show ?thesis by simp
qed

end
