(* ===== verification/Log_Manager.thy ===== *)
theory Log_Manager
  imports Async_Logger Ordered_Map
begin

text \<open>
  The loggers of a process and the interface the rest of the code logs through
  (\<open>lib_logger/src/log_manager.cc\<close>, \<open>logger.cc\<close>, \<open>include/logger/logging.h\<close>).  The singleton is a
  state; a thread carries its sequence number and its cached name.  A call that logs brings the time
  and the text \<open>vsnprintf\<close> makes of its arguments.
\<close>

section \<open>LogManager\<close>

record log_manager =
  lm_loggers :: "async_logger smap"
  lm_default_app_name :: string

definition LogManager_new :: log_manager where
  "LogManager_new = \<lparr>lm_loggers = [], lm_default_app_name = []\<rparr>"

definition LogManager_Initialize :: "LoggerConfig \<Rightarrow> log_manager \<times> outside \<Rightarrow> log_manager \<times> outside" where
  "LogManager_Initialize config q =
     (let name = (if lo_app_name config = [] then ''default'' else lo_app_name config)
      in case map_of (lm_loggers (fst q)) name of
           Some _ \<Rightarrow> q
         | None \<Rightarrow>
             (case AsyncLogger_Initialize (config\<lparr>lo_app_name := name\<rparr>) (AsyncLogger_new, snd q) of
                (l, w) \<Rightarrow>
                  (\<lparr>lm_loggers = smap_insert name l (lm_loggers (fst q)),
                    lm_default_app_name = if lm_default_app_name (fst q) = [] then name else lm_default_app_name (fst q)\<rparr>, w)))"

text \<open>The name under which a request finds its logger.\<close>

definition LogManager_GetLogger :: "string \<Rightarrow> log_manager \<Rightarrow> (string \<times> async_logger) option" where
  "LogManager_GetLogger app_name m =
     (if app_name = []
      then (if lm_default_app_name m = [] then None
            else map_option (\<lambda>l. (lm_default_app_name m, l)) (map_of (lm_loggers m) (lm_default_app_name m)))
      else map_option (\<lambda>l. (app_name, l)) (map_of (lm_loggers m) app_name))"

definition LogManager_GetDefaultSeverity :: "log_manager \<Rightarrow> LogLevel" where
  "LogManager_GetDefaultSeverity m =
     (if lm_loggers m = [] \<and> lm_default_app_name m = [] then Lv_Info
      else case map_of (lm_loggers m) (lm_default_app_name m) of
             Some l \<Rightarrow> lo_severity (al_config l)
           | None \<Rightarrow> Lv_Info)"

text \<open>
  \<open>AsyncLogger::Shutdown\<close> from the exchange of \<open>running_\<close> to its end, with the steps the worker takes
  before it is joined and no other thread in between.
\<close>

definition shutdown_schedule :: "async_logger \<Rightarrow> log_act list" where
  "shutdown_schedule l = Stop_Call # replicate (steps_left (stop_call l)) Worker_Step @ [Drain, Finish]"

definition AsyncLogger_Shutdown :: "log_env \<Rightarrow> async_logger \<times> outside \<Rightarrow> async_logger \<times> outside" where
  "AsyncLogger_Shutdown env q =
     (if al_running (fst q)
      then (case log_exec env (shutdown_schedule (fst q)) q of Some (_, q') \<Rightarrow> q' | None \<Rightarrow> q)
      else q)"

definition LogManager_Shutdown :: "log_env \<Rightarrow> log_manager \<times> outside \<Rightarrow> log_manager \<times> outside" where
  "LogManager_Shutdown env q =
     (LogManager_new, foldl (\<lambda>w kl. snd (AsyncLogger_Shutdown env (snd kl, w))) (snd q) (lm_loggers (fst q)))"

section \<open>Logger\<close>

record log_thread =
  th_id :: nat
  th_name :: string
  th_sequence :: uint64

text \<open>A call: level, source position, arguments as text (none if \<open>vsnprintf\<close> fails), time, process.\<close>

record log_call =
  lc_level :: LogLevel
  lc_file :: "string option"
  lc_line :: int
  lc_func :: "string option"
  lc_text :: "string option"
  lc_now :: int
  lc_pid :: int

definition c_string :: "string option \<Rightarrow> string" where
  "c_string s = (case s of None \<Rightarrow> [] | Some t \<Rightarrow> takeWhile (\<lambda>c. c \<noteq> CHR 0x00) t)"

definition GetThreadName :: "log_env \<Rightarrow> log_thread \<Rightarrow> string \<times> log_thread" where
  "GetThreadName env t =
     (let t' = (if th_name t = [] then t\<lparr>th_name := ev_tid env (th_id t)\<rparr> else t) in (th_name t', t'))"

definition make_entry :: "log_env \<Rightarrow> string \<Rightarrow> log_call \<Rightarrow> log_thread \<Rightarrow> LogEntry \<times> log_thread" where
  "make_entry env app c t =
     (case GetThreadName env t of
        (name, t') \<Rightarrow>
          (\<lparr>le_timestamp = lc_now c, le_level = lc_level c, le_message = c_string (lc_text c), le_file = c_string (lc_file c),
            le_line = lc_line c, le_function = c_string (lc_func c), le_thread_id = th_id t, le_thread_name = name,
            le_process_id = lc_pid c, le_hostname = [], le_app_name = app, le_sequence = th_sequence t'\<rparr>,
           t'\<lparr>th_sequence := th_sequence t' + 1\<rparr>))"

definition AsyncLogger_Enqueue :: "nat \<Rightarrow> LogEntry \<Rightarrow> async_logger \<Rightarrow> (log_event \<times> async_logger) option" where
  "AsyncLogger_Enqueue i e l =
     (if al_running l then map_option (caller_step i e False) (AsyncLogger_TryEnqueue e l) else Some (Quiet, l))"

text \<open>The common part of \<open>Log\<close> and \<open>LogApp\<close>, once the logger is found.\<close>

definition log_to :: "log_env \<Rightarrow> string \<Rightarrow> log_call \<Rightarrow> (string \<times> async_logger) option \<Rightarrow>
    log_thread \<times> log_manager \<Rightarrow> (log_thread \<times> log_manager) option" where
  "log_to env app c found q =
     (case q of (t, m) \<Rightarrow>
        (case found of
           None \<Rightarrow> Some (t, m)
         | Some (name, l) \<Rightarrow>
             (if lc_level c < lo_severity (al_config l) then Some (t, m)
              else (case make_entry env app c t of
                      (e, t') \<Rightarrow>
                        map_option (\<lambda>r. (t', m\<lparr>lm_loggers := smap_insert name (snd r) (lm_loggers m)\<rparr>))
                          (AsyncLogger_Enqueue (th_id t) e l)))))"

definition Logger_Log :: "log_env \<Rightarrow> log_call \<Rightarrow> log_thread \<times> log_manager \<Rightarrow> (log_thread \<times> log_manager) option" where
  "Logger_Log env c q = log_to env [] c (LogManager_GetLogger [] (snd q)) q"

definition Logger_LogApp :: "log_env \<Rightarrow> string \<Rightarrow> log_call \<Rightarrow> log_thread \<times> log_manager \<Rightarrow> (log_thread \<times> log_manager) option" where
  "Logger_LogApp env app c q =
     log_to env app c
       (case LogManager_GetLogger app (snd q) of None \<Rightarrow> LogManager_GetLogger [] (snd q) | found \<Rightarrow> found) q"

definition Logger_IsLevelEnabled :: "LogLevel \<Rightarrow> log_manager \<Rightarrow> bool" where
  "Logger_IsLevelEnabled level m \<longleftrightarrow> level \<ge> LogManager_GetDefaultSeverity m"

definition Logger_Initialize :: "string option \<Rightarrow> log_manager \<times> outside \<Rightarrow> (log_manager \<times> outside) option" where
  "Logger_Initialize config_string q =
     map_option (\<lambda>config. LogManager_Initialize config q) (ParseConfig config_string)"

definition Logger_Deinitialize :: "log_env \<Rightarrow> log_manager \<times> outside \<Rightarrow> log_manager \<times> outside" where
  "Logger_Deinitialize env q = LogManager_Shutdown env q"

text \<open>The macro \<open>LOG(level, fmt, ...)\<close>, with a format that is not null.\<close>

definition LOG_macro :: "log_env \<Rightarrow> log_call \<Rightarrow> log_thread \<times> log_manager \<Rightarrow> (log_thread \<times> log_manager) option" where
  "LOG_macro env c q = (if Logger_IsLevelEnabled (lc_level c) (snd q) then Logger_Log env c q else Some q)"

section \<open>The table of loggers\<close>

text \<open>
  The keys are sorted and distinct, a logger carries its key as the name of its configuration, and
  the default name is the name of one of them, and is empty when there are none.
\<close>

definition manager_inv :: "log_manager \<Rightarrow> bool" where
  "manager_inv m \<longleftrightarrow>
     smap_inv (lm_loggers m) \<and>
     (\<forall>(name, l) \<in> set (lm_loggers m). name \<noteq> [] \<and> lo_app_name (al_config l) = name) \<and>
     (if lm_loggers m = [] then lm_default_app_name m = [] else lm_default_app_name m \<in> fst ` set (lm_loggers m))"

lemma LogManager_new_inv: "manager_inv LogManager_new"
  by (simp add: manager_inv_def LogManager_new_def smap_inv_def)

lemma Initialize_config: "AsyncLogger_Initialize config (AsyncLogger_new, w0) = (l, w) \<Longrightarrow> al_config l = config"
  using Initialize_state[of config w0 l w] by (auto simp: sinks_inv_def)

lemma manager_Initialize_inv:
  assumes "manager_inv m" and "LogManager_Initialize config (m, w) = (m', w')"
  shows "manager_inv m'"
proof -
  define name where "name = (if lo_app_name config = [] then ''default'' else lo_app_name config)"
  note init = assms(2)[unfolded LogManager_Initialize_def name_def[symmetric] Let_def fst_conv snd_conv]
  show ?thesis
  proof (cases "map_of (lm_loggers m) name")
    case (Some l)
    with assms(1) init show ?thesis by simp
  next
    case None
    obtain l w1 where l: "AsyncLogger_Initialize (config\<lparr>lo_app_name := name\<rparr>) (AsyncLogger_new, w) = (l, w1)" by fastforce
    from None init l have m': "m' = \<lparr>lm_loggers = smap_insert name l (lm_loggers m),
        lm_default_app_name = if lm_default_app_name m = [] then name else lm_default_app_name m\<rparr>"
      by (simp split: if_splits)
    have "name \<noteq> []" by (simp add: name_def)
    moreover have "lo_app_name (al_config l) = name" using Initialize_config[OF l] by simp
    moreover have "lm_default_app_name m \<noteq> [] \<Longrightarrow> lm_default_app_name m \<in> fst ` set (lm_loggers m)"
      using assms(1) by (auto simp: manager_inv_def split: if_splits)
    ultimately show ?thesis
      using assms(1) smap_insert_set[of name l "lm_loggers m"] smap_inv_insert[of "lm_loggers m" name l]
      unfolding manager_inv_def m' by (auto simp: set_smap_insert simp del: smap_insert.simps)
  qed
qed

lemma caller_step_config: "AsyncLogger_Enqueue i e l = Some (ev, l') \<Longrightarrow> al_config l' = al_config l"
  using caller_step_sinks queue_ops_only(1)
  by (fastforce simp: AsyncLogger_Enqueue_def split: if_splits)

lemma log_to_inv:
  assumes "manager_inv m" and "log_to env app c found (t, m) = Some (t', m')"
    and "\<forall>name l. found = Some (name, l) \<longrightarrow> map_of (lm_loggers m) name = Some l"
  shows "manager_inv m' \<and> fst ` set (lm_loggers m') = fst ` set (lm_loggers m) \<and>
    lm_default_app_name m' = lm_default_app_name m"
proof (cases found)
  case (Some p)
  obtain name l where p: "p = (name, l)" by (cases p)
  have at: "map_of (lm_loggers m) name = Some l" using assms(3) Some p by simp
  then have mem: "(name, l) \<in> set (lm_loggers m)" by (rule map_of_SomeD)
  show ?thesis
  proof (cases "m' = m")
    case False
    then obtain ev l' i e where l': "AsyncLogger_Enqueue i e l = Some (ev, l')"
      "m' = m\<lparr>lm_loggers := smap_insert name l' (lm_loggers m)\<rparr>"
      using assms(2) Some p by (auto simp: log_to_def split: if_splits prod.splits)
    have "fst ` set (lm_loggers m') = fst ` set (lm_loggers m)"
      using mem by (force simp: l'(2) set_smap_insert)
    moreover have "lm_loggers m \<noteq> []" using mem by auto
    moreover have "n \<noteq> [] \<and> lo_app_name (al_config b) = n" if "(n, b) \<in> set (lm_loggers m')" for n b
    proof -
      have "(n, b) = (name, l') \<or> (n, b) \<in> set (lm_loggers m)"
        using that smap_insert_set[of name l' "lm_loggers m"] by (auto simp: l'(2))
      then show ?thesis using assms(1) mem caller_step_config[OF l'(1)] by (auto simp: manager_inv_def)
    qed
    moreover have "smap_inv (lm_loggers m')" using assms(1) by (simp add: l'(2) manager_inv_def smap_inv_insert)
    moreover have "lm_default_app_name m' = lm_default_app_name m" by (simp add: l'(2))
    ultimately show ?thesis using assms(1) by (auto simp: manager_inv_def l'(2))
  qed (use assms in simp)
qed (use assms in \<open>simp add: log_to_def\<close>)

lemma GetLogger_found: "LogManager_GetLogger n m = Some (name, l) \<Longrightarrow> map_of (lm_loggers m) name = Some l"
  by (auto simp: LogManager_GetLogger_def split: if_splits)

datatype log_op = Lg_Initialize LoggerConfig | Lg_Log log_thread log_call | Lg_LogApp log_thread string log_call | Lg_Deinitialize

primrec manager_step :: "log_env \<Rightarrow> log_op \<Rightarrow> log_manager \<times> outside \<Rightarrow> (log_manager \<times> outside) option" where
  "manager_step env (Lg_Initialize c) q = Some (LogManager_Initialize c q)"
| "manager_step env (Lg_Log t c) q = map_option (\<lambda>r. (snd r, snd q)) (Logger_Log env c (t, fst q))"
| "manager_step env (Lg_LogApp t a c) q = map_option (\<lambda>r. (snd r, snd q)) (Logger_LogApp env a c (t, fst q))"
| "manager_step env Lg_Deinitialize q = Some (Logger_Deinitialize env q)"

primrec manager_run :: "log_env \<Rightarrow> log_op list \<Rightarrow> log_manager \<times> outside \<Rightarrow> (log_manager \<times> outside) option" where
  "manager_run env [] q = Some q"
| "manager_run env (a # as) q = Option.bind (manager_step env a q) (manager_run env as)"

lemma manager_step_inv:
  assumes "manager_inv (fst q)" and "manager_step env a q = Some q'"
  shows "manager_inv (fst q')"
proof (cases a)
  case (Lg_Initialize c)
  with assms manager_Initialize_inv[of "fst q" c "snd q" "fst q'" "snd q'"] show ?thesis by simp
next
  case (Lg_Log t c)
  with assms(2) obtain t' m' where "log_to env [] c (LogManager_GetLogger [] (fst q)) (t, fst q) = Some (t', m')" "q' = (m', snd q)"
    by (auto simp: Logger_Log_def)
  with log_to_inv[OF assms(1) this(1)] GetLogger_found show ?thesis by auto
next
  case (Lg_LogApp t app c)
  define found where "found = (case LogManager_GetLogger app (fst q) of None \<Rightarrow> LogManager_GetLogger [] (fst q) | f \<Rightarrow> f)"
  from Lg_LogApp assms(2) obtain t' m' where m': "log_to env app c found (t, fst q) = Some (t', m')" "q' = (m', snd q)"
    by (auto simp: Logger_LogApp_def found_def cong: option.case_cong)
  have "\<forall>name l. found = Some (name, l) \<longrightarrow> map_of (lm_loggers (fst q)) name = Some l"
    using GetLogger_found by (auto simp: found_def split: option.splits)
  with log_to_inv[OF assms(1) m'(1)] m'(2) show ?thesis by simp
next
  case Lg_Deinitialize
  with assms(2) show ?thesis by (auto simp: Logger_Deinitialize_def LogManager_Shutdown_def LogManager_new_inv)
qed

lemma manager_run_inv:
  "manager_inv (fst q) \<Longrightarrow> manager_run env as q = Some q' \<Longrightarrow> manager_inv (fst q')"
proof (induction as arbitrary: q)
  case (Cons a as)
  from Cons.prems(2) obtain q1 where "manager_step env a q = Some q1" "manager_run env as q1 = Some q'"
    by (auto simp: bind_eq_Some_conv)
  with Cons.IH manager_step_inv[OF Cons.prems(1)] show ?case by blast
qed simp

text \<open>
  C38. Whatever sequence of initialisations, log calls and deinitialisations: the table of loggers stays
  ordered, every logger is filed under the name in its own configuration, and there is a default
  logger exactly when there is a logger.
\<close>

theorem logger_table_sound:
  assumes "manager_run env as (LogManager_new, w0) = Some (m, w)"
  shows "smap_inv (lm_loggers m) \<and>
    (\<forall>(name, l) \<in> set (lm_loggers m). lo_app_name (al_config l) = name \<and> LogManager_GetLogger name m = Some (name, l)) \<and>
    (LogManager_GetLogger [] m = None \<longleftrightarrow> lm_loggers m = [])"
proof -
  have inv: "manager_inv m" using manager_run_inv[of "(LogManager_new, w0)", OF _ assms] LogManager_new_inv by simp
  have found: "LogManager_GetLogger name m = Some (name, l)" if "(name, l) \<in> set (lm_loggers m)" for name l
    using inv that smap_value[of "lm_loggers m" name l] by (auto simp: manager_inv_def LogManager_GetLogger_def)
  have "lm_loggers m \<noteq> [] \<Longrightarrow> LogManager_GetLogger [] m \<noteq> None"
  proof -
    assume ne: "lm_loggers m \<noteq> []"
    then obtain l where l: "(lm_default_app_name m, l) \<in> set (lm_loggers m)"
      using inv by (auto simp: manager_inv_def)
    then have "lm_default_app_name m \<noteq> []" using inv by (auto simp: manager_inv_def)
    with found[OF l] show ?thesis by (simp add: LogManager_GetLogger_def)
  qed
  moreover have "lm_loggers m = [] \<Longrightarrow> LogManager_GetLogger [] m = None" by (simp add: LogManager_GetLogger_def)
  ultimately have "LogManager_GetLogger [] m = None \<longleftrightarrow> lm_loggers m = []" by blast
  then show ?thesis using inv found by (simp add: manager_inv_def) blast
qed

text \<open>
  The macro's test of the level makes no difference: \<open>LOG\<close> does what \<open>Logger::Log\<close> does, which tests
  the level again, whatever loggers there are.
\<close>

theorem log_macro_equivalent: "LOG_macro env c (t, m) = Logger_Log env c (t, m)"
proof (cases "LogManager_GetLogger [] m")
  case None
  then show ?thesis by (simp add: LOG_macro_def Logger_Log_def log_to_def)
next
  case (Some p)
  then obtain l where l: "map_of (lm_loggers m) (lm_default_app_name m) = Some l" "p = (lm_default_app_name m, l)"
    "lm_default_app_name m \<noteq> []" by (auto simp: LogManager_GetLogger_def split: if_splits)
  then have "LogManager_GetDefaultSeverity m = lo_severity (al_config l)" by (simp add: LogManager_GetDefaultSeverity_def)
  with Some l show ?thesis by (auto simp: LOG_macro_def Logger_Log_def log_to_def Logger_IsLevelEnabled_def)
qed

section \<open>A logging session\<close>

text \<open>
  A thread's log calls, with the logger's worker taking a step anywhere between them, and the entries
  the calls at or above the severity make.
\<close>

datatype session_act = S_Log log_call | S_Worker

fun calls_of :: "session_act list \<Rightarrow> log_call list" where
  "calls_of [] = []"
| "calls_of (S_Log c # as) = c # calls_of as"
| "calls_of (S_Worker # as) = calls_of as"

definition default_worker :: "log_env \<Rightarrow> log_manager \<times> outside \<Rightarrow> (log_manager \<times> outside) option" where
  "default_worker env q =
     (case LogManager_GetLogger [] (fst q) of
        None \<Rightarrow> None
      | Some (name, l) \<Rightarrow>
          (case worker_step env (l, snd q) of
             None \<Rightarrow> None
           | Some (ev, l', w') \<Rightarrow> Some ((fst q)\<lparr>lm_loggers := smap_insert name l' (lm_loggers (fst q))\<rparr>, w')))"

primrec session_step :: "log_env \<Rightarrow> session_act \<Rightarrow> log_thread \<times> log_manager \<times> outside \<Rightarrow> (log_thread \<times> log_manager \<times> outside) option" where
  "session_step env (S_Log c) q =
     map_option (\<lambda>r. (fst r, snd r, snd (snd q))) (Logger_Log env c (fst q, fst (snd q)))"
| "session_step env S_Worker q = map_option (\<lambda>mw. (fst q, mw)) (default_worker env (snd q))"

primrec session_exec :: "log_env \<Rightarrow> session_act list \<Rightarrow> log_thread \<times> log_manager \<times> outside \<Rightarrow> (log_thread \<times> log_manager \<times> outside) option" where
  "session_exec env [] q = Some q"
| "session_exec env (a # as) q = Option.bind (session_step env a q) (session_exec env as)"

primrec entries_of :: "log_env \<Rightarrow> LogLevel \<Rightarrow> log_call list \<Rightarrow> log_thread \<Rightarrow> LogEntry list" where
  "entries_of env sev [] t = []"
| "entries_of env sev (c # cs) t =
     (if lc_level c < sev then entries_of env sev cs t
      else fst (make_entry env [] c t) # entries_of env sev cs (snd (make_entry env [] c t)))"

lemma enqueue_run:
  assumes "log_run env q0 (l, w) acc r don" and "al_running l" and "al_callers l = (\<lambda>_. None)"
    and "length (al_queue l) < al_capacity l"
  shows "AsyncLogger_Enqueue i e l = Some (Took e, push_entry e l) \<and> log_run env q0 (push_entry e l, w) (acc @ [e]) r don"
proof -
  have room: "AsyncLogger_TryEnqueue e l = Some (Accepted, push_entry e l)"
    using assms(4) by (simp add: AsyncLogger_TryEnqueue_def)
  have idle: "(al_callers l)(i := None) = al_callers l" using assms(3) by auto
  have step: "caller_step i e False (Accepted, push_entry e l) = (Took e, push_entry e l)"
    using idle by (simp add: caller_step_def settle_def event_of_def push_entry_def)
  have "log_exec env [Call i e False, Lock i] (l, w) = Some ([Quiet, Took e], push_entry e l, w)"
    using assms(2,3,4) idle
    by (simp add: log_step_def AsyncLogger_TryEnqueue_def al_capacity_def caller_step_def settle_def event_of_def push_entry_def)
  from log_run_exec[OF assms(1) this] have "log_run env q0 (push_entry e l, w) (acc @ [e]) r don" by simp
  moreover have "AsyncLogger_Enqueue i e l = Some (Took e, push_entry e l)"
    using room step assms(2) by (simp add: AsyncLogger_Enqueue_def)
  ultimately show ?thesis by simp
qed

lemma make_entry_id [simp]: "th_id (snd (make_entry env app c t)) = th_id t"
  by (simp add: make_entry_def GetThreadName_def Let_def split: prod.split)

lemma smap_insert_single [simp]: "smap_insert k v [(k, x)] = [(k, v)]"
  by simp

lemma worker_step_up:
  assumes "al_running l" and "al_worker l \<noteq> Returned" and "al_callers l = (\<lambda>_. None)"
  obtains ev l' w' where "worker_step env (l, w) = Some (ev, l', w')" and "al_running l'" and "al_callers l' = (\<lambda>_. None)"
    and "al_shutdown l' = al_shutdown l" and "al_dropped l' = al_dropped l" and "al_config l' = al_config l"
    and "taken ev = []" and "refused ev = 0"
proof (cases "al_worker l")
  case (Notified b)
  obtain l1 w1 where p: "AsyncLogger_ProcessBatch env b (l\<lparr>al_worker := At_Test\<rparr>, w) = (l1, w1)" by fastforce
  have "worker_step env (l, w) = Some (Handed b, l1, w1)" using Notified p by (simp add: worker_step_def)
  from that[OF this] ProcessBatch_fields[OF p] assms show ?thesis by simp
qed (use assms that in \<open>auto simp: worker_step_def notify_space_def Let_def\<close>)

text \<open>A logger that runs alone, has dropped nothing and has room for \<open>n\<close> more entries after \<open>acc\<close>.\<close>

definition has_room :: "LoggerConfig \<Rightarrow> nat \<Rightarrow> async_logger \<Rightarrow> LogEntry list \<Rightarrow> bool" where
  "has_room config n l acc \<longleftrightarrow>
     al_running l \<and> al_shutdown l = Not_Called \<and> al_callers l = (\<lambda>_. None) \<and> al_dropped l = 0 \<and> al_config l = config \<and>
     length acc + n \<le> al_capacity l"

lemma session_runs:
  assumes "AsyncLogger_Initialize config (AsyncLogger_new, w0) = q0" and "name \<noteq> []"
    and "log_run env q0 (l, w) acc 0 don" and "has_room config (length (entries_of env (lo_severity config) (calls_of as) t)) l acc"
  shows "\<exists>t' l' w' don'. session_exec env as (t, \<lparr>lm_loggers = [(name, l)], lm_default_app_name = name\<rparr>, w) =
      Some (t', \<lparr>lm_loggers = [(name, l')], lm_default_app_name = name\<rparr>, w') \<and>
    log_run env q0 (l', w') (acc @ entries_of env (lo_severity config) (calls_of as) t) 0 don' \<and>
    has_room config 0 l' (acc @ entries_of env (lo_severity config) (calls_of as) t)"
  using assms(3,4)
proof (induction as arbitrary: l t acc w don)
  case Nil
  then show ?case by auto
next
  case (Cons a as)
  let ?m = "\<lambda>l. \<lparr>lm_loggers = [(name, l)], lm_default_app_name = name\<rparr>"
  have found: "LogManager_GetLogger [] (?m l) = Some (name, l)" using assms(2) by (simp add: LogManager_GetLogger_def)
  note room = Cons.prems(2)[unfolded has_room_def]
  have inv: "log_inv l acc 0 don" using log_run_inv[OF Cons.prems(1) assms(1)] by simp
  show ?case
  proof (cases a)
    case S_Worker
    have "al_worker l \<noteq> Returned" using inv room by (auto simp: log_inv_def)
    with room obtain ev l' w' where step: "worker_step env (l, w) = Some (ev, l', w')" and same: "al_running l'" "al_callers l' = (\<lambda>_. None)"
      "al_shutdown l' = al_shutdown l" "al_dropped l' = al_dropped l" "al_config l' = al_config l" "taken ev = []" "refused ev = 0"
      by (blast intro: worker_step_up[of l env w])
    from step have "log_step env Worker_Step (l, w) = Some (ev, l', w')" by (simp add: log_step_def)
    from run_step[OF Cons.prems(1) this] same have run: "log_run env q0 (l', w') acc 0 (don @ handed ev)" by simp
    have "has_room config (length (entries_of env (lo_severity config) (calls_of as) t)) l' acc"
      using Cons.prems(2) same S_Worker by (auto simp: has_room_def al_capacity_def)
    from Cons.IH[OF run this] show ?thesis using S_Worker step by (simp add: default_worker_def found)
  next
    case (S_Log c)
    show ?thesis
    proof (cases "lc_level c < lo_severity config")
      case True
      then have "Logger_Log env c (t, ?m l) = Some (t, ?m l)" using room by (simp add: Logger_Log_def found log_to_def)
      with Cons.IH[OF Cons.prems(1)] Cons.prems(2) True S_Log show ?thesis by simp
    next
      case False
      obtain e t1 where e: "make_entry env [] c t = (e, t1)" by fastforce
      then have es: "entries_of env (lo_severity config) (calls_of (a # as)) t = e # entries_of env (lo_severity config) (calls_of as) t1"
        using False S_Log by simp
      have "length (al_queue l) \<le> length acc" using inv room by (simp add: log_inv_def)
      then have "length (al_queue l) < al_capacity l" using room unfolding es by simp
      note q = enqueue_run[OF Cons.prems(1) _ _ this, of "th_id t" e]
      have "Logger_Log env c (t, ?m l) = Some (t1, ?m (push_entry e l))"
        using False e q room by (simp add: Logger_Log_def found log_to_def)
      moreover have "has_room config (length (entries_of env (lo_severity config) (calls_of as) t1)) (push_entry e l) (acc @ [e])"
        using Cons.prems(2) unfolding es by (auto simp add: has_room_def push_entry_def al_capacity_def)
      ultimately show ?thesis using Cons.IH[of "push_entry e l" w "acc @ [e]" don t1] q room S_Log
        unfolding es by simp
    qed
  qed
qed

lemma AsyncLogger_Shutdown_run:
  assumes "log_run env q0 (l, w) acc r don" and "al_running l" and "al_shutdown l = Not_Called"
  shows "\<exists>q' r'. AsyncLogger_Shutdown env (l, w) = q' \<and> log_run env q0 q' acc r' (don @ held l @ al_queue l) \<and>
    al_shutdown (fst q') = Shut_Down \<and> al_queue (fst q') = [] \<and> al_sinks (fst q') = []"
proof -
  let ?l = "stop_call l"
  have stop: "al_shutdown ?l = Joining" "\<not> al_running ?l" "held ?l = held l" "al_queue ?l = al_queue l"
    using assms(2,3) by (simp_all add: stop_call_def held_def)
  from completes_stopped[OF stop(1,2), of env w] obtain evs q' where
    e: "log_exec env (replicate (steps_left ?l) Worker_Step @ [Drain, Finish]) (?l, w) = Some (evs, q')"
    "al_shutdown (fst q') = Shut_Down" "al_queue (fst q') = []" "al_sinks (fst q') = []" "concat (map taken evs) = []"
    "concat (map handed evs) = held ?l @ al_queue ?l" by (auto simp: completes_def)
  then have x: "log_exec env (shutdown_schedule l) (l, w) = Some (Quiet # evs, q')"
    by (simp add: shutdown_schedule_def log_step_def)
  from log_run_exec[OF assms(1) x] e stop show ?thesis
    by (intro exI[of _ q'] exI) (auto simp: AsyncLogger_Shutdown_def assms(2) x)
qed

definition session_config :: "LoggerConfig \<Rightarrow> LoggerConfig" where
  "session_config config =
     config\<lparr>lo_app_name := if lo_app_name config = [] then ''default'' else lo_app_name config\<rparr>"


definition sample_call :: "LogLevel \<Rightarrow> string \<Rightarrow> log_call" where
  "sample_call level text =
     \<lparr>lc_level = level, lc_file = None, lc_line = 1, lc_func = None, lc_text = Some text, lc_now = 0, lc_pid = 1\<rparr>"

definition sample_text :: string where
  "sample_text = ''severity=warn;timestamp_precision=second;include_metadata=false''"

definition sample_settings :: LoggerConfig where
  "sample_settings = LoggerConfig_default
     \<lparr>lo_severity := Lv_Warn, lo_timestamp_precision := ''second'', lo_include_metadata := False\<rparr>"

lemma sample_text_parses: "ParseConfig (Some sample_text) = Some sample_settings"
proof -
  have "split_text (takeWhile (\<lambda>ch. ch \<noteq> CHR 0x00) sample_text) (CHR '';'') =
      map setting_text [(''severity'', ''warn''), (''timestamp_precision'', ''second''), (''include_metadata'', ''false'')]"
    unfolding sample_text_def by code_simp
  moreover have "StringToLogLevel ''warn'' = Lv_Warn" by code_simp
  ultimately show ?thesis
    by (simp add: ParseConfig_def apply_pair_setting clean_def apply_setting_def sample_settings_def)
qed


lemma logger_table_sound_witness:
  "\<exists>m w. manager_run sample_env [Lg_Initialize sample_settings, Lg_Log \<lparr>th_id = 7, th_name = [], th_sequence = 0\<rparr> (sample_call Lv_Info ''a'')]
      (LogManager_new, nothing_outside) = Some (m, w) \<and> LogManager_GetLogger [] m \<noteq> None"
proof -
  obtain l w where l: "AsyncLogger_Initialize (session_config sample_settings) (AsyncLogger_new, nothing_outside) = (l, w)" by fastforce
  let ?m = "\<lparr>lm_loggers = [(''default'', l)], lm_default_app_name = ''default''\<rparr>"
  let ?as = "[Lg_Initialize sample_settings, Lg_Log \<lparr>th_id = 7, th_name = [], th_sequence = 0\<rparr> (sample_call Lv_Info ''a'')]"
  have "lo_app_name sample_settings = []" by (simp add: sample_settings_def LoggerConfig_default_def)
  then have "LogManager_Initialize sample_settings (LogManager_new, nothing_outside) = (?m, w)"
    using l by (simp add: LogManager_Initialize_def LogManager_new_def session_config_def Let_def)
  moreover have "lc_level (sample_call Lv_Info ''a'') < lo_severity (al_config l)"
    by (simp add: Initialize_config[OF l] session_config_def sample_settings_def sample_call_def less_LogLevel_def)
  ultimately have "manager_run sample_env ?as (LogManager_new, nothing_outside) = Some (?m, w)"
    by (simp add: Logger_Log_def LogManager_GetLogger_def log_to_def)
  moreover from logger_table_sound[OF this] have "LogManager_GetLogger [] ?m \<noteq> None" by simp
  ultimately show ?thesis by blast
qed

end
