(* ===== verification/Observability.thy ===== *)
theory Observability
  imports Log_Manager Complex_Main
begin

text \<open>
  Metrics and traces (\<open>observability/metrics/metrics_collector.cc\<close>,
  \<open>observability/tracing/tracer.cc\<close>, \<open>otlp_exporter.cc\<close>).  The rounding of a double addition, the text
  of a double, the values of \<open>std::rand\<close> and the clock are parameters; counters and gauges are 64-bit
  integers read as signed.
\<close>

section \<open>MetricsCollector\<close>

record Histogram =
  hg_sum :: real
  hg_count :: uint64

record MetricsCollector =
  mt_counters :: "uint64 smap"
  mt_gauges :: "uint64 smap"
  mt_histograms :: "Histogram smap"

definition MetricsCollector_new :: MetricsCollector where
  "MetricsCollector_new = \<lparr>mt_counters = [], mt_gauges = [], mt_histograms = []\<rparr>"

definition incremented :: "uint64 option \<Rightarrow> uint64" where
  "incremented v = (case v of None \<Rightarrow> 0 | Some n \<Rightarrow> n) + 1"

definition IncrementCounter :: "string \<Rightarrow> MetricsCollector \<Rightarrow> MetricsCollector" where
  "IncrementCounter name m =
     m\<lparr>mt_counters := smap_insert name (incremented (map_of (mt_counters m) name)) (mt_counters m)\<rparr>"

definition SetGauge :: "string \<Rightarrow> uint64 \<Rightarrow> MetricsCollector \<Rightarrow> MetricsCollector" where
  "SetGauge name value m = m\<lparr>mt_gauges := smap_insert name value (mt_gauges m)\<rparr>"

definition ObserveHistogram :: "(real \<Rightarrow> real) \<Rightarrow> string \<Rightarrow> real \<Rightarrow> MetricsCollector \<Rightarrow> MetricsCollector" where
  "ObserveHistogram rnd name value m =
     (let h = (case map_of (mt_histograms m) name of None \<Rightarrow> \<lparr>hg_sum = 0, hg_count = 0\<rparr> | Some h \<Rightarrow> h)
      in m\<lparr>mt_histograms :=
           smap_insert name \<lparr>hg_sum = rnd (hg_sum h + value), hg_count = hg_count h + 1\<rparr> (mt_histograms m)\<rparr>)"

text \<open>One sample: the line with its type and the line with its value.\<close>

definition sample_lines :: "string \<Rightarrow> string \<Rightarrow> string \<Rightarrow> string" where
  "sample_lines type name value =
     ''# TYPE '' @ name @ '' '' @ type @ [LF] @ name @ '' '' @ value @ [LF]"

definition GetPrometheusOutput :: "(real \<Rightarrow> string) \<Rightarrow> MetricsCollector \<Rightarrow> string" where
  "GetPrometheusOutput show_double m =
     concat (map (\<lambda>(name, v). sample_lines ''counter'' name (dec_int (sint v))) (mt_counters m)) @
     concat (map (\<lambda>(name, v). sample_lines ''gauge'' name (dec_int (sint v))) (mt_gauges m)) @
     concat (map (\<lambda>(name, h). sample_lines ''counter'' (name @ ''_sum'') (show_double (hg_sum h)) @
                              sample_lines ''counter'' (name @ ''_count'') (dec_int (sint (hg_count h)))) (mt_histograms m))"

section \<open>What a scrape reads\<close>

text \<open>
  The exposition format: a line that does not start with a hash sign is a name, a space and a value.
\<close>

definition scrape_line :: "string \<Rightarrow> (string \<times> string) list" where
  "scrape_line l =
     (if l = [] \<or> hd l = CHR ''#'' then []
      else (let name = takeWhile (\<lambda>c. c \<noteq> CHR '' '') l in [(name, drop (Suc (length name)) l)]))"

definition scrape :: "string \<Rightarrow> (string \<times> string) list" where
  "scrape text = concat (map scrape_line (getlines LF text))"

definition metric_name :: "string \<Rightarrow> bool" where
  "metric_name n \<longleftrightarrow> n \<noteq> [] \<and> hd n \<noteq> CHR ''#'' \<and> CHR '' '' \<notin> set n \<and> LF \<notin> set n"

definition metric_samples :: "(real \<Rightarrow> string) \<Rightarrow> MetricsCollector \<Rightarrow> (string \<times> string) list" where
  "metric_samples show_double m =
     map (\<lambda>(name, v). (name, dec_int (sint v))) (mt_counters m) @
     map (\<lambda>(name, v). (name, dec_int (sint v))) (mt_gauges m) @
     concat (map (\<lambda>(name, h). [(name @ ''_sum'', show_double (hg_sum h)), (name @ ''_count'', dec_int (sint (hg_count h)))])
       (mt_histograms m))"

lemma scrape_sample:
  assumes "metric_name name" and "LF \<notin> set type" and "LF \<notin> set value"
  shows "scrape (sample_lines type name value @ rest) = (name, value) # scrape rest"
proof -
  have "getlines LF (sample_lines type name value @ rest) =
      (''# TYPE '' @ name @ '' '' @ type) # (name @ '' '' @ value) # getlines LF rest"
    using assms getlines_step[of LF "''# TYPE '' @ name @ '' '' @ type" "name @ '' '' @ value @ [LF] @ rest"]
      getlines_step[of LF "name @ '' '' @ value" rest]
    by (simp add: sample_lines_def metric_name_def)
  moreover have "scrape_line (''# TYPE '' @ name @ '' '' @ type) = []" by (simp add: scrape_line_def)
  moreover have "takeWhile (\<lambda>c. c \<noteq> CHR '' '') (name @ '' '' @ value) = name"
    using assms(1) by (subst takeWhile_append2) (auto simp: metric_name_def)
  then have "scrape_line (name @ '' '' @ value) = [(name, value)]"
    using assms(1) by (cases name) (simp_all add: scrape_line_def metric_name_def Let_def)
  ultimately show ?thesis by (simp add: scrape_def)
qed

lemma dec_int_no_LF: "LF \<notin> set (dec_int i)"
proof -
  have "LF \<notin> set (dec_str n)" for n using dec_str_digits[of n] by (auto simp: is_digit_def)
  then show ?thesis by (simp add: dec_int_def)
qed

lemma scrape_numbers:
  assumes "\<forall>x \<in> set xs. metric_name (fst x)" and "LF \<notin> set type"
  shows "scrape (concat (map (\<lambda>(name, v :: uint64). sample_lines type name (dec_int (sint v))) xs) @ rest) =
    map (\<lambda>(name, v). (name, dec_int (sint v))) xs @ scrape rest"
  using assms(1) by (induction xs) (auto simp: scrape_sample assms(2) dec_int_no_LF)

lemma scrape_histograms:
  assumes "\<forall>x \<in> set xs. metric_name (fst x)" and "\<And>x. LF \<notin> set (show_double x)"
  shows "scrape (concat (map (\<lambda>(name, h). sample_lines ''counter'' (name @ ''_sum'') (show_double (hg_sum h)) @
        sample_lines ''counter'' (name @ ''_count'') (dec_int (sint (hg_count h)))) xs)) =
    concat (map (\<lambda>(name, h). [(name @ ''_sum'', show_double (hg_sum h)), (name @ ''_count'', dec_int (sint (hg_count h)))]) xs)"
  using assms(1)
proof (induction xs)
  case Nil
  then show ?case by (simp add: scrape_def)
next
  case (Cons x xs)
  then have "metric_name (fst x @ ''_sum'')" and "metric_name (fst x @ ''_count'')"
    by (auto simp: metric_name_def)
  with Cons assms(2) dec_int_no_LF show ?case by (cases x) (simp add: scrape_sample)
qed



text \<open>
  Counting: after any updates, in any order and interleaved with the other kinds of metric, a counter
  is the number of its increments, modulo \<open>2^64\<close>.
\<close>

datatype metric_op = Mt_Increment string | Mt_Gauge string uint64 | Mt_Observe string real

primrec metric_step :: "(real \<Rightarrow> real) \<Rightarrow> metric_op \<Rightarrow> MetricsCollector \<Rightarrow> MetricsCollector" where
  "metric_step rnd (Mt_Increment n) m = IncrementCounter n m"
| "metric_step rnd (Mt_Gauge n v) m = SetGauge n v m"
| "metric_step rnd (Mt_Observe n x) m = ObserveHistogram rnd n x m"

definition metric_run :: "(real \<Rightarrow> real) \<Rightarrow> metric_op list \<Rightarrow> MetricsCollector \<Rightarrow> MetricsCollector" where
  "metric_run rnd ops m = foldl (\<lambda>m op. metric_step rnd op m) m ops"

fun incremented_name :: "metric_op \<Rightarrow> string list" where
  "incremented_name (Mt_Increment n) = [n]"
| "incremented_name _ = []"

lemma metric_run_counters:
  "mt_counters (metric_run rnd ops m) =
     foldl (\<lambda>c n. smap_insert n (incremented (map_of c n)) c) (mt_counters m) (concat (map incremented_name ops))"
proof (induction ops arbitrary: m)
  case (Cons op ops)
  have "mt_counters (metric_step rnd op m) =
      foldl (\<lambda>c n. smap_insert n (incremented (map_of c n)) c) (mt_counters m) (incremented_name op)"
    by (cases op) (simp_all add: IncrementCounter_def SetGauge_def ObserveHistogram_def Let_def)
  with Cons.IH[of "metric_step rnd op m"] show ?case by (simp add: metric_run_def)
qed (simp add: metric_run_def)

lemma counted: "((\<lambda>v. Some (incremented v)) ^^ n) None = (if n = 0 then None else Some (of_nat n))"
  by (induction n) (auto simp: incremented_def add.commute)

theorem counters_count:
  "map_of (mt_counters (metric_run rnd ops MetricsCollector_new)) name =
     (let n = count_list ops (Mt_Increment name) in if n = 0 then None else Some (of_nat n)) \<and>
   smap_inv (mt_counters (metric_run rnd ops MetricsCollector_new))"
proof -
  have "count_list (concat (map incremented_name ops)) name = count_list ops (Mt_Increment name)"
  proof (induction ops)
    case (Cons op ops)
    then show ?case by (cases op) (auto simp: count_list_append)
  qed simp
  then show ?thesis
    using smap.inv_updates[of "[]" "\<lambda>_. incremented"] smap.lookup_updates[where g = incremented and ks = "concat (map incremented_name ops)"]
    by (simp add: metric_run_counters MetricsCollector_new_def counted Let_def smap_inv_def)
qed

section \<open>Tracer\<close>

record SpanContext =
  sx_trace_id :: string
  sx_span_id :: string
  sx_parent_span_id :: string
  sx_sampled :: bool

record Span =
  sp_name :: string
  sp_context :: SpanContext
  sp_start_time_us :: int
  sp_end_time_us :: int
  sp_attributes :: "string smap"

text \<open>The random numbers not yet drawn: \<open>rand i\<close> is the result of call \<open>i\<close> of \<open>std::rand\<close>.\<close>

definition Tracer_GenerateId :: "(nat \<Rightarrow> nat) \<Rightarrow> nat \<Rightarrow> nat \<Rightarrow> string \<times> nat" where
  "Tracer_GenerateId rand len i = (map (\<lambda>j. digit_char (rand j mod 16)) [i..<i + len], i + len)"

text \<open>The end time of a new span is indeterminate.\<close>

definition Tracer_StartSpan :: "(nat \<Rightarrow> nat) \<Rightarrow> int \<Rightarrow> int \<Rightarrow> string \<Rightarrow> SpanContext \<Rightarrow> nat \<Rightarrow> Span \<times> nat" where
  "Tracer_StartSpan rand now garbage name parent i =
     (case (if sx_trace_id parent = [] then Tracer_GenerateId rand 32 i else (sx_trace_id parent, i)) of
        (trace, i1) \<Rightarrow>
          (case Tracer_GenerateId rand 16 i1 of
             (sid, i2) \<Rightarrow>
               (\<lparr>sp_name = name,
                 sp_context = \<lparr>sx_trace_id = trace, sx_span_id = sid, sx_parent_span_id = sx_span_id parent, sx_sampled = True\<rparr>,
                 sp_start_time_us = now, sp_end_time_us = garbage, sp_attributes = []\<rparr>, i2)))"

definition no_parent :: SpanContext where
  "no_parent = \<lparr>sx_trace_id = [], sx_span_id = [], sx_parent_span_id = [], sx_sampled = False\<rparr>"

definition traceparent :: string where
  "traceparent = ''traceparent''"

text \<open>\<open>sampled\<close> of the context that \<open>Extract\<close> returns is not initialised.\<close>

definition Tracer_Extract :: "bool \<Rightarrow> string smap \<Rightarrow> SpanContext" where
  "Tracer_Extract garbage headers =
     (let ctx = \<lparr>sx_trace_id = [], sx_span_id = [], sx_parent_span_id = [], sx_sampled = garbage\<rparr>
      in case map_of headers traceparent of
           None \<Rightarrow> ctx
         | Some v \<Rightarrow>
             if length v \<ge> 55
             then ctx\<lparr>sx_trace_id := take 32 (drop 3 v), sx_parent_span_id := take 16 (drop 36 v)\<rparr>
             else ctx)"

definition Tracer_Inject :: "SpanContext \<Rightarrow> string smap \<Rightarrow> string smap" where
  "Tracer_Inject ctx headers =
     smap_insert traceparent (''00-'' @ sx_trace_id ctx @ ''-'' @ sx_span_id ctx @ ''-01'') headers"

text \<open>The message of a finished span; \<open>%s\<close> of a C string.\<close>

definition span_message :: "Span \<Rightarrow> string" where
  "span_message s =
     ''[TRACER] Span Finished: {\"name\": \"'' @ c_string (Some (sp_name s)) @
     ''\", \"trace_id\": \"'' @ c_string (Some (sx_trace_id (sp_context s))) @
     ''\", \"span_id\": \"'' @ c_string (Some (sx_span_id (sp_context s))) @
     ''\", \"parent_id\": \"'' @ c_string (Some (sx_parent_span_id (sp_context s))) @
     ''\", \"duration_us\": '' @ dec_int (sp_end_time_us s - sp_start_time_us s) @ ''}''"

definition Tracer_Export :: "log_env \<Rightarrow> log_call \<Rightarrow> Span \<Rightarrow> log_thread \<times> log_manager \<Rightarrow> (log_thread \<times> log_manager) option" where
  "Tracer_Export env c s q = Logger_Log env (c\<lparr>lc_level := Lv_Debug, lc_text := Some (span_message s)\<rparr>) q"

definition Span_End :: "log_env \<Rightarrow> log_call \<Rightarrow> int \<Rightarrow> Span \<Rightarrow> log_thread \<times> log_manager \<Rightarrow> Span \<times> (log_thread \<times> log_manager) option" where
  "Span_End env c now s q = (let s' = s\<lparr>sp_end_time_us := now\<rparr> in (s', Tracer_Export env c s' q))"

section \<open>OtlpExporter\<close>

text \<open>The product of a time and 1000 in a signed 64-bit integer: no value where it overflows.\<close>

definition times_1000 :: "int \<Rightarrow> int option" where
  "times_1000 t = (if - (2 ^ 63) \<le> t * 1000 \<and> t * 1000 < 2 ^ 63 then Some (t * 1000) else None)"

definition otlp_span :: "Span \<Rightarrow> string option" where
  "otlp_span s =
     Option.bind (times_1000 (sp_start_time_us s)) (\<lambda>start. map_option (\<lambda>end_time.
       ''{\"traceId\":\"'' @ sx_trace_id (sp_context s) @ ''\",\"spanId\":\"'' @ sx_span_id (sp_context s) @
       ''\",\"parentSpanId\":\"'' @ sx_parent_span_id (sp_context s) @ ''\",\"name\":\"'' @ sp_name s @
       ''\",\"startTimeUnixNano\":\"'' @ dec_int start @ ''\",\"endTimeUnixNano\":\"'' @ dec_int end_time @ ''\"}'')
       (times_1000 (sp_end_time_us s)))"

fun otlp_spans :: "Span list \<Rightarrow> string option" where
  "otlp_spans [] = Some []"
| "otlp_spans [s] = otlp_span s"
| "otlp_spans (s # t # ss) =
     Option.bind (otlp_span s) (\<lambda>a. map_option (\<lambda>b. a @ '','' @ b) (otlp_spans (t # ss)))"

definition otlp_payload :: "Span list \<Rightarrow> string option" where
  "otlp_payload ss =
     map_option (\<lambda>b. ''{\"resourceSpans\":[{\"scopeSpans\":[{\"spans\":['' @ b @ '']}]}]}'') (otlp_spans ss)"

definition OtlpExporter_Export :: "log_env \<Rightarrow> log_call \<Rightarrow> string \<Rightarrow> Span list \<Rightarrow> log_thread \<times> log_manager \<Rightarrow>
    (log_thread \<times> log_manager) option" where
  "OtlpExporter_Export env c endpoint ss q =
     Option.bind (otlp_payload ss) (\<lambda>json.
       Logger_Log env (c\<lparr>lc_level := Lv_Info,
         lc_text := Some (''[OTLP] Exporting to '' @ c_string (Some endpoint) @ '': '' @ c_string (Some json))\<rparr>) q)"

section \<open>Trace propagation\<close>

definition hex_id :: "nat \<Rightarrow> string \<Rightarrow> bool" where
  "hex_id n s \<longleftrightarrow> length s = n \<and> set s \<subseteq> set ''0123456789abcdef''"

lemma hex_digit: "n < 16 \<Longrightarrow> digit_char n \<in> set ''0123456789abcdef''"
proof -
  have "\<forall>n \<in> {0..<16}. digit_char n \<in> set ''0123456789abcdef''" by code_simp
  then show "n < 16 \<Longrightarrow> digit_char n \<in> set ''0123456789abcdef''" by simp
qed

lemma generated_hex: "hex_id n (fst (Tracer_GenerateId rand n i))"
  using hex_digit by (auto simp: hex_id_def Tracer_GenerateId_def simp del: set_simps)

text \<open>
  A span started in another has the other's trace and names it as its parent; one started without a
  parent begins a trace of its own.  Identifiers are 16 and 32 hexadecimal digits.
\<close>

theorem span_links:
  assumes "Tracer_StartSpan rand now g name parent i = (s, i')"
  shows "sx_parent_span_id (sp_context s) = sx_span_id parent \<and> hex_id 16 (sx_span_id (sp_context s)) \<and>
    (if sx_trace_id parent = [] then hex_id 32 (sx_trace_id (sp_context s))
     else sx_trace_id (sp_context s) = sx_trace_id parent)"
  using assms generated_hex[of 16 rand] generated_hex[of 32 rand i]
  by (auto simp: Tracer_StartSpan_def split: prod.splits if_splits) (metis fst_conv)+

lemma span_links_witness:
  "sx_parent_span_id (sp_context (fst (Tracer_StartSpan (\<lambda>j. j) 7 0 ''child''
     \<lparr>sx_trace_id = ''t'', sx_span_id = ''s'', sx_parent_span_id = [], sx_sampled = True\<rparr> 0))) = ''s''"
  using span_links[OF surjective_pairing, of "\<lambda>j. j" 7 0 "''child''"
      "\<lparr>sx_trace_id = ''t'', sx_span_id = ''s'', sx_parent_span_id = [], sx_sampled = True\<rparr>" 0] by simp

text \<open>
  Across processes the header carries trace and span, but the parent is lost: \<open>Extract\<close> puts
  the span of the caller where \<open>StartSpan\<close> does not look, so the span of the callee is in the right
  trace and has no parent, whatever the caller.
\<close>

theorem remote_parent_lost:
  assumes "length (sx_trace_id ctx) = 32" and "length (sx_span_id ctx) = 16"
    and "Tracer_StartSpan rand now g' name (Tracer_Extract g (Tracer_Inject ctx headers)) i = (s, i')"
  shows "sx_trace_id (sp_context s) = sx_trace_id ctx \<and>
    sx_parent_span_id (Tracer_Extract g (Tracer_Inject ctx headers)) = sx_span_id ctx \<and>
    sx_parent_span_id (sp_context s) = []"
proof -
  define v where "v = ''00-'' @ sx_trace_id ctx @ ''-'' @ sx_span_id ctx @ ''-01''"
  have "length v = 55" and "take 32 (drop 3 v) = sx_trace_id ctx" and "take 16 (drop 36 v) = sx_span_id ctx"
    using assms(1,2) by (simp_all add: v_def)
  moreover have "map_of (Tracer_Inject ctx headers) traceparent = Some v" by (simp add: Tracer_Inject_def v_def)
  ultimately have x: "Tracer_Extract g (Tracer_Inject ctx headers) =
      \<lparr>sx_trace_id = sx_trace_id ctx, sx_span_id = [], sx_parent_span_id = sx_span_id ctx, sx_sampled = g\<rparr>"
    by (simp add: Tracer_Extract_def Let_def)
  have "sx_trace_id ctx \<noteq> []" using assms(1) by auto
  with span_links[OF assms(3)[unfolded x]] show ?thesis by (simp add: x)
qed

lemma remote_parent_lost_witness:
  "sx_parent_span_id (sp_context (fst (Tracer_StartSpan (\<lambda>j. j) 7 0 ''serve''
     (Tracer_Extract True (Tracer_Inject \<lparr>sx_trace_id = replicate 32 CHR ''a'', sx_span_id = replicate 16 CHR ''b'',
        sx_parent_span_id = [], sx_sampled = True\<rparr> [])) 0))) = []"
  using remote_parent_lost[where ctx = "\<lparr>sx_trace_id = replicate 32 CHR ''a'', sx_span_id = replicate 16 CHR ''b'',
      sx_parent_span_id = [], sx_sampled = True\<rparr>" and headers = "[]" and g = True, OF _ _ surjective_pairing]
  by simp

text \<open>
  The exporter multiplies times by 1000 as if they were microseconds, but \<open>time_since_epoch\<close>
  counts nanoseconds: the product overflows for every span since the spring of 1970.
\<close>

theorem otlp_times_overflow:
  assumes "sp_start_time_us s \<ge> 9223372036854776" and "s \<in> set ss"
  shows "otlp_payload ss = None"
proof -
  have bad: "otlp_span s = None" using assms(1) by (simp add: otlp_span_def times_1000_def)
  have "otlp_spans ss = None" using assms(2)
  proof (induction ss rule: otlp_spans.induct)
    case (3 s' t ss)
    show ?case
    proof (cases "otlp_span s'")
      case (Some a)
      with bad 3 show ?thesis by (cases "s' = s") auto
    qed simp
  qed (simp_all add: bad)
  then show ?thesis by (simp add: otlp_payload_def)
qed

lemma otlp_times_overflow_witness:
  "otlp_payload [fst (Tracer_StartSpan (\<lambda>j. j) 1700000000000000000 0 ''now'' no_parent 0)] = None"
proof -
  have "sp_start_time_us (fst (Tracer_StartSpan (\<lambda>j. j) 1700000000000000000 0 ''now'' no_parent 0)) = 1700000000000000000"
    by (simp add: Tracer_StartSpan_def split: prod.split)
  then show ?thesis by (intro otlp_times_overflow) simp_all
qed

end
