(* ===== verification/Oms.thy ===== *)
theory Oms
  imports Tcp Log_Config Ordered_Map Complex_Main
begin

text \<open>
  The order management server (\<open>src/apps/server/main.cc\<close>), an application of the library:
  \<open>OrderManager\<close> with its book, \<open>MarketDataPublisher\<close> with its subscribers, and the stream handler
  that \<open>main\<close> registers, here at work behind the TCP protocol.  The messages are those of
  \<open>src/api/proto/orders.proto\<close>; parsing and serialising them are parameters.
\<close>

section \<open>OrderManager\<close>

text \<open>A price is a double: no value stands for not-a-number, which is not less than zero.\<close>

datatype side = SIDE_UNKNOWN | BUY | SELL

datatype order_type = ORDER_TYPE_UNKNOWN | LIMIT | MARKET | STOP_LOSS | STOP_LIMIT

datatype time_in_force = TIF_UNKNOWN | GTC | IOC | FOK

datatype order_status =
  STATUS_UNKNOWN | NEW | PARTIALLY_FILLED | FILLED | CANCELED | REJECTED | PENDING_CANCEL | PENDING_NEW

record order =
  od_order_id :: string
  od_symbol :: string
  od_type :: order_type
  od_side :: side
  od_price :: "real option"
  od_quantity :: int
  od_timestamp :: int
  od_client_order_id :: string
  od_time_in_force :: time_in_force
  od_account_id :: string

definition order_empty :: order where
  "order_empty =
     \<lparr>od_order_id = [], od_symbol = [], od_type = ORDER_TYPE_UNKNOWN, od_side = SIDE_UNKNOWN, od_price = Some 0, od_quantity = 0,
      od_timestamp = 0, od_client_order_id = [], od_time_in_force = TIF_UNKNOWN, od_account_id = []\<rparr>"

record order_response =
  or_order_id :: string
  or_client_order_id :: string
  or_status :: order_status
  or_message :: string
  or_executed_price :: "real option"
  or_executed_quantity :: int
  or_remaining_quantity :: int

definition order_response_empty :: order_response where
  "order_response_empty =
     \<lparr>or_order_id = [], or_client_order_id = [], or_status = STATUS_UNKNOWN, or_message = [], or_executed_price = Some 0,
      or_executed_quantity = 0, or_remaining_quantity = 0\<rparr>"

record order_manager =
  om_orders :: "order smap"
  om_id_counter :: uint64

definition OrderManager_new :: order_manager where
  "OrderManager_new = \<lparr>om_orders = [], om_id_counter = 1\<rparr>"

definition generated_id :: "uint64 \<Rightarrow> string" where
  "generated_id n = ''ORD-'' @ dec_str (unat n)"

definition OrderManager_GenerateId :: "order_manager \<Rightarrow> string \<times> order_manager" where
  "OrderManager_GenerateId m = (generated_id (om_id_counter m), m\<lparr>om_id_counter := om_id_counter m + 1\<rparr>)"

definition CreateResponse :: "order \<Rightarrow> order_status \<Rightarrow> string \<Rightarrow> string \<Rightarrow> order_response" where
  "CreateResponse order status msg assigned_id =
     order_response_empty\<lparr>or_order_id := if assigned_id = [] then od_order_id order else assigned_id,
       or_client_order_id := od_client_order_id order, or_status := status, or_message := msg\<rparr>"

definition order_valid :: "order \<Rightarrow> bool" where
  "order_valid order \<longleftrightarrow> \<not> (od_quantity order \<le> 0 \<or> (case od_price order of None \<Rightarrow> False | Some p \<Rightarrow> p < 0))"

definition OrderManager_PlaceOrder :: "order \<Rightarrow> order_manager \<Rightarrow> order_response \<times> order_manager" where
  "OrderManager_PlaceOrder order m =
     (if \<not> order_valid order then (CreateResponse order REJECTED ''Invalid quantity or price'' [], m)
      else
        (case (if od_order_id order = [] then OrderManager_GenerateId m else (od_order_id order, m)) of
           (oid, m1) \<Rightarrow>
             (CreateResponse order NEW ''Order Accepted'' oid, m1\<lparr>om_orders := smap_insert oid order (om_orders m1)\<rparr>)))"

definition OrderManager_CancelOrder :: "string \<Rightarrow> order_manager \<Rightarrow> order_response \<times> order_manager" where
  "OrderManager_CancelOrder oid m =
     (case map_of (om_orders m) oid of
        None \<Rightarrow>
          (order_response_empty\<lparr>or_order_id := oid, or_status := STATUS_UNKNOWN, or_message := ''Order not found''\<rparr>, m)
      | Some order \<Rightarrow> (CreateResponse order CANCELED ''Order Cancelled'' [], m))"

section \<open>The server\<close>

text \<open>The subscribers are contexts, named by the numbers of their connections.\<close>

record oms =
  oms_orders :: order_manager
  oms_subscribers :: "nat list"
  oms_publishing :: bool

record oms_codec =
  oc_parse_order :: "bytes \<Rightarrow> order option"
  oc_response :: "order_response \<Rightarrow> bytes"

definition MarketDataPublisher_Start :: "oms \<Rightarrow> oms" where
  "MarketDataPublisher_Start s = s\<lparr>oms_publishing := True\<rparr>"

definition MarketDataPublisher_Stop :: "oms \<Rightarrow> oms" where
  "MarketDataPublisher_Stop s = s\<lparr>oms_publishing := False\<rparr>"

definition MarketDataPublisher_Subscribe :: "nat \<Rightarrow> oms \<Rightarrow> oms" where
  "MarketDataPublisher_Subscribe ctx s = s\<lparr>oms_subscribers := oms_subscribers s @ [ctx]\<rparr>"

text \<open>One tick: what each subscriber is written, given the serialised market data.\<close>

definition MarketDataPublisher_PublishTick :: "bytes \<Rightarrow> oms \<Rightarrow> (nat \<times> ctx_op) list" where
  "MarketDataPublisher_PublishTick md s =
     (let e = set_data md (upd_header (\<lambda>h. h\<lparr>message_type := ''MARKET_DATA_UPDATE''\<rparr>) envelope_empty)
      in if oms_publishing s then map (\<lambda>ctx. (ctx, Ctx_Write_Envelope e)) (oms_subscribers s) else [])"

text \<open>The handler of connection \<open>ctx\<close>.\<close>

definition oms_handler :: "oms_codec \<Rightarrow> nat \<Rightarrow> oms stream_handler" where
  "oms_handler oc ctx s req resp =
     (if env_header req = None then (s, [], Inr resp)
      else if message_type (get_header req) = ''ORDER_NEW'' \<and> env_payload req \<noteq> None
      then (case oc_parse_order oc (get_data req) of
              None \<Rightarrow> (s, [], Inr resp)
            | Some order \<Rightarrow>
                (case OrderManager_PlaceOrder order (oms_orders s) of
                   (r, m) \<Rightarrow>
                     (s\<lparr>oms_orders := m\<rparr>, [],
                      Inr (set_data (oc_response oc r) (upd_header (\<lambda>h. h\<lparr>message_type := ''ORDER_RESPONSE''\<rparr>) resp)))))
      else if message_type (get_header req) = ''MARKET_DATA_SUB'' \<and> env_payload req \<noteq> None
      then (MarketDataPublisher_Subscribe ctx s, [],
            Inr (set_data (''Subscribed to '' @ get_data req)
                   (upd_header (\<lambda>h. h\<lparr>message_type := ''MARKET_DATA_SUB_ACK''\<rparr>) resp)))
      else (s, [], Inr resp))"

text \<open>The text \<open>main\<close> initialises the logger with.\<close>

definition oms_log_text :: string where
  "oms_log_text = ''appname=oms-server;level=Info;output=file;file_path=oms_server.log''"

section \<open>The book\<close>

text \<open>
  The keys are ordered; every order in the book has a positive quantity and no negative price, and
  stands under its own id, or without one under an id generated before.
\<close>

definition book_inv :: "order_manager \<Rightarrow> bool" where
  "book_inv m \<longleftrightarrow> smap_inv (om_orders m) \<and>
     (\<forall>(oid, o1) \<in> set (om_orders m). order_valid o1 \<and> oid \<noteq> [] \<and>
        (od_order_id o1 = oid \<or> od_order_id o1 = [] \<and> (\<exists>n. oid = generated_id n)))"

lemma PlaceOrder_cases:
  assumes "OrderManager_PlaceOrder o1 m = (r, m')"
  obtains (rejected) "\<not> order_valid o1" and "m' = m" and "or_status r = REJECTED"
  | (accepted) oid where "order_valid o1" and "om_orders m' = smap_insert oid o1 (om_orders m)" and "or_status r = NEW"
    and "or_order_id r = oid" and "oid \<noteq> []"
    and "if od_order_id o1 = [] then oid = generated_id (om_id_counter m) \<and> om_id_counter m' = om_id_counter m + 1
         else oid = od_order_id o1 \<and> om_id_counter m' = om_id_counter m"
  using assms
  by (auto simp: OrderManager_PlaceOrder_def CreateResponse_def OrderManager_GenerateId_def generated_id_def
      split: if_splits)

lemma PlaceOrder_inv:
  assumes "book_inv m" and "OrderManager_PlaceOrder o1 m = (r, m')"
  shows "book_inv m'"
  using assms(2)
proof (cases rule: PlaceOrder_cases)
  case rejected
  with assms(1) show ?thesis by simp
next
  case (accepted oid)
  have "order_valid o2 \<and> k \<noteq> [] \<and> (od_order_id o2 = k \<or> od_order_id o2 = [] \<and> (\<exists>n. k = generated_id n))"
    if "(k, o2) \<in> set (om_orders m')" for k o2
  proof -
    have "(k, o2) = (oid, o1) \<or> (k, o2) \<in> set (om_orders m)"
      using that smap_insert_set[of oid o1 "om_orders m"] by (auto simp: accepted(2))
    then show ?thesis using assms(1) accepted by (auto simp: book_inv_def split: if_splits)
  qed
  then show ?thesis using assms(1) by (auto simp: book_inv_def accepted(2) smap_inv_insert)
qed

datatype order_op = Om_Place order | Om_Cancel string

primrec order_step :: "order_op \<Rightarrow> order_manager \<Rightarrow> order_response \<times> order_manager" where
  "order_step (Om_Place o1) m = OrderManager_PlaceOrder o1 m"
| "order_step (Om_Cancel oid) m = OrderManager_CancelOrder oid m"

definition order_run :: "order_op list \<Rightarrow> order_manager \<Rightarrow> order_manager" where
  "order_run ops m = foldl (\<lambda>m op. snd (order_step op m)) m ops"

lemma Cancel_same [simp]: "snd (OrderManager_CancelOrder oid m) = m"
  by (simp add: OrderManager_CancelOrder_def split: option.split)

lemma order_run_inv: "book_inv m \<Longrightarrow> book_inv (order_run ops m)"
proof (induction ops arbitrary: m)
  case (Cons op ops)
  have "book_inv (snd (order_step op m))"
    using Cons.prems PlaceOrder_inv[of m _ "fst (order_step op m)" "snd (order_step op m)"] by (cases op) auto
  with Cons.IH show ?case by (simp add: order_run_def)
qed (simp add: order_run_def)

text \<open>
  C35. In any sequence of placed and cancelled orders the book holds only orders with a positive quantity
  and no negative price; a placed order is answered with the id under which the book holds it, a
  rejected one leaves the book as it is; and cancelling finds an order exactly when the book has it.
\<close>

theorem order_book_sound:
  assumes "m = order_run ops OrderManager_new" and "OrderManager_PlaceOrder o1 m = (r, m')"
  shows "(\<forall>(oid, o2) \<in> set (om_orders m). order_valid o2 \<and> map_of (om_orders m) oid = Some o2) \<and>
    (if order_valid o1 then or_status r = NEW \<and> map_of (om_orders m') = (map_of (om_orders m))(or_order_id r \<mapsto> o1)
     else or_status r = REJECTED \<and> m' = m) \<and>
    (or_status (fst (OrderManager_CancelOrder oid m)) = CANCELED \<longleftrightarrow> oid \<in> fst ` set (om_orders m))"
proof -
  have inv: "book_inv m" using order_run_inv[of OrderManager_new ops] assms(1)
    by (simp add: book_inv_def OrderManager_new_def smap_inv_def)
  have 1: "order_valid o2 \<and> map_of (om_orders m) k = Some o2" if "(k, o2) \<in> set (om_orders m)" for k o2
    using inv that smap_value by (fastforce simp: book_inv_def)
  have 2: "if order_valid o1 then or_status r = NEW \<and> map_of (om_orders m') = (map_of (om_orders m))(or_order_id r \<mapsto> o1)
     else or_status r = REJECTED \<and> m' = m"
    using assms(2) by (cases rule: PlaceOrder_cases) simp_all
  have 3: "or_status (fst (OrderManager_CancelOrder oid m)) = CANCELED \<longleftrightarrow> oid \<in> fst ` set (om_orders m)"
    by (auto simp: OrderManager_CancelOrder_def CreateResponse_def map_of_eq_None_iff dest: map_of_SomeD
        split: option.split) (metis fst_conv image_eqI map_of_SomeD)
  from 1 2 3 show ?thesis by blast
qed

definition sample_order :: "string \<Rightarrow> int \<Rightarrow> order" where
  "sample_order oid q =
     order_empty\<lparr>od_order_id := oid, od_symbol := ''AAPL'', od_price := Some 1, od_quantity := q\<rparr>"

lemma sample_order_valid: "order_valid (sample_order oid q) \<longleftrightarrow> 0 < q"
  by (simp add: order_valid_def sample_order_def not_le)

lemma sample_order_id [simp]: "od_order_id (sample_order oid q) = oid"
  by (simp add: sample_order_def)

lemma generated_id_1: "generated_id 1 = ''ORD-1''"
proof -
  have "dec_str 1 = ''1''" by code_simp
  then show ?thesis by (simp add: generated_id_def)
qed

lemma order_book_sound_witness:
  "map_of (om_orders (snd (OrderManager_PlaceOrder (sample_order [] 5) (order_run [Om_Place (sample_order ''x'' 0)] OrderManager_new))))
     ''ORD-1'' = Some (sample_order [] 5)"
proof -
  let ?m = "order_run [Om_Place (sample_order ''x'' 0)] OrderManager_new"
  obtain r m' where p: "OrderManager_PlaceOrder (sample_order [] 5) ?m = (r, m')" by fastforce
  have 0: "?m = OrderManager_new" by (simp add: order_run_def OrderManager_PlaceOrder_def sample_order_valid)
  have "OrderManager_PlaceOrder (sample_order [] 5) OrderManager_new = (r, m')" using p by (simp only: 0)
  then have "or_order_id r = ''ORD-1''" using generated_id_1
    by (auto simp: OrderManager_PlaceOrder_def sample_order_valid CreateResponse_def OrderManager_GenerateId_def
        OrderManager_new_def)
  with order_book_sound[OF refl p] p show ?thesis by (simp add: sample_order_valid)
qed

text \<open>
  Cancelling does not cancel: the order stays in the book and can be cancelled again, and
  for an order that got its id from the server the answer names no id, since the book keeps
  the order as it came.
\<close>

theorem cancel_leaves_order:
  assumes "OrderManager_PlaceOrder o1 m = (r, m')" and "order_valid o1" and "od_order_id o1 = []"
    and "OrderManager_CancelOrder (or_order_id r) m' = (c, m'')"
  shows "or_status c = CANCELED \<and> or_order_id c = [] \<and> map_of (om_orders m'') (or_order_id r) = Some o1"
  using assms(1)
proof (cases rule: PlaceOrder_cases)
  case (accepted oid)
  with assms(3,4) show ?thesis by (auto simp: OrderManager_CancelOrder_def CreateResponse_def)
qed (use assms(2) in simp)

lemma cancel_leaves_order_witness:
  "map_of (om_orders (snd (OrderManager_CancelOrder
      (or_order_id (fst (OrderManager_PlaceOrder (sample_order [] 5) OrderManager_new)))
      (snd (OrderManager_PlaceOrder (sample_order [] 5) OrderManager_new)))))
    (or_order_id (fst (OrderManager_PlaceOrder (sample_order [] 5) OrderManager_new))) = Some (sample_order [] 5)"
  using cancel_leaves_order[OF surjective_pairing _ _ surjective_pairing, of "sample_order [] 5" OrderManager_new]
  by (simp add: sample_order_valid)

text \<open>
  A generated id may be one a client has chosen: the next order without an id then takes the place
  of the client's order in the book, and both have been answered with the same id.
\<close>

theorem generated_id_overwrites:
  assumes "order_valid a" and "od_order_id a = generated_id (om_id_counter m)"
    and "order_valid b" and "od_order_id b = []"
    and "OrderManager_PlaceOrder a m = (r1, m1)" and "OrderManager_PlaceOrder b m1 = (r2, m2)"
  shows "or_status r1 = NEW \<and> or_status r2 = NEW \<and> or_order_id r2 = or_order_id r1 \<and>
    map_of (om_orders m2) (or_order_id r1) = Some b"
proof -
  have 1: "or_status r1 = NEW" "or_order_id r1 = od_order_id a" "om_id_counter m1 = om_id_counter m"
    using assms(5) by (cases rule: PlaceOrder_cases; use assms(1,2) in \<open>simp add: generated_id_def\<close>)+
  have "or_status r2 = NEW" "or_order_id r2 = generated_id (om_id_counter m)" "om_orders m2 = smap_insert (or_order_id r2) b (om_orders m1)"
    using assms(6) by (cases rule: PlaceOrder_cases; use assms(3,4) 1(3) in simp)+
  with 1 assms(2) show ?thesis by simp
qed

lemma generated_id_overwrites_witness:
  "map_of (om_orders (snd (OrderManager_PlaceOrder (sample_order [] 5)
      (snd (OrderManager_PlaceOrder (sample_order ''ORD-1'' 7) OrderManager_new))))) ''ORD-1'' = Some (sample_order [] 5)"
proof -
  obtain r1 m1 where 1: "OrderManager_PlaceOrder (sample_order ''ORD-1'' 7) OrderManager_new = (r1, m1)" by fastforce
  obtain r2 m2 where 2: "OrderManager_PlaceOrder (sample_order [] 5) m1 = (r2, m2)" by fastforce
  have "or_order_id r1 = ''ORD-1''" using 1
    by (auto simp: OrderManager_PlaceOrder_def sample_order_valid CreateResponse_def)
  with generated_id_overwrites[OF _ _ _ _ 1 2] 1 2 generated_id_1 show ?thesis
    by (simp add: sample_order_valid OrderManager_new_def)
qed

text \<open>Of the logger's settings that \<open>main\<close> writes out, the logger knows one.\<close>

theorem oms_log_settings_ignored:
  "ParseConfig (Some oms_log_text) = Some (LoggerConfig_default\<lparr>lo_app_name := ''oms-server''\<rparr>)"
proof -
  have "split_text (takeWhile (\<lambda>ch. ch \<noteq> CHR 0x00) oms_log_text) (CHR '';'') =
      map setting_text [(''appname'', ''oms-server''), (''level'', ''Info''), (''output'', ''file''), (''file_path'', ''oms_server.log'')]"
    unfolding oms_log_text_def by code_simp
  then show ?thesis by (simp add: ParseConfig_def apply_pair_setting clean_def apply_setting_def)
qed

section \<open>Behind the TCP protocol\<close>

text \<open>What a request does to the state, and the response the client gets.\<close>

definition oms_serve :: "oms_codec \<Rightarrow> nat \<Rightarrow> envelope \<Rightarrow> oms \<Rightarrow> envelope \<times> oms" where
  "oms_serve oc ctx req s =
     (case oms_handler oc ctx s req (Tcp_response req) of
        (s', _, Inr resp) \<Rightarrow> (resp, s') | (s', _, Inl _) \<Rightarrow> (Tcp_response req, s'))"

primrec oms_session :: "oms_codec \<Rightarrow> nat \<Rightarrow> envelope list \<Rightarrow> oms \<Rightarrow> envelope list \<times> oms" where
  "oms_session oc ctx [] s = ([], s)"
| "oms_session oc ctx (req # reqs) s =
     (case oms_serve oc ctx req s of
        (resp, s') \<Rightarrow> (case oms_session oc ctx reqs s' of (resps, s'') \<Rightarrow> (resp # resps, s'')))"

lemma oms_handler_cases:
  "\<exists>s' resp'. oms_handler oc ctx s req resp = (s', [], Inr resp')"
  by (auto simp: oms_handler_def split: option.split prod.split)

lemma oms_handler_safe: "no_throw (oms_handler oc ctx)"
  using oms_handler_cases unfolding no_throw_def by blast

lemma oms_serve_handler:
  "oms_handler oc ctx s req (Tcp_response req) = (snd (oms_serve oc ctx req s), [], Inr (fst (oms_serve oc ctx req s)))"
  using oms_handler_cases[of oc ctx s req "Tcp_response req"] by (auto simp: oms_serve_def)

lemma oms_serve_fold:
  assumes "pb_roundtrip pb reqs"
  shows "fold (tcp_serve pb (Some (oms_handler oc ctx))) (map (pb_serialize pb) reqs) (s, None, out) =
    (snd (oms_session oc ctx reqs s), None,
     out @ concat (map (\<lambda>r. tcp_written pb (Ctx_Write_Envelope r)) (fst (oms_session oc ctx reqs s))))"
  using assms
proof (induction reqs arbitrary: s out)
  case (Cons req reqs)
  obtain resp s' where 1: "oms_serve oc ctx req s = (resp, s')" by fastforce
  obtain resps s'' where 2: "oms_session oc ctx reqs s' = (resps, s'')" by fastforce
  have "tcp_serve pb (Some (oms_handler oc ctx)) (pb_serialize pb req) (s, None, out) =
      (s', None, out @ tcp_written pb (Ctx_Write_Envelope resp))"
    using Cons.prems by (simp add: tcp_serve_def tcp_handle_def CheckRateLimit_def pb_roundtrip_def oms_serve_handler 1
        del: tcp_written.simps)
  with Cons.IH[of s'] Cons.prems 1 2 show ?case by (simp add: pb_roundtrip_def del: tcp_written.simps)
qed simp

text \<open>What a request asks for: the order it places, if any, and whether it subscribes.\<close>

definition order_in :: "oms_codec \<Rightarrow> envelope \<Rightarrow> order list" where
  "order_in oc req =
     (if message_type (get_header req) = ''ORDER_NEW'' \<and> env_payload req \<noteq> None
      then (case oc_parse_order oc (get_data req) of None \<Rightarrow> [] | Some o1 \<Rightarrow> [o1]) else [])"

definition subscribes :: "envelope \<Rightarrow> bool" where
  "subscribes req \<longleftrightarrow> message_type (get_header req) = ''MARKET_DATA_SUB'' \<and> env_payload req \<noteq> None"

definition answers :: "oms_codec \<Rightarrow> envelope \<Rightarrow> envelope \<Rightarrow> bool" where
  "answers oc req resp \<longleftrightarrow>
     (if env_header req = None then resp = envelope_empty
      else correlation_id (get_header resp) = message_id (get_header req) \<and>
        message_type (get_header resp) =
          (if order_in oc req \<noteq> [] then ''ORDER_RESPONSE'' else if subscribes req then ''MARKET_DATA_SUB_ACK'' else []))"

primrec place_all :: "order list \<Rightarrow> order_manager \<Rightarrow> order_response list" where
  "place_all [] m = []"
| "place_all (o1 # os) m = (case OrderManager_PlaceOrder o1 m of (r, m') \<Rightarrow> r # place_all os m')"

definition is_order_response :: "envelope \<Rightarrow> bool" where
  "is_order_response resp \<longleftrightarrow> message_type (get_header resp) = ''ORDER_RESPONSE''"

lemma order_run_append: "order_run (xs @ ys) m = order_run ys (order_run xs m)"
  by (simp add: order_run_def)

lemma place_all_append:
  "place_all (xs @ ys) m = place_all xs m @ place_all ys (order_run (map Om_Place xs) m)"
  by (induction xs arbitrary: m) (auto simp: order_run_def split: prod.split)

lemma no_header [simp]: "env_header e = None \<Longrightarrow> message_type (get_header e) = []"
  by (simp add: envelope_defs)

lemma oms_serve_spec:
  assumes "oms_serve oc ctx req s = (resp, s')"
  shows "oms_orders s' = order_run (map Om_Place (order_in oc req)) (oms_orders s)"
    and "oms_subscribers s' = oms_subscribers s @ (if subscribes req then [ctx] else [])"
    and "answers oc req resp"
    and "map get_data (filter is_order_response [resp]) = map (oc_response oc) (place_all (order_in oc req) (oms_orders s))"
  using assms
  by (auto simp: oms_serve_def oms_handler_def order_in_def subscribes_def answers_def is_order_response_def order_run_def
      Tcp_response_def MarketDataPublisher_Subscribe_def envelope_defs split: option.splits prod.splits if_splits)

lemma oms_session_spec:
  assumes "oms_session oc ctx reqs s = (resps, s')"
  shows "oms_orders s' = order_run (map Om_Place (concat (map (order_in oc) reqs))) (oms_orders s) \<and>
    oms_subscribers s' = oms_subscribers s @ replicate (length (filter subscribes reqs)) ctx \<and>
    list_all2 (answers oc) reqs resps \<and>
    map get_data (filter is_order_response resps) = map (oc_response oc) (place_all (concat (map (order_in oc) reqs)) (oms_orders s))"
  using assms
proof (induction reqs arbitrary: s resps)
  case (Cons req reqs)
  obtain resp s1 where 1: "oms_serve oc ctx req s = (resp, s1)" by fastforce
  obtain rs where 2: "oms_session oc ctx reqs s1 = (rs, s')" "resps = resp # rs"
    using Cons.prems 1 by (auto split: prod.splits)
  have "map get_data (filter is_order_response resps) =
      map get_data (filter is_order_response [resp]) @ map get_data (filter is_order_response rs)"
    by (simp add: 2(2))
  moreover have "filter subscribes (req # reqs) = (if subscribes req then [req] else []) @ filter subscribes reqs" by simp
  ultimately show ?case using oms_serve_spec[OF 1] Cons.IH[OF 2(1)]
    by (simp add: 2(2) order_run_append place_all_append del: filter.simps)
qed (simp add: order_run_def)

text \<open>Placing valid orders with ids of their own, one after the other.\<close>

lemma order_run_places:
  assumes "\<forall>o1 \<in> set os. order_valid o1 \<and> od_order_id o1 \<noteq> []"
  shows "map_of (om_orders (order_run (map Om_Place os) m)) = map_of (om_orders m) ++ map_of (rev (map (\<lambda>o1. (od_order_id o1, o1)) os))"
  using assms
proof (induction os arbitrary: m)
  case (Cons o1 os)
  obtain r m' where p: "OrderManager_PlaceOrder o1 m = (r, m')" by fastforce
  then have "map_of (om_orders m') = (map_of (om_orders m))(od_order_id o1 \<mapsto> o1)"
    using Cons.prems by (cases rule: PlaceOrder_cases) auto
  with Cons p show ?case by (simp add: order_run_def)
qed (simp add: order_run_def)

text \<open>The server on the bytes of a list of requests.\<close>

lemma oms_served:
  assumes "session_inv st" and "pending st = []" and "rate_limiter st = None"
    and "pb_roundtrip pb reqs" and "\<forall>e \<in> set reqs. length (pb_serialize pb e) \<le> kTcpMaxFrame"
    and "concat chs = concat (map (\<lambda>e. length_frame (pb_serialize pb e)) reqs)"
    and "oms_session oc ctx reqs (app st) = (resps, s')"
  shows "\<exists>st'. serve receive (tcp_step pb (Some (oms_handler oc ctx))) chs st = Some st' \<and> pending st' = [] \<and> app st' = s' \<and>
    stream (conn st') = stream (conn st) @ concat (map (\<lambda>r. tcp_written pb (Ctx_Write_Envelope r)) resps)"
proof -
  have "drain (frame_decode kTcpMaxFrame) (pending st @ concat chs) = (map (pb_serialize pb) reqs, [])"
    using framing.drain_concat[OF serialized_ok[OF assms(5)], of "[]"] assms(2,6) by (simp add: comp_def)
  then obtain st' where st': "serve receive (tcp_step pb (Some (oms_handler oc ctx))) chs st = Some st'" "pending st' = []"
      "visible st' = fold (tcp_serve pb (Some (oms_handler oc ctx))) (map (pb_serialize pb) reqs) (visible st)"
    using tcp_srv.serve_concat[of st "Some (oms_handler oc ctx)" "[]" chs "map (pb_serialize pb) reqs" pb] assms(1,2)
      oms_handler_safe by (auto simp: handler_safe_def)
  have "visible st = (app st, None, stream (conn st))" using assms(3) by (simp add: visible_def)
  with st'(3) oms_serve_fold[OF assms(4)] have "visible st' = (s', None,
      stream (conn st) @ concat (map (\<lambda>r. tcp_written pb (Ctx_Write_Envelope r)) resps))"
    by (simp add: assms(7) del: tcp_written.simps)
  with st'(1,2) show ?thesis by (intro exI[of _ st']) (simp add: visible_def)
qed

text \<open>
  C18. A client that sends requests over TCP, however its bytes are cut into reads: the server places the
  orders among them in the order sent, subscribes the connection once for each subscription, and
  writes one framed response for each request, in the same order, correlated with it; the
  responses to orders carry what placing the orders returned.
\<close>

theorem oms_over_tcp:
  assumes "session_inv st" and "pending st = []" and "rate_limiter st = None"
    and "pb_roundtrip pb reqs" and "\<forall>e \<in> set reqs. length (pb_serialize pb e) \<le> kTcpMaxFrame"
    and "concat chs = concat (map (\<lambda>e. length_frame (pb_serialize pb e)) reqs)"
  shows "\<exists>st' resps. serve receive (tcp_step pb (Some (oms_handler oc ctx))) chs st = Some st' \<and> pending st' = [] \<and>
    oms_orders (app st') = order_run (map Om_Place (concat (map (order_in oc) reqs))) (oms_orders (app st)) \<and>
    oms_subscribers (app st') = oms_subscribers (app st) @ replicate (length (filter subscribes reqs)) ctx \<and>
    stream (conn st') = stream (conn st) @ concat (map (\<lambda>r. tcp_written pb (Ctx_Write_Envelope r)) resps) \<and>
    list_all2 (answers oc) reqs resps \<and>
    map get_data (filter is_order_response resps) =
      map (oc_response oc) (place_all (concat (map (order_in oc) reqs)) (oms_orders (app st)))"
proof -
  obtain resps s' where s': "oms_session oc ctx reqs (app st) = (resps, s')" by fastforce
  from oms_served[OF assms s'] oms_session_spec[OF s'] show ?thesis by blast
qed

text \<open>A serialisation that carries a type and a payload, to run the server on.\<close>

definition oms_request :: "string \<Rightarrow> bytes \<Rightarrow> envelope" where
  "oms_request t d = set_data d (upd_header (\<lambda>h. h\<lparr>message_type := t\<rparr>) envelope_empty)"

definition pb_typed :: proto where
  "pb_typed = pb_data_only\<lparr>
     pb_serialize := (\<lambda>e. message_type (get_header e) @ CHR '':'' # get_data e),
     pb_parse := (\<lambda>bs. (True, oms_request (takeWhile (\<lambda>c. c \<noteq> CHR '':'') bs) (tl (dropWhile (\<lambda>c. c \<noteq> CHR '':'') bs))))\<rparr>"

definition sample_codec :: oms_codec where
  "sample_codec = \<lparr>oc_parse_order = (\<lambda>d. Some (sample_order d 5)), oc_response = or_order_id\<rparr>"

definition fresh_oms :: oms where
  "fresh_oms = \<lparr>oms_orders = OrderManager_new, oms_subscribers = [], oms_publishing = False\<rparr>"

lemma oms_over_tcp_witness:
  "\<exists>st'. serve receive (tcp_step pb_typed (Some (oms_handler sample_codec 0)))
        [[CHR 0x00, CHR 0x00, CHR 0x00], CHR 0x0B # ''ORDER_N'', ''EW:x''] (fresh_session fresh_oms) = Some st' \<and>
     pending st' = [] \<and> om_orders (oms_orders (app st')) = [(''x'', sample_order ''x'' 5)]"
proof -
  let ?req = "oms_request ''ORDER_NEW'' ''x''"
  have app: "om_orders (order_run (map Om_Place (concat (map (order_in sample_codec) [?req]))) (oms_orders fresh_oms)) =
      [(''x'', sample_order ''x'' 5)]"
    by code_simp
  have rt: "pb_roundtrip pb_typed [?req]" "pb_serialize pb_typed ?req = ''ORDER_NEW:x''"
    by (simp_all add: pb_roundtrip_def pb_typed_def oms_request_def envelope_defs)
  moreover have "length_frame ''ORDER_NEW:x'' = [CHR 0x00, CHR 0x00, CHR 0x00] @ (CHR 0x0B # ''ORDER_N'') @ ''EW:x''"
    by code_simp
  ultimately have "\<exists>st' resps. serve receive (tcp_step pb_typed (Some (oms_handler sample_codec 0)))
        [[CHR 0x00, CHR 0x00, CHR 0x00], CHR 0x0B # ''ORDER_N'', ''EW:x''] (fresh_session fresh_oms) = Some st' \<and>
     pending st' = [] \<and>
     oms_orders (app st') =
       order_run (map Om_Place (concat (map (order_in sample_codec) [?req]))) (oms_orders (app (fresh_session fresh_oms))) \<and>
     oms_subscribers (app st') = oms_subscribers (app (fresh_session fresh_oms)) @ replicate (length (filter subscribes [?req])) 0 \<and>
     stream (conn st') = stream (conn (fresh_session fresh_oms)) @ concat (map (\<lambda>r. tcp_written pb_typed (Ctx_Write_Envelope r)) resps) \<and>
     list_all2 (answers sample_codec) [?req] resps \<and>
     map get_data (filter is_order_response resps) =
       map (oc_response sample_codec)
         (place_all (concat (map (order_in sample_codec) [?req])) (oms_orders (app (fresh_session fresh_oms))))"
    by (intro oms_over_tcp) (simp_all add: kTcpMaxFrame_def)
  with app show ?thesis by auto
qed

end
