(* ===== verification/Scenario.thy ===== *)
theory Scenario
  imports Client "HOL-Library.Sublist"
begin

text \<open>
  The scenario engine of the test client (\<open>src/apps/super_client/scenario_engine.cc\<close>) and the echo
  handlers of the test server (\<open>src/apps/super_server/main.cc\<close>).  \<open>Parse\<close> reads scenarios from YAML,
  \<open>Execute\<close> runs their steps on a client; what the client hears goes through one slot, a
  flag and the last data, that its handler fills on the loop's thread and \<open>expect\<close> reads.
\<close>

section \<open>Scenarios\<close>

datatype Step = Step (st_action: string) (st_data: string) (st_count: int) (st_sub_steps: "Step list")

record Scenario =
  sc_name :: string
  sc_type :: string
  sc_mode :: string
  sc_target :: string
  sc_secure :: bool
  sc_steps :: "Step list"

section \<open>Parse\<close>

text \<open>\<open>node[key].as<T>()\<close> throws where the key is absent; \<open>as<std::string>(fallback)\<close> does not.\<close>

definition required :: "'n yaml \<Rightarrow> ('n \<Rightarrow> exn + 'v) \<Rightarrow> 'n \<Rightarrow> string \<Rightarrow> exn + 'v" where
  "required y as node key =
     (case y_get y node key of Inl e \<Rightarrow> Inl e | Inr None \<Rightarrow> Inl (Yaml_Exception ''invalid node'') | Inr (Some n) \<Rightarrow> as n)"

definition with_fallback :: "'n yaml \<Rightarrow> 'n \<Rightarrow> string \<Rightarrow> string \<Rightarrow> exn + string" where
  "with_fallback y node key d =
     (case y_get y node key of
        Inl e \<Rightarrow> Inl e
      | Inr None \<Rightarrow> Inr d
      | Inr (Some n) \<Rightarrow> (case y_string y n of Inl _ \<Rightarrow> Inr d | Inr s \<Rightarrow> Inr s))"

text \<open>The nodes a loop over a node visits.\<close>

definition yaml_nodes :: "'n yaml \<Rightarrow> 'n \<Rightarrow> 'n list" where
  "yaml_nodes y n = (case y_items y n of None \<Rightarrow> [] | Some ns \<Rightarrow> ns)"

definition and_then :: "exn + 'a \<Rightarrow> ('a \<Rightarrow> exn + 'b) \<Rightarrow> exn + 'b" where
  "and_then r f = (case r of Inl e \<Rightarrow> Inl e | Inr a \<Rightarrow> f a)"

definition parse_sub_step :: "'n yaml \<Rightarrow> 'n \<Rightarrow> exn + Step" where
  "parse_sub_step y sub =
     and_then (required y (y_string y) sub ''action'') (\<lambda>action.
     and_then (GetSafe y (y_string y) sub ''data'' []) (\<lambda>data.
       Inr (Step action data 0 [])))"

definition parse_step :: "'n yaml \<Rightarrow> 'n \<Rightarrow> exn + Step" where
  "parse_step y node =
     and_then (required y (y_string y) node ''action'') (\<lambda>action.
     and_then (GetSafe y (y_string y) node ''data'' []) (\<lambda>data.
     and_then (GetSafe y (y_int y) node ''count'' 0) (\<lambda>count.
     and_then (GetSafe y (\<lambda>n. items (parse_sub_step y) (yaml_nodes y n)) node ''steps'' []) (\<lambda>subs.
       Inr (Step action data count subs)))))"

definition parse_scenario :: "'n yaml \<Rightarrow> 'n \<Rightarrow> exn + Scenario" where
  "parse_scenario y node =
     and_then (required y (y_string y) node ''name'') (\<lambda>name.
     and_then (required y (y_string y) node ''type'') (\<lambda>type.
     and_then (with_fallback y node ''mode'' ''proto'') (\<lambda>mode.
     and_then (required y (y_string y) node ''target'') (\<lambda>target.
     and_then (GetSafe y (y_bool y) node ''secure'' False) (\<lambda>secure.
     and_then (GetSafe y (\<lambda>n. items (parse_step y) (yaml_nodes y n)) node ''steps'' []) (\<lambda>steps.
       Inr \<lparr>sc_name = name, sc_type = type, sc_mode = mode, sc_target = target, sc_secure = secure, sc_steps = steps\<rparr>))))))"

definition ScenarioEngine_Parse :: "'n yaml \<Rightarrow> exn + 'n \<Rightarrow> exn + Scenario list" where
  "ScenarioEngine_Parse y file =
     and_then file (\<lambda>config.
       GetSafe y (\<lambda>n. items (parse_scenario y) (yaml_nodes y n)) config ''scenarios'' [])"

section \<open>The client's configuration\<close>

definition scenario_mode :: "Scenario \<Rightarrow> string" where
  "scenario_mode sc =
     (if sc_type sc = ''udp'' then ''udp''
      else if sc_type sc = ''grpc'' then ''grpc''
      else if sc_type sc = ''quic'' then ''quic''
      else if sc_type sc = ''rpc'' then ''rpc''
      else if sc_type sc = ''websocket'' then ''websocket''
      else if sc_mode sc = ''raw'' then ''raw'' else ''tcp'')"

definition scenario_config :: "Scenario \<Rightarrow> exn + ClientConfig" where
  "scenario_config sc =
     (let c0 = ClientConfig_default\<lparr>cl_mode := scenario_mode sc\<rparr>;
          c1 = (if sc_secure sc then c0\<lparr>cl_ssl := (cl_ssl c0)\<lparr>ssl_enabled := True\<rparr>\<rparr> else c0)
      in if CHR '':'' \<in> set (sc_target sc)
         then and_then (stoi (tl (dropWhile (\<lambda>ch. ch \<noteq> CHR '':'') (sc_target sc)))) (\<lambda>port.
                Inr (c1\<lparr>cl_host := takeWhile (\<lambda>ch. ch \<noteq> CHR '':'') (sc_target sc), cl_port := port\<rparr>))
         else Inr c1)"

section \<open>What the client hears\<close>

record slot =
  sl_received :: bool
  sl_data :: string

datatype arrival = Got_Raw bytes | Got_Envelope envelope

text \<open>One handler is registered, by the mode; the other kind of message has none.\<close>

fun scenario_hears :: "bool \<Rightarrow> arrival \<Rightarrow> slot \<Rightarrow> slot" where
  "scenario_hears True (Got_Raw data) sl = \<lparr>sl_received = True, sl_data = data\<rparr>"
| "scenario_hears False (Got_Envelope env) sl =
     \<lparr>sl_received = True, sl_data = (if env_payload env \<noteq> None then get_data env else sl_data sl)\<rparr>"
| "scenario_hears _ _ sl = sl"

section \<open>Execute\<close>

text \<open>
  What happens on the loop's thread up to the decisive moment of an action: the events the client
  handles, and the calls of the message handler.  \<open>expect\<close> waits for up to five seconds: the messages that
  come while it waits are among them, and there are none when it times out.
\<close>

record moment =
  mo_valid :: bool
  mo_res :: "int \<Rightarrow> connect_result"
  mo_cb :: "(connection \<Rightarrow> connection) option"
  mo_rds :: "read_result list"
  mo_events :: "loop_event list"
  mo_arrivals :: "arrival list"

record scenario_env =
  se_os :: openssl
  se_client :: client_env
  se_new :: "ClientConfig \<Rightarrow> client"

record run =
  ru_client :: client
  ru_slot :: slot
  ru_sent :: nat
  ru_clock :: nat

datatype verdict = Goes_On | Failed | Hangs

primrec in_order :: "('r \<Rightarrow> verdict \<times> 'r) list \<Rightarrow> 'r \<Rightarrow> verdict \<times> 'r" where
  "in_order [] r = (Goes_On, r)"
| "in_order (a # as) r = (case a r of (Goes_On, r') \<Rightarrow> in_order as r' | stopped \<Rightarrow> stopped)"

definition sc_raw :: "Scenario \<Rightarrow> bool" where
  "sc_raw sc \<longleftrightarrow> sc_mode sc = ''raw''"

definition hear :: "Scenario \<Rightarrow> moment \<Rightarrow> run \<Rightarrow> run" where
  "hear sc mo r = r\<lparr>ru_clock := ru_clock r + 1, ru_slot := fold (scenario_hears (sc_raw sc)) (mo_arrivals mo) (ru_slot r)\<rparr>"

definition serve_loop :: "moment \<Rightarrow> client \<Rightarrow> client" where
  "serve_loop mo cn = fold (client_step (mo_cb mo)) (mo_events mo) cn"

definition do_connect :: "scenario_env \<Rightarrow> Scenario \<Rightarrow> moment \<Rightarrow> run \<Rightarrow> verdict \<times> run" where
  "do_connect env sc mo r0 =
     (let r = hear sc mo r0
      in case Client_Connect (se_os env) (mo_valid mo) (mo_res mo) (mo_cb mo) (mo_rds mo) (mo_events mo) (ru_client r) of
           (None, cn) \<Rightarrow> (Hangs, r\<lparr>ru_client := cn\<rparr>)
         | (Some ok, cn) \<Rightarrow> (if ok then Goes_On else Failed, r\<lparr>ru_client := cn\<rparr>))"

definition test_message :: "string \<Rightarrow> envelope" where
  "test_message data = set_data data (upd_header (\<lambda>h. h\<lparr>message_type := ''test_msg''\<rparr>) envelope_empty)"

definition do_send :: "scenario_env \<Rightarrow> Scenario \<Rightarrow> string \<Rightarrow> moment \<Rightarrow> run \<Rightarrow> verdict \<times> run" where
  "do_send env sc data mo r0 =
     (let r = hear sc mo r0; cn = serve_loop mo (ru_client r);
          cn' = snd (if sc_raw sc then Client_Send_raw data cn else Client_Send (se_client env) (test_message data) cn)
      in (Goes_On, r\<lparr>ru_client := cn', ru_sent := ru_sent r + 1\<rparr>))"

definition do_expect :: "Scenario \<Rightarrow> string \<Rightarrow> moment \<Rightarrow> run \<Rightarrow> verdict \<times> run" where
  "do_expect sc data mo r0 =
     (let r1 = hear sc mo r0; r = r1\<lparr>ru_client := serve_loop mo (ru_client r1)\<rparr>
      in if \<not> sl_received (ru_slot r) then (Failed, r)
         else if \<not> sublist data (sl_data (ru_slot r)) then (Failed, r)
         else (Goes_On, r\<lparr>ru_slot := (ru_slot r)\<lparr>sl_received := False\<rparr>\<rparr>))"

definition do_disconnect :: "Scenario \<Rightarrow> moment \<Rightarrow> run \<Rightarrow> verdict \<times> run" where
  "do_disconnect sc mo r0 =
     (let r = hear sc mo r0 in (Goes_On, r\<lparr>ru_client := Client_Disconnect (serve_loop mo (ru_client r))\<rparr>))"

type_synonym schedule = "nat \<Rightarrow> moment"

definition run_sub :: "scenario_env \<Rightarrow> schedule \<Rightarrow> Scenario \<Rightarrow> Step \<Rightarrow> run \<Rightarrow> verdict \<times> run" where
  "run_sub env w sc sub r =
     (if st_action sub = ''send'' then do_send env sc (st_data sub) (w (ru_clock r)) r
      else if st_action sub = ''expect'' then do_expect sc (st_data sub) (w (ru_clock r)) r
      else (Goes_On, r))"

definition run_step :: "scenario_env \<Rightarrow> schedule \<Rightarrow> Scenario \<Rightarrow> Step \<Rightarrow> run \<Rightarrow> verdict \<times> run" where
  "run_step env w sc step r =
     (if st_action step = ''connect'' then do_connect env sc (w (ru_clock r)) r
      else if st_action step = ''send'' then do_send env sc (st_data step) (w (ru_clock r)) r
      else if st_action step = ''expect'' then do_expect sc (st_data step) (w (ru_clock r)) r
      else if st_action step = ''disconnect'' then do_disconnect sc (w (ru_clock r)) r
      else if st_action step = ''loop''
      then in_order (replicate (nat (st_count step)) (in_order (map (run_sub env w sc) (st_sub_steps step)))) r
      else (Goes_On, r))"

definition scenario_start :: "client \<Rightarrow> run" where
  "scenario_start cn = \<lparr>ru_client = cn, ru_slot = \<lparr>sl_received = False, sl_data = []\<rparr>, ru_sent = 0, ru_clock = 0\<rparr>"

text \<open>When the steps are done the client goes, and its destructor disconnects.\<close>

definition leave :: "verdict \<times> run \<Rightarrow> verdict \<times> run" where
  "leave p = (fst p, if fst p = Hangs then snd p else (snd p)\<lparr>ru_client := Client_Disconnect (ru_client (snd p))\<rparr>)"

definition ScenarioEngine_Execute :: "scenario_env \<Rightarrow> schedule \<Rightarrow> Scenario \<Rightarrow> exn + verdict \<times> run" where
  "ScenarioEngine_Execute env w sc =
     and_then (scenario_config sc) (\<lambda>cfg.
       Inr (leave (in_order (map (run_step env w sc) (sc_steps sc)) (scenario_start (se_new env cfg)))))"

text \<open>\<open>main\<close>: the exit code, or no value when a scenario never returns.\<close>

primrec run_scenarios :: "(nat \<Rightarrow> scenario_env \<times> schedule) \<Rightarrow> Scenario list \<Rightarrow> nat \<Rightarrow> bool \<Rightarrow> int option" where
  "run_scenarios ws [] i all_passed = Some (if all_passed then 0 else 1)"
| "run_scenarios ws (sc # scs) i all_passed =
     (case ScenarioEngine_Execute (fst (ws i)) (snd (ws i)) sc of
        Inl _ \<Rightarrow> Some 1
      | Inr (v, _) \<Rightarrow>
          (case v of
             Hangs \<Rightarrow> None
           | Failed \<Rightarrow> run_scenarios ws scs (Suc i) False
           | Goes_On \<Rightarrow> run_scenarios ws scs (Suc i) all_passed))"

definition super_client_main :: "'n yaml \<Rightarrow> exn + 'n \<Rightarrow> (nat \<Rightarrow> scenario_env \<times> schedule) \<Rightarrow> int option" where
  "super_client_main y file ws =
     (case ScenarioEngine_Parse y file of Inl _ \<Rightarrow> Some 1 | Inr scs \<Rightarrow> run_scenarios ws scs 0 True)"

section \<open>The echo server\<close>

definition super_raw :: "'s raw_handler" where
  "super_raw s data = (s, [Ctx_Write data], Inr ())"

definition super_echo :: "'s stream_handler" where
  "super_echo s req resp =
     (let r1 = (if env_payload req \<noteq> None then set_data (get_data req) resp else resp);
          r2 = (if env_header req \<noteq> None then upd_header (\<lambda>h. h\<lparr>message_type := message_type (get_header req)\<rparr>) r1 else r1)
      in (s, [], Inr r2))"

text \<open>\<open>main\<close> of the echo server: the exit code, and the server when there is one.\<close>

definition super_server_main ::
    "openssl \<Rightarrow> string option \<Rightarrow> int \<Rightarrow> 'w \<Rightarrow> (string \<Rightarrow> exn + 'w server) \<Rightarrow> string list \<Rightarrow> int \<times> 'w server option" where
  "super_server_main os poller_error efd w created args =
     (case created (case args of [] \<Rightarrow> ''apps/super_server/server_config.yaml'' | p # _ \<Rightarrow> p) of
        Inl _ \<Rightarrow> (1, None)
      | Inr s0 \<Rightarrow>
          (case Server_Start os poller_error efd w (Server_RegisterStreamHandler True (Server_RegisterRawHandler True s0)) of
             (True, s) \<Rightarrow> (0, Some (Server_Wait s))
           | (False, s) \<Rightarrow> (1, Some s)))"

section \<open>Loops unrolled\<close>

text \<open>The reference: a scenario is the list of its actions, in which loops are written out.\<close>

datatype action = A_Connect | A_Send string | A_Expect string | A_Disconnect

definition sub_actions :: "Step \<Rightarrow> action list" where
  "sub_actions s =
     (if st_action s = ''send'' then [A_Send (st_data s)] else if st_action s = ''expect'' then [A_Expect (st_data s)] else [])"

definition step_actions :: "Step \<Rightarrow> action list" where
  "step_actions s =
     (if st_action s = ''connect'' then [A_Connect]
      else if st_action s = ''disconnect'' then [A_Disconnect]
      else if st_action s = ''loop'' then concat (replicate (nat (st_count s)) (concat (map sub_actions (st_sub_steps s))))
      else sub_actions s)"

definition actions :: "Scenario \<Rightarrow> action list" where
  "actions sc = concat (map step_actions (sc_steps sc))"

primrec do_action :: "scenario_env \<Rightarrow> schedule \<Rightarrow> Scenario \<Rightarrow> action \<Rightarrow> run \<Rightarrow> verdict \<times> run" where
  "do_action env w sc A_Connect r = do_connect env sc (w (ru_clock r)) r"
| "do_action env w sc (A_Send d) r = do_send env sc d (w (ru_clock r)) r"
| "do_action env w sc (A_Expect d) r = do_expect sc d (w (ru_clock r)) r"
| "do_action env w sc A_Disconnect r = do_disconnect sc (w (ru_clock r)) r"

lemma in_order_append:
  "in_order (as @ bs) r = (case in_order as r of (Goes_On, r') \<Rightarrow> in_order bs r' | stopped \<Rightarrow> stopped)"
  by (induction as arbitrary: r) (auto split: prod.split verdict.split)

lemma in_order_stop [simp]: "(case p of (Goes_On, r') \<Rightarrow> in_order [] r' | stopped \<Rightarrow> stopped) = p"
  by (auto split: prod.split verdict.split)

lemma in_order_concat: "in_order (map in_order ass) r = in_order (concat ass) r"
  by (induction ass arbitrary: r) (simp_all add: in_order_append cong: prod.case_cong verdict.case_cong)

lemma run_sub_actions: "run_sub env w sc s = in_order (map (do_action env w sc) (sub_actions s))"
  by (rule ext) (simp add: run_sub_def sub_actions_def)

lemma in_order_parts:
  assumes "\<And>x. f x = in_order (map g (h x))"
  shows "in_order (map f xs) = in_order (map g (concat (map h xs)))"
proof
  fix r
  have "in_order (map f xs) r = in_order (map in_order (map (\<lambda>x. map g (h x)) xs)) r"
    using assms by (simp add: comp_def cong: map_cong)
  also have "\<dots> = in_order (concat (map (\<lambda>x. map g (h x)) xs)) r" by (rule in_order_concat)
  also have "concat (map (\<lambda>x. map g (h x)) xs) = map g (concat (map h xs))" by (simp add: map_concat comp_def)
  finally show "in_order (map f xs) r = in_order (map g (concat (map h xs))) r" .
qed

lemma run_step_actions: "run_step env w sc s = in_order (map (do_action env w sc) (step_actions s))"
proof (cases "st_action s = ''loop''")
  case True
  let ?subs = "map (do_action env w sc) (concat (map sub_actions (st_sub_steps s)))"
  have "in_order (map (run_sub env w sc) (st_sub_steps s)) = in_order ?subs"
    by (rule in_order_parts) (rule run_sub_actions)
  then have "run_step env w sc s r = in_order (map in_order (replicate (nat (st_count s)) ?subs)) r" for r
    by (simp add: run_step_def True)
  then have "run_step env w sc s r = in_order (concat (replicate (nat (st_count s)) ?subs)) r" for r
    by (simp only: in_order_concat)
  with True show ?thesis by (intro ext) (simp add: step_actions_def map_concat)
next
  case False
  then show ?thesis by (intro ext) (simp add: run_step_def step_actions_def sub_actions_def)
qed

lemma execute_actions:
  "ScenarioEngine_Execute env w sc =
     and_then (scenario_config sc) (\<lambda>cfg.
       Inr (leave (in_order (map (do_action env w sc) (actions sc)) (scenario_start (se_new env cfg)))))"
  unfolding ScenarioEngine_Execute_def actions_def in_order_parts[OF run_step_actions] ..

section \<open>When a scenario passes\<close>

text \<open>
  The client's side of an action, without the slot; the messages that have come up to a moment; and what
  is the latest text among them.
\<close>

primrec client_action :: "scenario_env \<Rightarrow> Scenario \<Rightarrow> moment \<Rightarrow> action \<Rightarrow> client \<Rightarrow> client" where
  "client_action env sc mo A_Connect cn =
     snd (Client_Connect (se_os env) (mo_valid mo) (mo_res mo) (mo_cb mo) (mo_rds mo) (mo_events mo) cn)"
| "client_action env sc mo (A_Send d) cn =
     snd (if sc_raw sc then Client_Send_raw d (serve_loop mo cn) else Client_Send (se_client env) (test_message d) (serve_loop mo cn))"
| "client_action env sc mo (A_Expect d) cn = serve_loop mo cn"
| "client_action env sc mo A_Disconnect cn = Client_Disconnect (serve_loop mo cn)"

definition client_before :: "scenario_env \<Rightarrow> schedule \<Rightarrow> Scenario \<Rightarrow> nat \<Rightarrow> client \<Rightarrow> client" where
  "client_before env w sc n cn = fold (\<lambda>k. client_action env sc (w k) (actions sc ! k)) [0..<n] cn"

fun heard :: "bool \<Rightarrow> arrival \<Rightarrow> string option list" where
  "heard True (Got_Raw d) = [Some d]"
| "heard False (Got_Envelope e) = [if env_payload e \<noteq> None then Some (get_data e) else None]"
| "heard _ _ = []"

definition heard_at :: "schedule \<Rightarrow> Scenario \<Rightarrow> nat \<Rightarrow> string option list" where
  "heard_at w sc k = concat (map (heard (sc_raw sc)) (mo_arrivals (w k)))"

definition latest_text :: "string option list \<Rightarrow> string" where
  "latest_text xs = foldl (\<lambda>t x. case x of None \<Rightarrow> t | Some d \<Rightarrow> d) [] xs"

definition is_expect :: "action \<Rightarrow> bool" where
  "is_expect a \<longleftrightarrow> (\<exists>d. a = A_Expect d)"

text \<open>A message has come at a moment before \<open>n\<close> and no expectation has taken it since.\<close>

definition fresh_before :: "schedule \<Rightarrow> Scenario \<Rightarrow> nat \<Rightarrow> nat \<Rightarrow> bool" where
  "fresh_before w sc n m \<longleftrightarrow> (\<exists>k < n. heard_at w sc k \<noteq> [] \<and> (\<forall>j \<in> {k..<m}. \<not> is_expect (actions sc ! j)))"

definition action_ok :: "scenario_env \<Rightarrow> schedule \<Rightarrow> Scenario \<Rightarrow> client \<Rightarrow> nat \<Rightarrow> bool" where
  "action_ok env w sc cn i \<longleftrightarrow>
     (case actions sc ! i of
        A_Connect \<Rightarrow>
          fst (Client_Connect (se_os env) (mo_valid (w i)) (mo_res (w i)) (mo_cb (w i)) (mo_rds (w i)) (mo_events (w i))
            (client_before env w sc i cn)) = Some True
      | A_Expect d \<Rightarrow> fresh_before w sc (Suc i) i \<and> sublist d (latest_text (concat (map (heard_at w sc) [0..<Suc i])))
      | _ \<Rightarrow> True)"

definition slot_ok :: "schedule \<Rightarrow> Scenario \<Rightarrow> nat \<Rightarrow> slot \<Rightarrow> bool" where
  "slot_ok w sc n sl \<longleftrightarrow> (sl_received sl \<longleftrightarrow> fresh_before w sc n n) \<and>
     sl_data sl = latest_text (concat (map (heard_at w sc) [0..<n]))"

lemma hears_fold:
  "fold (scenario_hears raw) as sl =
     \<lparr>sl_received = (sl_received sl \<or> concat (map (heard raw) as) \<noteq> []),
      sl_data = foldl (\<lambda>t x. case x of None \<Rightarrow> t | Some d \<Rightarrow> d) (sl_data sl) (concat (map (heard raw) as))\<rparr>"
proof (induction as arbitrary: sl)
  case (Cons a as)
  then show ?case by (cases raw; cases a) simp_all
qed simp

text \<open>The slot at the decisive moment of action \<open>n\<close>.\<close>

lemma slot_at:
  assumes "slot_ok w sc n sl"
  shows "sl_received (fold (scenario_hears (sc_raw sc)) (mo_arrivals (w n)) sl) = fresh_before w sc (Suc n) n"
    and "sl_data (fold (scenario_hears (sc_raw sc)) (mo_arrivals (w n)) sl) = latest_text (concat (map (heard_at w sc) [0..<Suc n]))"
  using assms
  by (auto simp: slot_ok_def hears_fold heard_at_def fresh_before_def latest_text_def less_Suc_eq)

lemma fresh_Suc:
  "fresh_before w sc (Suc n) (Suc n) \<longleftrightarrow> fresh_before w sc (Suc n) n \<and> \<not> is_expect (actions sc ! n)"
  by (auto simp: fresh_before_def less_Suc_eq_le atLeastLessThanSuc)

lemma slot_ok_Suc:
  assumes "slot_ok w sc n sl"
  shows "slot_ok w sc (Suc n) ((fold (scenario_hears (sc_raw sc)) (mo_arrivals (w n)) sl)
      \<lparr>sl_received := sl_received (fold (scenario_hears (sc_raw sc)) (mo_arrivals (w n)) sl) \<and> \<not> is_expect (actions sc ! n)\<rparr>)"
  unfolding slot_ok_def fresh_Suc using slot_at[OF assms] by simp

definition run_ok :: "scenario_env \<Rightarrow> schedule \<Rightarrow> Scenario \<Rightarrow> client \<Rightarrow> nat \<Rightarrow> run \<Rightarrow> bool" where
  "run_ok env w sc cn n r \<longleftrightarrow> ru_clock r = n \<and> ru_client r = client_before env w sc n cn \<and> slot_ok w sc n (ru_slot r)"

lemma client_before_Suc: "client_before env w sc (Suc n) cn = client_action env sc (w n) (actions sc ! n) (client_before env w sc n cn)"
  by (simp add: client_before_def)

lemma do_action_ok:
  assumes "run_ok env w sc cn n r"
  shows "fst (do_action env w sc (actions sc ! n) r) = Goes_On \<longleftrightarrow> action_ok env w sc cn n"
    and "fst (do_action env w sc (actions sc ! n) r) = Goes_On \<Longrightarrow>
      run_ok env w sc cn (Suc n) (snd (do_action env w sc (actions sc ! n) r))"
proof -
  note r = assms[unfolded run_ok_def] and s = slot_at[of w sc n "ru_slot r"] and s' = slot_ok_Suc[of w sc n "ru_slot r"]
  show "fst (do_action env w sc (actions sc ! n) r) = Goes_On \<longleftrightarrow> action_ok env w sc cn n"
    using r s by (cases "actions sc ! n") (auto simp: action_ok_def do_connect_def do_send_def do_expect_def do_disconnect_def
        hear_def Let_def split: prod.split option.split)
  show "run_ok env w sc cn (Suc n) (snd (do_action env w sc (actions sc ! n) r))"
    if "fst (do_action env w sc (actions sc ! n) r) = Goes_On"
    using r s' that by (cases "actions sc ! n")
      (auto simp: run_ok_def client_before_Suc do_connect_def do_send_def do_expect_def do_disconnect_def is_expect_def
        hear_def Let_def split: prod.splits option.splits if_splits)
qed

lemma prefix_ok:
  assumes "n \<le> length (actions sc)"
  shows "(fst (in_order (map (do_action env w sc) (take n (actions sc))) (scenario_start cn)) = Goes_On \<longleftrightarrow>
      (\<forall>i < n. action_ok env w sc cn i)) \<and>
    ((\<forall>i < n. action_ok env w sc cn i) \<longrightarrow>
      run_ok env w sc cn n (snd (in_order (map (do_action env w sc) (take n (actions sc))) (scenario_start cn))))"
  using assms
proof (induction n)
  case 0
  then show ?case
    by (simp add: run_ok_def scenario_start_def client_before_def slot_ok_def fresh_before_def latest_text_def)
next
  case (Suc n)
  obtain v r where p: "in_order (map (do_action env w sc) (take n (actions sc))) (scenario_start cn) = (v, r)" by fastforce
  have t: "take (Suc n) (actions sc) = take n (actions sc) @ [actions sc ! n]"
    using Suc.prems by (simp add: take_Suc_conv_app_nth)
  have all: "(\<forall>i < Suc n. action_ok env w sc cn i) \<longleftrightarrow> (\<forall>i < n. action_ok env w sc cn i) \<and> action_ok env w sc cn n"
    by (auto simp: less_Suc_eq)
  show ?case
  proof (cases "v = Goes_On")
    case True
    with Suc p have "\<forall>i < n. action_ok env w sc cn i" and "run_ok env w sc cn n r" by simp_all
    then show ?thesis using do_action_ok[of env w sc cn n r] by (simp add: t all in_order_append p True)
  next
    case False
    with Suc p have "\<not> (\<forall>i < n. action_ok env w sc cn i)" by simp
    then show ?thesis using False by (cases v) (auto simp: t all in_order_append p)
  qed
qed

lemma passes_ok:
  assumes "scenario_config sc = Inr cfg"
  shows "(\<exists>r. ScenarioEngine_Execute env w sc = Inr (Goes_On, r)) \<longleftrightarrow>
    (\<forall>i < length (actions sc). action_ok env w sc (se_new env cfg) i)"
  unfolding execute_actions using prefix_ok[of "length (actions sc)" sc env w "se_new env cfg"] assms
  by (auto simp: and_then_def leave_def prod_eq_iff)

text \<open>
  C21. A scenario passes exactly when its target is well formed and every action is fine: every connect
  succeeds, and for every expectation a message has come since the expectation before it, and the
  latest text heard contains the one expected.  Loops count as their actions written out.
\<close>

theorem scenario_passes_iff:
  "(\<exists>r. ScenarioEngine_Execute env w sc = Inr (Goes_On, r)) \<longleftrightarrow>
     (\<exists>cfg. scenario_config sc = Inr cfg \<and> (\<forall>i < length (actions sc). action_ok env w sc (se_new env cfg) i))"
proof (cases "scenario_config sc")
  case (Inl e)
  then show ?thesis by (simp add: ScenarioEngine_Execute_def and_then_def)
next
  case (Inr cfg)
  with passes_ok[OF this] show ?thesis by simp
qed

definition sample_scenario :: "string \<Rightarrow> Step list \<Rightarrow> Scenario" where
  "sample_scenario mode ss =
     \<lparr>sc_name = ''s'', sc_type = ''tcp'', sc_mode = mode, sc_target = ''127.0.0.1:9001'', sc_secure = False, sc_steps = ss\<rparr>"

definition quiet :: moment where
  "quiet = \<lparr>mo_valid = True, mo_res = (\<lambda>_. Conn_Err), mo_cb = None, mo_rds = [], mo_events = [], mo_arrivals = []\<rparr>"

definition expects :: "string list \<Rightarrow> Step list" where
  "expects ds = map (\<lambda>d. Step ''expect'' d 0 []) ds"

lemma sample_config: "\<exists>cfg. scenario_config (sample_scenario mode ss) = Inr cfg"
proof -
  have "stoi ''9001'' = Inr 9001" by code_simp
  then show ?thesis by (simp add: scenario_config_def sample_scenario_def and_then_def Let_def)
qed

lemma scenario_passes_iff_witness:
  "\<forall>env. \<exists>r. ScenarioEngine_Execute env (\<lambda>_. quiet\<lparr>mo_arrivals := [Got_Raw ''pong'']\<rparr>) (sample_scenario ''raw'' (expects [''on'', ''ng''])) =
    Inr (Goes_On, r)"
proof -
  let ?sc = "sample_scenario ''raw'' (expects [''on'', ''ng''])" and ?w = "\<lambda>_. quiet\<lparr>mo_arrivals := [Got_Raw ''pong'']\<rparr>"
  have 1: "actions ?sc = [A_Expect ''on'', A_Expect ''ng'']" and raw: "sc_raw ?sc"
    by (simp_all add: actions_def sample_scenario_def expects_def step_actions_def sub_actions_def sc_raw_def)
  have h: "heard_at ?w ?sc k = [Some ''pong'']" for k by (simp add: heard_at_def quiet_def raw)
  have f: "fresh_before ?w ?sc (Suc n) n" for n by (auto simp: fresh_before_def h)
  have "action_ok env ?w ?sc cn i" if "i < length (actions ?sc)" for env cn i
  proof -
    have "i = 0 \<or> i = 1" using that 1 by auto
    then show ?thesis using f[of i] by (auto simp: action_ok_def 1 h latest_text_def sublist_Cons_right)
  qed
  then have "\<exists>r. ScenarioEngine_Execute env ?w ?sc = Inr (Goes_On, r)" for env
    using scenario_passes_iff[of env ?w ?sc] sample_config by blast
  then show ?thesis by blast
qed

text \<open>
  Messages that come in a burst are lost: two expectations in a row, with nothing heard during the second, never both
  hold, however many messages came before the first.
\<close>

theorem burst_fails:
  assumes "Suc i < length (actions sc)" and "actions sc ! i = A_Expect a" and "actions sc ! Suc i = A_Expect b"
    and "heard_at w sc (Suc i) = []"
  shows "\<not> (\<exists>r. ScenarioEngine_Execute env w sc = Inr (Goes_On, r))"
proof
  assume "\<exists>r. ScenarioEngine_Execute env w sc = Inr (Goes_On, r)"
  moreover from this obtain cfg where cfg: "scenario_config sc = Inr cfg"
    by (cases "scenario_config sc") (auto simp: ScenarioEngine_Execute_def and_then_def)
  ultimately have "action_ok env w sc (se_new env cfg) (Suc i)" using passes_ok[OF cfg] assms(1) by blast
  then have "fresh_before w sc (Suc (Suc i)) (Suc i)" using assms(3) by (simp add: action_ok_def)
  then obtain k where "k < Suc (Suc i)" "heard_at w sc k \<noteq> []" "\<forall>j \<in> {k..<Suc i}. \<not> is_expect (actions sc ! j)"
    unfolding fresh_before_def by blast
  with assms(2,4) show False by (cases "k = Suc i") (auto simp: is_expect_def)
qed

lemma burst_fails_witness:
  "\<not> (\<exists>r. ScenarioEngine_Execute env
      (\<lambda>k. if k = 0 then quiet\<lparr>mo_arrivals := [Got_Raw ''a'', Got_Raw ''b'']\<rparr> else quiet)
      (sample_scenario ''raw'' (expects [''a'', ''b''])) = Inr (Goes_On, r))"
  by (rule burst_fails[where i = 0 and a = "''a''" and b = "''b''"])
     (simp_all add: actions_def sample_scenario_def expects_def step_actions_def sub_actions_def heard_at_def quiet_def)

text \<open>
  Raw mode is for TCP only: a raw scenario of another type configures its client for the type's
  protocol, and such a client never calls the raw message handler, so an expectation of such a
  scenario is never met.
\<close>

theorem raw_mode_needs_tcp:
  assumes "sc_mode sc = ''raw''" and "sc_type sc \<in> {''udp'', ''grpc'', ''quic'', ''rpc'', ''websocket''}"
    and "scenario_config sc = Inr cfg"
  shows "Client_on_message cfg (Some f) (Some p) st = p st \<and> cl_mode cfg = sc_type sc"
proof -
  have "cl_mode cfg = sc_type sc"
    using assms by (auto simp: scenario_config_def scenario_mode_def and_then_def Let_def split: if_splits sum.splits)
  with assms(2) show ?thesis by (auto simp: Client_on_message_def)
qed

lemma raw_mode_needs_tcp_witness:
  "\<exists>cfg. scenario_config ((sample_scenario ''raw'' [])\<lparr>sc_type := ''udp''\<rparr>) = Inr cfg \<and>
    Client_on_message cfg (Some (\<lambda>a d. d)) (Some id) st = st"
proof -
  let ?sc = "(sample_scenario ''raw'' [])\<lparr>sc_type := ''udp''\<rparr>"
  have "stoi ''9001'' = Inr 9001" by code_simp
  then obtain cfg where cfg: "scenario_config ?sc = Inr cfg"
    by (simp add: scenario_config_def sample_scenario_def and_then_def Let_def)
  have "Client_on_message cfg (Some (\<lambda>a d. d)) (Some id) st = id st"
    by (rule conjunct1[OF raw_mode_needs_tcp[OF _ _ cfg]]) (simp_all add: sample_scenario_def)
  with cfg show ?thesis by auto
qed

text \<open>The exit code: zero exactly when the file parses and every scenario passes.\<close>

lemma run_scenarios_zero:
  "run_scenarios ws scs i b = Some 0 \<longleftrightarrow>
     b \<and> (\<forall>k < length scs. \<exists>r. ScenarioEngine_Execute (fst (ws (i + k))) (snd (ws (i + k))) (scs ! k) = Inr (Goes_On, r))"
proof (induction scs arbitrary: i b)
  case (Cons sc scs)
  have all: "(\<forall>k < length (sc # scs). P k ((sc # scs) ! k)) \<longleftrightarrow> P 0 sc \<and> (\<forall>k < length scs. P (Suc k) (scs ! k))" for P
    by (auto simp: less_Suc_eq_0_disj)
  show ?case
    unfolding all[of "\<lambda>k sc. \<exists>r. ScenarioEngine_Execute (fst (ws (i + k))) (snd (ws (i + k))) sc = Inr (Goes_On, r)"]
    using Cons.IH[of "Suc i"] by (auto split: sum.split prod.split verdict.split)
qed simp

theorem exit_code_zero:
  "super_client_main y file ws = Some 0 \<longleftrightarrow>
     (\<exists>scs. ScenarioEngine_Parse y file = Inr scs \<and>
       (\<forall>k < length scs. \<exists>r. ScenarioEngine_Execute (fst (ws k)) (snd (ws k)) (scs ! k) = Inr (Goes_On, r)))"
  by (cases "ScenarioEngine_Parse y file") (simp_all add: super_client_main_def run_scenarios_zero)

section \<open>An echo over TCP\<close>

definition echo_reply :: "envelope \<Rightarrow> envelope" where
  "echo_reply req = (case super_echo () req (Tcp_response req) of (_, _, Inr r) \<Rightarrow> r | (_, _, Inl _) \<Rightarrow> envelope_empty)"

lemma super_echo_reply: "super_echo a req (Tcp_response req) = (a, [], Inr (echo_reply req))"
  by (simp add: echo_reply_def super_echo_def Let_def)

lemma super_echo_safe: "handler_safe (Some super_echo)"
  by (simp add: handler_safe_def no_throw_def super_echo_def Let_def)

lemma echo_reply_data: "get_data (echo_reply (test_message d)) = d" "env_payload (echo_reply (test_message d)) \<noteq> None"
  by (simp_all add: echo_reply_def super_echo_def test_message_def Tcp_response_def Let_def envelope_defs)

lemma echo_serve_fold:
  assumes "pb_roundtrip pb es"
  shows "fold (tcp_serve pb (Some super_echo)) (map (pb_serialize pb) es) (a, None, out) =
    (a, None, out @ concat (map (\<lambda>e. tcp_written pb (Ctx_Write_Envelope (echo_reply e))) es))"
  using assms
  by (induction es arbitrary: out)
     (simp_all add: tcp_serve_def tcp_handle_def CheckRateLimit_def pb_roundtrip_def super_echo_reply del: tcp_written.simps)

text \<open>
  The client sends test messages over TCP to the echo server, and reads what the server
  writes, for any cut of either stream into reads: the slot then holds the data of the last message.
\<close>

theorem tcp_echo_heard:
  assumes "session_inv st" and "pending st = []" and "rate_limiter st = None" and "stream (conn st) = []"
    and "session_inv ct" and "pending ct = []" and "conn_inv c" and "in_loop_thread c" and "stream c = []"
    and "ds \<noteq> []" and "es = map test_message ds" and "pb_roundtrip pb (es @ map echo_reply es)"
    and "\<forall>e \<in> set es. length (pb_serialize pb e) \<le> kTcpMaxFrame"
    and "\<forall>e \<in> set es. length (pb_serialize pb (echo_reply e)) \<le> kTcpMaxFrame \<and> pb_serialize pb (echo_reply e) \<noteq> []"
    and "concat chs = stream (fold (TcpClient_Send pb) es c)"
  shows "\<exists>st'. serve receive (tcp_step pb (Some super_echo)) chs st = Some st' \<and>
    (\<forall>chs'. concat chs' = stream (conn st') \<longrightarrow>
      (\<exists>ct'. serve receive (\<lambda>s. Some (TcpClient_OnDataReceived pb (Some (\<lambda>sl e. scenario_hears False (Got_Envelope e) sl)) s)) chs' ct =
          Some ct' \<and> app ct' = \<lparr>sl_received = True, sl_data = last ds\<rparr>))"
proof -
  let ?g = "\<lambda>sl e. scenario_hears False (Got_Envelope e) sl"
  have rt: "pb_roundtrip pb es" "pb_roundtrip pb (map echo_reply es)" using assms(12) by (simp_all add: pb_roundtrip_def)
  have "concat chs = concat (map length_frame (map (pb_serialize pb) es))"
    using TcpClient_fold_outputs[of pb es c] assms(7-9,15) by (simp add: outputs_def extends_def comp_def)
  then have "drain (frame_decode kTcpMaxFrame) (pending st @ concat chs) = (map (pb_serialize pb) es, [])"
    using framing.drain_concat[OF serialized_ok[OF assms(13)], of "[]"] assms(2) by simp
  then obtain st' where st': "serve receive (tcp_step pb (Some super_echo)) chs st = Some st'"
      "visible st' = fold (tcp_serve pb (Some super_echo)) (map (pb_serialize pb) es) (visible st)"
    using tcp_srv.serve_concat[of st "Some super_echo" "[]" chs "map (pb_serialize pb) es" pb] assms(1,2) super_echo_safe by auto
  have "visible st = (app st, None, [])" using assms(3,4) by (simp add: visible_def)
  then have "visible st' = (app st, None, concat (map (\<lambda>e. tcp_written pb (Ctx_Write_Envelope (echo_reply e))) es))"
    unfolding st'(2) by (simp only: echo_serve_fold[OF rt(1)] append_Nil)
  then have out: "stream (conn st') = concat (map (\<lambda>e. tcp_written pb (Ctx_Write_Envelope (echo_reply e))) es)"
    by (simp add: visible_def)
  have "\<exists>ct'. serve receive (\<lambda>s. Some (TcpClient_OnDataReceived pb (Some ?g) s)) chs' ct = Some ct' \<and>
      app ct' = \<lparr>sl_received = True, sl_data = last ds\<rparr>" if chs': "concat chs' = stream (conn st')" for chs'
  proof -
    have ctx: "stream (run_ctx (TcpStreamContext pb) (map Ctx_Write_Envelope (map echo_reply es)) c) = stream (conn st')"
      using tcp_ctx.run_ctx_outputs[of pb "map Ctx_Write_Envelope (map echo_reply es)" c] assms(7-9)
      by (simp add: outputs_def extends_def out comp_def del: tcp_written.simps)
    have "\<exists>ct'. serve receive (\<lambda>s. Some (TcpClient_OnDataReceived pb (Some ?g) s)) chs' ct = Some ct' \<and>
        pending ct' = [] \<and> app ct' = fold (\<lambda>e a. ?g a e) (map echo_reply es) (app ct)"
      by (rule tcp_client_receives[OF assms(5,6) rt(2) _ assms(7-9)]) (use assms(14) chs' ctx in auto)
    moreover have "fold (\<lambda>e a. ?g a e) (map echo_reply es) sl = \<lparr>sl_received = True, sl_data = last ds\<rparr>" for sl
      using assms(10) unfolding assms(11)
      by (induction ds arbitrary: sl) (auto simp: echo_reply_data)
    ultimately show ?thesis by auto
  qed
  with st'(1) show ?thesis by blast
qed

text \<open>A serialisation that keeps the data of the test messages and of the replies to them.\<close>

definition pb_echo :: proto where
  "pb_echo = pb_data_only\<lparr>
     pb_serialize := (\<lambda>e. (if message_id (get_header e) = [] then CHR ''q'' else CHR ''r'') # get_data e),
     pb_parse := (\<lambda>bs. (True, if hd bs = CHR ''q'' then test_message (tl bs) else echo_reply (test_message (tl bs))))\<rparr>"

lemma pb_echo_simps:
  "pb_serialize pb_echo (test_message d) = CHR ''q'' # d"
  "pb_serialize pb_echo (echo_reply (test_message d)) = CHR ''r'' # d"
  by (simp_all add: pb_echo_def echo_reply_def super_echo_def test_message_def Tcp_response_def Let_def envelope_defs)

lemma tcp_echo_heard_witness:
  "\<exists>st' ct'. serve receive (tcp_step pb_echo (Some super_echo)) [length_frame ''qhi''] (fresh_session ()) = Some st' \<and>
    serve receive (\<lambda>s. Some (TcpClient_OnDataReceived pb_echo (Some (\<lambda>sl e. scenario_hears False (Got_Envelope e) sl)) s))
      [stream (conn st')] (fresh_session \<lparr>sl_received = False, sl_data = []\<rparr>) = Some ct' \<and>
    app ct' = \<lparr>sl_received = True, sl_data = ''hi''\<rparr>"
proof -
  let ?es = "map test_message [''hi'']"
  have rt: "pb_roundtrip pb_echo (?es @ map echo_reply ?es)"
    by (simp add: pb_roundtrip_def pb_echo_simps) (simp add: pb_echo_def)
  have out: "stream (fold (TcpClient_Send pb_echo) ?es fresh_conn) = length_frame ''qhi''"
    using TcpClient_fold_outputs[of pb_echo ?es fresh_conn] by (simp add: outputs_def extends_def pb_echo_simps)
  have fresh: "stream (conn (fresh_session ())) = []" using fresh_session_facts(7) by (simp add: fresh_session_def)
  have "\<exists>st'. serve receive (tcp_step pb_echo (Some super_echo)) [length_frame ''qhi''] (fresh_session ()) = Some st' \<and>
    (\<forall>chs'. concat chs' = stream (conn st') \<longrightarrow>
      (\<exists>ct'. serve receive (\<lambda>s. Some (TcpClient_OnDataReceived pb_echo
            (Some (\<lambda>sl e. scenario_hears False (Got_Envelope e) sl)) s)) chs' (fresh_session \<lparr>sl_received = False, sl_data = []\<rparr>) =
          Some ct' \<and> app ct' = \<lparr>sl_received = True, sl_data = last [''hi'']\<rparr>))"
    by (rule tcp_echo_heard[where es = ?es and c = fresh_conn])
       (use rt out fresh in \<open>simp_all add: pb_echo_simps kTcpMaxFrame_def\<close>)
  then show ?thesis by (metis append_Nil2 concat.simps last.simps)
qed

section \<open>Round trip of the file\<close>

text \<open>The document that says what a list of scenarios is, as its author would write it.\<close>

definition sub_tree :: "Step \<Rightarrow> yaml_tree" where
  "sub_tree s = Mapping [(''action'', Scalar (st_action s)), (''data'', Scalar (st_data s))]"

definition step_tree :: "Step \<Rightarrow> yaml_tree" where
  "step_tree s =
     Mapping [(''action'', Scalar (st_action s)), (''data'', Scalar (st_data s)), (''count'', Scalar (dec_str (nat (st_count s)))),
       (''steps'', Sequence (map sub_tree (st_sub_steps s)))]"

definition scenario_tree :: "Scenario \<Rightarrow> yaml_tree" where
  "scenario_tree sc =
     Mapping [(''name'', Scalar (sc_name sc)), (''type'', Scalar (sc_type sc)), (''mode'', Scalar (sc_mode sc)),
       (''target'', Scalar (sc_target sc)), (''secure'', Scalar (if sc_secure sc then ''true'' else ''false'')),
       (''steps'', Sequence (map step_tree (sc_steps sc)))]"

definition scenarios_tree :: "Scenario list \<Rightarrow> yaml_tree" where
  "scenarios_tree scs = Mapping [(''scenarios'', Sequence (map scenario_tree scs))]"

text \<open>What the YAML library promises of the nodes it makes of such a document.\<close>

definition yaml_reads :: "'n yaml \<Rightarrow> (yaml_tree \<Rightarrow> 'n) \<Rightarrow> bool" where
  "yaml_reads y node \<longleftrightarrow>
     (\<forall>m k. y_get y (node (Mapping m)) k = Inr (map_option node (map_of m k))) \<and>
     (\<forall>ts. y_items y (node (Sequence ts)) = Some (map node ts)) \<and>
     (\<forall>t. y_string y (node (Scalar t)) = Inr t) \<and>
     y_bool y (node (Scalar ''true'')) = Inr True \<and> y_bool y (node (Scalar ''false'')) = Inr False \<and>
     (\<forall>n < 2 ^ 31. y_int y (node (Scalar (dec_str n))) = Inr (int n))"

text \<open>The parser reads one level of steps below a step, without a count.\<close>

definition writable_step :: "Step \<Rightarrow> bool" where
  "writable_step s \<longleftrightarrow> 0 \<le> st_count s \<and> st_count s < 2 ^ 31 \<and>
     (\<forall>sub \<in> set (st_sub_steps s). st_count sub = 0 \<and> st_sub_steps sub = [])"

lemma items_map:
  assumes "\<And>x. x \<in> set xs \<Longrightarrow> as (node (g x)) = Inr x"
  shows "items as (map node (map g xs)) = Inr xs"
  using assms by (induction xs) simp_all

lemma parse_sub_tree:
  assumes "yaml_reads y node" and "st_count s = 0" and "st_sub_steps s = []"
  shows "parse_sub_step y (node (sub_tree s)) = Inr s"
  using assms by (cases s) (simp add: parse_sub_step_def sub_tree_def yaml_reads_def required_def GetSafe_def and_then_def)

lemma parse_step_tree:
  assumes "yaml_reads y node" and "writable_step s"
  shows "parse_step y (node (step_tree s)) = Inr s"
proof -
  have subs: "items (parse_sub_step y) (map node (map sub_tree (st_sub_steps s))) = Inr (st_sub_steps s)"
    by (rule items_map) (use assms in \<open>simp add: writable_step_def parse_sub_tree\<close>)
  have n: "nat (st_count s) < 2147483648" "int (nat (st_count s)) = st_count s" using assms(2) by (auto simp: writable_step_def)
  with assms(1) have "y_int y (node (Scalar (dec_str (nat (st_count s))))) = Inr (st_count s)" by (simp add: yaml_reads_def)
  with subs assms(1) show ?thesis
    by (cases s) (simp add: parse_step_def step_tree_def yaml_reads_def yaml_nodes_def required_def GetSafe_def and_then_def)
qed

lemma parse_scenario_tree:
  assumes "yaml_reads y node" and "\<forall>s \<in> set (sc_steps sc). writable_step s"
  shows "parse_scenario y (node (scenario_tree sc)) = Inr sc"
proof -
  have "items (parse_step y) (map node (map step_tree (sc_steps sc))) = Inr (sc_steps sc)"
    by (rule items_map) (use assms in \<open>simp add: parse_step_tree\<close>)
  with assms(1) show ?thesis
    by (cases sc) (simp add: parse_scenario_def scenario_tree_def yaml_reads_def yaml_nodes_def required_def with_fallback_def
        GetSafe_def and_then_def)
qed

text \<open>The engine reads back the scenarios a file writes down, in order.\<close>

theorem scenarios_roundtrip:
  assumes "yaml_reads y node" and "\<forall>sc \<in> set scs. \<forall>s \<in> set (sc_steps sc). writable_step s"
  shows "ScenarioEngine_Parse y (Inr (node (scenarios_tree scs))) = Inr scs"
proof -
  have "items (parse_scenario y) (map node (map scenario_tree scs)) = Inr scs"
    by (rule items_map) (use assms in \<open>simp add: parse_scenario_tree\<close>)
  with assms(1) show ?thesis
    by (simp add: ScenarioEngine_Parse_def scenarios_tree_def yaml_reads_def yaml_nodes_def GetSafe_def and_then_def)
qed

lemma scenarios_roundtrip_witness:
  "ScenarioEngine_Parse tree_yaml (Inr (scenarios_tree [sample_scenario ''raw'' [Step ''loop'' [] 3 [Step ''send'' ''x'' 0 []]]])) =
    Inr [sample_scenario ''raw'' [Step ''loop'' [] 3 [Step ''send'' ''x'' 0 []]]]"
proof -
  have "yaml_reads tree_yaml id" by (simp add: yaml_reads_def tree_yaml_def stoi_dec_str option.map_id)
  from scenarios_roundtrip[OF this] show ?thesis by (simp add: sample_scenario_def writable_step_def)
qed

end
