(* ===== verification/Io_Uring.thy ===== *)
theory Io_Uring
  imports Connection "HOL-Library.Signed_Division"
begin

text \<open>
  \<open>IoUringPoller\<close> (\<open>src/lib_network/src/event/io_uring_poller.cc\<close>), the alternative to \<open>EpollPoller\<close>, which the
  event loop does not select at present.  The ring is the calls the poller makes on it, in order, the
  completion queue, and a script of whether \<open>io_uring_get_sqe\<close> finds room; what
  waiting returns and which completions have come by then are arguments.
\<close>

section \<open>The poller\<close>

datatype uring_call = Poll_Add int uint32 uint64 | Poll_Remove uint64 | Submit | Advance nat

record cqe =
  ce_res :: int
  ce_data :: uint64

record uring =
  ur_room :: "bool list"
  ur_calls :: "uring_call list"
  ur_cq :: "cqe list"

definition POLLIN :: uint32 where "POLLIN = 0x001"
definition POLLOUT :: uint32 where "POLLOUT = 0x004"
definition ETIME :: int where "ETIME = 62"

definition IoUringPoller_new :: "int \<Rightarrow> bool list \<Rightarrow> exn + uring" where
  "IoUringPoller_new init room =
     (if init < 0 then Inl (Runtime_Error ''Failed to initialize io_uring'')
      else Inr \<lparr>ur_room = room, ur_calls = [], ur_cq = []\<rparr>)"

definition get_sqe :: "uring \<Rightarrow> bool \<times> uring" where
  "get_sqe u = (case ur_room u of [] \<Rightarrow> (True, u) | b # bs \<Rightarrow> (b, u\<lparr>ur_room := bs\<rparr>))"

definition ring_call :: "uring_call \<Rightarrow> uring \<Rightarrow> uring" where
  "ring_call a u = u\<lparr>ur_calls := ur_calls u @ [a]\<rparr>"

definition poll_mask :: "uint32 \<Rightarrow> uint32" where
  "poll_mask events =
     (if events AND 0x001 \<noteq> 0 then POLLIN else 0) OR (if events AND 0x004 \<noteq> 0 then POLLOUT else 0)"

definition IoUringPoller_SubmitPoll :: "int \<Rightarrow> uint32 \<Rightarrow> uint64 \<Rightarrow> uring \<Rightarrow> uring" where
  "IoUringPoller_SubmitPoll f events data u =
     (case get_sqe u of
        (True, u1) \<Rightarrow> ring_call (Poll_Add f (poll_mask events) data) u1
      | (False, u1) \<Rightarrow>
          (case get_sqe (ring_call Submit u1) of
             (True, u2) \<Rightarrow> ring_call (Poll_Add f (poll_mask events) data) u2
           | (False, u2) \<Rightarrow> u2))"

definition IoUringPoller_Add :: "int \<Rightarrow> uint32 \<Rightarrow> uint64 \<Rightarrow> uring \<Rightarrow> uring" where
  "IoUringPoller_Add f events data u = IoUringPoller_SubmitPoll f events data u"

definition IoUringPoller_Remove :: "int \<Rightarrow> uring \<Rightarrow> uring" where
  "IoUringPoller_Remove f u =
     (case get_sqe u of
        (True, u1) \<Rightarrow> ring_call Submit (ring_call (Poll_Remove (word_of_int f)) u1)
      | (False, u1) \<Rightarrow> u1)"

definition IoUringPoller_Modify :: "int \<Rightarrow> uint32 \<Rightarrow> uint64 \<Rightarrow> uring \<Rightarrow> uring" where
  "IoUringPoller_Modify f events data u = IoUringPoller_Add f events data (IoUringPoller_Remove f u)"

text \<open>An event: the pointer and the mask.\<close>

definition cqe_event :: "cqe \<Rightarrow> uint64 \<times> uint32" where
  "cqe_event c =
     (ce_data c,
      (if word_of_int (ce_res c) AND POLLIN \<noteq> 0 then 0x001 else 0) OR
      (if word_of_int (ce_res c) AND POLLOUT \<noteq> 0 then 0x004 else 0))"

definition uring_timespec :: "int \<Rightarrow> int \<times> int" where
  "uring_timespec timeout_ms = (timeout_ms sdiv 1000, (timeout_ms smod 1000) * 1000000)"

definition IoUringPoller_Poll ::
    "int \<Rightarrow> (int \<times> int \<Rightarrow> int \<times> cqe list) \<Rightarrow> uring \<Rightarrow> int \<times> (uint64 \<times> uint32) list \<times> uring" where
  "IoUringPoller_Poll timeout_ms wait u =
     (let u1 = ring_call Submit u;
          (ret, arrived) = wait (uring_timespec timeout_ms);
          u2 = u1\<lparr>ur_cq := ur_cq u1 @ arrived\<rparr>
      in if ret < 0 then (if ret = - ETIME then (0, [], u2) else (-1, [], u2))
         else
           (let evs = map cqe_event (filter (\<lambda>c. 0 \<le> ce_res c) (ur_cq u2));
                n = length evs
            in (int n, evs, ring_call (Advance n) (u2\<lparr>ur_cq := drop n (ur_cq u2)\<rparr>))))"

section \<open>Delivery\<close>

text \<open>
  While polls succeed, every completion is delivered once and in order, as readable, writable or both;
  with \<open>e\<close> failed completions in the queue the last \<open>e\<close> entries stay and come again.
\<close>

theorem uring_poll_delivers:
  assumes "wait (uring_timespec t) = (ret, arrived)" and "0 \<le> ret" and "IoUringPoller_Poll t wait u = (n, evs, u')"
  shows "evs = map cqe_event (filter (\<lambda>c. 0 \<le> ce_res c) (ur_cq u @ arrived)) \<and> n = int (length evs) \<and>
    length (ur_cq u') = length (filter (\<lambda>c. ce_res c < 0) (ur_cq u @ arrived)) \<and>
    ((\<forall>c \<in> set (ur_cq u @ arrived). 0 \<le> ce_res c) \<longrightarrow> evs = map cqe_event (ur_cq u @ arrived) \<and> ur_cq u' = []) \<and>
    (\<forall>(d, m) \<in> set evs. m AND NOT (0x001 OR 0x004) = 0)"
proof -
  let ?cq = "ur_cq u @ arrived"
  have 1: "evs = map cqe_event (filter (\<lambda>c. 0 \<le> ce_res c) ?cq)" "n = int (length evs)" "ur_cq u' = drop (length evs) ?cq"
    using assms by (auto simp: IoUringPoller_Poll_def ring_call_def Let_def)
  have "length ?cq = length (filter (\<lambda>c. 0 \<le> ce_res c) ?cq) + length (filter (\<lambda>c. ce_res c < 0) ?cq)"
    using sum_length_filter_compl[of "\<lambda>c. 0 \<le> ce_res c" ?cq] by (simp add: not_le)
  then have 2: "length (ur_cq u') = length (filter (\<lambda>c. ce_res c < 0) ?cq)" using 1 by simp
  have 3: "m AND NOT (0x001 OR 0x004) = 0" if "cqe_event c = (d, m)" for c d m
    using that by (auto simp: cqe_event_def)
  have 4: "evs = map cqe_event ?cq \<and> ur_cq u' = []" if "\<forall>c \<in> set ?cq. 0 \<le> ce_res c"
    using 1 that by (simp add: filter_id_conv[THEN iffD2])
  have "\<forall>(d, m) \<in> set evs. m AND NOT (0x001 OR 0x004) = 0" using 3 unfolding 1(1) by (auto simp del: One_nat_def) (metis)+
  with 1(1,2) 2 4 show ?thesis by blast
qed

lemma uring_poll_delivers_witness:
  "\<exists>evs u'. IoUringPoller_Poll 10 (\<lambda>_. (0, [\<lparr>ce_res = 1, ce_data = 7\<rparr>])) \<lparr>ur_room = [], ur_calls = [], ur_cq = []\<rparr> = (1, evs, u') \<and>
    evs = [cqe_event \<lparr>ce_res = 1, ce_data = 7\<rparr>] \<and> ur_cq u' = []"
proof -
  let ?u = "\<lparr>ur_room = [], ur_calls = [], ur_cq = []\<rparr>" and ?w = "\<lambda>_. (0, [\<lparr>ce_res = 1, ce_data = 7\<rparr>])"
  obtain n evs u' where p: "IoUringPoller_Poll 10 ?w ?u = (n, evs, u')" by (metis prod_cases3)
  have "evs = [cqe_event \<lparr>ce_res = 1, ce_data = 7\<rparr>]" "n = 1" "ur_cq u' = []"
    using uring_poll_delivers[OF refl order_refl p] by simp_all
  with p show ?thesis by blast
qed

text \<open>A failed completion ahead of a good one makes the next poll deliver the good one again.\<close>

theorem uring_redelivers:
  assumes "ur_cq u = [bad, good]" and "ce_res bad < 0" and "0 \<le> ce_res good" and "\<And>ts. wait ts = (0, [])"
    and "IoUringPoller_Poll t wait u = (n, evs, u')" and "IoUringPoller_Poll t' wait u' = (n', evs', u'')"
  shows "evs = [cqe_event good] \<and> evs' = [cqe_event good]"
  using assms by (auto simp: IoUringPoller_Poll_def ring_call_def Let_def split: if_splits)

lemma uring_redelivers_witness:
  "fst (snd (IoUringPoller_Poll 10 (\<lambda>_. (0, [])) (snd (snd (IoUringPoller_Poll 10 (\<lambda>_. (0, []))
      \<lparr>ur_room = [], ur_calls = [], ur_cq = [\<lparr>ce_res = -125, ce_data = 3\<rparr>, \<lparr>ce_res = 1, ce_data = 7\<rparr>]\<rparr>))))) =
    [cqe_event \<lparr>ce_res = 1, ce_data = 7\<rparr>]"
proof -
  let ?u = "\<lparr>ur_room = [], ur_calls = [], ur_cq = [\<lparr>ce_res = -125, ce_data = 3\<rparr>, \<lparr>ce_res = 1, ce_data = 7\<rparr>]\<rparr>"
  obtain n evs u1 where 1: "IoUringPoller_Poll 10 (\<lambda>_. (0, [])) ?u = (n, evs, u1)" by (metis prod_cases3)
  obtain n' evs' u2 where 2: "IoUringPoller_Poll 10 (\<lambda>_. (0, [])) u1 = (n', evs', u2)" by (metis prod_cases3)
  show ?thesis using uring_redelivers[OF _ _ _ _ 1 2] 1 2 by simp
qed

text \<open>
  The loop polls with a timeout of -1, meant as no timeout: the poller makes it a negative number of
  nanoseconds, which the kernel refuses, so the poll fails and the loop ends.
\<close>

theorem uring_no_timeout_fails:
  assumes "\<And>s ns. ns < 0 \<Longrightarrow> fst (wait (s, ns)) = -22"
  shows "uring_timespec (-1) = (0, -1000000) \<and> fst (IoUringPoller_Poll (-1) wait u) = -1"
proof -
  have ts: "uring_timespec (-1) = (0, -1000000)" by (simp add: uring_timespec_def signed_divide_int_def signed_modulo_int_def)
  obtain ret arrived where w: "wait (0, -1000000) = (ret, arrived)" by fastforce
  then have "ret = -22" using assms[of "-1000000" 0] by simp
  with ts w show ?thesis by (simp add: IoUringPoller_Poll_def ETIME_def Let_def)
qed

lemma uring_no_timeout_fails_witness:
  "fst (IoUringPoller_Poll (-1) (\<lambda>(s, ns). (if ns < 0 then -22 else 0, [])) \<lparr>ur_room = [], ur_calls = [], ur_cq = []\<rparr>) = -1"
  by (rule conjunct2[OF uring_no_timeout_fails]) simp

section \<open>Removal\<close>

datatype uring_op = Op_Add int uint32 uint64 | Op_Modify int uint32 uint64 | Op_Remove int

primrec uring_do :: "uring_op \<Rightarrow> uring \<Rightarrow> uring" where
  "uring_do (Op_Add f m d) u = IoUringPoller_Add f m d u"
| "uring_do (Op_Modify f m d) u = IoUringPoller_Modify f m d u"
| "uring_do (Op_Remove f) u = IoUringPoller_Remove f u"

primrec op_fds :: "uring_op \<Rightarrow> int set" where
  "op_fds (Op_Add f m d) = {}" | "op_fds (Op_Modify f m d) = {f}" | "op_fds (Op_Remove f) = {f}"

primrec op_data :: "uring_op \<Rightarrow> uint64 set" where
  "op_data (Op_Add f m d) = {d}" | "op_data (Op_Modify f m d) = {d}" | "op_data (Op_Remove f) = {}"

definition asks :: "int set \<Rightarrow> uint64 set \<Rightarrow> uring \<Rightarrow> bool" where
  "asks F D u \<longleftrightarrow> (\<forall>d. Poll_Remove d \<in> set (ur_calls u) \<longrightarrow> d \<in> word_of_int ` F) \<and>
     (\<forall>f m d. Poll_Add f m d \<in> set (ur_calls u) \<longrightarrow> d \<in> D)"

lemma get_sqe_calls: "get_sqe u = (b, u1) \<Longrightarrow> ur_calls u1 = ur_calls u"
  by (auto simp: get_sqe_def split: list.splits)

lemma asks_add: "asks F D u \<Longrightarrow> d \<in> D \<Longrightarrow> asks F D (IoUringPoller_Add f m d u)"
  by (auto simp: asks_def IoUringPoller_Add_def IoUringPoller_SubmitPoll_def ring_call_def dest!: get_sqe_calls split: prod.splits bool.splits)

lemma asks_remove: "asks F D u \<Longrightarrow> f \<in> F \<Longrightarrow> asks F D (IoUringPoller_Remove f u)"
  by (auto simp: asks_def IoUringPoller_Remove_def ring_call_def dest!: get_sqe_calls split: prod.splits bool.splits)

lemma asks_fold:
  assumes "asks F D u" and "\<forall>op \<in> set ops. op_fds op \<subseteq> F \<and> op_data op \<subseteq> D"
  shows "asks F D (fold uring_do ops u)"
  using assms
proof (induction ops arbitrary: u)
  case (Cons op ops)
  have "asks F D (uring_do op u)"
    using Cons.prems by (cases op) (auto simp: IoUringPoller_Modify_def intro: asks_add asks_remove)
  with Cons show ?case by simp
qed simp

text \<open>
  A poll is added with the handler's address as user data and removed by the number of the
  descriptor.  As no handler lies at such an address, no request to remove ever names a poll that was added:
  modified and removed descriptors stay polled, with the pointers of handlers that are freed.
\<close>

theorem uring_removes_nothing:
  assumes "\<forall>op \<in> set ops. op_fds op \<subseteq> F \<and> op_data op \<subseteq> D" and "D \<inter> word_of_int ` F = {}"
    and "IoUringPoller_new init room = Inr u" and "Poll_Add f m d \<in> set (ur_calls (fold uring_do ops u))"
  shows "Poll_Remove d \<notin> set (ur_calls (fold uring_do ops u))"
proof -
  have "asks F D u" using assms(3) by (auto simp: IoUringPoller_new_def asks_def split: if_splits)
  from asks_fold[OF this assms(1)] assms(2,4) show ?thesis unfolding asks_def by blast
qed

lemma uring_removes_nothing_witness:
  "Poll_Remove 4096 \<notin> set (ur_calls (fold uring_do [Op_Add 5 1 4096, Op_Remove 5] \<lparr>ur_room = [], ur_calls = [], ur_cq = []\<rparr>))"
  by (rule uring_removes_nothing[where F = "{5}" and D = "{4096}" and f = 5 and m = "poll_mask 1" and init = 0 and room = "[]"])
     (simp_all add: IoUringPoller_new_def IoUringPoller_Add_def IoUringPoller_SubmitPoll_def IoUringPoller_Remove_def get_sqe_def
       ring_call_def)

end
