(* ===== verification/Kafka_Sink.thy ===== *)
theory Kafka_Sink
  imports Log_Sinks
begin

text \<open>
  \<open>KafkaSink\<close> as compiled with \<open>ENABLE_KAFKA\<close> (\<open>src/lib_logger/src/sinks/kafka_sink.cc\<close>); the stub compiled
  without it is in \<open>Log_Sinks\<close>.  librdkafka is what it answers: whether the objects can be made, and a script of
  what \<open>rd_kafka_produce\<close> returns.  An operation yields the calls it makes.
\<close>

datatype produce_result = Produced | Queue_Full | Produce_Error

datatype kafka_call =
    Conf_New | Conf_Set string string | Set_Dr_Msg_Cb | Kafka_New | Topic_Conf_New | Topic_New string
  | Produce int string produce_result | Poll_Kafka int | Flush_Kafka int | Topic_Destroy | Kafka_Destroy

record kafka_sink =
  kf_config :: LoggerConfig
  kf_rk :: bool
  kf_rkt :: bool

definition KafkaSink_new :: "bool \<Rightarrow> bool \<Rightarrow> bool \<Rightarrow> LoggerConfig \<Rightarrow> kafka_sink \<times> kafka_call list" where
  "KafkaSink_new set_ok new_ok topic_ok config =
     (let k = \<lparr>kf_config = config, kf_rk = False, kf_rkt = False\<rparr>;
          a1 = [Conf_New, Conf_Set ''bootstrap.servers'' (lo_kafka_broker config)]
      in if \<not> set_ok then (k, a1)
         else
           (let a2 = a1 @ [Set_Dr_Msg_Cb, Kafka_New]
            in if \<not> new_ok then (k, a2)
               else (k\<lparr>kf_rk := True, kf_rkt := topic_ok\<rparr>, a2 @ [Topic_Conf_New, Topic_New (lo_kafka_topic config)])))"

definition KafkaSink_delete :: "kafka_sink \<Rightarrow> kafka_call list" where
  "KafkaSink_delete k =
     (if kf_rkt k then [Topic_Destroy] else []) @ (if kf_rk k then [Flush_Kafka 1000, Kafka_Destroy] else [])"

text \<open>
  The loop of \<open>Write\<close>, with the answers it gets: no value when they end and it is still trying.
\<close>

fun produce_retry :: "int \<Rightarrow> string \<Rightarrow> produce_result list \<Rightarrow> (kafka_call list \<times> produce_result list) option" where
  "produce_retry p line [] = None"
| "produce_retry p line (Queue_Full # rs) =
     (case produce_retry p line rs of
        None \<Rightarrow> None
      | Some (calls, rest) \<Rightarrow> Some (Produce p line Queue_Full # Poll_Kafka 1000 # calls, rest))"
| "produce_retry p line (r # rs) = Some ([Produce p line r], rs)"

definition kafka_partition_ua :: int where "kafka_partition_ua = -1"

text \<open>Formatting that throws leaves \<open>Write\<close> before it calls librdkafka; the worker catches the exception.\<close>

definition KafkaSink_Write ::
    "log_env \<Rightarrow> LogEntry \<Rightarrow> kafka_sink \<Rightarrow> produce_result list \<Rightarrow> (kafka_call list \<times> produce_result list) option" where
  "KafkaSink_Write env e k rs =
     (if \<not> kf_rk k \<or> \<not> kf_rkt k then Some ([], rs)
      else
        (case LogFormatter_Format env e (kf_config k) of
           None \<Rightarrow> Some ([], rs)
         | Some formatted \<Rightarrow>
             (let p = (if lo_kafka_partition (kf_config k) = -1 then kafka_partition_ua else lo_kafka_partition (kf_config k))
              in case produce_retry p formatted rs of
                   None \<Rightarrow> None
                 | Some (calls, rest) \<Rightarrow> Some (calls @ [Poll_Kafka 0], rest))))"

definition KafkaSink_Flush :: "kafka_sink \<Rightarrow> kafka_call list" where
  "KafkaSink_Flush k = (if kf_rk k then [Flush_Kafka 1000] else [])"

text \<open>A batch, entry by entry, as the logger's worker writes it.\<close>

primrec kafka_writes ::
    "log_env \<Rightarrow> LogEntry list \<Rightarrow> kafka_sink \<Rightarrow> produce_result list \<Rightarrow> (kafka_call list \<times> produce_result list) option" where
  "kafka_writes env [] k rs = Some ([], rs)"
| "kafka_writes env (e # es) k rs =
     (case KafkaSink_Write env e k rs of
        None \<Rightarrow> None
      | Some (calls, rs1) \<Rightarrow>
          (case kafka_writes env es k rs1 of None \<Rightarrow> None | Some (calls', rs2) \<Rightarrow> Some (calls @ calls', rs2)))"

section \<open>What reaches the producer\<close>

fun queued_line :: "kafka_call \<Rightarrow> (int \<times> string) list" where
  "queued_line (Produce p line Produced) = [(p, line)]"
| "queued_line _ = []"

definition queued :: "kafka_call list \<Rightarrow> (int \<times> string) list" where
  "queued calls = concat (map queued_line calls)"

lemma queued_append [simp]: "queued (xs @ ys) = queued xs @ queued ys" "queued [] = []"
  by (simp_all add: queued_def)

text \<open>\<open>n\<close> times the queue is full, then the entry is taken, or refused for another reason.\<close>

definition answers_of :: "nat \<times> bool \<Rightarrow> produce_result list" where
  "answers_of a = replicate (fst a) Queue_Full @ [if snd a then Produced else Produce_Error]"

lemma produce_answers:
  "\<exists>calls. produce_retry p line (answers_of a @ rs) = Some (calls, rs) \<and> queued calls = (if snd a then [(p, line)] else [])"
proof (cases a)
  case (Pair n ok)
  show ?thesis unfolding Pair
    by (induction n) (cases ok; force simp: answers_of_def queued_def)+
qed

lemma produce_retry_none: "produce_retry p line rs = None \<longleftrightarrow> set rs \<subseteq> {Queue_Full}"
proof (induction rs)
  case (Cons r rs)
  then show ?case by (cases r) (auto split: option.splits)
qed simp

text \<open>
  With a producer and a topic, the entries whose formatting returns are handed over in order, each
  formatted line once however often the queue was full, except those the producer refuses for
  another reason, which are dropped without a report.
\<close>

theorem kafka_hands_over:
  assumes "kf_rk k" and "kf_rkt k" and "map (\<lambda>e. LogFormatter_Format env e (kf_config k)) es = map Some lines"
    and "length as = length es"
  shows "\<exists>calls. kafka_writes env es k (concat (map answers_of as) @ rs) = Some (calls, rs) \<and>
    queued calls = map (\<lambda>(line, a). (lo_kafka_partition (kf_config k), line)) (filter (\<lambda>(line, a). snd a) (zip lines as))"
  using assms(3,4)
proof (induction es arbitrary: as lines)
  case (Cons e es)
  then obtain a as' line lines' where as: "as = a # as'" "length as' = length es" and lines: "lines = line # lines'"
    "LogFormatter_Format env e (kf_config k) = Some line" "map (\<lambda>e. LogFormatter_Format env e (kf_config k)) es = map Some lines'"
    by (cases as; cases lines) auto
  let ?p = "lo_kafka_partition (kf_config k)"
  obtain calls where 1: "produce_retry ?p line (answers_of a @ concat (map answers_of as') @ rs) =
      Some (calls, concat (map answers_of as') @ rs)" "queued calls = (if snd a then [(?p, line)] else [])"
    using produce_answers by blast
  obtain calls' where 2: "kafka_writes env es k (concat (map answers_of as') @ rs) = Some (calls', rs)"
      "queued calls' = map (\<lambda>(line, a). (?p, line)) (filter (\<lambda>(line, a). snd a) (zip lines' as'))"
    using Cons.IH[OF lines(3) as(2)] by blast
  have p: "(if ?p = -1 then kafka_partition_ua else ?p) = ?p" by (simp add: kafka_partition_ua_def)
  show ?case using assms(1,2) 1 2 by (simp add: KafkaSink_Write_def p as(1) lines(1,2)) (simp add: queued_def)
qed simp

lemma kafka_hands_over_witness:
  "\<exists>calls. kafka_writes env [e] (fst (KafkaSink_new True True True LoggerConfig_default)) [Queue_Full, Produced] = Some (calls, []) \<and>
    queued calls = [(lo_kafka_partition LoggerConfig_default, FormatText env e LoggerConfig_default)]"
  using kafka_hands_over[of "fst (KafkaSink_new True True True LoggerConfig_default)" env "[e]" "[FormatText env e LoggerConfig_default]" "[(1, True)]" "[]"]
  by (simp add: KafkaSink_new_def answers_of_def LogFormatter_Format_def LoggerConfig_default_def)

text \<open>An entry whose formatting throws is lost, like in every sink.\<close>

theorem kafka_drops_unformatted:
  assumes "LogFormatter_Format env e (kf_config k) = None"
  shows "kafka_writes env (e # es) k rs = kafka_writes env es k rs"
  using assms by (simp add: KafkaSink_Write_def split: option.split)

lemma kafka_drops_unformatted_witness:
  "kafka_writes sample_env [sample_entry Lv_Info ''a''] \<lparr>kf_config = LoggerConfig_default\<lparr>lo_format := ''json''\<rparr>, kf_rk = True, kf_rkt = True\<rparr> [] =
     Some ([], [])"
  using kafka_drops_unformatted[of sample_env "sample_entry Lv_Info ''a''"
      "\<lparr>kf_config = LoggerConfig_default\<lparr>lo_format := ''json''\<rparr>, kf_rk = True, kf_rkt = True\<rparr>" "[]" "[]"]
  by (simp add: LogFormatter_Format_def FormatJson_def sample_env_def Let_def)

text \<open>
  While the queue stays full, as when no broker answers, \<open>Write\<close> does not return, and with it the
  logger's worker and its shutdown.  It returns as soon as one attempt ends otherwise.
\<close>

theorem kafka_write_blocks:
  "KafkaSink_Write env e k rs = None \<longleftrightarrow>
     kf_rk k \<and> kf_rkt k \<and> LogFormatter_Format env e (kf_config k) \<noteq> None \<and> set rs \<subseteq> {Queue_Full}"
  using produce_retry_none[of _ "the (LogFormatter_Format env e (kf_config k))" rs]
  by (auto simp: KafkaSink_Write_def Let_def split: option.splits)

text \<open>A sink whose topic could not be made drops every entry, without a call.\<close>

theorem kafka_without_topic:
  assumes "\<not> (set_ok \<and> new_ok \<and> topic_ok)"
  shows "kafka_writes env es (fst (KafkaSink_new set_ok new_ok topic_ok config)) rs = Some ([], rs)"
  using assms by (induction es) (auto simp: KafkaSink_new_def KafkaSink_Write_def Let_def)

lemma kafka_without_topic_witness:
  "kafka_writes env [e] (fst (KafkaSink_new True True False config)) [] = Some ([], [])"
  by (rule kafka_without_topic) simp

end
