(* ===== verification/Oms_Client.thy ===== *)
theory Oms_Client
  imports Oms "HOL-Library.Multiset"
begin

text \<open>
  The clients of the order management server (\<open>src/apps/client/scenarios\<close>): the orders of the order placement
  scenario, and the benchmark, which sends orders that carry the time in their client order id and
  computes latencies from the responses.
\<close>

section \<open>The orders\<close>

definition placement_order :: "nat \<Rightarrow> int \<Rightarrow> order" where
  "placement_order i now =
     order_empty\<lparr>od_order_id := ''ORD-'' @ dec_str i, od_symbol := ''AAPL'', od_price := Some (150 + real i), od_quantity := 100,
       od_side := BUY, od_type := LIMIT, od_timestamp := now\<rparr>"

definition warmup_order :: "nat \<Rightarrow> order" where
  "warmup_order i =
     order_empty\<lparr>od_order_id := ''WARM-'' @ dec_str i, od_symbol := ''AAPL'', od_price := Some 100, od_quantity := 1,
       od_side := BUY, od_type := LIMIT\<rparr>"

definition bench_order :: "nat \<Rightarrow> int \<Rightarrow> order" where
  "bench_order i now_us =
     order_empty\<lparr>od_order_id := ''BENCH-'' @ dec_str i, od_client_order_id := dec_int now_us, od_symbol := ''AAPL'',
       od_price := Some 150, od_quantity := 100, od_side := BUY, od_type := LIMIT\<rparr>"

section \<open>The benchmark\<close>

definition TOTAL_MESSAGES :: nat where "TOTAL_MESSAGES = 1000"

record bench =
  bn_latencies :: "int list"
  bn_sent :: nat
  bn_received :: nat
  bn_finished :: bool
  bn_start :: int
  bn_end :: int

definition bench_start :: bench where
  "bench_start = \<lparr>bn_latencies = [], bn_sent = 0, bn_received = 0, bn_finished = False, bn_start = 0, bn_end = 0\<rparr>"

text \<open>The message handler, at time \<open>now_us\<close>; \<open>parse\<close> is \<open>OrderResponse::ParseFromString\<close>.\<close>

definition bench_on_message :: "(bytes \<Rightarrow> order_response option) \<Rightarrow> int \<times> envelope \<Rightarrow> bench \<Rightarrow> bench" where
  "bench_on_message parse m s =
     (case m of (now_us, msg) \<Rightarrow>
        if message_type (get_header msg) = ''ORDER_RESPONSE'' then
          (case parse (get_data msg) of
             None \<Rightarrow> s
           | Some resp \<Rightarrow>
               (case stoll (or_client_order_id resp) of
                  Inl _ \<Rightarrow> s
                | Inr send_time_us \<Rightarrow>
                    (let latency = now_us - send_time_us;
                         s1 = (if bn_received s < TOTAL_MESSAGES
                               then s\<lparr>bn_latencies := bn_latencies s @ [latency], bn_received := bn_received s + 1\<rparr> else s)
                     in if bn_received s1 \<ge> TOTAL_MESSAGES then s1\<lparr>bn_end := now_us, bn_finished := True\<rparr> else s1)))
        else s)"

text \<open>Between the warmup and the measurement.\<close>

definition bench_reset :: "bench \<Rightarrow> bench" where
  "bench_reset s = s\<lparr>bn_received := 0, bn_latencies := []\<rparr>"

text \<open>The report; arithmetic of doubles is that of the reals with a rounding function.\<close>

record report =
  rp_min :: int
  rp_max :: int
  rp_avg :: int
  rp_p50 :: int
  rp_p99 :: int

definition percentile :: "(real \<Rightarrow> real) \<Rightarrow> real \<Rightarrow> int list \<Rightarrow> int" where
  "percentile rnd p xs = xs ! nat \<lfloor>rnd (real (length xs) * rnd p)\<rfloor>"

definition unsigned_avg :: "int list \<Rightarrow> int" where
  "unsigned_avg xs = sint (word_of_int (sum_list xs) div word_of_int (int (length xs)) :: uint64)"

definition bench_report :: "(real \<Rightarrow> real) \<Rightarrow> bench \<Rightarrow> report option" where
  "bench_report rnd s =
     (if bn_finished s then
        (let xs = sort (bn_latencies s)
         in Some \<lparr>rp_min = hd xs, rp_max = last xs, rp_avg = unsigned_avg xs, rp_p50 = percentile rnd 0.5 xs,
                  rp_p99 = percentile rnd 0.99 xs\<rparr>)
      else None)"

definition bench_run :: "(bytes \<Rightarrow> order_response option) \<Rightarrow> (int \<times> envelope) list \<Rightarrow> (int \<times> envelope) list \<Rightarrow> bench" where
  "bench_run parse warm ms = fold (bench_on_message parse) ms (bench_reset (fold (bench_on_message parse) warm bench_start))"

section \<open>Properties\<close>

text \<open>The latency a message contributes, if any.\<close>

definition latency_of :: "(bytes \<Rightarrow> order_response option) \<Rightarrow> int \<times> envelope \<Rightarrow> int list" where
  "latency_of parse m =
     (if message_type (get_header (snd m)) = ''ORDER_RESPONSE'' then
        (case parse (get_data (snd m)) of
           None \<Rightarrow> []
         | Some resp \<Rightarrow> (case stoll (or_client_order_id resp) of Inl _ \<Rightarrow> [] | Inr t \<Rightarrow> [fst m - t]))
      else [])"

lemma bench_on_message_latency:
  "latency_of parse m = [] \<Longrightarrow> bench_on_message parse m s = s"
  "latency_of parse m = [l] \<Longrightarrow>
    bn_latencies (bench_on_message parse m s) = (if bn_received s < TOTAL_MESSAGES then bn_latencies s @ [l] else bn_latencies s) \<and>
    bn_received (bench_on_message parse m s) = (if bn_received s < TOTAL_MESSAGES then bn_received s + 1 else bn_received s) \<and>
    (bn_finished (bench_on_message parse m s) \<longleftrightarrow>
      bn_finished s \<or> TOTAL_MESSAGES \<le> bn_received (bench_on_message parse m s))"
  by (auto simp: latency_of_def bench_on_message_def Let_def split: prod.split option.splits sum.splits if_splits)

lemma latency_cases: obtains (none) "latency_of parse m = []" | (one) l where "latency_of parse m = [l]"
proof -
  have "latency_of parse m = [] \<or> (\<exists>l. latency_of parse m = [l])"
    by (auto simp: latency_of_def split: option.split sum.split)
  then show ?thesis using that by blast
qed

lemma bench_fold:
  assumes "bn_received s = length (bn_latencies s)" and "length (bn_latencies s) \<le> TOTAL_MESSAGES"
    and "bn_finished s \<longleftrightarrow> bn_received s = TOTAL_MESSAGES"
  shows "bn_latencies (fold (bench_on_message parse) ms s) =
      take TOTAL_MESSAGES (bn_latencies s @ concat (map (latency_of parse) ms)) \<and>
    (bn_finished (fold (bench_on_message parse) ms s) \<longleftrightarrow>
      TOTAL_MESSAGES \<le> length (bn_latencies s @ concat (map (latency_of parse) ms)))"
  using assms
proof (induction ms arbitrary: s)
  case (Cons m ms)
  show ?case
  proof (cases rule: latency_cases[of parse m])
    case none
    with Cons show ?thesis by (simp add: bench_on_message_latency(1))
  next
    case (one l)
    let ?s = "bench_on_message parse m s"
    note step = bench_on_message_latency(2)[OF one, of s]
    have inv: "bn_received ?s = length (bn_latencies ?s)" "length (bn_latencies ?s) \<le> TOTAL_MESSAGES"
        "bn_finished ?s \<longleftrightarrow> bn_received ?s = TOTAL_MESSAGES"
      using step Cons.prems by auto
    show ?thesis
    proof (cases "bn_received s < TOTAL_MESSAGES")
      case True
      with step have "bn_latencies ?s = bn_latencies s @ [l]" by simp
      with Cons.IH[OF inv] one show ?thesis by simp
    next
      case False
      with step Cons.prems have "bn_latencies ?s = bn_latencies s" "length (bn_latencies s) = TOTAL_MESSAGES" by simp_all
      with Cons.IH[OF inv] one show ?thesis by simp
    qed
  qed
qed auto

lemma sum_list_bounds:
  assumes "\<forall>x \<in> set xs. a \<le> x \<and> x \<le> (b :: int)"
  shows "int (length xs) * a \<le> sum_list xs \<and> sum_list xs \<le> int (length xs) * b"
  using assms by (induction xs) (auto simp: algebra_simps)

lemma sint_div:
  assumes "0 \<le> a" and "a < 2 ^ 63" and "0 < b" and "b < (2 ^ 63 :: int)"
  shows "sint (word_of_int a div word_of_int b :: uint64) = a div b"
proof -
  let ?q = "word_of_int a div word_of_int b :: uint64"
  have u: "uint ?q = a div b" using assms by (simp add: uint_div_distrib uint_word_of_int)
  moreover have "a div b \<le> a" "0 \<le> a div b"
    using zdiv_mono2[of a 1 b] assms(1,3) by (simp_all add: pos_imp_zdiv_nonneg_iff)
  ultimately have "uint ?q < 2 ^ 63" using assms(2) by simp
  moreover from this have "signed_take_bit 63 (uint ?q) = uint ?q" by (intro signed_take_bit_int_eq_self) (use \<open>0 \<le> a div b\<close> u in simp_all)
  ultimately show ?thesis using u by (simp add: sint_uint)
qed

lemma unsigned_avg_small:
  assumes "xs \<noteq> []" and "\<forall>x \<in> set xs. 0 \<le> x \<and> x < 2 ^ 53" and "length xs \<le> 1000"
  shows "unsigned_avg xs = sum_list xs div int (length xs)"
proof -
  have "0 \<le> sum_list xs" "sum_list xs \<le> int (length xs) * (2 ^ 53 - 1)"
    using sum_list_bounds[of xs 0 "2 ^ 53 - 1"] assms(2) by force+
  moreover have "int (length xs) * (2 ^ 53 - 1) \<le> 1000 * (2 ^ 53 - 1)" using assms(3) by (intro mult_right_mono) auto
  ultimately have s: "0 \<le> sum_list xs" "sum_list xs < 2 ^ 63" by simp_all
  have "0 < int (length xs)" "int (length xs) < 2 ^ 63" using assms(1,3) by simp_all
  with s show ?thesis unfolding unsigned_avg_def by (rule sint_div)
qed

definition rounds :: "(real \<Rightarrow> real) \<Rightarrow> bool" where
  "rounds rnd \<longleftrightarrow> (\<forall>x. \<bar>rnd x - x\<bar> \<le> \<bar>x\<bar> / 2 ^ 53)"

lemma percentile_near:
  assumes "rounds rnd" and "0 \<le> p" and "p \<le> 1"
  shows "\<bar>rnd (1000 * rnd p) - 1000 * p\<bar> \<le> 1 / 2"
proof -
  have r: "\<bar>rnd x - x\<bar> \<le> \<bar>x\<bar> / 2 ^ 53" for x using assms(1) unfolding rounds_def by blast
  have "\<bar>p\<bar> / 2 ^ 53 \<le> 1 / 2 ^ 53" using assms(2,3) by (simp add: divide_right_mono)
  with r[of p] have 1: "\<bar>rnd p - p\<bar> \<le> 1 / 2 ^ 53" by linarith
  moreover have "(1::real) / 2 ^ 53 \<le> 1" by simp
  ultimately have "\<bar>1000 * rnd p\<bar> \<le> 2000" using assms(2,3) by linarith
  then have "\<bar>1000 * rnd p\<bar> / 2 ^ 53 \<le> 2000 / 2 ^ 53" by (simp add: divide_right_mono)
  with r[of "1000 * rnd p"] have "\<bar>rnd (1000 * rnd p) - 1000 * rnd p\<bar> \<le> 2000 / 2 ^ 53" by linarith
  moreover have "(2000::real) / 2 ^ 53 \<le> 1 / 4" "(1::real) / 2 ^ 53 \<le> 1 / 4000" by simp_all
  ultimately show ?thesis using 1 by linarith
qed

lemma sorted_hd_last:
  assumes "sorted xs" and "xs \<noteq> []"
  shows "hd xs = Min (set xs)" and "last xs = Max (set (xs :: int list))"
  using assms
  by (auto simp: hd_conv_nth last_conv_nth set_conv_nth intro!: Min_eqI[symmetric] Max_eqI[symmetric] sorted_nth_mono)

text \<open>
  A finished benchmark, whatever arrived: the latencies are those of the first thousand countable
  responses after the reset, provided no response to the warmup counts, and the report orders them.
\<close>

theorem bench_report_sound:
  assumes "rounds rnd" and "\<forall>m \<in> set warm. latency_of parse m = []" and "ls = concat (map (latency_of parse) ms)"
    and "\<forall>l \<in> set ls. 0 \<le> l \<and> l < 2 ^ 53"
  shows "case bench_report rnd (bench_run parse warm ms) of
      None \<Rightarrow> length ls < TOTAL_MESSAGES
    | Some r \<Rightarrow> TOTAL_MESSAGES \<le> length ls \<and> rp_min r = Min (set (take TOTAL_MESSAGES ls)) \<and>
        rp_max r = Max (set (take TOTAL_MESSAGES ls)) \<and> rp_avg r = sum_list (take TOTAL_MESSAGES ls) div 1000 \<and>
        rp_min r \<le> rp_p50 r \<and> rp_p50 r \<le> rp_p99 r \<and> rp_p99 r \<le> rp_max r"
proof -
  let ?s = "bench_run parse warm ms" and ?k = "take TOTAL_MESSAGES ls"
  have "fold (bench_on_message parse) warm bench_start = bench_start"
    using assms(2) by (induction warm) (simp_all add: bench_on_message_latency(1))
  then have s: "bn_latencies ?s = ?k" "bn_finished ?s \<longleftrightarrow> TOTAL_MESSAGES \<le> length ls"
    using bench_fold[of bench_start parse ms] assms(3)
    by (simp_all add: bench_run_def bench_reset_def bench_start_def TOTAL_MESSAGES_def)
  show ?thesis
  proof (cases "TOTAL_MESSAGES \<le> length ls")
    case False
    then show ?thesis by (simp add: bench_report_def s)
  next
    case True
    let ?xs = "sort ?k"
    have len: "length ?xs = 1000" using True by (simp add: TOTAL_MESSAGES_def)
    then have ne: "?xs \<noteq> []" by (metis list.size(3) zero_neq_numeral)
    have "\<forall>x \<in> set ?xs. 0 \<le> x \<and> x < 2 ^ 53" using assms(4) by (auto dest: in_set_takeD)
    then have avg: "unsigned_avg ?xs = sum_list ?k div 1000"
      using unsigned_avg_small[OF ne] len by (simp add: sum_mset_sum_list[symmetric])
    have near: "\<bar>rnd (1000 * rnd 0.5) - 500\<bar> \<le> 1 / 2" "\<bar>rnd (1000 * rnd 0.99) - 990\<bar> \<le> 1 / 2"
      using percentile_near[OF assms(1), of "0.5"] percentile_near[OF assms(1), of "0.99"] by simp_all
    let ?i = "nat \<lfloor>rnd (1000 * rnd 0.5)\<rfloor>" and ?j = "nat \<lfloor>rnd (1000 * rnd 0.99)\<rfloor>"
    have ij: "?i \<le> ?j" "?j \<le> 999" using near by linarith+
    have p: "percentile rnd 0.5 ?xs = ?xs ! ?i" "percentile rnd 0.99 ?xs = ?xs ! ?j" by (simp_all only: percentile_def len of_nat_numeral)
    have ends: "hd ?xs = ?xs ! 0" "last ?xs = ?xs ! 999" using ne len by (simp_all add: hd_conv_nth last_conv_nth)
    have "?xs ! 0 \<le> ?xs ! ?i" "?xs ! ?i \<le> ?xs ! ?j" "?xs ! ?j \<le> ?xs ! 999"
      using ij len by (auto intro!: sorted_nth_mono)
    with True avg p ends sorted_hd_last[OF sorted_sort ne] show ?thesis by (simp add: bench_report_def s Let_def)
  qed
qed

definition response_message :: "bytes \<Rightarrow> envelope" where
  "response_message d = set_data d (upd_header (\<lambda>h. h\<lparr>message_type := ''ORDER_RESPONSE''\<rparr>) envelope_empty)"

lemma response_message_simps [simp]:
  "message_type (get_header (response_message d)) = ''ORDER_RESPONSE''" "get_data (response_message d) = d"
  by (simp_all add: response_message_def envelope_defs)

lemma bench_report_sound_witness:
  "\<exists>r. bench_report (\<lambda>x. x)
      (bench_run (\<lambda>_. Some (order_response_empty\<lparr>or_client_order_id := ''7''\<rparr>)) [] (replicate 1000 (12, response_message []))) = Some r \<and>
    rp_min r = 5 \<and> rp_max r = 5 \<and> rp_avg r = 5"
proof -
  let ?parse = "\<lambda>_. Some (order_response_empty\<lparr>or_client_order_id := ''7''\<rparr>)" and ?m = "(12, response_message [])"
  have "stoll ''7'' = Inr 7" by code_simp
  then have "latency_of ?parse ?m = [5]" by (simp add: latency_of_def)
  then have ls: "concat (map (latency_of ?parse) (replicate 1000 ?m)) = replicate 1000 5"
    by (simp add: map_replicate_const[symmetric] concat_map_singleton)
  have "rounds (\<lambda>x. x)" by (simp add: rounds_def)
  moreover have "\<forall>x \<in> set []. latency_of ?parse x = []" by simp
  moreover have "\<forall>l \<in> set (replicate 1000 5). 0 \<le> l \<and> l < (2 ^ 53 :: int)" by simp
  ultimately have "case bench_report (\<lambda>x. x) (bench_run ?parse [] (replicate 1000 ?m)) of
      None \<Rightarrow> length (replicate 1000 (5::int)) < TOTAL_MESSAGES
    | Some r \<Rightarrow> TOTAL_MESSAGES \<le> length (replicate 1000 (5::int)) \<and> rp_min r = Min (set (take TOTAL_MESSAGES (replicate 1000 5))) \<and>
        rp_max r = Max (set (take TOTAL_MESSAGES (replicate 1000 5))) \<and> rp_avg r = sum_list (take TOTAL_MESSAGES (replicate 1000 5)) div 1000 \<and>
        rp_min r \<le> rp_p50 r \<and> rp_p50 r \<le> rp_p99 r \<and> rp_p99 r \<le> rp_max r"
    by (rule bench_report_sound[OF _ _ ls[symmetric]])
  then show ?thesis by (auto simp: TOTAL_MESSAGES_def sum_list_replicate split: option.splits)
qed

text \<open>
  Against the order management server: it accepts every order of the benchmark; the response to a warmup order,
  which has no client order id, is not counted, and the response to a measured one counts with the time since
  the order was made.
\<close>

theorem bench_against_server:
  assumes "OrderManager_PlaceOrder (warmup_order i) m = (r1, m1)" and "OrderManager_PlaceOrder (bench_order i t) m = (r2, m2)"
    and "parse (ser r1) = Some r1" and "parse (ser r2) = Some r2" and "0 \<le> t" and "t < 2 ^ 63"
  shows "or_status r1 = NEW \<and> latency_of parse (now, response_message (ser r1)) = [] \<and>
    or_status r2 = NEW \<and> latency_of parse (now, response_message (ser r2)) = [now - t]"
proof -
  have e: "stoll [] = Inl Invalid_Argument" by code_simp
  have t: "stoll (dec_int t) = Inr t" using assms(5,6)
    by (simp add: stoll_def stoi_range_def dec_int_def strtol_dec_str)
  have "or_status r1 = NEW \<and> or_client_order_id r1 = []" "or_status r2 = NEW \<and> or_client_order_id r2 = dec_int t"
    using assms(1,2)
    by (auto simp: OrderManager_PlaceOrder_def warmup_order_def bench_order_def order_empty_def order_valid_def CreateResponse_def
        order_response_empty_def)
  with e t assms(3,4) show ?thesis by (simp add: latency_of_def)
qed

lemma bench_against_server_witness:
  "or_status (fst (OrderManager_PlaceOrder (bench_order 3 1000) OrderManager_new)) = NEW \<and>
   latency_of (\<lambda>d. Some (fst (OrderManager_PlaceOrder (if d = [] then bench_order 3 1000 else warmup_order 3) OrderManager_new)))
     (1500, response_message []) = [500]"
proof -
  let ?place = "\<lambda>o1. fst (OrderManager_PlaceOrder o1 OrderManager_new)"
  let ?r1 = "?place (warmup_order 3)" and ?r2 = "?place (bench_order 3 1000)"
  let ?parse = "\<lambda>d. Some (?place (if d = [] then bench_order 3 1000 else warmup_order 3))"
  show ?thesis
    using bench_against_server[OF surjective_pairing surjective_pairing, where parse = ?parse and ser = "\<lambda>r. if r = ?r2 then [] else ''x''"
        and i = 3 and m = OrderManager_new and t = 1000 and now = 1500] by simp
qed

text \<open>
  The placement scenario names its orders as the server names those that come without an id: an order the server has named is
  replaced in the book by the placement order of the same number.
\<close>

theorem placement_overwrites:
  assumes "order_valid o1" and "od_order_id o1 = []" and "om_id_counter m = of_nat i" and "i < 2 ^ 64"
    and "OrderManager_PlaceOrder o1 m = (r1, m1)" and "OrderManager_PlaceOrder (placement_order i now) m1 = (r2, m2)"
  shows "or_status r1 = NEW \<and> or_status r2 = NEW \<and> or_order_id r2 = or_order_id r1 \<and>
    map_of (om_orders m2) (or_order_id r1) = Some (placement_order i now)"
proof -
  have g: "generated_id (om_id_counter m) = ''ORD-'' @ dec_str i" using assms(3,4) by (simp add: generated_id_def unsigned_of_nat take_bit_nat_eq_self)
  have 1: "or_status r1 = NEW" "or_order_id r1 = ''ORD-'' @ dec_str i"
    using assms(5) by (cases rule: PlaceOrder_cases; use assms(1,2) g in simp)+
  have p: "order_valid (placement_order i now)" "od_order_id (placement_order i now) = ''ORD-'' @ dec_str i"
    by (simp_all add: placement_order_def order_valid_def order_empty_def not_less)
  have "or_status r2 = NEW" "or_order_id r2 = ''ORD-'' @ dec_str i" "om_orders m2 = smap_insert (or_order_id r2) (placement_order i now) (om_orders m1)"
    using assms(6) by (cases rule: PlaceOrder_cases; use p in simp)+
  with 1 show ?thesis by simp
qed

lemma placement_overwrites_witness:
  "map_of (om_orders (snd (OrderManager_PlaceOrder (placement_order 1 0) (snd (OrderManager_PlaceOrder (sample_order [] 5) OrderManager_new)))))
     (or_order_id (fst (OrderManager_PlaceOrder (sample_order [] 5) OrderManager_new))) = Some (placement_order 1 0)"
  using placement_overwrites[OF _ _ _ _ surjective_pairing surjective_pairing, of "sample_order [] 5" OrderManager_new 1 0]
  by (simp add: sample_order_valid OrderManager_new_def)

end
