(* ===== verification/Oms_App.thy ===== *)
theory Oms_App
  imports Oms_Client Client
begin

text \<open>
  The programs around the order management system: the client program \<open>src/apps/client\<close>, its \<open>main\<close> and
  its three scenarios, as they use the library's client, and the \<open>main\<close> of the server,
  \<open>src/apps/server/main.cc\<close>.  A scenario runs on the caller's thread; while it sleeps or waits, and between
  its calls, the loop's thread handles events and calls the message handler.
\<close>

section \<open>The client program\<close>

text \<open>
  What happens on the loop's thread up to the next call of the scenario: the events the client handles, and the
  messages its handler is called with, each with the time of the call.
\<close>

record pause =
  pa_cb :: "(connection \<Rightarrow> connection) option"
  pa_events :: "loop_event list"
  pa_heard :: "(int \<times> envelope) list"

record oms_env =
  oe_client :: client_env
  oe_order :: "order \<Rightarrow> bytes"
  oe_response :: "bytes \<Rightarrow> order_response option"

text \<open>The client, what its message handler keeps, and what each call of \<open>Send\<close> has returned.\<close>

record 'h app_run =
  ar_client :: client
  ar_handler :: 'h
  ar_sent :: "bool list"

definition app_pause :: "(int \<times> envelope \<Rightarrow> 'h \<Rightarrow> 'h) \<Rightarrow> pause \<Rightarrow> 'h app_run \<Rightarrow> 'h app_run" where
  "app_pause heard w a =
     a\<lparr>ar_client := fold (client_step (pa_cb w)) (pa_events w) (ar_client a),
       ar_handler := fold heard (pa_heard w) (ar_handler a)\<rparr>"

definition app_send :: "oms_env \<Rightarrow> envelope \<Rightarrow> 'h app_run \<Rightarrow> 'h app_run" where
  "app_send env e a =
     (case Client_Send (oe_client env) e (ar_client a) of
        (ok, cn) \<Rightarrow> a\<lparr>ar_client := cn, ar_sent := ar_sent a @ [ok]\<rparr>)"

text \<open>One call of a scenario: \<open>after\<close> is what the caller's thread does to the shared state once it has sent.\<close>

definition app_step ::
    "oms_env \<Rightarrow> (int \<times> envelope \<Rightarrow> 'h \<Rightarrow> 'h) \<Rightarrow> ('h \<Rightarrow> 'h) \<Rightarrow> envelope \<Rightarrow> pause \<Rightarrow> 'h app_run \<Rightarrow> 'h app_run" where
  "app_step env heard after e w a =
     (let a1 = app_send env e a in app_pause heard w (a1\<lparr>ar_handler := after (ar_handler a1)\<rparr>))"

definition order_message :: "bytes \<Rightarrow> envelope" where
  "order_message d = set_data d (upd_header (\<lambda>h. h\<lparr>message_type := ''ORDER_NEW''\<rparr>) envelope_empty)"

subsection \<open>Order placement\<close>

text \<open>\<open>now i\<close> is the clock when order \<open>i\<close> is made, and \<open>w i\<close> the pause after it has been sent.\<close>

definition placement_message :: "oms_env \<Rightarrow> int \<Rightarrow> nat \<Rightarrow> envelope" where
  "placement_message env now i = order_message (oe_order env (placement_order i now))"

definition RunOrderPlacementScenario ::
    "oms_env \<Rightarrow> (int \<times> envelope \<Rightarrow> 'h \<Rightarrow> 'h) \<Rightarrow> (nat \<Rightarrow> int) \<Rightarrow> (nat \<Rightarrow> pause) \<Rightarrow> 'h app_run \<Rightarrow> 'h app_run" where
  "RunOrderPlacementScenario env heard now w a =
     fold (\<lambda>i. app_step env heard (\<lambda>h. h) (placement_message env (now i) i) (w i)) [0..<10] a"

subsection \<open>Market data\<close>

definition market_data_sub :: envelope where
  "market_data_sub = set_data ''AAPL'' (upd_header (\<lambda>h. h\<lparr>message_type := ''MARKET_DATA_SUB''\<rparr>) envelope_empty)"

definition RunMarketDataConsumerScenario ::
    "oms_env \<Rightarrow> (int \<times> envelope \<Rightarrow> 'h \<Rightarrow> 'h) \<Rightarrow> pause \<Rightarrow> 'h app_run \<Rightarrow> 'h app_run" where
  "RunMarketDataConsumerScenario env heard w a = app_step env heard (\<lambda>h. h) market_data_sub w a"

subsection \<open>Benchmark\<close>

definition WARMUP_MESSAGES :: nat where "WARMUP_MESSAGES = 100"

text \<open>
  The pauses: after each warmup order, the second in which the warmup ends, after each measured order, and the wait
  for the last response, which ends after 30 seconds if it does not come.
\<close>

record bench_pauses =
  bp_warmup :: "nat \<Rightarrow> pause"
  bp_settle :: pause
  bp_measure :: "nat \<Rightarrow> pause"
  bp_wait :: pause

definition bench_phase ::
    "oms_env \<Rightarrow> (bench \<Rightarrow> bench) \<Rightarrow> (nat \<Rightarrow> order) \<Rightarrow> (nat \<Rightarrow> pause) \<Rightarrow> nat \<Rightarrow> bench app_run \<Rightarrow> bench app_run" where
  "bench_phase env after mk w n a =
     fold (\<lambda>i. app_step env (bench_on_message (oe_response env)) after (order_message (oe_order env (mk i))) (w i)) [0..<n] a"

definition count_sent :: "bench \<Rightarrow> bench" where
  "count_sent s = s\<lparr>bn_sent := bn_sent s + 1\<rparr>"

text \<open>What it prints when it has finished: the time in seconds, the throughput and the latencies.\<close>

definition bench_results :: "(real \<Rightarrow> real) \<Rightarrow> bench \<Rightarrow> (real \<times> real \<times> report) option" where
  "bench_results rnd s =
     (case bench_report rnd s of
        None \<Rightarrow> None
      | Some r \<Rightarrow>
          (let seconds = rnd (real_of_int (bn_end s - bn_start s) / 1000000)
           in Some (seconds, rnd (real TOTAL_MESSAGES / seconds), r)))"

definition RunBenchmarkScenario ::
    "oms_env \<Rightarrow> (real \<Rightarrow> real) \<Rightarrow> int \<Rightarrow> (nat \<Rightarrow> int) \<Rightarrow> bench_pauses \<Rightarrow> client \<Rightarrow>
       (real \<times> real \<times> report) option \<times> bench app_run" where
  "RunBenchmarkScenario env rnd start now w cn =
     (let heard = bench_on_message (oe_response env);
          a0 = \<lparr>ar_client = cn, ar_handler = bench_start, ar_sent = []\<rparr>;
          a1 = app_pause heard (bp_settle w) (bench_phase env (\<lambda>s. s) warmup_order (bp_warmup w) WARMUP_MESSAGES a0);
          a2 = a1\<lparr>ar_handler := (bench_reset (ar_handler a1))\<lparr>bn_start := start\<rparr>\<rparr>;
          a3 = app_pause heard (bp_wait w)
                 (bench_phase env count_sent (\<lambda>i. bench_order i (now i)) (bp_measure w) TOTAL_MESSAGES a2)
      in (bench_results rnd (ar_handler a3), a3))"

subsection \<open>The program\<close>

text \<open>
  What the program runs with: OpenSSL, the results of the socket calls, what the loop's thread does while \<open>Connect\<close>
  waits, the clock, and the pauses of the scenario.
\<close>

record client_inputs =
  ci_os :: openssl
  ci_valid :: bool
  ci_res :: "int \<Rightarrow> connect_result"
  ci_cb :: "(connection \<Rightarrow> connection) option"
  ci_rds :: "read_result list"
  ci_connect :: "loop_event list"
  ci_now :: "nat \<Rightarrow> int"
  ci_start :: int
  ci_pauses :: "nat \<Rightarrow> pause"
  ci_bench :: bench_pauses

text \<open>The handler \<open>main\<close> registers logs what it is called with.\<close>

definition main_heard :: "int \<times> envelope \<Rightarrow> string list \<Rightarrow> string list" where
  "main_heard m lines =
     lines @ [if env_header (snd m) \<noteq> None then ''Received message type: '' @ message_type (get_header (snd m))
              else ''Received message (no header)'']"

definition run_scenario :: "oms_env \<Rightarrow> (real \<Rightarrow> real) \<Rightarrow> client_inputs \<Rightarrow> string \<Rightarrow> client \<Rightarrow> client" where
  "run_scenario env rnd ci scenario cn =
     (let a = \<lparr>ar_client = cn, ar_handler = [], ar_sent = []\<rparr>
      in if scenario = ''order_placement''
         then ar_client (RunOrderPlacementScenario env main_heard (ci_now ci) (ci_pauses ci) a)
         else if scenario = ''market_data'' then ar_client (RunMarketDataConsumerScenario env main_heard (ci_pauses ci 0) a)
         else if scenario = ''benchmark''
         then ar_client (snd (RunBenchmarkScenario env rnd (ci_start ci) (ci_now ci) (ci_bench ci) cn))
         else ar_client (fold (\<lambda>i. app_pause main_heard (ci_pauses ci i)) [0..<5] a))"

text \<open>\<open>main\<close> of the client, its arguments without the program's name: the exit code, if it comes to an end, and the client.\<close>

definition oms_client_main ::
    "oms_env \<Rightarrow> (real \<Rightarrow> real) \<Rightarrow> client_inputs \<Rightarrow> (string \<Rightarrow> client) \<Rightarrow> string list \<Rightarrow> int option \<times> client option" where
  "oms_client_main env rnd ci create args =
     (case args of
        [] \<Rightarrow> (Some 1, None)
      | config_path # rest \<Rightarrow>
          (let scenario = (case rest of [] \<Rightarrow> ''interactive'' | sc # _ \<Rightarrow> sc)
           in case Client_Connect (ci_os ci) (ci_valid ci) (ci_res ci) (ci_cb ci) (ci_rds ci) (ci_connect ci) (create config_path) of
                (None, cn) \<Rightarrow> (None, Some cn)
              | (Some False, cn) \<Rightarrow> (Some 1, Some cn)
              | (Some True, cn) \<Rightarrow> (Some 0, Some (Client_Disconnect (run_scenario env rnd ci scenario cn)))))"

section \<open>The server program\<close>

text \<open>
  \<open>main\<close> of the server: \<open>created\<close> is what reading the configuration gives, \<open>serving\<close> what the started server and
  the publisher's thread make of the application's state until \<open>Wait\<close> returns.
\<close>

definition oms_server_main ::
    "openssl \<Rightarrow> string option \<Rightarrow> int \<Rightarrow> 'w \<Rightarrow> (string \<Rightarrow> exn + 'w server) \<Rightarrow> (oms \<Rightarrow> oms) \<Rightarrow> string list \<Rightarrow>
       int \<times> 'w server option \<times> oms" where
  "oms_server_main os poller_error efd w created serving args =
     (let s0 = \<lparr>oms_orders = OrderManager_new, oms_subscribers = [], oms_publishing = False\<rparr>
      in case args of
           [] \<Rightarrow> (1, None, s0)
         | config_path # _ \<Rightarrow>
             (case created config_path of
                Inl _ \<Rightarrow> (1, None, s0)
              | Inr srv0 \<Rightarrow>
                  (case Server_Start os poller_error efd w (Server_RegisterStreamHandler True srv0) of
                     (False, srv) \<Rightarrow> (1, Some srv, s0)
                   | (True, srv) \<Rightarrow>
                       (0, Some (Server_Wait srv), MarketDataPublisher_Stop (serving (MarketDataPublisher_Start s0))))))"

section \<open>What a scenario puts on the wire\<close>

text \<open>A scenario as a script: each message with the pause that follows it.\<close>

definition app_script ::
    "oms_env \<Rightarrow> (int \<times> envelope \<Rightarrow> 'h \<Rightarrow> 'h) \<Rightarrow> ('h \<Rightarrow> 'h) \<Rightarrow> (envelope \<times> pause) list \<Rightarrow> 'h app_run \<Rightarrow> 'h app_run" where
  "app_script env heard after script a = fold (\<lambda>(e, w). app_step env heard after e w) script a"

lemma placement_script:
  "RunOrderPlacementScenario env heard now w =
     app_script env heard (\<lambda>h. h) (map (\<lambda>i. (placement_message env (now i) i, w i)) [0..<10])"
  by (rule ext) (simp add: RunOrderPlacementScenario_def app_script_def fold_map comp_def)

lemma market_data_script: "RunMarketDataConsumerScenario env heard w = app_script env heard (\<lambda>h. h) [(market_data_sub, w)]"
  by (rule ext) (simp add: RunMarketDataConsumerScenario_def app_script_def)

lemma bench_script:
  "bench_phase env after mk w n = app_script env (bench_on_message (oe_response env)) after (map (\<lambda>i. (order_message (oe_order env (mk i)), w i)) [0..<n])"
  by (rule ext) (simp add: bench_phase_def app_script_def fold_map comp_def)

text \<open>A TCP client in the state the scenarios run in, and the frames of the messages that were accepted.\<close>

definition tcp_ready :: "client \<Rightarrow> bool" where
  "tcp_ready cn \<longleftrightarrow> client_ready cn \<and> cn_protocol cn = Some Tcp_Client"

definition accepted_frames :: "oms_env \<Rightarrow> bool list \<Rightarrow> envelope list \<Rightarrow> bytes" where
  "accepted_frames env oks es =
     concat (map (\<lambda>(ok, e). if ok then length_frame (pb_serialize (ce_pb (oe_client env)) e) else []) (zip oks es))"

lemma tcp_step_out:
  assumes "tcp_ready cn" and "consumes cb"
  shows "tcp_ready (client_step cb ev cn) \<and> client_out (client_step cb ev cn) = client_out cn"
  using assms client_step_out[of cn cb] by (simp add: tcp_ready_def client_step_protocol)

lemma app_pause_out:
  assumes "tcp_ready (ar_client a)" and "consumes (pa_cb w)"
  shows "tcp_ready (ar_client (app_pause heard w a)) \<and> client_out (ar_client (app_pause heard w a)) = client_out (ar_client a) \<and>
    ar_sent (app_pause heard w a) = ar_sent a"
proof -
  have "tcp_ready (fold (client_step (pa_cb w)) evs cn) \<and> client_out (fold (client_step (pa_cb w)) evs cn) = client_out cn"
    if "tcp_ready cn" for evs cn
    using that by (induction evs arbitrary: cn) (simp_all add: tcp_step_out[OF _ assms(2)])
  with assms(1) show ?thesis by (simp add: app_pause_def)
qed

lemma app_send_out:
  assumes "tcp_ready (ar_client a)"
  shows "\<exists>ok. tcp_ready (ar_client (app_send env e a)) \<and> ar_sent (app_send env e a) = ar_sent a @ [ok] \<and>
    client_out (ar_client (app_send env e a)) = client_out (ar_client a) @ accepted_frames env [ok] [e]"
proof (cases "Connection_IsConnected (cn_conn (ar_client a))")
  case True
  let ?cn = "conn_call False (protocol_Send (oe_client env) Tcp_Client e) (ar_client a)"
  have s: "app_send env e a = a\<lparr>ar_client := ?cn, ar_sent := ar_sent a @ [True]\<rparr>"
    using True assms by (simp add: app_send_def Client_Send_def tcp_ready_def)
  have "client_ready ?cn \<and> client_out ?cn = client_out (ar_client a) @ concat (snd (protocol_sends (oe_client env) Tcp_Client (cn_rpc_id (ar_client a)) e))"
    by (rule caller_sends_out[where f = "\<lambda>n. fst (protocol_sends (oe_client env) Tcp_Client n e)", OF _ protocol_Send_sends])
       (use assms in \<open>simp add: tcp_ready_def\<close>)
  moreover have "cn_protocol ?cn = Some Tcp_Client" using assms by (simp add: tcp_ready_def conn_call_def Let_def split: prod.split)
  ultimately show ?thesis by (intro exI[of _ True]) (simp add: s tcp_ready_def accepted_frames_def)
next
  case False
  then show ?thesis using assms by (intro exI[of _ False]) (simp add: app_send_def Client_Send_def accepted_frames_def)
qed

lemma app_script_out:
  assumes "tcp_ready (ar_client a)" and "\<forall>(e, w) \<in> set script. consumes (pa_cb w)"
  shows "\<exists>oks. ar_sent (app_script env heard after script a) = ar_sent a @ oks \<and> length oks = length script \<and>
    tcp_ready (ar_client (app_script env heard after script a)) \<and>
    client_out (ar_client (app_script env heard after script a)) = client_out (ar_client a) @ accepted_frames env oks (map fst script)"
  using assms
proof (induction script arbitrary: a)
  case Nil
  then show ?case by (simp add: app_script_def accepted_frames_def)
next
  case (Cons ew script)
  obtain e w where ew: "ew = (e, w)" by (cases ew)
  let ?s = "app_send env e a"
  let ?a1 = "?s\<lparr>ar_handler := after (ar_handler ?s)\<rparr>" and ?a = "app_step env heard after e w a"
  obtain ok where ok: "tcp_ready (ar_client (app_send env e a))" "ar_sent (app_send env e a) = ar_sent a @ [ok]"
      "client_out (ar_client (app_send env e a)) = client_out (ar_client a) @ accepted_frames env [ok] [e]"
    using app_send_out[OF Cons.prems(1)] by blast
  have w: "consumes (pa_cb w)" using Cons.prems(2) ew by auto
  have "tcp_ready (ar_client ?a1)" using ok(1) by simp
  from app_pause_out[OF this w, of heard] have p: "tcp_ready (ar_client ?a)" "client_out (ar_client ?a) = client_out (ar_client ?s)"
      "ar_sent ?a = ar_sent ?s" by (simp_all add: app_step_def Let_def)
  have "\<exists>oks. ar_sent (app_script env heard after script ?a) = ar_sent ?a @ oks \<and> length oks = length script \<and>
      tcp_ready (ar_client (app_script env heard after script ?a)) \<and>
      client_out (ar_client (app_script env heard after script ?a)) = client_out (ar_client ?a) @ accepted_frames env oks (map fst script)"
    using Cons.IH[of ?a] p Cons.prems(2) by auto
  then obtain oks where oks: "ar_sent (app_script env heard after script ?a) = ar_sent ?a @ oks" "length oks = length script"
      "tcp_ready (ar_client (app_script env heard after script ?a))"
      "client_out (ar_client (app_script env heard after script ?a)) = client_out (ar_client ?a) @ accepted_frames env oks (map fst script)"
    by blast
  have "app_script env heard after (ew # script) a = app_script env heard after script ?a" by (simp add: app_script_def ew)
  with oks ok p show ?case by (intro exI[of _ "ok # oks"]) (simp add: ew accepted_frames_def)
qed

section \<open>The placement scenario against the server\<close>

text \<open>The orders whose sends were accepted.\<close>

definition accepted_numbers :: "bool list \<Rightarrow> nat list" where
  "accepted_numbers oks = filter (\<lambda>i. oks ! i) [0..<10]"

lemma accepted_frames_numbers:
  assumes "length oks = n"
  shows "accepted_frames env oks (map g [0..<n]) =
    concat (map (\<lambda>e. length_frame (pb_serialize (ce_pb (oe_client env)) e)) (map g (filter (\<lambda>i. oks ! i) [0..<n])))"
  using assms
proof (induction oks arbitrary: n rule: rev_induct)
  case Nil
  then show ?case by (simp add: accepted_frames_def)
next
  case (snoc ok oks)
  then obtain m where n: "n = Suc m" "length oks = m" by (cases n) auto
  have "filter (\<lambda>i. (oks @ [ok]) ! i) [0..<m] = filter (\<lambda>i. oks ! i) [0..<m]"
    using n(2) by (intro filter_cong) (auto simp: nth_append)
  with snoc.IH[OF n(2)] n show ?case by (simp add: accepted_frames_def nth_append)
qed

lemma placement_order_facts [simp]:
  "order_valid (placement_order i now)" "od_order_id (placement_order i now) = ''ORD-'' @ dec_str i"
  by (simp_all add: placement_order_def order_valid_def order_empty_def not_less)

lemma order_message_facts [simp]:
  "message_type (get_header (order_message d)) = ''ORDER_NEW''" "get_data (order_message d) = d"
  "env_payload (order_message d) \<noteq> None"
  by (simp_all add: order_message_def envelope_defs)

lemma dec_str_inj: "dec_str m = dec_str n \<longleftrightarrow> m = n"
  using digits_val_dec_str by metis

text \<open>
  C17. The placement scenario and the order management server, end to end.  The client has a TCP connection on which
  nothing has been sent; between its calls the loop's thread does anything; in the end everything accepted has been written.
  Then, however the bytes are cut into reads, the book of a fresh server holds exactly the orders whose \<open>Send\<close>
  returned true, each under its id.
\<close>
theorem placement_end_to_end:
  assumes "tcp_ready cn" and "client_out cn = []" and "\<forall>i. consumes (pa_cb (w i))"
    and "a = RunOrderPlacementScenario env heard now w \<lparr>ar_client = cn, ar_handler = h, ar_sent = []\<rparr>"
    and "pending_tasks (cn_loop (ar_client a)) = []" and "content (output_buffer (cn_conn (ar_client a))) = []"
    and "pb = ce_pb (oe_client env)" and "pb_roundtrip pb (map (\<lambda>i. placement_message env (now i) i) [0..<10])"
    and "\<forall>i < 10. length (pb_serialize pb (placement_message env (now i) i)) \<le> kTcpMaxFrame \<and>
          oc_parse_order oc (oe_order env (placement_order i (now i))) = Some (placement_order i (now i))"
    and "session_inv st" and "pending st = []" and "rate_limiter st = None" and "oms_orders (app st) = OrderManager_new"
    and "concat chs = wire (cn_conn (ar_client a))"
  shows "\<exists>st'. serve receive (tcp_step pb (Some (oms_handler oc ctx))) chs st = Some st' \<and> pending st' = [] \<and>
    length (ar_sent a) = 10 \<and>
    map_of (om_orders (oms_orders (app st'))) =
      map_of (map (\<lambda>i. (''ORD-'' @ dec_str i, placement_order i (now i))) (accepted_numbers (ar_sent a)))"
proof -
  let ?g = "\<lambda>i. placement_message env (now i) i" and ?is = "accepted_numbers (ar_sent a)"
  let ?a = "\<lparr>ar_client = cn, ar_handler = h, ar_sent = []\<rparr>" and ?script = "map (\<lambda>i. (placement_message env (now i) i, w i)) [0..<10]"
  have "\<exists>oks. ar_sent a = oks \<and> length oks = 10 \<and> client_out (ar_client a) = accepted_frames env oks (map ?g [0..<10])"
    using app_script_out[of ?a ?script env heard "\<lambda>h. h"] assms(1-4) by (auto simp: placement_script comp_def)
  then have sent: "length (ar_sent a) = 10" and out: "client_out (ar_client a) = accepted_frames env (ar_sent a) (map ?g [0..<10])"
    by auto
  have bytes: "concat chs = concat (map (\<lambda>e. length_frame (pb_serialize pb e)) (map ?g ?is))"
    using out accepted_frames_numbers[OF sent, of env ?g] assms(5-7,14)
    by (simp add: client_out_def stream_def accepted_numbers_def)
  have sub: "set ?is \<subseteq> {0..<10}" by (auto simp: accepted_numbers_def)
  have rt: "pb_roundtrip pb (map ?g ?is)" using assms(8) sub by (auto simp: pb_roundtrip_def)
  have len: "\<forall>e \<in> set (map ?g ?is). length (pb_serialize pb e) \<le> kTcpMaxFrame" using assms(9) sub by auto
  obtain resps s' where s': "oms_session oc ctx (map ?g ?is) (app st) = (resps, s')" by fastforce
  have "concat (map (order_in oc) (map ?g js)) = map (\<lambda>i. placement_order i (now i)) js" if "set js \<subseteq> {0..<10}" for js
    using that assms(9) by (induction js) (auto simp: order_in_def placement_message_def)
  then have "oms_orders s' = order_run (map Om_Place (map (\<lambda>i. placement_order i (now i)) ?is)) OrderManager_new"
    using oms_session_spec[OF s'] sub assms(13) by simp
  then have "map_of (om_orders (oms_orders s')) = map_of (rev (map (\<lambda>i. (''ORD-'' @ dec_str i, placement_order i (now i))) ?is))"
    using order_run_places[of "map (\<lambda>i. placement_order i (now i)) ?is" OrderManager_new] by (simp add: comp_def OrderManager_new_def)
  also have "\<dots> = map_of (map (\<lambda>i. (''ORD-'' @ dec_str i, placement_order i (now i))) ?is)"
    by (rule iffD2[OF map_of_inject_set])
       (simp_all add: distinct_map inj_on_def dec_str_inj accepted_numbers_def comp_def rev_map[symmetric])
  finally show ?thesis using oms_served[OF assms(10,11,12) rt len bytes s'] sent by auto
qed

text \<open>A connection whose socket takes everything, and a client that stands ready on it.\<close>

lemma Send_ample:
  assumes "conn_inv c" and "in_loop_thread c" and "conn_state c = kConnected" and "content (output_buffer c) = []"
    and "wr_script c = (n, e) # ws" and "0 < length d" and "length d \<le> n"
  shows "\<exists>b. Connection_Send d c = c\<lparr>output_buffer := b, wr_script := ws, wire := wire c @ d\<rparr> \<and> content b = []"
proof -
  let ?b = "Buffer_Append (output_buffer c) d"
  have b: "buffer_inv ?b" "content ?b = d" using assms(1,4) by (simp_all add: conn_inv_def buf_simps buffer_invs)
  then have "Buffer_ReadableBytes ?b = length d" by (simp add: buf_simps)
  moreover have "content (Buffer_Retrieve ?b (length d)) = []" "Buffer_ReadableBytes (Buffer_Retrieve ?b (length d)) = 0"
    using b by (simp_all add: buf_simps buffer_invs)
  ultimately show ?thesis
    using assms(2-7) by (intro exI[of _ "Buffer_Retrieve ?b (length d)"])
      (auto simp: Connection_Send_def Connection_Write_def Let_def)
qed

definition ample :: "nat \<Rightarrow> client \<Rightarrow> bool" where
  "ample k cn \<longleftrightarrow> tcp_ready cn \<and> Connection_IsConnected (cn_conn cn) \<and> pending_tasks (cn_loop cn) = [] \<and>
     content (output_buffer (cn_conn cn)) = [] \<and> wr_script (cn_conn cn) = replicate k (1000, EAGAIN)"

definition wakeup_pause :: pause where
  "wakeup_pause = \<lparr>pa_cb = None, pa_events = [Wakeup], pa_heard = []\<rparr>"

lemma conn_call_on_loop:
  assumes "in_loop_thread (cn_conn cn)" and "in_loop_thread (g (cn_conn cn))" and "trace (g (cn_conn cn)) = trace (cn_conn cn)"
  shows "conn_call True (on_conn g) cn = cn\<lparr>cn_conn := g (cn_conn cn)\<rparr>"
proof -
  have "(cn_conn cn)\<lparr>in_loop_thread := True\<rparr> = cn_conn cn" "(g (cn_conn cn))\<lparr>in_loop_thread := True\<rparr> = g (cn_conn cn)"
    using assms(1,2) by (cases "cn_conn cn"; cases "g (cn_conn cn)"; simp)+
  then show ?thesis using assms(3) unfolding conn_call_def on_conn_def by (cases cn) simp
qed

lemma ample_send:
  assumes "ample (Suc k) (ar_client a)" and "length (pb_serialize (ce_pb (oe_client env)) e) \<le> 900"
  shows "ample k (ar_client (app_step env heard after e wakeup_pause a)) \<and>
    ar_sent (app_step env heard after e wakeup_pause a) = ar_sent a @ [True]"
proof -
  let ?cn = "ar_client a" and ?d = "length_frame (pb_serialize (ce_pb (oe_client env)) e)"
  let ?g = "protocol_Send (oe_client env) Tcp_Client e"
  let ?l = "EventLoop_QueueInLoop ?d (cn_loop ?cn)"
  let ?cn1 = "?cn\<lparr>cn_conn := (cn_conn ?cn)\<lparr>trace := trace (cn_conn ?cn) @ [Loop_Queue ?d]\<rparr>, cn_loop := ?l\<rparr>"
  have r: "client_ready ?cn" "cn_protocol ?cn = Some Tcp_Client" "Connection_IsConnected (cn_conn ?cn)" "pending_tasks (cn_loop ?cn) = []"
      "content (output_buffer (cn_conn ?cn)) = []" "wr_script (cn_conn ?cn) = (1000, EAGAIN) # replicate k (1000, EAGAIN)"
    using assms(1) by (simp_all add: ample_def tcp_ready_def)
  have "conn_call False ?g ?cn = ?cn1"
    using conn_call_sends[of ?g "\<lambda>n. n" "\<lambda>_. [?d]" ?cn] r(1)
    by (cases ?cn) (simp add: TcpClient_Send_def client_ready_def)
  then have s: "app_send env e a = a\<lparr>ar_client := ?cn1, ar_sent := ar_sent a @ [True]\<rparr>"
    using r(2,3) by (simp add: app_send_def Client_Send_def)
  have c1: "conn_inv (cn_conn ?cn1)" "in_loop_thread (cn_conn ?cn1)" "conn_state (cn_conn ?cn1) = kConnected"
      "content (output_buffer (cn_conn ?cn1)) = []" "wr_script (cn_conn ?cn1) = (1000, EAGAIN) # replicate k (1000, EAGAIN)"
    using r by (simp_all add: client_ready_def conn_inv_def Connection_IsConnected_def)
  have "0 < length ?d" "length ?d \<le> 1000" using assms(2) by (simp_all add: length_frame_def wire_simps)
  from Send_ample[OF c1 this] obtain b where b: "content b = []"
      "Connection_Send ?d (cn_conn ?cn1) = (cn_conn ?cn1)\<lparr>output_buffer := b, wr_script := replicate k (1000, EAGAIN), wire := wire (cn_conn ?cn1) @ ?d\<rparr>"
    by blast
  let ?clear = "?l\<lparr>eventfd_count := 0, pending_tasks := []\<rparr>"
  have loop: "conn_call True (on_conn (Connection_Send ?d)) (?cn1\<lparr>cn_loop := ?clear\<rparr>) =
      ?cn1\<lparr>cn_loop := ?clear, cn_conn := Connection_Send ?d (cn_conn ?cn1)\<rparr>"
    using conn_call_on_loop[of "?cn1\<lparr>cn_loop := ?clear\<rparr>" "Connection_Send ?d"] c1(2) b(2) by simp
  have "client_task ?d (?clear, ?cn1) = (?clear, ?cn1\<lparr>cn_conn := Connection_Send ?d (cn_conn ?cn1), cn_loop := ?clear\<rparr>)"
    unfolding client_task_def Let_def fst_conv snd_conv loop by simp
  moreover have "pending_tasks ?l = [?d]" using r(4) by (simp add: EventLoop_QueueInLoop_def EventLoop_WakeUp_def)
  ultimately have "Client_run_tasks ?cn1 = ?cn1\<lparr>cn_conn := Connection_Send ?d (cn_conn ?cn1), cn_loop := ?clear\<rparr>"
    by (simp add: Client_run_tasks_def EventLoop_HandleRead_def)
  moreover have "client_ready (Client_run_tasks ?cn1)"
    by (rule Client_run_tasks_out(1)) (use r(1) in \<open>simp add: client_ready_def conn_inv_def\<close>)
  ultimately show ?thesis
    using r(2) c1(3) b by (simp add: s app_step_def app_pause_def wakeup_pause_def Let_def ample_def tcp_ready_def Connection_IsConnected_def)
qed

lemma ample_script:
  assumes "ample (length es) (ar_client a)" and "\<forall>e \<in> set es. length (pb_serialize (ce_pb (oe_client env)) e) \<le> 900"
  shows "ample 0 (ar_client (app_script env heard after (map (\<lambda>e. (e, wakeup_pause)) es) a)) \<and>
    ar_sent (app_script env heard after (map (\<lambda>e. (e, wakeup_pause)) es) a) = ar_sent a @ replicate (length es) True"
  using assms
proof (induction es arbitrary: a)
  case (Cons e es)
  have "ample (Suc (length es)) (ar_client a)" "length (pb_serialize (ce_pb (oe_client env)) e) \<le> 900" using Cons.prems by simp_all
  note 1 = ample_send[OF this, of heard after]
  with Cons.IH[of "app_step env heard after e wakeup_pause a"] Cons.prems(2) show ?case by (simp add: app_script_def)
qed (simp add: app_script_def)

definition ample_client :: "nat \<Rightarrow> client" where
  "ample_client k =
     (let cn = start_protocol (sample_client ''tcp'')
      in cn\<lparr>cn_conn := (cn_conn cn)\<lparr>conn_state := kConnected, wr_script := replicate k (1000, EAGAIN)\<rparr>\<rparr>)"

lemma ample_client: "ample k (ample_client k) \<and> client_out (ample_client k) = []"
  using Buffer_new_inv[of "[]" 8]
  by (simp add: ample_client_def ample_def tcp_ready_def client_ready_def client_out_def start_protocol_eq sample_client_def
      Client_new_def ClientConfig_default_def ClientProtocolFactory_Create_def Connection_new_def Connection_IsConnected_def
      conn_inv_def stream_def EventLoop_Init_def EventLoop_AddFd_def poller_defs EventLoop_new_def Let_def)

definition sample_env :: oms_env where
  "sample_env = \<lparr>oe_client = \<lparr>ce_pb = Oms.pb_typed, ce_entries = \<lambda>_. []\<rparr>, oe_order = od_order_id, oe_response = \<lambda>_. None\<rparr>"

definition placement_codec :: oms_codec where
  "placement_codec = \<lparr>oc_parse_order = (\<lambda>d. Some (placement_order (digits_val (drop 4 d)) 0)), oc_response = or_order_id\<rparr>"

lemma order_request: "oms_request ''ORDER_NEW'' d = order_message d"
  by (simp add: oms_request_def order_message_def)

lemma sample_env_message:
  "pb_serialize Oms.pb_typed (placement_message sample_env 0 i) = ''ORDER_NEW:ORD-'' @ dec_str i"
  "pb_parse Oms.pb_typed (pb_serialize Oms.pb_typed (placement_message sample_env 0 i)) = (True, placement_message sample_env 0 i)"
  by (simp_all add: Oms.pb_typed_def placement_message_def sample_env_def order_request)

lemma dec_str_short: "i < 10 \<Longrightarrow> length (dec_str i) = 1"
  by (simp add: dec_str_def base_str.simps)

theorem placement_end_to_end_witness:
  "\<exists>a st'. a = RunOrderPlacementScenario sample_env main_heard (\<lambda>_. 0) (\<lambda>_. wakeup_pause)
      \<lparr>ar_client = ample_client 10, ar_handler = [], ar_sent = []\<rparr> \<and>
    serve receive (tcp_step Oms.pb_typed (Some (oms_handler placement_codec 0))) [wire (cn_conn (ar_client a))] (fresh_session fresh_oms) =
      Some st' \<and>
    map_of (om_orders (oms_orders (app st'))) ''ORD-7'' = Some (placement_order 7 0)"
proof -
  let ?a0 = "\<lparr>ar_client = ample_client 10, ar_handler = [], ar_sent = []\<rparr>"
  let ?g = "placement_message sample_env 0"
  define a where "a = RunOrderPlacementScenario sample_env main_heard (\<lambda>_. 0) (\<lambda>_. wakeup_pause) ?a0"
  have len: "length (pb_serialize Oms.pb_typed (?g i)) \<le> 900" if "i < 10" for i
    using dec_str_short[OF that] by (simp add: sample_env_message)
  have pb: "ce_pb (oe_client sample_env) = Oms.pb_typed" by (simp add: sample_env_def)
  have es: "map (\<lambda>i. (?g i, wakeup_pause)) [0..<10] = map (\<lambda>e. (e, wakeup_pause)) (map ?g [0..<10])" by simp
  have "ample (length (map ?g [0..<10])) (ar_client ?a0)" using ample_client[of 10] by simp
  moreover have "\<forall>e \<in> set (map ?g [0..<10]). length (pb_serialize (ce_pb (oe_client sample_env)) e) \<le> 900" using len by (simp add: pb)
  ultimately have a: "ample 0 (ar_client a)" "ar_sent a = replicate 10 True"
    using ample_script[of "map ?g [0..<10]" ?a0 sample_env main_heard "\<lambda>h. h"] unfolding a_def placement_script es by simp_all
  have out: "pending_tasks (cn_loop (ar_client a)) = []" "content (output_buffer (cn_conn (ar_client a))) = []"
    using a(1) by (simp_all add: ample_def)
  have ready: "tcp_ready (ample_client 10)" "client_out (ample_client 10) = []" using ample_client[of 10] by (simp_all add: ample_def)
  have rt: "pb_roundtrip Oms.pb_typed (map ?g [0..<10])" by (simp add: pb_roundtrip_def sample_env_message(2) del: upt_Suc)
  have ok: "\<forall>i < 10. length (pb_serialize Oms.pb_typed (?g i)) \<le> kTcpMaxFrame \<and>
      oc_parse_order placement_codec (oe_order sample_env (placement_order i 0)) = Some (placement_order i 0)"
  proof (intro allI impI)
    fix i :: nat assume "i < 10"
    then have "length (pb_serialize Oms.pb_typed (?g i)) \<le> kTcpMaxFrame" using len[of i] by (simp add: kTcpMaxFrame_def)
    then show "length (pb_serialize Oms.pb_typed (?g i)) \<le> kTcpMaxFrame \<and>
        oc_parse_order placement_codec (oe_order sample_env (placement_order i 0)) = Some (placement_order i 0)"
      by (simp add: placement_codec_def sample_env_def digits_val_dec_str)
  qed
  have cb: "\<forall>i. consumes (pa_cb ((\<lambda>_ :: nat. wakeup_pause) i))" by (simp add: wakeup_pause_def)
  have srv: "oms_orders (app (fresh_session fresh_oms)) = OrderManager_new" by (simp add: fresh_oms_def)
  have bytes: "concat [wire (cn_conn (ar_client a))] = wire (cn_conn (ar_client a))" by simp
  from placement_end_to_end[where now = "\<lambda>_. 0" and env = sample_env and pb = Oms.pb_typed and oc = placement_codec and ctx = 0 and
      st = "fresh_session fresh_oms", OF ready cb a_def out pb[symmetric] rt ok fresh_session_facts(1-3) srv bytes]
  obtain st' where st': "serve receive (tcp_step Oms.pb_typed (Some (oms_handler placement_codec 0))) [wire (cn_conn (ar_client a))]
        (fresh_session fresh_oms) = Some st'"
      "map_of (om_orders (oms_orders (app st'))) =
        map_of (map (\<lambda>i. (''ORD-'' @ dec_str i, placement_order i 0)) (accepted_numbers (ar_sent a)))"
    by blast
  have "accepted_numbers (ar_sent a) = [0..<10]"
    unfolding accepted_numbers_def a(2) by (rule filter_True) simp
  moreover have "dec_str 7 = ''7''" by code_simp
  then have "''ORD-7'' = ''ORD-'' @ dec_str 7" by simp
  ultimately have "map_of (om_orders (oms_orders (app st'))) ''ORD-7'' = Some (placement_order 7 0)"
    unfolding st'(2) by (simp add: map_of_eq_Some_iff distinct_map inj_on_def dec_str_inj comp_def image_iff del: upt_Suc)
  with st'(1) a_def show ?thesis by blast
qed

section \<open>The other scenarios\<close>

text \<open>The messages of a scenario, and its pauses.\<close>

definition scenario_messages :: "oms_env \<Rightarrow> client_inputs \<Rightarrow> string \<Rightarrow> envelope list" where
  "scenario_messages env ci scenario =
     (if scenario = ''order_placement'' then map (\<lambda>i. placement_message env (ci_now ci i) i) [0..<10]
      else if scenario = ''market_data'' then [market_data_sub]
      else if scenario = ''benchmark''
      then map (\<lambda>i. order_message (oe_order env (warmup_order i))) [0..<100] @
           map (\<lambda>i. order_message (oe_order env (bench_order i (ci_now ci i)))) [0..<1000]
      else [])"

definition pauses_consume :: "client_inputs \<Rightarrow> bool" where
  "pauses_consume ci \<longleftrightarrow> (\<forall>i. consumes (pa_cb (ci_pauses ci i)) \<and> consumes (pa_cb (bp_warmup (ci_bench ci) i)) \<and>
     consumes (pa_cb (bp_measure (ci_bench ci) i))) \<and> consumes (pa_cb (bp_settle (ci_bench ci))) \<and>
     consumes (pa_cb (bp_wait (ci_bench ci)))"

lemma accepted_frames_append:
  "length oks = length es \<Longrightarrow> accepted_frames env (oks @ oks') (es @ es') = accepted_frames env oks es @ accepted_frames env oks' es'"
  by (simp add: accepted_frames_def)

lemma bench_phase_out:
  assumes "tcp_ready (ar_client a)" and "\<forall>i. consumes (pa_cb (w i))"
  shows "\<exists>oks. length oks = n \<and> tcp_ready (ar_client (bench_phase env after mk w n a)) \<and>
    client_out (ar_client (bench_phase env after mk w n a)) =
      client_out (ar_client a) @ accepted_frames env oks (map (\<lambda>i. order_message (oe_order env (mk i))) [0..<n])"
  using app_script_out[OF assms(1), of "map (\<lambda>i. (order_message (oe_order env (mk i)), w i)) [0..<n]" env "bench_on_message (oe_response env)" after] assms(2)
  by (auto simp: bench_script comp_def)

text \<open>
  What the client program puts on the wire.  Whatever the loop's thread does between the calls, and whatever messages
  come in, the bytes a scenario adds are the frames of its messages whose \<open>Send\<close> returned true, in the order of the
  calls.
\<close>
theorem scenario_output:
  assumes "tcp_ready cn" and "pauses_consume ci"
  shows "\<exists>oks. length oks = length (scenario_messages env ci scenario) \<and>
    client_out (run_scenario env rnd ci scenario cn) = client_out cn @ accepted_frames env oks (scenario_messages env ci scenario)"
proof -
  let ?a = "\<lparr>ar_client = cn, ar_handler = [], ar_sent = []\<rparr>"
  have p: "\<forall>i. consumes (pa_cb (ci_pauses ci i))" using assms(2) by (simp add: pauses_consume_def)
  consider (placement) "scenario = ''order_placement''" | (market) "scenario = ''market_data''" | (bench) "scenario = ''benchmark''"
    | (other) "scenario \<noteq> ''order_placement''" "scenario \<noteq> ''market_data''" "scenario \<noteq> ''benchmark''" by blast
  then show ?thesis
  proof cases
    case placement
    with app_script_out[of ?a "map (\<lambda>i. (placement_message env (ci_now ci i) i, ci_pauses ci i)) [0..<10]" env main_heard "\<lambda>h. h"] assms(1) p
    show ?thesis by (auto simp: run_scenario_def placement_script scenario_messages_def comp_def Let_def simp del: upt_Suc)
  next
    case market
    with app_script_out[of ?a "[(market_data_sub, ci_pauses ci 0)]" env main_heard "\<lambda>h. h"] assms(1) p
    show ?thesis by (auto simp: run_scenario_def market_data_script scenario_messages_def Let_def)
  next
    case bench
    let ?h = "bench_on_message (oe_response env)" and ?w = "ci_bench ci"
    let ?m1 = "map (\<lambda>i. order_message (oe_order env (warmup_order i))) [0..<100]"
    let ?m2 = "map (\<lambda>i. order_message (oe_order env (bench_order i (ci_now ci i)))) [0..<1000]"
    define b0 :: "bench app_run" where "b0 = \<lparr>ar_client = cn, ar_handler = bench_start, ar_sent = []\<rparr>"
    define b1 where "b1 = bench_phase env (\<lambda>s. s) warmup_order (bp_warmup ?w) WARMUP_MESSAGES b0"
    define b2 where "b2 = (app_pause ?h (bp_settle ?w) b1)\<lparr>ar_handler := (bench_reset (ar_handler (app_pause ?h (bp_settle ?w) b1)))\<lparr>bn_start := ci_start ci\<rparr>\<rparr>"
    define b3 where "b3 = bench_phase env count_sent (\<lambda>i. bench_order i (ci_now ci i)) (bp_measure ?w) TOTAL_MESSAGES b2"
    have c: "\<forall>i. consumes (pa_cb (bp_warmup ?w i))" "\<forall>i. consumes (pa_cb (bp_measure ?w i))" "consumes (pa_cb (bp_settle ?w))"
        "consumes (pa_cb (bp_wait ?w))" using assms(2) by (simp_all add: pauses_consume_def)
    have "tcp_ready (ar_client b0)" "client_out (ar_client b0) = client_out cn" using assms(1) by (simp_all add: b0_def)
    with bench_phase_out[of b0 "bp_warmup ?w" WARMUP_MESSAGES env "\<lambda>s. s" warmup_order] c(1) obtain oks1 where 1: "length oks1 = 100"
        "tcp_ready (ar_client b1)" "client_out (ar_client b1) = client_out cn @ accepted_frames env oks1 ?m1"
      by (auto simp: b1_def WARMUP_MESSAGES_def)
    have 2: "tcp_ready (ar_client b2)" "client_out (ar_client b2) = client_out (ar_client b1)"
      using app_pause_out[OF 1(2) c(3), of ?h] by (simp_all add: b2_def)
    from bench_phase_out[OF 2(1) c(2), of TOTAL_MESSAGES env count_sent "\<lambda>i. bench_order i (ci_now ci i)"] obtain oks2 where
      3: "length oks2 = 1000" "tcp_ready (ar_client b3)" "client_out (ar_client b3) = client_out (ar_client b2) @ accepted_frames env oks2 ?m2"
      by (auto simp: b3_def TOTAL_MESSAGES_def)
    have "run_scenario env rnd ci scenario cn = ar_client (app_pause ?h (bp_wait ?w) b3)"
      using bench by (simp add: run_scenario_def RunBenchmarkScenario_def b0_def b1_def b2_def b3_def Let_def)
    then have "client_out (run_scenario env rnd ci scenario cn) = client_out cn @ accepted_frames env (oks1 @ oks2) (?m1 @ ?m2)"
      using app_pause_out[OF 3(2) c(4), of ?h] 1 2 3 by (simp add: accepted_frames_append del: upt_Suc)
    with bench 1(1) 3(1) show ?thesis by (intro exI[of _ "oks1 @ oks2"]) (simp add: scenario_messages_def del: upt_Suc)
  next
    case other
    have "tcp_ready (ar_client (fold (\<lambda>i. app_pause main_heard (ci_pauses ci i)) ks b)) \<and>
        client_out (ar_client (fold (\<lambda>i. app_pause main_heard (ci_pauses ci i)) ks b)) = client_out (ar_client b)"
      if "tcp_ready (ar_client b)" for b ks
      using that p by (induction ks arbitrary: b) (simp_all add: app_pause_out)
    with assms(1) other show ?thesis by (simp add: run_scenario_def scenario_messages_def accepted_frames_def Let_def)
  qed
qed

definition quiet_inputs :: client_inputs where
  "quiet_inputs =
     \<lparr>ci_os = one_pair, ci_valid = True, ci_res = \<lambda>_. Conn_Ok, ci_cb = None, ci_rds = [], ci_connect = [], ci_now = \<lambda>_. 0, ci_start = 0,
      ci_pauses = \<lambda>_. wakeup_pause,
      ci_bench = \<lparr>bp_warmup = \<lambda>_. wakeup_pause, bp_settle = wakeup_pause, bp_measure = \<lambda>_. wakeup_pause, bp_wait = wakeup_pause\<rparr>\<rparr>"

theorem scenario_output_witness:
  "\<exists>oks. length oks = 1 \<and> client_out (run_scenario sample_env (\<lambda>x. x) quiet_inputs ''market_data'' (ample_client 1)) =
    accepted_frames sample_env oks [market_data_sub]"
proof -
  have "pauses_consume quiet_inputs" by (simp add: pauses_consume_def quiet_inputs_def wakeup_pause_def)
  moreover have "tcp_ready (ample_client 1)" "client_out (ample_client 1) = []" using ample_client[of 1] by (simp_all add: ample_def)
  ultimately show ?thesis
    using scenario_output[of "ample_client 1" quiet_inputs sample_env "''market_data''" "\<lambda>x. x"] by (simp add: scenario_messages_def)
qed

end
