(* ===== verification/Reactor_Server.thy ===== *)
theory Reactor_Server
  imports Reactor Rpc
begin

text \<open>
  A protocol handler at work in the reactor: from the readiness events of the poller, through the
  dispatch of the loop, the read of the connection and the handler's loop, to the application and
  the bytes written.  The interface \<open>reactor_protocol\<close> says what a handler must keep so that the
  connection goes on being served; it is given here for the TCP and RPC protocols.
\<close>

section \<open>The handler the reactor calls\<close>

text \<open>The application's state and the rate limiter belong to the handler, the connection to the reactor.\<close>

definition session_handler ::
    "('s session \<Rightarrow> 's session option) \<Rightarrow> ('s \<times> limiter) \<times> connection \<Rightarrow> ('s \<times> limiter) \<times> connection" where
  "session_handler loop wc =
     (case loop \<lparr>app = fst (fst wc), rate_limiter = snd (fst wc), conn = snd wc\<rparr> of
        None \<Rightarrow> wc
      | Some st \<Rightarrow> ((app st, rate_limiter st), conn st))"

section \<open>A connection that goes on\<close>

definition only_modifies :: "act list \<Rightarrow> connection \<Rightarrow> bool" where
  "only_modifies t c \<longleftrightarrow> (\<exists>acts. trace c = t @ acts \<and> (\<forall>a \<in> set acts. \<exists>f m. a = Loop_Modify f m))"

definition goes_on :: "act list \<Rightarrow> bool \<Rightarrow> connection \<Rightarrow> bool" where
  "goes_on t s c \<longleftrightarrow> conn_state c = kConnected \<and> conn_limiter c = None \<and> ssl c = s \<and> in_loop_thread c \<and> only_modifies t c"

lemma only_modifies_emit: "only_modifies t c \<Longrightarrow> only_modifies t (emit (Loop_Modify f m) c)"
proof -
  assume "only_modifies t c"
  then obtain acts where "trace c = t @ acts" "\<forall>a \<in> set acts. \<exists>f m. a = Loop_Modify f m"
    by (auto simp: only_modifies_def)
  then show ?thesis unfolding only_modifies_def emit_def by (intro exI[of _ "acts @ [Loop_Modify f m]"]) auto
qed

lemma goes_on_fields [simp]:
  "goes_on t s (c\<lparr>input_buffer := b\<rparr>) = goes_on t s c" "goes_on t s (c\<lparr>output_buffer := b\<rparr>) = goes_on t s c"
  "goes_on t s (c\<lparr>wire := w\<rparr>) = goes_on t s c" "goes_on t s (c\<lparr>wr_script := ws\<rparr>) = goes_on t s c"
  by (simp_all add: goes_on_def only_modifies_def)

lemma goes_on_emit: "goes_on t s c \<Longrightarrow> goes_on t s (emit (Loop_Modify f m) c)"
  using only_modifies_emit[of t c f m] by (simp add: goes_on_def emit_def)

lemma goes_on_Write: "goes_on t s c \<Longrightarrow> Connection_Write data c = (n, e, c') \<Longrightarrow> goes_on t s c'"
  by (auto simp: Connection_Write_def Let_def split: list.splits)

lemma goes_on_Send:
  assumes "goes_on t s c"
  shows "goes_on t s (Connection_Send data c)"
proof -
  let ?c1 = "c\<lparr>output_buffer := Buffer_Append (output_buffer c) data\<rparr>"
  obtain n e c' where w: "Connection_Write data ?c1 = (n, e, c')" by (rule prod_cases3)
  have "goes_on t s c'" using goes_on_Write[OF _ w] assms by simp
  moreover have "in_loop_thread c" using assms by (simp add: goes_on_def)
  ultimately show ?thesis using assms w by (simp add: Connection_Send_def Let_def goes_on_emit)
qed

lemma goes_on_read:
  assumes "goes_on t s c" and "\<not> closes_on s rds"
  shows "goes_on t s (Connection_HandleRead None rds c)"
proof -
  have loop: "goes_on t s (read_loop None rds c)" if "goes_on t s c" "\<not> closes_on s rds" for c rds
    using that
  proof (induction rds arbitrary: c)
    case (Cons r rds)
    have "conn_state c \<noteq> kDisconnected" "ssl c = s" using Cons.prems(1) by (simp_all add: goes_on_def)
    with Cons show ?case by (cases r) (auto simp: Let_def split: if_splits)
  qed simp
  have "Connection_HandleRead None rds c = read_loop None rds (c\<lparr>conn_limiter := None\<rparr>)"
    using assms(1) by (simp add: goes_on_def Connection_HandleRead_def HandleRead_ready_def CheckRateLimit_def)
  moreover have "c\<lparr>conn_limiter := None\<rparr> = c" using assms(1) by (simp add: goes_on_def)
  ultimately show ?thesis using loop[OF assms] by simp
qed

section \<open>The loop's side\<close>

text \<open>The loop runs, no exception has ended it, and a descriptor is registered with a callback.\<close>

definition watched :: "int \<Rightarrow> nat \<Rightarrow> reactor_cb \<Rightarrow> (reactor_cb, reactor_task) event_loop \<Rightarrow> bool" where
  "watched f a cb l \<longleftrightarrow> running l \<and> loop_thrown l = None \<and> (\<exists>m. epoll_set l f = Some (m, a)) \<and> loop_handlers l f = Some a \<and>
     (\<exists>h. heap l a = Some h \<and> eh_fd h = f \<and> eh_callback h = Some (Callback cb))"

lemma watched_Modify: "watched f a cb l \<Longrightarrow> watched f a cb (snd (EventLoop_ModifyFd g m l))"
proof -
  assume w: "watched f a cb l"
  define l' where "l' = snd (EventLoop_ModifyFd g m l)"
  have "running l' = running l" "loop_thrown l' = loop_thrown l"
    by (simp_all add: l'_def EventLoop_ModifyFd_def poller_defs Let_def split: option.splits list.splits)
  with ModifyFd_fields[OF l'_def] w show ?thesis
    unfolding l'_def[symmetric] watched_def by (auto split: if_splits)
qed

lemma watched_acts:
  assumes "watched f a cb (fst q)" and "\<forall>a \<in> set acts. \<exists>f m. a = Loop_Modify f m"
  shows "watched f a cb (fst (apply_acts cid acts q)) \<and> snd (apply_acts cid acts q) = snd q"
  using assms
proof (induction acts arbitrary: q)
  case (Cons x acts)
  obtain g m where x: "x = Loop_Modify g m" using Cons.prems(2) by auto
  obtain l r where q: "q = (l, r)" by fastforce
  have "watched f a cb (fst (apply_act cid x q))" "snd (apply_act cid x q) = snd q"
    using watched_Modify[of f a cb l g m] Cons.prems(1) by (simp_all add: q x)
  with Cons.IH[of "apply_act cid x q"] Cons.prems(2) show ?case by (simp add: apply_acts_def)
qed (simp add: apply_acts_def)

text \<open>The reactor serves the session: its object is the session's connection, its world the rest.\<close>

definition serving ::
    "int \<Rightarrow> nat \<Rightarrow> nat \<Rightarrow> nat \<Rightarrow> bool \<Rightarrow> ('s \<times> limiter) rx_program \<Rightarrow> 's session \<Rightarrow> bool" where
  "serving f a hid cid s q st \<longleftrightarrow> watched f a (Client_Cb hid cid) (fst q) \<and> rx_objects (snd q) cid = Some (conn st) \<and>
     rx_world (snd q) = (app st, rate_limiter st) \<and> goes_on (trace (conn st)) s (conn st)"

text \<open>An operation of the object, and a call of the handler, that keep the connection going.\<close>

lemma acts_after:
  assumes "only_modifies (trace c) c'"
  shows "\<forall>a \<in> set (drop (length (trace c)) (trace c')). \<exists>f m. a = Loop_Modify f m"
  using assms by (auto simp: only_modifies_def)

lemma goes_on_restart: "goes_on t s c \<Longrightarrow> goes_on (trace c) s c"
  by (simp add: goes_on_def only_modifies_def)

lemma apply_new_acts:
  assumes "watched f a cb (fst q)" and "goes_on (trace c) s c'"
  shows "watched f a cb (fst (apply_acts cid (drop (length (trace c)) (trace c')) q))"
    and "snd (apply_acts cid (drop (length (trace c)) (trace c')) q) = snd q"
  using watched_acts[OF assms(1), of "drop (length (trace c)) (trace c')" cid] acts_after[of c c'] assms(2)
  by (simp_all add: goes_on_def)

lemma on_object_serving:
  assumes "serving f a hid cid s q st" and "goes_on (trace (conn st)) s (g (conn st))"
  shows "serving f a hid cid s (on_object cid g q) (st\<lparr>conn := g (conn st)\<rparr>) \<and>
    rx_reads (snd (on_object cid g q)) = rx_reads (snd q)"
proof -
  let ?c = "conn st" and ?q = "(fst q, set_object cid (g (conn st)) (snd q))"
  have eq: "on_object cid g q = apply_acts cid (drop (length (trace ?c)) (trace (g ?c))) ?q"
    using assms(1) by (simp add: serving_def on_object_def Let_def)
  have "watched f a (Client_Cb hid cid) (fst ?q)" using assms(1) by (simp add: serving_def)
  note acts = apply_new_acts[OF this assms(2), where cid = cid]
  have "snd (on_object cid g q) = set_object cid (g ?c) (snd q)" by (simp only: eq acts(2) snd_conv)
  moreover have "watched f a (Client_Cb hid cid) (fst (on_object cid g q))" using acts(1) by (simp only: eq)
  ultimately show ?thesis using assms goes_on_restart[OF assms(2)] by (simp add: serving_def set_object_def)
qed

lemma on_handler_serving:
  assumes "serving f a hid cid s q st" and "loop st = Some st'" and "goes_on (trace (conn st)) s (conn st')"
  shows "serving f a hid cid s (on_handler cid (session_handler loop) q) st' \<and>
    rx_reads (snd (on_handler cid (session_handler loop) q)) = rx_reads (snd q)"
proof -
  let ?c = "conn st" and ?q = "(fst q, set_object cid (conn st') ((snd q)\<lparr>rx_world := (app st', rate_limiter st')\<rparr>))"
  have "session_handler loop ((app st, rate_limiter st), conn st) = ((app st', rate_limiter st'), conn st')"
    using assms(2) by (cases st) (simp add: session_handler_def)
  then have eq: "on_handler cid (session_handler loop) q =
      apply_acts cid (drop (length (trace ?c)) (trace (conn st'))) ?q"
    using assms(1) by (simp add: serving_def on_handler_def)
  have "watched f a (Client_Cb hid cid) (fst ?q)" using assms(1) by (simp add: serving_def)
  note acts = apply_new_acts[OF this assms(3), where cid = cid]
  have "snd (on_handler cid (session_handler loop) q) = snd ?q" by (simp only: eq acts(2))
  moreover have "watched f a (Client_Cb hid cid) (fst (on_handler cid (session_handler loop) q))"
    using acts(1) by (simp only: eq)
  ultimately show ?thesis using assms goes_on_restart[OF assms(3)] by (simp add: serving_def set_object_def)
qed

section \<open>Rounds of the loop\<close>

lemma read_session:
  assumes "session_inv st" and "goes_on t s (conn st)"
  shows "session_inv (st\<lparr>conn := Connection_HandleRead None rds (conn st)\<rparr>)" (is "session_inv ?st")
    and "pending (st\<lparr>conn := Connection_HandleRead None rds (conn st)\<rparr>) = pending st @ received rds"
    and "visible (st\<lparr>conn := Connection_HandleRead None rds (conn st)\<rparr>) = visible st"
proof -
  let ?c = "conn st"
  have c: "?c\<lparr>conn_limiter := None\<rparr> = ?c" using assms(2) by (simp add: goes_on_def)
  have "Connection_HandleRead None rds ?c = read_loop None rds (?c\<lparr>conn_limiter := None\<rparr>)"
    using assms(2) by (simp add: goes_on_def Connection_HandleRead_def HandleRead_ready_def CheckRateLimit_def)
  then have "Connection_HandleRead None rds ?c = read_loop None rds ?c" by (simp only: c)
  then have "content (input_buffer (Connection_HandleRead None rds ?c)) = content (input_buffer ?c) @ received rds"
    using read_loop_spec[of ?c rds] assms(1,2) by (simp add: session_inv_def goes_on_def)
  moreover have "extends [] ?c (Connection_HandleRead None rds ?c)"
    using assms(1) HandleRead_extends by (simp add: session_inv_def)
  ultimately show "session_inv ?st" "pending ?st = pending st @ received rds" "visible ?st = visible st"
    using assms(1) by (auto simp: session_inv_def pending_def visible_def extends_def)
qed

text \<open>A round in which only one descriptor is ready to be read calls its callback with that event.\<close>

lemma ready_EPOLLIN:
  "ready_mask EPOLLIN = EPOLLIN" "EPOLLIN \<noteq> 0" "EPOLLIN AND EPOLLOUT = 0"
  "EPOLLIN AND (EPOLLHUP OR EPOLLERR) = 0"
  by code_simp+

lemma watched_round:
  assumes "watched f a cb (fst q)"
  shows "run_rounds run_task (reactor_call ps) (Ready [(f, EPOLLIN)] # ws) q =
    run_rounds run_task (reactor_call ps) ws (reactor_call ps cb EPOLLIN q)"
proof -
  from assms obtain m eh where w: "running (fst q)" "epoll_set (fst q) f = Some (m, a)"
      "loop_handlers (fst q) f = Some a" "heap (fst q) a = Some eh" "eh_fd eh = f" "eh_callback eh = Some (Callback cb)"
    by (auto simp: watched_def)
  then have "dispatch_event run_task (reactor_call ps) (a, EPOLLIN) q = Some (reactor_call ps cb EPOLLIN q)"
    by (simp add: dispatch_event_def ready_EPOLLIN)
  with w ready_EPOLLIN(1) show ?thesis by (simp add: EpollPoller_Poll_def kMaxEvents_def)
qed

text \<open>
  A protocol in the reactor: its receiver is a frame server over sessions, and its loop leaves the
  connection going as long as the input it leaves can still become messages.
\<close>

locale reactor_protocol = frame_server dec bad pending receive loop visible h inv
  for dec :: "bytes \<Rightarrow> ('m \<times> nat) option" and bad and loop :: "'s session \<Rightarrow> 's session option"
    and h :: "'m \<Rightarrow> 's \<times> limiter \<times> bytes \<Rightarrow> 's \<times> limiter \<times> bytes" and inv +
  assumes inv_session: "inv st \<Longrightarrow> session_inv st"
    and inv_conn: "inv st \<Longrightarrow> session_inv (st\<lparr>conn := c\<rparr>) \<Longrightarrow> inv (st\<lparr>conn := c\<rparr>)"
    and stays: "inv st \<Longrightarrow> goes_on t s (conn st) \<Longrightarrow> loop st = Some st' \<Longrightarrow> \<not> bad (pending st') \<Longrightarrow>
                  goes_on t s (conn st')"
begin

lemma readable:
  assumes "serving f a hid cid s q st" and "inv st" and "on_message ps hid = session_handler loop"
    and "rx_reads (snd q) cid = rds # rest" and "\<not> closes_on s rds"
    and "drain dec (pending st @ received rds) = (ms, r)" and "\<not> bad r"
  shows "\<exists>st'. serving f a hid cid s (client_readable ps hid cid q) st' \<and> inv st' \<and> pending st' = r \<and>
    visible st' = fold h ms (visible st) \<and> rx_reads (snd (client_readable ps hid cid q)) cid = rest"
proof -
  let ?q = "(fst q, (snd q)\<lparr>rx_reads := (rx_reads (snd q))(cid := rest)\<rparr>)"
  let ?g = "Connection_HandleRead None rds" and ?st = "st\<lparr>conn := Connection_HandleRead None rds (conn st)\<rparr>"
  have go: "goes_on (trace (conn st)) s (conn st)" using assms(1) by (simp add: serving_def)
  have q0: "serving f a hid cid s ?q st" using assms(1) by (simp add: serving_def)
  note k1 = on_object_serving[where g = ?g, OF q0 goes_on_read[OF go assms(5)]]
  note rd = read_session[OF inv_session[OF assms(2)] go, of rds]
  have inv1: "inv ?st" using inv_conn[OF assms(2)] rd(1) .
  from loop_drain[OF inv1, of ms r] rd(2,3) assms(6,7) obtain st' where
    st': "loop ?st = Some st'" "inv st'" "pending st' = r" "visible st' = fold h ms (visible st)" by auto
  have go1: "goes_on (trace (conn ?st)) s (conn ?st)" using k1 by (simp add: serving_def)
  have "goes_on (trace (conn ?st)) s (conn st')" using stays[OF inv1 go1 st'(1)] st'(3) assms(7) by simp
  note k2 = on_handler_serving[where st = ?st and loop = loop, OF conjunct1[OF k1] st'(1) this]
  have "object_connected cid (on_object cid ?g ?q)"
    using k1 by (simp add: serving_def object_connected_def Connection_IsConnected_def goes_on_def)
  then have "client_readable ps hid cid q = on_handler cid (session_handler loop) (on_object cid ?g ?q)"
    using assms(3,4) by (simp add: client_readable_def next_reads_def Let_def)
  with k1 k2 st' show ?thesis by auto
qed

lemma round:
  assumes "serving f a hid cid s q st"
  shows "run_rounds run_task (reactor_call ps) (Ready [(f, EPOLLIN)] # ws) q =
    run_rounds run_task (reactor_call ps) ws (client_readable ps hid cid q)"
  using watched_round[of f a "Client_Cb hid cid" q ps ws] assms
  by (simp add: serving_def watched_def reactor_call_def client_event_def Let_def ready_EPOLLIN)

theorem served:
  assumes "serving f a hid cid s q st" and "inv st" and "on_message ps hid = session_handler loop"
    and "rx_reads (snd q) cid = batches" and "\<forall>rds \<in> set batches. \<not> closes_on s rds"
    and "dec (pending st) = None" and "drain dec (pending st @ concat (map received batches)) = (ms, r)" and "\<not> bad r"
  shows "\<exists>q' st'. run_rounds run_task (reactor_call ps) (map (\<lambda>_. Ready [(f, EPOLLIN)]) batches) q = Some (False, q') \<and>
    serving f a hid cid s q' st' \<and> pending st' = r \<and> visible st' = fold h ms (visible st)"
  using assms
proof (induction batches arbitrary: q st ms)
  case Nil
  then have "ms = [] \<and> r = pending st" by (simp add: drain_None)
  moreover have "running (fst q)" using Nil.prems(1) by (simp add: serving_def watched_def)
  ultimately show ?case using Nil.prems(1) by auto
next
  case (Cons rds batches)
  obtain ms1 r1 where d1: "drain dec (pending st @ received rds) = (ms1, r1)" by fastforce
  obtain ms2 r2 where d2: "drain dec (r1 @ concat (map received batches)) = (ms2, r2)" by fastforce
  have split: "ms = ms1 @ ms2" "r = r2"
    using Cons.prems(7) drain_append[of "pending st @ received rds" "concat (map received batches)"] d1 d2 by auto
  have "\<not> bad r1"
    using bad_stays[of r1 "concat (map received batches)"] d2 split(2) Cons.prems(8) by (auto simp: drain_None)
  from readable[OF Cons.prems(1-4) _ d1 this] Cons.prems(5) obtain st1 where
    st1: "serving f a hid cid s (client_readable ps hid cid q) st1" "inv st1" "pending st1 = r1"
      "visible st1 = fold h ms1 (visible st)" "rx_reads (snd (client_readable ps hid cid q)) cid = batches"
    by auto
  have "dec (pending st1) = None" using drain_rest[OF d1] st1(3) by simp
  from Cons.IH[OF st1(1,2) Cons.prems(3) st1(5) _ this, of ms2] Cons.prems(5,8) d2 st1(3,4) split
  show ?case using round[OF Cons.prems(1), of ps "map (\<lambda>_. Ready [(f, EPOLLIN)]) batches"] by auto
qed

end

section \<open>The TCP protocol in the reactor\<close>

text \<open>A handler that never closes its context.\<close>

definition keeps_open :: "'s stream_handler option \<Rightarrow> bool" where
  "keeps_open sh \<longleftrightarrow> (\<forall>f. sh = Some f \<longrightarrow> (\<forall>a req resp. Ctx_Close \<notin> set (fst (snd (f a req resp)))))"

lemma goes_on_ctx: "goes_on t s c \<Longrightarrow> op \<noteq> Ctx_Close \<Longrightarrow> goes_on t s (TcpStreamContext pb op c)"
  by (cases op) (simp_all add: goes_on_Send Let_def)

lemma goes_on_run_ctx: "goes_on t s c \<Longrightarrow> Ctx_Close \<notin> set ops \<Longrightarrow> goes_on t s (run_ctx (TcpStreamContext pb) ops c)"
  unfolding run_ctx_def
proof (induction ops arbitrary: c)
  case (Cons op ops)
  then show ?case using goes_on_ctx[of t s c op pb] by auto
qed simp

lemma goes_on_message:
  assumes "goes_on t s (conn st)" and "keeps_open sh"
  shows "goes_on t s (conn (snd (Tcp_message pb sh data st)))"
proof -
  have run: "goes_on t s (conn (snd (call_stream (TcpStreamContext pb) f req resp st)))" if "sh = Some f" for f req resp
  proof -
    obtain a' ops r where f: "f (app st) req resp = (a', ops, r)" by (rule prod_cases3)
    have "Ctx_Close \<notin> set (fst (snd (f (app st) req resp)))" using assms(2) that unfolding keeps_open_def by blast
    with f goes_on_run_ctx[OF assms(1), of ops pb] show ?thesis by (simp add: call_stream_def)
  qed
  show ?thesis
    using assms(1) run
    by (auto simp: Tcp_message_def map_conn_def Let_def goes_on_Send
        split: prod.splits bool.splits option.splits sum.splits) (metis goes_on_Send snd_conv)+
qed

lemma goes_on_conn:
  "goes_on t s (conn (map_input g st)) = goes_on t s (conn st)" "goes_on t s (conn (st\<lparr>rate_limiter := l\<rparr>)) = goes_on t s (conn st)"
  by (simp_all add: map_input_def map_conn_def)

lemma Tcp_loop_goes_on:
  assumes "goes_on t s (conn st)" and "keeps_open sh" and "session_inv st" and "Tcp_loop pb sh st = (None, st')"
    and "\<not> frame_oversize kTcpMaxFrame (pending st')" and "handler_safe sh"
  shows "goes_on t s (conn st')"
  using assms
proof (induction pb sh st arbitrary: st' rule: Tcp_loop.induct)
  case (1 pb sh st)
  let ?l = "ntohl_at (Buffer_Peek (in_buf st))"
  note step = "1.prems"(4)[unfolded Tcp_loop.simps[of pb sh st]]
  show ?case
  proof (cases "4 \<le> Buffer_ReadableBytes (in_buf st) \<and> (kTcpMaxFrame < unat ?l \<or> unat (4 + ?l) \<le> Buffer_ReadableBytes (in_buf st))")
    case False
    with step "1.prems"(1) show ?thesis by (auto simp: Let_def split: if_splits)
  next
    case more: True
    show ?thesis
    proof (cases "kTcpMaxFrame < unat ?l")
      case True
      with step more have "st' = map_conn Connection_ForceClose st" by (simp add: Let_def)
      then have "pending st' = pending st" by (simp add: pending_def map_conn_def Connection_ForceClose_def)
      moreover have "frame_oversize kTcpMaxFrame (pending st)"
        using True more "1.prems"(3) by (simp add: frame_oversize_def pending_readable pending_length_field)
      ultimately show ?thesis using "1.prems"(5) by simp
    next
      case False
      obtain ok st1 where rl: "Handler_CheckRateLimit st = (ok, st1)" by fastforce
      have st1: "st1 = st\<lparr>rate_limiter := rate_limiter st1\<rparr>" "session_inv st1"
        using rl CheckRateLimit_visible(1)[OF rl "1.prems"(3)] by (auto simp: Handler_CheckRateLimit_def split: prod.splits)
      have go1: "goes_on t s (conn st1)" using "1.prems"(1) st1(1) goes_on_conn(2) by metis
      show ?thesis
      proof (cases ok)
        case ok: False
        let ?st2 = "map_input (\<lambda>b. Buffer_Retrieve b (unat (4 + ?l))) st1"
        have "Tcp_loop pb sh ?st2 = (None, st')" using step more False rl ok by (simp add: Let_def)
        with "1.IH"(2)[of ?l ok st1 st'] more False rl ok go1 session_retrieve(1)[OF st1(2)] "1.prems" show ?thesis
          by (simp add: goes_on_conn)
      next
        case ok: True
        let ?st2 = "map_input (\<lambda>b. Buffer_Retrieve b 4) st1"
        let ?data = "take (unat ?l) (Buffer_Peek (in_buf ?st2))"
        let ?st3 = "map_input (\<lambda>b. Buffer_Retrieve b (unat ?l)) ?st2"
        have inv3: "session_inv ?st3" using session_retrieve(1) st1(2) by blast
        obtain st4 where st4: "Tcp_message pb sh ?data ?st3 = (None, st4)" "session_inv st4"
          using Tcp_message_visible[OF inv3 "1.prems"(6)] by blast
        have "goes_on t s (conn st4)"
          using goes_on_message[of t s ?st3 sh pb ?data] go1 "1.prems"(2) st4(1) by (simp add: goes_on_conn)
        moreover have "Tcp_loop pb sh st4 = (None, st')" using step more False rl ok st4(1) by (simp add: Let_def)
        ultimately show ?thesis
          using "1.IH"(1)[of ?l ok st1 ?st2 ?data ?st3 None st4 st'] more False rl ok st4 "1.prems"
          by simp
      qed
    qed
  qed
qed

interpretation tcp_rx: reactor_protocol "frame_decode kTcpMaxFrame" "frame_oversize kTcpMaxFrame" "tcp_step pb sh"
    "tcp_serve pb sh" "\<lambda>st. session_inv st \<and> handler_safe sh \<and> keeps_open sh"
  for pb sh
proof (unfold_locales, goal_cases)
  case (1 bs x)
  then show ?case by (rule oversize_stays)
next
  case (2 st ch)
  then show ?case using session_receive by blast
next
  case (3 st)
  then show ?case using tcp_srv.loop_stop by blast
next
  case (4 st m n)
  then show ?case using tcp_srv.loop_step[of st sh m n pb] by blast
next
  case (5 st)
  then show ?case by blast
next
  case (6 st c)
  then show ?case by blast
next
  case (7 st t s st')
  then show ?case
    using Tcp_loop_goes_on[of t s st sh pb st'] by (auto simp: tcp_step_def Tcp_OnMessage_def split: prod.splits option.splits)
qed

section \<open>The RPC protocol in the reactor\<close>

lemma goes_on_rpc_ctx: "goes_on t s c \<Longrightarrow> op \<noteq> Ctx_Close \<Longrightarrow> goes_on t s (RpcStreamContext pb op c)"
  by (cases op) (simp_all add: goes_on_Send)

lemma goes_on_rpc_run: "goes_on t s c \<Longrightarrow> Ctx_Close \<notin> set ops \<Longrightarrow> goes_on t s (run_ctx (RpcStreamContext pb) ops c)"
  unfolding run_ctx_def
proof (induction ops arbitrary: c)
  case (Cons op ops)
  then show ?case using goes_on_rpc_ctx[of t s c op pb] by auto
qed simp

lemma goes_on_rpc_message:
  assumes "goes_on t s (conn st)" and "keeps_open sh"
  shows "goes_on t s (conn (snd (Rpc_message pb sh body len st)))"
proof -
  have run: "goes_on t s (conn st1)" if "sh = Some f" "call_stream (RpcStreamContext pb) f req resp st = (r, st1)" for f req resp r st1
  proof -
    obtain a' ops r' where f: "f (app st) req resp = (a', ops, r')" by (rule prod_cases3)
    have "Ctx_Close \<notin> set (fst (snd (f (app st) req resp)))" using assms(2) that(1) unfolding keeps_open_def by blast
    with f that(2) goes_on_rpc_run[OF assms(1), of ops pb] show ?thesis by (auto simp: call_stream_def)
  qed
  show ?thesis
    using assms(1) run
    by (auto simp: Rpc_message_def map_conn_def Let_def goes_on_Send
        split: prod.splits bool.splits option.splits sum.splits)
qed

lemma Rpc_loop_goes_on:
  "Rpc_loop pb sh st = Some y \<Longrightarrow> goes_on t s (conn st) \<Longrightarrow> keeps_open sh \<Longrightarrow> goes_on t s (conn (snd y))"
proof (induction rule: Rpc_loop.raw_induct[rotated, consumes 1, case_names step])
  case (step loop pb sh st y)
  let ?l = "ntohl_at (Buffer_Peek (in_buf st))"
  obtain r st1 where m: "Rpc_message pb sh (drop 4 (Buffer_Peek (in_buf st))) ?l st = (r, st1)" by fastforce
  then have go: "goes_on t s (conn st1)" using goes_on_rpc_message[OF step(3,4), of pb "drop 4 (Buffer_Peek (in_buf st))" ?l] by simp
  show ?case
  proof (cases "4 \<le> Buffer_ReadableBytes (in_buf st) \<and> unat (4 + ?l) \<le> Buffer_ReadableBytes (in_buf st)")
    case False
    with step(2,3) show ?thesis by (auto simp: Let_def split: if_splits)
  next
    case True
    show ?thesis
    proof (cases r)
      case None
      then have "loop pb sh (map_input (\<lambda>b. Buffer_Retrieve b (unat (4 + ?l))) st1) = Some y"
        using step(2) True m by (simp add: Let_def)
      from step(1)[OF this _ step(4)] go show ?thesis by (simp add: goes_on_conn)
    next
      case (Some e)
      then have "y = (Some e, st1)" using step(2) True m by (simp add: Let_def)
      with go show ?thesis by simp
    qed
  qed
qed

interpretation rpc_rx: reactor_protocol "frame_decode kRpcMaxFrame" "frame_oversize kRpcMaxFrame" "rpc_step pb sh"
    "rpc_handle pb sh" "\<lambda>st. session_inv st \<and> handler_safe sh \<and> keeps_open sh"
  for pb sh
proof (unfold_locales, goal_cases)
  case (1 bs x)
  then show ?case by (rule oversize_stays)
next
  case (2 st ch)
  then show ?case using session_receive by blast
next
  case (3 st)
  then show ?case using rpc_srv.loop_stop by blast
next
  case (4 st m n)
  then show ?case using rpc_srv.loop_step[of st sh m n pb] by blast
next
  case (7 st t s st')
  then show ?case
    using Rpc_loop_goes_on[of pb sh st "(None, st')" t s]
    by (auto simp: rpc_step_def Rpc_OnMessage_def split: prod.splits option.splits)
qed blast+

section \<open>From the accept loop\<close>

text \<open>A socket the reactor accepts without TLS begins a served session with no bytes.\<close>

lemma accept_serving:
  assumes "running l \<and> loop_thrown l = None" and "has_poller l" and "ctl_faults l = []" and "epoll_set l (in_fd i) = None"
    and "list_all vec_inv (rx_pool r)" and "rx_tls r = None \<or> \<not> in_ssl i"
    and "admit (in_ip i) r = (True, r1)" and "on_connection ps hid = (\<lambda>x. x)" and "rx_world r = (a, lm)"
  shows "\<exists>st. serving (in_fd i) (next_addr l) hid (rx_next r) False (accept_one ps hid i (l, r)) st \<and> session_inv st \<and>
    pending st = [] \<and> visible st = (a, lm, []) \<and> rx_reads (snd (accept_one ps hid i (l, r))) = rx_reads r"
proof -
  have r1: "rx_tls r1 = rx_tls r" "rx_next r1 = rx_next r" "rx_pool r1 = rx_pool r" "rx_world r1 = rx_world r" "rx_reads r1 = rx_reads r"
    using assms(7) by (auto simp: admit_def split: option.splits prod.splits)
  obtain p1 ib where b1: "Buffer_new (rx_pool r) 1024 = (p1, ib)" by fastforce
  obtain p2 ob where b2: "Buffer_new p1 1024 = (p2, ob)" by fastforce
  have "list_all vec_inv p1"
    using Acquire_inv[OF assms(5), of 1024] b1 by (auto simp: Buffer_new_def split: prod.splits)
  then have b: "buffer_inv ib" "content ib = []" "buffer_inv ob" "content ob = []"
    using Buffer_new_inv[of "rx_pool r" 1024] Buffer_new_inv[of p1 1024] assms(5) b1 b2 by simp_all
  let ?c = "(Connection_SetConnected (Connection_new (in_fd i) ib ob))\<lparr>wr_script := in_writes i, hs_script := in_handshakes i\<rparr>"
  let ?st = "\<lparr>app = a, rate_limiter = lm, conn = ?c\<lparr>has_disconnect_cb := True\<rparr>\<rparr>"
  have n: "new_object i (l, r1) = (l, set_object (rx_next r) ?c (r1\<lparr>rx_next := Suc (rx_next r), rx_pool := p2\<rparr>))"
    using assms(6) r1 by (auto simp: new_object_def b1 b2 Let_def)
  have "serving (in_fd i) (next_addr l) hid (rx_next r) False (accept_one ps hid i (l, r)) ?st \<and>
      rx_reads (snd (accept_one ps hid i (l, r))) = rx_reads r"
    using assms(1-4,7-9) r1
    by (simp add: accept_one_def install_connection_def n on_object_def on_handler_def set_object_def apply_acts_def Let_def
        serving_def watched_def EventLoop_AddFd_def poller_defs goes_on_def only_modifies_def Connection_SetConnected_def
        Connection_new_def)
  moreover have "session_inv ?st" "pending ?st = []" "visible ?st = (a, lm, [])"
    using b by (simp_all add: session_inv_def pending_def visible_def conn_inv_def stream_def Connection_SetConnected_def Connection_new_def)
  ultimately show ?thesis by blast
qed

section \<open>Properties\<close>

text \<open>
  C19. The TCP server inside the reactor.  The descriptor of a connection is ready once for each of
  some batches of reads, and in the batches lie the frames of the messages \<open>ps\<close> and the beginning of
  another one, cut in any way.  Then the loop goes on running, no freed object is read, the
  connection is still registered and open, and the application, the limiter and the output stream are what
  \<open>tcp_serve\<close> makes of the messages, one after the other.
\<close>
theorem tcp_over_reactor:
  assumes "serving f a hid cid s q st" and "session_inv st" and "pending st = []"
    and "on_message ps hid = session_handler (tcp_step pb sh)" and "handler_safe sh" and "keeps_open sh"
    and "rx_reads (snd q) cid = batches" and "\<forall>rds \<in> set batches. \<not> closes_on s rds"
    and "list_all (frame_ok kTcpMaxFrame) ms" and "length_frame m = p @ x" and "x \<noteq> []" and "frame_ok kTcpMaxFrame m"
    and "concat (map received batches) = concat (map length_frame ms) @ p"
  shows "\<exists>q' st'. run_rounds run_task (reactor_call ps) (map (\<lambda>_. Ready [(f, EPOLLIN)]) batches) q = Some (False, q') \<and>
    serving f a hid cid s q' st' \<and> pending st' = p \<and> visible st' = fold (tcp_serve pb sh) ms (visible st)"
proof -
  note pre = frame_prefix[OF assms(10,11,12)]
  have "drain (frame_decode kTcpMaxFrame) (pending st @ concat (map received batches)) = (ms, p)"
    using framing.drain_concat[OF assms(9) pre(1)] assms(3,13) by simp
  from tcp_rx.served[OF assms(1) _ assms(4,7,8) _ this pre(2)] assms(2,3,5,6) show ?thesis by simp
qed

definition tcp_log_handlers :: "(bytes list \<times> limiter) handlers" where
  "tcp_log_handlers =
     \<lparr>on_connection = \<lambda>_ x. x, on_message = \<lambda>_. session_handler (tcp_step pb_data_only (Some log_handler)),
      on_packet = \<lambda>_ _ _ _ _ w. (None, w)\<rparr>"

definition one_session :: "bytes list session" where
  "one_session = (fresh_session [])\<lparr>conn := fresh_conn\<lparr>conn_state := kConnected\<rparr>\<rparr>"

definition one_server :: "(bytes list \<times> limiter) rx_program" where
  "one_server =
     (snd (EventLoop_AddFd 5 (EPOLLIN OR EPOLLET) (Some (Callback (Client_Cb 0 0))) (EventLoop_new\<lparr>has_poller := True, running := True\<rparr>)),
      (Reactor_new ([], None))\<lparr>rx_connections := [(5, 0)], rx_next := 1, rx_objects := [0 \<mapsto> conn one_session],
        rx_reads := (\<lambda>_. [[Rd [CHR 0x00, CHR 0x00, CHR 0x00]], [Rd [CHR 0x02, CHR ''h''], Rd [CHR ''i'', CHR 0x00], Rd_Fail EAGAIN]])\<rparr>)"

lemma one_server_serving: "serving 5 0 0 0 False one_server one_session"
  by (simp add: serving_def watched_def one_server_def one_session_def goes_on_def only_modifies_def EventLoop_AddFd_def
      EventLoop_new_def poller_defs Reactor_new_def fresh_session_def fresh_conn_def Connection_new_def Let_def)

theorem tcp_over_reactor_witness:
  "\<exists>q' st'. run_rounds run_task (reactor_call tcp_log_handlers) [Ready [(5, EPOLLIN)], Ready [(5, EPOLLIN)]] one_server = Some (False, q') \<and>
    serving 5 0 0 0 False q' st' \<and> pending st' = [CHR 0x00] \<and> app st' = [''hi'']"
proof -
  have s: "session_inv one_session" "pending one_session = []" "rate_limiter one_session = None" "app one_session = []"
    using fresh_session_facts
    by (simp_all add: one_session_def session_inv_def pending_def fresh_session_def conn_inv_def)
  have "keeps_open (Some log_handler)" by (simp add: keeps_open_def log_handler_def)
  let ?batches = "[[Rd [CHR 0x00, CHR 0x00, CHR 0x00]], [Rd [CHR 0x02, CHR ''h''], Rd [CHR ''i'', CHR 0x00], Rd_Fail EAGAIN]]"
  have "\<exists>q' st'. run_rounds run_task (reactor_call tcp_log_handlers) (map (\<lambda>_. Ready [(5, EPOLLIN)]) ?batches) one_server = Some (False, q') \<and>
    serving 5 0 0 0 False q' st' \<and> pending st' = [CHR 0x00] \<and>
    visible st' = fold (tcp_serve pb_data_only (Some log_handler)) [''hi''] (visible one_session)"
    by (rule tcp_over_reactor[OF one_server_serving s(1,2), where m = "''hi''" and
          x = "[CHR 0x00, CHR 0x00, CHR 0x02, CHR ''h'', CHR ''i'']"])
       (simp_all add: tcp_log_handlers_def one_server_def length_frame_small would_block_def \<open>keeps_open (Some log_handler)\<close>)
  then obtain q' st' where r: "run_rounds run_task (reactor_call tcp_log_handlers) (map (\<lambda>_. Ready [(5, EPOLLIN)]) ?batches) one_server = Some (False, q')"
      "serving 5 0 0 0 False q' st'" "pending st' = [CHR 0x00]"
      "visible st' = fold (tcp_serve pb_data_only (Some log_handler)) [''hi''] (visible one_session)"
    by blast
  moreover have "app st' = [] @ [''hi'']" using log_handler_app[OF s(4,3) r(4)] .
  ultimately show ?thesis by (intro exI[of _ q'] exI[of _ st']) simp
qed

text \<open>
  C3. From the accept loop to the replies.  A listening descriptor becomes ready with one socket on
  it, admitted and without TLS; then the new descriptor is ready once for each batch of reads.  The
  connection is registered at the address the loop gives out next, the messages are served in order
  from the application's state at that time, and the output stream is exactly their replies.
\<close>
theorem tcp_from_accept:
  assumes "watched sfd b (Accept_Cb hid sfd) l" and "rx_accepts r sfd = [i]"
    and "has_poller l" and "ctl_faults l = []" and "epoll_set l (in_fd i) = None" and "list_all vec_inv (rx_pool r)"
    and "rx_tls r = None \<or> \<not> in_ssl i" and "fst (admit (in_ip i) r)" and "rx_world r = (a, lm)"
    and "on_connection ps hid = (\<lambda>x. x)" and "on_message ps hid = session_handler (tcp_step pb sh)"
    and "handler_safe sh" and "keeps_open sh"
    and "rx_reads r (rx_next r) = batches" and "\<forall>rds \<in> set batches. \<not> closes_on False rds"
    and "list_all (frame_ok kTcpMaxFrame) ms" and "concat (map received batches) = concat (map length_frame ms)"
  shows "\<exists>q' st'. run_rounds run_task (reactor_call ps)
      (Ready [(sfd, EPOLLIN)] # map (\<lambda>_. Ready [(in_fd i, EPOLLIN)]) batches) (l, r) = Some (False, q') \<and>
    serving (in_fd i) (next_addr l) hid (rx_next r) False q' st' \<and> pending st' = [] \<and>
    visible st' = fold (tcp_serve pb sh) ms (a, lm, [])"
proof -
  let ?r = "r\<lparr>rx_accepts := (rx_accepts r)(sfd := [])\<rparr>"
  let ?q = "accept_one ps hid i (l, ?r)"
  obtain r1 where "admit (in_ip i) r = (True, r1)" using assms(8) by (cases "admit (in_ip i) r") auto
  then have "admit (in_ip i) ?r = (True, r1\<lparr>rx_accepts := (rx_accepts r)(sfd := [])\<rparr>)"
    by (auto simp: admit_def split: option.splits prod.splits)
  from accept_serving[where l = l and r = ?r and i = i and ps = ps and hid = hid, OF _ assms(3-5) _ _ this assms(10)] assms(1,6,7,9)
  obtain st where st: "serving (in_fd i) (next_addr l) hid (rx_next r) False ?q st" "session_inv st" "pending st = []"
      "visible st = (a, lm, [])" "rx_reads (snd ?q) = rx_reads r"
    by (auto simp: watched_def)
  have "drain (frame_decode kTcpMaxFrame) (pending st @ concat (map received batches)) = (ms, [])"
    using framing.drain_concat[OF assms(16), of "[]"] st(3) assms(17) by simp
  from tcp_rx.served[OF st(1) _ assms(11) _ assms(15) _ this] st(2-5) assms(12-14)
  have "\<exists>q' st'. run_rounds run_task (reactor_call ps) (map (\<lambda>_. Ready [(in_fd i, EPOLLIN)]) batches) ?q = Some (False, q') \<and>
      serving (in_fd i) (next_addr l) hid (rx_next r) False q' st' \<and> pending st' = [] \<and>
      visible st' = fold (tcp_serve pb sh) ms (a, lm, [])"
    by simp
  moreover have "run_rounds run_task (reactor_call ps) (Ready [(sfd, EPOLLIN)] # ws) (l, r) = run_rounds run_task (reactor_call ps) ws ?q" for ws
    using watched_round[of sfd b "Accept_Cb hid sfd" "(l, r)"] assms(1,2)
    by (simp add: watched_def reactor_call_def accept_event_def ready_EPOLLIN)
  ultimately show ?thesis by simp
qed

definition listening_server :: "(bytes list \<times> limiter) rx_program" where
  "listening_server =
     (snd (EventLoop_AddFd 3 EPOLLIN (Some (Callback (Accept_Cb 0 3))) (EventLoop_new\<lparr>has_poller := True, running := True\<rparr>)),
      (Reactor_new ([], None))\<lparr>rx_accepts := (\<lambda>_. [socket_from ''10.0.0.1'' 9]),
        rx_reads := (\<lambda>_. [[Rd [CHR 0x00, CHR 0x00, CHR 0x00]], [Rd [CHR 0x02, CHR ''h''], Rd ''i'', Rd_Fail EAGAIN]])\<rparr>)"

theorem tcp_from_accept_witness:
  "\<exists>q' st'. run_rounds run_task (reactor_call tcp_log_handlers) [Ready [(3, EPOLLIN)], Ready [(9, EPOLLIN)], Ready [(9, EPOLLIN)]]
      listening_server = Some (False, q') \<and> serving 9 1 0 0 False q' st' \<and> pending st' = [] \<and>
    visible st' = fold (tcp_serve pb_data_only (Some log_handler)) [''hi''] ([], None, [])"
proof -
  let ?batches = "[[Rd [CHR 0x00, CHR 0x00, CHR 0x00]], [Rd [CHR 0x02, CHR ''h''], Rd ''i'', Rd_Fail EAGAIN]]"
  let ?l = "fst listening_server" and ?r = "snd listening_server" and ?i = "socket_from ''10.0.0.1'' 9"
  have l: "watched 3 0 (Accept_Cb 0 3) ?l" "has_poller ?l" "ctl_faults ?l = []" "epoll_set ?l 9 = None" "next_addr ?l = 1"
    by (simp_all add: watched_def listening_server_def EventLoop_AddFd_def EventLoop_new_def poller_defs Let_def)
  have r: "rx_accepts ?r 3 = [?i]" "list_all vec_inv (rx_pool ?r)" "rx_tls ?r = None" "rx_world ?r = ([], None)"
      "rx_reads ?r (rx_next ?r) = ?batches" "rx_next ?r = 0" "fst (admit (in_ip ?i) ?r)"
    by (simp_all add: listening_server_def Reactor_new_def admit_def DdosProtection_AllowConnection_def DdosProtection_new_def
        conn_count_def ddos_config_default_def)
  have i: "in_fd ?i = 9" by (simp add: socket_from_def)
  have "\<exists>q' st'. run_rounds run_task (reactor_call tcp_log_handlers)
      (Ready [(3, EPOLLIN)] # map (\<lambda>_. Ready [(in_fd ?i, EPOLLIN)]) ?batches) (?l, ?r) = Some (False, q') \<and>
    serving (in_fd ?i) (next_addr ?l) 0 (rx_next ?r) False q' st' \<and> pending st' = [] \<and>
    visible st' = fold (tcp_serve pb_data_only (Some log_handler)) [''hi''] ([], None, [])"
    by (rule tcp_from_accept[OF l(1) r(1) l(2,3) _ r(2) _ r(7,4) _ _ _ _ r(5)])
       (simp_all add: i l(4) r(3) tcp_log_handlers_def keeps_open_def log_handler_def would_block_def length_frame_small
         handler_safe_def no_throw_def)
  then show ?thesis by (simp only: i l(5) r(6) list.map prod.collapse)
qed

end
