(* ===== verification/Spec2Isabelle.thy ===== *)
theory Spec2Isabelle
  imports Prelude Buffer Resilience Connection Envelope Session Tcp Rpc Http2 Grpc Websocket Http Event_Loop Reactor Datagram Tls Config Server Client Log_Config Log_Sinks Async_Logger Ordered_Map Log_Manager Observability Oms Scenario Io_Uring Kafka_Sink Oms_Client Oms_App Reactor_Server
begin

text \<open>
  A model of the network library, of its logger library and of the applications built on them, as they stand in the
  C++ code under \<open>src/\<close>, with the theorems that say what they do.  Paths below are relative to
  \<open>src/\<close>; \<open>net\<close> stands for \<open>lib_network/src\<close> and \<open>log\<close> for \<open>lib_logger/src\<close>.

  The parts and how they interact.

  \<^item> A process has an event loop, which sleeps in a poller, runs the callbacks of ready descriptors and the
    tasks other threads have queued (\<open>Event_Loop\<close>: \<open>net/event/event_loop.cc\<close>, \<open>epoll_poller.cc\<close>;
    \<open>Io_Uring\<close>: \<open>io_uring_poller.cc\<close>, the poller the loop does not select).
  \<^item> The reactor registers listening sockets with the loop, accepts connections, asks the DDoS protection, hands each
    accepted socket to a \<open>Connection\<close> and each connection to the handler of its protocol (\<open>Reactor\<close>:
    \<open>net/event/reactor.cc\<close>, \<open>socket.cc\<close>; \<open>Resilience\<close>: \<open>net/resilience\<close>, \<open>net/security/ddos_protection.cc\<close>;
    \<open>Tls\<close>: \<open>net/security/tls_context.cc\<close>).
  \<^item> A connection owns two buffers, moves bytes between them and the socket or OpenSSL, and asks the loop for the
    interest it needs (\<open>Buffer\<close>: \<open>net/memory\<close>, \<open>utils/result.h\<close>; \<open>Connection\<close>: \<open>net/connection.cc\<close>).
  \<^item> A protocol handler cuts the input buffer into messages, calls the application through a stream context, and sends
    what it writes; each protocol has a client counterpart (\<open>Envelope\<close> and \<open>Session\<close> for what the protocols share,
    then \<open>Tcp\<close>, \<open>Rpc\<close>, \<open>Http2\<close>, \<open>Grpc\<close>, \<open>Websocket\<close>, \<open>Http\<close>, and \<open>Datagram\<close> for UDP and the simulated QUIC:
    \<open>net/protocols\<close> and \<open>include/network/core/client/protocols\<close>).
  \<^item> \<open>Server\<close> turns a configuration into registered protocols, \<open>Client\<close> drives one connection from two threads, and
    \<open>Config\<close> reads the YAML files and watches them (\<open>net/server.cc\<close>, \<open>client.cc\<close>, \<open>network_lib.cc\<close>, \<open>net/config\<close>,
    the factories).
  \<^item> All of it logs through a table of loggers, each with a queue, a worker thread and sinks (\<open>Log_Config\<close>,
    \<open>Log_Sinks\<close>, \<open>Async_Logger\<close>, \<open>Ordered_Map\<close>, \<open>Log_Manager\<close>, \<open>Kafka_Sink\<close>: \<open>log\<close>), and counts and traces
    (\<open>Observability\<close>: \<open>net/observability\<close>).
  \<^item> The applications: the order management server and its client (\<open>Oms\<close>, \<open>Oms_Client\<close>, \<open>Oms_App\<close>: \<open>apps/server\<close>,
    \<open>apps/client\<close>), the scenario-driven test client and the echo server (\<open>Scenario\<close>: \<open>apps/super_client\<close>,
    \<open>apps/super_server\<close>).

  How code and model correspond.

  A class is a record of its members, a method a definition of the same name with the class in front
  (\<open>Connection_HandleWrite\<close> is \<open>Connection::HandleWrite\<close>), taking and returning the record.  Integers have their width
  where it matters, as words; \<open>char\<close> and \<open>uint8_t\<close> are converted by \<open>u8\<close> and \<open>chr8\<close>.  A thrown exception is a
  value of \<open>exn\<close>, a \<open>Result\<close> a sum.  An effect on the outside (a call of the loop, of the application, of the system) is
  appended to a trace in the record, or is a step on an explicit world: the disk of the log files, the heap of
  event handlers, the objects of the reactor.  What the outside answers is a script, a list consumed from the
  front: results of \<open>read\<close>, \<open>write\<close>, \<open>accept\<close> and \<open>connect\<close>, verdicts of a rate limiter, OpenSSL's answers.  Undefined
  behaviour (reading a freed handler, \<open>back()\<close> of an empty string, \<open>pop\<close> on an empty queue) is the value
  \<open>None\<close> of a function that can run into it.  Threads are interleaved at their locks, atomic accesses and waits: as an
  inductive step relation for the circuit breaker and the logger, as a schedule for the client and the scenarios.

  Third-party code is a parameter: Protocol Buffers (record \<open>proto\<close>, with \<open>pb_roundtrip\<close> as the documented law),
  yaml-cpp (record \<open>yaml\<close>, with \<open>yaml_reads\<close>), OpenSSL (record \<open>openssl\<close>, and SHA-1 and Base64 in \<open>Websocket\<close>), the calendar
  and nlohmann's JSON in \<open>Log_Sinks\<close>, librdkafka and liburing as scripts.  Doubles are reals with an explicit rounding function.

  What the lemmas show.

  \<^item> \<open>Buffer\<close>: the buffer with its indices, compaction and growth is a queue of bytes (the locale \<open>byte_queue\<close>);
    pools keep their bounds.
  \<^item> \<open>Resilience\<close>: a token bucket admits no more than burst plus rate; the breaker's states and the interleavings of its
    callers; the per-address limits.
  \<^item> \<open>Connection\<close>: the locale \<open>conn_invariant\<close> proves a property for all operations from a few obligations, and is
    interpreted for the lifecycle (at most one connect and one disconnect callback, nothing after it), for pending output being armed, and
    for what each kind of caller may append to the trace; the bytes sent are put on the wire in order.
  \<^item> \<open>Envelope\<close>, \<open>Session\<close>: the locales \<open>frame_dec\<close>, \<open>frame_codec\<close>, \<open>frame_server\<close>, \<open>resumable_parser\<close>,
    \<open>parser_server\<close> and \<open>stream_context\<close> say what it means to cut a stream into messages independently of how it is cut into reads; each protocol
    interprets them on its own loop, and its segmentation and end-to-end theorems follow.
  \<^item> \<open>Event_Loop\<close>, \<open>Reactor\<close>, \<open>Datagram\<close>: the registry of the loop and the poller agree and no live handler is
    freed; every ready handler runs once; queued tasks run in order; the accept loop admits what the protection
    admits; every datagram is served once.
  \<^item> \<open>Reactor_Server\<close>: the parts together.  The locale \<open>reactor_protocol\<close> extends \<open>frame_server\<close> by what a handler
    must leave of its connection, and is interpreted on TCP and RPC: from a ready listening descriptor, through accept, dispatch and
    reads, to the application and the replies.
  \<^item> \<open>Tls\<close>, \<open>Config\<close>, \<open>Server\<close>, \<open>Client\<close>: references on the OpenSSL context balance, a reload that fails changes
    nothing, every field of the configuration is the value at its path, a valid configuration ends with every protocol
    listening, and the client's bytes leave in the order of its calls.
  \<^item> The logger: under every interleaving the sinks get the accepted entries in order, less the counted drops; a shutdown
    flushes; rotated files hold the newest text; the text the network library generates configures the logger.
  \<^item> \<open>Oms\<close>, \<open>Oms_Client\<close>, \<open>Oms_App\<close>, \<open>Scenario\<close>: the applications on top of the library, over TCP; in \<open>Oms_App\<close> the
    client program, its client object and event loop, the server's protocol handler and the order book in one statement.
  \<^item> Where the code does not do what it means to, a theorem says what it does instead: \<open>rpc_length_wrap_diverges\<close>,
    \<open>ws_split_frame_misread\<close>, \<open>http_keep_alive_replays\<close>, \<open>client_tls_never_connects\<close>, \<open>burst_fails\<close> and others.

  Bounds and termination.

  Loops over buffers are functions whose measure is what remains to be read or the script that answers them.  The RPC loop may not
  end, since its length arithmetic wraps around: it is a \<open>partial_function (option)\<close>, and both its termination for lengths in
  range and its divergence otherwise are proved.  No fuel is used, except for the reference
  decoder of header blocks in \<open>Http2\<close>, which gets one unit for each field it is to decode and needs no more.

  Not modelled.

  The vendored JSON header; abstract classes and unused constants; tests.  Of the modelled files, log and trace
  calls are left out except in the logger's own model, as are joining of threads, reading of the clock and pacing by sleeping.  The kernel's
  scheduling, memory exhaustion and the memory model below sequential consistency are not represented.
\<close>

end
